(* ===== verification/Kernel_Prelude.thy ===== *)
theory Kernel_Prelude
  imports Main "HOL-Library.Word" "HOL-Library.Sublist"
begin

text \<open>
  What every component theory shares: the machine integer types the kernel's C code uses,
  byte-addressed memory, the rule collections the component proofs draw on, and generic
  facts on words and lists that are not in the library.

  The kernel is compiled for x86-64: \<open>uint8_t\<close>, \<open>uint16_t\<close>, \<open>uint32_t\<close> and \<open>uint64_t\<close>
  are words of that width, \<open>size_t\<close> is 64 bits wide and \<open>int\<close> is 32 bits wide.
\<close>

unbundle bit_operations_syntax

section \<open>Types\<close>

type_synonym u8 = "8 word"
type_synonym u16 = "16 word"
type_synonym u32 = "32 word"
type_synonym u64 = "64 word"

text \<open>Byte memory: a pointer is a natural number, dereferencing is function application.\<close>

type_synonym mem = "nat \<Rightarrow> u8"

text \<open>The kernel's page size (\<open>src/mm/pmm.h\<close>).\<close>

abbreviation (input) PAGE_SIZE :: "'a::numeral" where
  "PAGE_SIZE \<equiv> 4096"

named_theorems kernel_inv \<open>invariant preservation, one rule per operation\<close>

section \<open>Words\<close>

lemma unat_plus_no_wrap:
  fixes a b :: "'a::len word"
  assumes "unat a + unat b < 2 ^ LENGTH('a)"
  shows "unat (a + b) = unat a + unat b"
  using assms by (simp add: unat_word_ariths)

lemma unat_minus_no_wrap:
  fixes a b :: "'a::len word"
  assumes "unat b \<le> unat a"
  shows "unat (a - b) = unat a - unat b"
  using assms by (simp add: unat_sub word_le_nat_alt)

lemma word_eq_unatI:
  fixes a b :: "'a::len word"
  shows "unat a = unat b \<Longrightarrow> a = b"
  by (simp add: word_unat_eq_iff)

text \<open>One bit of a word: the \<open>1u << k\<close> idiom of the bitmap and of the signal masks.\<close>

lemma and_bit_zero_iff:
  fixes w :: "'a::len word"
  assumes "k < LENGTH('a)"
  shows "w AND push_bit k 1 = 0 \<longleftrightarrow> \<not> bit w k"
  by (metis and.commute and_exp_eq_0_iff_not_bit push_bit_of_1)

lemma bit_set_bit_word:
  fixes w :: "'a::len word"
  assumes "k < LENGTH('a)" "j < LENGTH('a)"
  shows "bit (w OR push_bit k 1) j \<longleftrightarrow> j = k \<or> bit w j"
  using assms by (auto simp: bit_or_iff bit_exp_iff)

lemma bit_clear_bit_word:
  fixes w :: "'a::len word"
  assumes "k < LENGTH('a)" "j < LENGTH('a)"
  shows "bit (w AND NOT (push_bit k 1)) j \<longleftrightarrow> j \<noteq> k \<and> bit w j"
  using assms by (auto simp: bit_and_iff bit_not_iff bit_exp_iff)

lemma shift_and_one_iff:
  fixes w :: "'a::len word"
  shows "drop_bit k w AND 1 = 0 \<longleftrightarrow> \<not> bit w k"
  by (simp add: and_one_eq bit_iff_odd_drop_bit even_iff_mod_2_eq_zero)

lemma all_bits_set_iff:
  fixes w :: "'a::len word"
  shows "w = - 1 \<longleftrightarrow> (\<forall>k < LENGTH('a). bit w k)"
  by (auto simp: bit_eq_iff)

text \<open>Rounding down to a power of two by masking: the \<open>x & ~(2^k - 1)\<close> idiom.\<close>

lemma and_not_mask_eq:
  fixes x :: "'a::len word"
  shows "x AND NOT (mask k) = push_bit k (drop_bit k x)"
  by (rule bit_word_eqI)
     (auto simp: bit_and_iff bit_not_iff bit_mask_iff bit_push_bit_iff bit_drop_bit_eq)

lemma unat_and_not_mask:
  fixes x :: "'a::len word"
  shows "unat (x AND NOT (mask k)) = unat x div 2 ^ k * 2 ^ k"
proof -
  have "unat x < 2 ^ LENGTH('a)" by (rule unsigned_less)
  with div_times_less_eq_dividend have "unat x div 2 ^ k * 2 ^ k < 2 ^ LENGTH('a)"
    by (rule le_less_trans)
  then show ?thesis
    unfolding and_not_mask_eq unsigned_push_bit_eq unsigned_drop_bit_eq
    by (simp add: push_bit_eq_mult drop_bit_eq_div take_bit_eq_mod)
qed

lemma unat_of_nat_less:
  fixes w :: "'a::len word"
  assumes "k < unat w"
  shows "unat (of_nat k :: 'a word) = k"
proof -
  from assms unsigned_less [of w] have "k < 2 ^ LENGTH('a)" by (rule less_trans)
  then show ?thesis by (simp add: unat_of_nat)
qed

lemma unat_ucast_u32_u64: "unat (ucast (x :: u32) :: u64) = unat x"
  using unsigned_less [of x, where 'a = nat] by (simp add: unsigned_ucast_eq take_bit_nat_eq_self)

lemma uint_ucast_u32_u64: "uint (ucast (x :: u32) :: u64) = uint x"
  using arg_cong [OF unat_ucast_u32_u64 [of x], of int] by simp

lemma unat_of_nat_u64 [simp]: "n < 2 ^ 64 \<Longrightarrow> unat (of_nat n :: u64) = n"
  by (simp add: unat_of_nat)

lemma of_nat_u64_eq_iff [simp]:
  "a < 2 ^ 64 \<Longrightarrow> b < 2 ^ 64 \<Longrightarrow> (of_nat a :: u64) = of_nat b \<longleftrightarrow> a = b"
  by (metis unat_of_nat_u64)

lemma of_nat_u64_le_iff [simp]:
  "a < 2 ^ 64 \<Longrightarrow> b < 2 ^ 64 \<Longrightarrow> (of_nat a :: u64) \<le> of_nat b \<longleftrightarrow> a \<le> b"
  by (simp add: word_le_nat_alt)

end
