(* ===== verification/Cstring.thy ===== *)
theory Cstring
  imports Kernel_Prelude
begin

text \<open>
  The kernel's freestanding string routines (\<open>src/lib/string.c\<close>), over byte memory.
  A pointer is a natural number; a routine that writes returns the new memory (its C return
  value is its first argument and is left out). The routines that stop only at a NUL byte are
  \<open>partial_function (option)\<close>: a string that is never terminated is \<open>None\<close>.

  \<open>cstr m p s\<close> says that memory \<open>m\<close> holds the NUL-terminated string \<open>s\<close> at \<open>p\<close>. The
  lemmas give each routine's result on such strings, so that the file-system theories may work
  with strings as lists; the locale \<open>cstring_ops\<close> is the contract they rely on.
\<close>

unbundle bit_operations_syntax

section \<open>The routines\<close>

text \<open>\<open>while (n--) *p++ = (uint8_t)c;\<close>\<close>

fun memset :: "mem \<Rightarrow> nat \<Rightarrow> int \<Rightarrow> nat \<Rightarrow> mem" where
  "memset m p c 0 = m"
| "memset m p c (Suc n) = memset (m(p := word_of_int c)) (p + 1) c n"

text \<open>\<open>while (n--) *d++ = *s++;\<close>\<close>

fun memcpy :: "mem \<Rightarrow> nat \<Rightarrow> nat \<Rightarrow> nat \<Rightarrow> mem" where
  "memcpy m d s 0 = m"
| "memcpy m d s (Suc n) = memcpy (m(d := m s)) (d + 1) (s + 1) n"

text \<open>\<open>while (n--) *--d = *--s;\<close>\<close>

fun memcpy_down :: "mem \<Rightarrow> nat \<Rightarrow> nat \<Rightarrow> nat \<Rightarrow> mem" where
  "memcpy_down m d s 0 = m"
| "memcpy_down m d s (Suc n) = memcpy_down (m(d - 1 := m (s - 1))) (d - 1) (s - 1) n"

definition memmove :: "mem \<Rightarrow> nat \<Rightarrow> nat \<Rightarrow> nat \<Rightarrow> mem" where
  "memmove m d s n =
     (if d < s then memcpy m d s n else memcpy_down m (d + n) (s + n) n)"

function memcmp_loop :: "mem \<Rightarrow> nat \<Rightarrow> nat \<Rightarrow> nat \<Rightarrow> nat \<Rightarrow> int" where
  "memcmp_loop m a b n i =
     (if i < n then
        if m (a + i) \<noteq> m (b + i) then uint (m (a + i)) - uint (m (b + i))
        else memcmp_loop m a b n (i + 1)
      else 0)"
  by pat_completeness auto
termination by (relation "measure (\<lambda>(m, a, b, n, i). n - i)") auto

definition memcmp :: "mem \<Rightarrow> nat \<Rightarrow> nat \<Rightarrow> nat \<Rightarrow> int" where
  "memcmp m s1 s2 n = memcmp_loop m s1 s2 n 0"

partial_function (option) strlen_loop :: "mem \<Rightarrow> nat \<Rightarrow> nat \<Rightarrow> nat option" where
  "strlen_loop m s len = (if m (s + len) \<noteq> 0 then strlen_loop m s (len + 1) else Some len)"

definition strlen :: "mem \<Rightarrow> nat \<Rightarrow> nat option" where
  "strlen m s = strlen_loop m s 0"

partial_function (option) strcmp :: "mem \<Rightarrow> nat \<Rightarrow> nat \<Rightarrow> int option" where
  "strcmp m s1 s2 =
     (if m s1 \<noteq> 0 \<and> m s1 = m s2 then strcmp m (s1 + 1) (s2 + 1)
      else Some (uint (m s1) - uint (m s2)))"

function strncmp_loop :: "mem \<Rightarrow> nat \<Rightarrow> nat \<Rightarrow> nat \<Rightarrow> nat \<Rightarrow> int" where
  "strncmp_loop m s1 s2 n i =
     (if i < n then
        if m (s1 + i) \<noteq> m (s2 + i) then uint (m (s1 + i)) - uint (m (s2 + i))
        else if m (s1 + i) = 0 then 0
        else strncmp_loop m s1 s2 n (i + 1)
      else 0)"
  by pat_completeness auto
termination by (relation "measure (\<lambda>(m, s1, s2, n, i). n - i)") auto

definition strncmp :: "mem \<Rightarrow> nat \<Rightarrow> nat \<Rightarrow> nat \<Rightarrow> int" where
  "strncmp m s1 s2 n = strncmp_loop m s1 s2 n 0"

text \<open>The two loops of \<open>strncpy\<close> share the index \<open>i\<close>: copy, then pad with NULs.\<close>

function strncpy_copy :: "mem \<Rightarrow> nat \<Rightarrow> nat \<Rightarrow> nat \<Rightarrow> nat \<Rightarrow> mem \<times> nat" where
  "strncpy_copy m dest src n i =
     (if i < n \<and> m (src + i) \<noteq> 0
      then strncpy_copy (m(dest + i := m (src + i))) dest src n (i + 1)
      else (m, i))"
  by pat_completeness auto
termination by (relation "measure (\<lambda>(m, d, s, n, i). n - i)") auto

function strncpy_pad :: "mem \<Rightarrow> nat \<Rightarrow> nat \<Rightarrow> nat \<Rightarrow> mem" where
  "strncpy_pad m dest n i =
     (if i < n then strncpy_pad (m(dest + i := 0)) dest n (i + 1) else m)"
  by pat_completeness auto
termination by (relation "measure (\<lambda>(m, d, n, i). n - i)") auto

definition strncpy :: "mem \<Rightarrow> nat \<Rightarrow> nat \<Rightarrow> nat \<Rightarrow> mem" where
  "strncpy m dest src n =
     (case strncpy_copy m dest src n 0 of (m', i) \<Rightarrow> strncpy_pad m' dest n i)"

text \<open>\<open>while ((*d++ = *src++));\<close>\<close>

partial_function (option) strcpy :: "mem \<Rightarrow> nat \<Rightarrow> nat \<Rightarrow> mem option" where
  "strcpy m d s =
     (if m s \<noteq> 0 then strcpy (m(d := m s)) (d + 1) (s + 1) else Some (m(d := m s)))"

text \<open>The inner option of \<open>strchr\<close> is the C result, \<open>NULL\<close> or a pointer.\<close>

partial_function (option) strchr :: "mem \<Rightarrow> nat \<Rightarrow> int \<Rightarrow> nat option option" where
  "strchr m s c =
     (if m s \<noteq> 0 then
        if m s = word_of_int c then Some (Some s) else strchr m (s + 1) c
      else Some (if c = 0 then Some s else None))"

definition strcat :: "mem \<Rightarrow> nat \<Rightarrow> nat \<Rightarrow> mem option" where
  "strcat m dest src =
     Option.bind (strlen m dest) (\<lambda>n. strcpy m (dest + n) src)"

section \<open>Strings in memory\<close>

primrec cstr :: "mem \<Rightarrow> nat \<Rightarrow> string \<Rightarrow> bool" where
  "cstr m p [] \<longleftrightarrow> m p = 0"
| "cstr m p (c # cs) \<longleftrightarrow> c \<noteq> CHR 0x00 \<and> m p = of_char c \<and> cstr m (p + 1) cs"

text \<open>Lexicographic comparison by unsigned byte value, what the sign of \<open>strcmp\<close> reports.\<close>

fun byte_less :: "string \<Rightarrow> string \<Rightarrow> bool" where
  "byte_less s [] \<longleftrightarrow> False"
| "byte_less [] (d # ds) \<longleftrightarrow> True"
| "byte_less (c # cs) (d # ds) \<longleftrightarrow>
     (of_char c :: u8) < of_char d \<or> (c = d \<and> byte_less cs ds)"

declare memcmp_loop.simps [simp del] strncmp_loop.simps [simp del]
  strncpy_copy.simps [simp del] strncpy_pad.simps [simp del]

section \<open>Block copies\<close>

lemma memset_spec:
  "memset m p c n = (\<lambda>a. if p \<le> a \<and> a < p + n then word_of_int c else m a)"
proof (induction n arbitrary: m p)
  case 0
  show ?case by (auto simp: fun_eq_iff)
next
  case (Suc n)
  show ?case by (rule ext) (simp add: Suc)
qed

text \<open>The destination range receives the source range as it was, nothing else changes.\<close>

definition copied :: "mem \<Rightarrow> nat \<Rightarrow> nat \<Rightarrow> nat \<Rightarrow> mem" where
  "copied m d s n = (\<lambda>a. if d \<le> a \<and> a < d + n then m (s + (a - d)) else m a)"

lemma memcpy_spec:
  assumes "d \<le> s \<or> s + n \<le> d"
  shows "memcpy m d s n = copied m d s n"
  using assms
proof (induction n arbitrary: m d s)
  case 0
  show ?case by (auto simp: copied_def fun_eq_iff)
next
  case (Suc n)
  have "copied (m(d := m s)) (d + 1) (s + 1) n = copied m d s (Suc n)"
    using Suc.prems by (auto simp: copied_def fun_eq_iff Suc_diff_Suc)
  moreover have "memcpy (m(d := m s)) (d + 1) (s + 1) n = copied (m(d := m s)) (d + 1) (s + 1) n"
    using Suc.prems by (intro Suc.IH) auto
  ultimately show ?case by simp
qed

lemma memcpy_down_spec:
  "s \<le> d \<Longrightarrow> memcpy_down m (d + n) (s + n) n = copied m d s n"
proof (induction n arbitrary: m)
  case 0
  show ?case by (auto simp: copied_def fun_eq_iff)
next
  case (Suc n)
  have "copied (m(d + n := m (s + n))) d s n = copied m d s (Suc n)"
    using Suc.prems by (auto simp: copied_def fun_eq_iff)
  with Suc show ?case by simp
qed

lemma memmove_copied: "memmove m d s n = copied m d s n"
  by (simp add: memmove_def memcpy_spec memcpy_down_spec)

section \<open>String routines on terminated strings\<close>

lemma unat_of_char [simp]: "unat (of_char c :: u8) = of_char c"
proof -
  have "unat (of_nat (of_char c) :: u8) = of_char c mod 2 ^ 8"
    by (simp only: unat_of_nat) simp
  then show ?thesis by (simp add: of_nat_of_char)
qed

lemma of_char_u8_eq_iff [simp]: "of_char c = (of_char d :: u8) \<longleftrightarrow> c = d"
  by (metis of_char_eq_iff unat_of_char)

lemma of_char_eq_0_iff [simp]: "of_char c = (0 :: u8) \<longleftrightarrow> c = CHR 0x00"
  using of_char_u8_eq_iff [of c "CHR 0x00"] by (simp del: of_char_u8_eq_iff)

lemma of_char_pos_iff [simp]: "(0 :: nat) < of_char c \<longleftrightarrow> c \<noteq> CHR 0x00"
proof -
  have "(of_char (CHR 0x00) :: nat) = 0" by simp
  then show ?thesis by (metis bot_nat_0.not_eq_extremum of_char_eq_iff)
qed

lemma cstr_char: "cstr m p s \<Longrightarrow> i < length s \<Longrightarrow> m (p + i) = of_char (s ! i) \<and> s ! i \<noteq> CHR 0x00"
proof (induction s arbitrary: p i)
  case Nil
  then show ?case by simp
next
  case (Cons c s)
  then show ?case
  proof (cases i)
    case (Suc j)
    with Cons show ?thesis using Cons.IH [of "p + 1" j] by simp
  qed simp
qed

lemma cstr_end: "cstr m p s \<Longrightarrow> m (p + length s) = 0"
  by (induction s arbitrary: p) (auto, metis add_Suc_right add_Suc)

lemma cstr_iff:
  "cstr m p s \<longleftrightarrow>
    (\<forall>i < length s. m (p + i) = of_char (s ! i) \<and> s ! i \<noteq> CHR 0x00) \<and> m (p + length s) = 0"
  by (induction s arbitrary: p) (simp_all add: All_less_Suc2 conj_ac)

lemma cstr_cong:
  assumes "cstr m p s" "\<And>j. j \<le> length s \<Longrightarrow> m' (p + j) = m (p + j)"
  shows "cstr m' p s"
  using assms by (simp add: cstr_iff)

lemma strlen_loop_cstr: "cstr m (p + n) s \<Longrightarrow> strlen_loop m p n = Some (n + length s)"
  by (induction s arbitrary: n) (subst strlen_loop.simps, simp)+

lemma strlen_cstr: "cstr m p s \<Longrightarrow> strlen m p = Some (length s)"
  using strlen_loop_cstr [of m p 0 s] by (simp add: strlen_def)

text \<open>\<open>strcmp\<close> reports equality by 0 and the byte order by its sign.\<close>

lemma strcmp_cstr:
  "cstr m p s \<Longrightarrow> cstr m q t \<Longrightarrow>
   \<exists>r. strcmp m p q = Some r \<and> (r = 0 \<longleftrightarrow> s = t) \<and> (r < 0 \<longleftrightarrow> byte_less s t)"
proof (induction s t arbitrary: p q rule: byte_less.induct)
  case (1 s)
  then show ?case
    by (cases s) (auto simp: strcmp.simps [of m p q] uint_nat)
next
  case (2 d ds)
  then show ?case
    by (auto simp: strcmp.simps [of m p q] uint_nat)
next
  case (3 c cs d ds)
  show ?case
  proof (cases "c = d")
    case True
    with "3.prems" have "\<exists>r. strcmp m (p + 1) (q + 1) = Some r \<and> (r = 0 \<longleftrightarrow> cs = ds) \<and>
        (r < 0 \<longleftrightarrow> byte_less cs ds)"
      by (intro "3.IH") simp_all
    with True "3.prems" show ?thesis by (simp add: strcmp.simps [of m p q])
  next
    case False
    with "3.prems" have "strcmp m p q = Some (int (of_char c) - int (of_char d))"
      by (simp add: strcmp.simps [of m p q] uint_nat)
    with False show ?thesis
      by (auto simp: word_less_nat_alt)
  qed
qed

lemma strncmp_loop_cstr:
  "cstr m (p + i) s \<Longrightarrow> cstr m (q + i) t \<Longrightarrow>
   strncmp_loop m p q n i = 0 \<longleftrightarrow> take (n - i) s = take (n - i) t"
proof (induction s t arbitrary: i rule: byte_less.induct)
  case (1 s)
  then show ?case
    by (cases s) (auto simp: strncmp_loop.simps [of m p q n i] uint_nat)
next
  case (2 d ds)
  then show ?case by (auto simp: strncmp_loop.simps [of m p q n i] uint_nat)
next
  case (3 c cs d ds)
  show ?case
  proof (cases "c = d \<and> i < n")
    case True
    with "3.prems" have "strncmp_loop m p q n (i + 1) = 0 \<longleftrightarrow>
        take (n - (i + 1)) cs = take (n - (i + 1)) ds"
      by (intro "3.IH") simp_all
    moreover from True have "n - i = Suc (n - (i + 1))" by (simp add: Suc_diff_Suc)
    ultimately show ?thesis
      using True "3.prems" by (simp add: strncmp_loop.simps [of m p q n i])
  next
    case False
    with "3.prems" show ?thesis
      by (cases "i < n")
         (auto simp: strncmp_loop.simps [of m p q n i] uint_nat take_Cons')
  qed
qed

lemma strncmp_cstr:
  "cstr m p s \<Longrightarrow> cstr m q t \<Longrightarrow> strncmp m p q n = 0 \<longleftrightarrow> take n s = take n t"
  using strncmp_loop_cstr [of m p 0 s q t n] by (simp add: strncmp_def)

lemma strchr_cstr:
  assumes "cstr m p s" "c \<noteq> CHR 0x00"
  shows "strchr m p (of_char c) =
    Some (if c \<in> set s then Some (p + length (takeWhile (\<lambda>x. x \<noteq> c) s)) else None)"
  using assms
proof (induction s arbitrary: p)
  case Nil
  have "(of_char c :: int) \<noteq> of_char (CHR 0x00)" using Nil(2) by (simp only: of_char_eq_iff) simp
  with Nil show ?case by (simp add: strchr.simps [of m p])
next
  case (Cons d s)
  have "word_of_int (of_char c) = (of_char c :: u8)"
    by (rule of_int_of_char)
  with Cons show ?case
    by (auto simp: strchr.simps [of m p])
qed

lemma memcmp_loop_zero:
  "memcmp_loop m a b n i = 0 \<longleftrightarrow> (\<forall>j. i \<le> j \<and> j < n \<longrightarrow> m (a + j) = m (b + j))"
proof (induction m a b n i rule: memcmp_loop.induct)
  case (1 m a b n i)
  show ?case
  proof (cases "i < n \<and> m (a + i) = m (b + i)")
    case True
    then have "memcmp_loop m a b n i = memcmp_loop m a b n (i + 1)"
      by (simp add: memcmp_loop.simps [of m a b n i])
    moreover have "memcmp_loop m a b n (i + 1) = 0 \<longleftrightarrow>
        (\<forall>j. i + 1 \<le> j \<and> j < n \<longrightarrow> m (a + j) = m (b + j))"
      using "1.IH" True by blast
    moreover have "(\<forall>j. i + 1 \<le> j \<and> j < n \<longrightarrow> m (a + j) = m (b + j)) \<longleftrightarrow>
        (\<forall>j. i \<le> j \<and> j < n \<longrightarrow> m (a + j) = m (b + j))"
      using True by (metis Suc_eq_plus1 Suc_le_eq le_eq_less_or_eq)
    ultimately show ?thesis by (simp only:)
  next
    case False
    show ?thesis
    proof (cases "i < n")
      case True
      with False have "memcmp_loop m a b n i \<noteq> 0"
        by (simp add: memcmp_loop.simps [of m a b n i] word_uint_eq_iff)
      with True False show ?thesis by blast
    next
      case False
      then have "memcmp_loop m a b n i = 0" by (simp add: memcmp_loop.simps [of m a b n i])
      with False show ?thesis by auto
    qed
  qed
qed

lemma memcmp_zero: "memcmp m a b n = 0 \<longleftrightarrow> (\<forall>j < n. m (a + j) = m (b + j))"
  by (simp add: memcmp_def memcmp_loop_zero)

section \<open>Copying strings\<close>

lemma strncpy_pad_spec:
  "strncpy_pad m d n i = (\<lambda>a. if d + i \<le> a \<and> a < d + n then 0 else m a)"
proof (induction m d n i rule: strncpy_pad.induct)
  case (1 m d n i)
  show ?case
  proof (cases "i < n")
    case True
    have IH: "strncpy_pad (m(d + i := 0)) d n (i + 1) =
        (\<lambda>a. if d + (i + 1) \<le> a \<and> a < d + n then 0 else (m(d + i := 0)) a)"
      by (rule "1.IH" [OF True])
    show ?thesis
      unfolding strncpy_pad.simps [of m d n i] IH using True by (auto simp: fun_eq_iff)
  next
    case False
    then show ?thesis by (auto simp: strncpy_pad.simps [of m d n i] fun_eq_iff)
  qed
qed

lemma strncpy_copy_spec:
  assumes "cstr m (src + i) s" "i \<le> n"
    and "dest + n \<le> src \<or> src + i + length s < dest"
  shows "strncpy_copy m dest src n i =
    (\<lambda>a. if dest + i \<le> a \<and> a < dest + min n (i + length s) then m (src + (a - dest)) else m a,
     min n (i + length s))"
  using assms
proof (induction s arbitrary: m i)
  case Nil
  then show ?case
    by (auto simp: strncpy_copy.simps [of m dest src n i] fun_eq_iff)
next
  case (Cons c s)
  let ?m = "m(dest + i := m (src + i))"
  show ?case
  proof (cases "i < n")
    case True
    have "cstr ?m (src + (i + 1)) s"
    proof (rule cstr_cong)
      show "cstr m (src + (i + 1)) s" using Cons.prems by simp
      show "\<And>j. j \<le> length s \<Longrightarrow> ?m (src + (i + 1) + j) = m (src + (i + 1) + j)"
        using Cons.prems True by auto
    qed
    then have "strncpy_copy ?m dest src n (i + 1) =
      (\<lambda>a. if dest + (i + 1) \<le> a \<and> a < dest + min n (i + 1 + length s)
            then ?m (src + (a - dest)) else ?m a, min n (i + 1 + length s))"
      by (rule Cons.IH [of ?m "i + 1"]) (use Cons.prems True in auto)
    moreover have "strncpy_copy m dest src n i = strncpy_copy ?m dest src n (i + 1)"
      using Cons.prems True by (simp add: strncpy_copy.simps [of m dest src n i])
    ultimately show ?thesis
      using Cons.prems True by (auto simp: fun_eq_iff)
  next
    case False
    with Cons.prems have "i = n" by simp
    then show ?thesis
      by (auto simp: strncpy_copy.simps [of m dest src n n] fun_eq_iff)
  qed
qed

text \<open>
  \<open>strncpy\<close> writes exactly \<open>n\<close> bytes: the string cut at \<open>n\<close>, then NULs.
\<close>

definition strncpy_result :: "mem \<Rightarrow> nat \<Rightarrow> string \<Rightarrow> nat \<Rightarrow> mem" where
  "strncpy_result m dest s n = (\<lambda>a.
     if dest \<le> a \<and> a < dest + n
     then if a - dest < length s then of_char (s ! (a - dest)) else 0
     else m a)"

lemma strncpy_cstr:
  assumes "cstr m src s" "dest + n \<le> src \<or> src + length s < dest"
  shows "strncpy m dest src n = strncpy_result m dest s n"
proof -
  have c: "strncpy_copy m dest src n 0 =
    (\<lambda>a. if dest \<le> a \<and> a < dest + min n (length s) then m (src + (a - dest)) else m a,
     min n (length s))"
    using strncpy_copy_spec [of m src 0 s n dest] assms by simp
  have "m (src + (a - dest)) = of_char (s ! (a - dest))"
    if "dest \<le> a" "a < dest + length s" for a
    using cstr_char [OF assms(1), of "a - dest"] that by simp
  then show ?thesis
    by (auto simp: strncpy_def c strncpy_pad_spec strncpy_result_def fun_eq_iff)
qed

lemma strcpy_cstr:
  assumes "cstr m src s" "dest + length s < src \<or> src + length s < dest"
  shows "strcpy m dest src = Some (copied m dest src (length s + 1))"
  using assms
proof (induction s arbitrary: m dest src)
  case Nil
  then show ?case by (auto simp: strcpy.simps [of m dest src] copied_def fun_eq_iff)
next
  case (Cons c s)
  let ?m = "m(dest := m src)"
  have "cstr ?m (src + 1) s"
    by (rule cstr_cong [where m = m]) (use Cons.prems in auto)
  then have "strcpy ?m (dest + 1) (src + 1) = Some (copied ?m (dest + 1) (src + 1) (length s + 1))"
    by (rule Cons.IH [of ?m "src + 1" "dest + 1"]) (use Cons.prems in auto)
  moreover have "copied ?m (dest + 1) (src + 1) (length s + 1) = copied m dest src (length (c # s) + 1)"
    using Cons.prems by (auto simp: copied_def fun_eq_iff Suc_diff_Suc)
  ultimately show ?case
    using Cons.prems by (simp add: strcpy.simps [of m dest src])
qed

lemma strcat_cstr:
  assumes "cstr m dest s" "cstr m src t"
    and "dest + length s + length t < src \<or> src + length t < dest"
  obtains m' where "strcat m dest src = Some m'" "cstr m' dest (s @ t)"
    "\<And>a. a < dest + length s \<or> dest + length s + length t < a \<Longrightarrow> m' a = m a"
proof
  let ?m = "copied m (dest + length s) src (length t + 1)"
  show "strcat m dest src = Some ?m"
    using assms strcpy_cstr [of m src t "dest + length s"]
    by (auto simp: strcat_def strlen_cstr)
  show "cstr ?m dest (s @ t)"
    unfolding cstr_iff
  proof (intro conjI allI impI)
    fix i
    assume i: "i < length (s @ t)"
    have "?m (dest + i) = of_char ((s @ t) ! i) \<and> (s @ t) ! i \<noteq> CHR 0x00"
    proof (cases "i < length s")
      case True
      with cstr_char [OF assms(1)] show ?thesis by (simp add: copied_def nth_append)
    next
      case False
      with i cstr_char [OF assms(2), of "i - length s"] show ?thesis
        by (simp add: copied_def nth_append)
    qed
    then show "?m (dest + i) = of_char ((s @ t) ! i)" "(s @ t) ! i \<noteq> CHR 0x00" by simp_all
  next
    show "?m (dest + length (s @ t)) = 0"
      using cstr_end [OF assms(2)] by (simp add: copied_def)
  qed
  show "\<And>a. a < dest + length s \<or> dest + length s + length t < a \<Longrightarrow> ?m a = m a"
    by (auto simp: copied_def)
qed

section \<open>The contract the file systems rely on\<close>

text \<open>
  \<open>holds m p s\<close> is any notion of a string in memory for which the four routines
  give the results below. Under it a comparison of C strings is a comparison of lists.
\<close>

locale cstring_ops =
  fixes holds :: "mem \<Rightarrow> nat \<Rightarrow> string \<Rightarrow> bool"
    and length_of :: "mem \<Rightarrow> nat \<Rightarrow> nat option"
    and compare :: "mem \<Rightarrow> nat \<Rightarrow> nat \<Rightarrow> int option"
    and compare_n :: "mem \<Rightarrow> nat \<Rightarrow> nat \<Rightarrow> nat \<Rightarrow> int"
  assumes length_of: "holds m p s \<Longrightarrow> length_of m p = Some (length s)"
    and compare: "holds m p s \<Longrightarrow> holds m q t \<Longrightarrow>
      \<exists>r. compare m p q = Some r \<and> (r = 0 \<longleftrightarrow> s = t)"
    and compare_n: "holds m p s \<Longrightarrow> holds m q t \<Longrightarrow>
      compare_n m p q n = 0 \<longleftrightarrow> take n s = take n t"
    and char_at: "holds m p s \<Longrightarrow> i < length s \<Longrightarrow> m (p + i) = of_char (s ! i)"
    and end_at: "holds m p s \<Longrightarrow> m (p + length s) = 0"
begin

lemma equality_test:
  "holds m p s \<Longrightarrow> holds m q t \<Longrightarrow> compare m p q = Some 0 \<longleftrightarrow> s = t"
  using compare [of m p s q t] by auto

lemma prefix_test:
  assumes "holds m p s" "holds m q t" "length_of m q = Some n"
  shows "compare_n m p q n = 0 \<longleftrightarrow> prefix t s"
proof -
  from assms have n: "n = length t" using length_of by auto
  have "take (length t) s = t \<longleftrightarrow> prefix t s"
    by (metis append_eq_conv_conj append_take_drop_id prefix_def)
  with assms n show ?thesis by (auto simp: compare_n)
qed

text \<open>Reading the byte after a matched prefix: the end, or the next character.\<close>

lemma byte_after_prefix:
  assumes "holds m p s" "n \<le> length s"
  shows "m (p + n) = (if n = length s then 0 else of_char (s ! n))"
  using assms char_at [of m p s n] end_at [of m p s] by auto

end

interpretation cs: cstring_ops cstr strlen strcmp strncmp
proof
  fix m p q s t n i
  show "cstr m p s \<Longrightarrow> strlen m p = Some (length s)" by (rule strlen_cstr)
  show "cstr m p s \<Longrightarrow> cstr m q t \<Longrightarrow> \<exists>r. strcmp m p q = Some r \<and> (r = 0 \<longleftrightarrow> s = t)"
    using strcmp_cstr by blast
  show "cstr m p s \<Longrightarrow> cstr m q t \<Longrightarrow> strncmp m p q n = 0 \<longleftrightarrow> take n s = take n t"
    by (rule strncmp_cstr)
  show "cstr m p s \<Longrightarrow> i < length s \<Longrightarrow> m (p + i) = of_char (s ! i)"
    by (simp add: cstr_char)
  show "cstr m p s \<Longrightarrow> m (p + length s) = 0" by (rule cstr_end)
qed

section \<open>Properties\<close>

text \<open>C36: \<open>memmove\<close> is correct for every pair of ranges, overlapping or not: the destination receives
  the source bytes as they were before the call, and no other byte changes.\<close>

theorem memmove_correct:
  "memmove m d s n a = (if d \<le> a \<and> a < d + n then m (s + (a - d)) else m a)"
  by (simp add: memmove_copied copied_def)

text \<open>on two terminated strings \<open>strcmp\<close> returns, its result is 0 exactly when the strings are
  equal, and it is negative exactly when the first is smaller in unsigned byte order.\<close>

lemma strcmp_correct:
  assumes "cstr m p s" "cstr m q t"
  shows "\<exists>r. strcmp m p q = Some r \<and> (r = 0 \<longleftrightarrow> s = t) \<and> (r < 0 \<longleftrightarrow> byte_less s t)"
  by (rule strcmp_cstr [OF assms])

text \<open>\<open>strncpy\<close> from a terminated string that does not overlap the destination writes exactly
  \<open>n\<close> bytes, the string's characters and then NULs; so the copy is terminated when the string is
  shorter than \<open>n\<close>.\<close>

lemma strncpy_bounded:
  assumes "cstr m src s" "dest + n \<le> src \<or> src + length s < dest"
  shows "(\<forall>a. a < dest \<or> dest + n \<le> a \<longrightarrow> strncpy m dest src n a = m a) \<and>
    (length s < n \<longrightarrow> cstr (strncpy m dest src n) dest s)"
proof -
  have eq: "strncpy m dest src n = strncpy_result m dest s n" by (rule strncpy_cstr [OF assms])
  have "cstr (strncpy_result m dest s n) dest s" if "length s < n"
    unfolding cstr_iff using that cstr_char [OF assms(1)] by (auto simp: strncpy_result_def)
  then show ?thesis by (auto simp: eq strncpy_result_def)
qed

end
