(* ===== verification/Heap.thy ===== *)
theory Heap
  imports Kernel_Prelude
begin

text \<open>
  The kernel heap (\<open>src/mm/heap.c\<close>): a first-fit allocator over one arena, its blocks in a
  singly linked list in address order. The model keeps the block headers as a store from
  addresses to headers; the list walks are \<open>partial_function (option)\<close>, so a walk that does
  not end is \<open>None\<close>. Payload bytes are not part of the model.

  The second half gives the abstract heap, a list of segments that tile the arena, the
  invariant that links it to the headers, and the proofs that \<open>kmalloc\<close> and \<open>kfree\<close>
  implement first fit and free with coalescing on it.
\<close>

unbundle bit_operations_syntax

section \<open>The code\<close>

text \<open>\<open>heap_block_t\<close>; the padding word is never read.\<close>

record heap_block =
  bsize :: u64
  is_free :: bool
  bnext :: u64

record heap_state =
  heap_start :: u64
  blocks :: "u64 \<Rightarrow> heap_block"

definition HEADER_SIZE :: u64 where
  "HEADER_SIZE = 32"

definition ALIGN16 :: "u64 \<Rightarrow> u64" where
  "ALIGN16 x = (x + 15) AND NOT 15"

definition heap_init :: "heap_state \<Rightarrow> u64 \<Rightarrow> u64 \<Rightarrow> heap_state" where
  "heap_init s start size' =
     (let start' = ALIGN16 start
      in s\<lparr>heap_start := start',
           blocks := (blocks s)(start' :=
             \<lparr>bsize = size' - HEADER_SIZE, is_free = True, bnext = 0\<rparr>)\<rparr>)"

text \<open>The body of the first-fit hit: split when the rest can hold a header and 16 bytes.\<close>

definition take_block :: "(u64 \<Rightarrow> heap_block) \<Rightarrow> u64 \<Rightarrow> u64 \<Rightarrow> (u64 \<Rightarrow> heap_block)" where
  "take_block h n block =
     (let b = h block;
          h1 = (if n + HEADER_SIZE + 16 \<le> bsize b then
                  let nb = block + HEADER_SIZE + n;
                      h' = h(nb := \<lparr>bsize = bsize b - n - HEADER_SIZE, is_free = True,
                                    bnext = bnext b\<rparr>)
                  in h'(block := (h' block)\<lparr>bsize := n, bnext := nb\<rparr>)
                else h)
      in h1(block := (h1 block)\<lparr>is_free := False\<rparr>))"

partial_function (option) kmalloc_walk ::
  "(u64 \<Rightarrow> heap_block) \<Rightarrow> u64 \<Rightarrow> u64 \<Rightarrow> ((u64 \<Rightarrow> heap_block) \<times> u64) option"
where
  "kmalloc_walk h n block =
     (if block = 0 then Some (h, 0)
      else if is_free (h block) \<and> n \<le> bsize (h block)
      then Some (take_block h n block, block + HEADER_SIZE)
      else kmalloc_walk h n (bnext (h block)))"

definition kmalloc :: "heap_state \<Rightarrow> u64 \<Rightarrow> (heap_state \<times> u64) option" where
  "kmalloc s n =
     (if n = 0 then Some (s, 0)
      else map_option (\<lambda>(h, p). (s\<lparr>blocks := h\<rparr>, p))
             (kmalloc_walk (blocks s) (ALIGN16 n) (heap_start s)))"

text \<open>\<open>while (prev && prev->next != block) prev = prev->next;\<close>\<close>

partial_function (option) find_prev :: "(u64 \<Rightarrow> heap_block) \<Rightarrow> u64 \<Rightarrow> u64 \<Rightarrow> u64 option" where
  "find_prev h block prev =
     (if prev \<noteq> 0 \<and> bnext (h prev) \<noteq> block then find_prev h block (bnext (h prev))
      else Some prev)"

definition merge_next :: "(u64 \<Rightarrow> heap_block) \<Rightarrow> u64 \<Rightarrow> (u64 \<Rightarrow> heap_block)" where
  "merge_next h block =
     (let nb = bnext (h block)
      in if nb \<noteq> 0 \<and> is_free (h nb)
         then h(block := (h block)\<lparr>bsize := bsize (h block) + (HEADER_SIZE + bsize (h nb)),
                                   bnext := bnext (h nb)\<rparr>)
         else h)"

definition kfree :: "heap_state \<Rightarrow> u64 \<Rightarrow> heap_state option" where
  "kfree s ptr =
     (if ptr = 0 then Some s
      else
        let block = ptr - HEADER_SIZE;
            h0 = blocks s;
            h1 = h0(block := (h0 block)\<lparr>is_free := True\<rparr>);
            h2 = merge_next h1 block
        in if heap_start s = block then Some (s\<lparr>blocks := h2\<rparr>)
           else map_option (\<lambda>prev.
                  if prev \<noteq> 0 \<and> is_free (h2 prev)
                  then s\<lparr>blocks := h2(prev := (h2 prev)
                           \<lparr>bsize := bsize (h2 prev) + (HEADER_SIZE + bsize (h2 block)),
                            bnext := bnext (h2 block)\<rparr>)\<rparr>
                  else s\<lparr>blocks := h2\<rparr>)
                (find_prev h2 block (heap_start s)))"

partial_function (option) heap_get_used_loop ::
  "(u64 \<Rightarrow> heap_block) \<Rightarrow> u64 \<Rightarrow> u64 \<Rightarrow> u64 option"
where
  "heap_get_used_loop h b u =
     (if b = 0 then Some u
      else heap_get_used_loop h (bnext (h b))
             (if is_free (h b) then u else u + (bsize (h b) + HEADER_SIZE)))"

definition heap_get_used :: "heap_state \<Rightarrow> u64 option" where
  "heap_get_used s = heap_get_used_loop (blocks s) (heap_start s) 0"

partial_function (option) heap_get_free_loop ::
  "(u64 \<Rightarrow> heap_block) \<Rightarrow> u64 \<Rightarrow> u64 \<Rightarrow> u64 option"
where
  "heap_get_free_loop h b f =
     (if b = 0 then Some f
      else heap_get_free_loop h (bnext (h b)) (if is_free (h b) then f + bsize (h b) else f))"

definition heap_get_free :: "heap_state \<Rightarrow> u64 option" where
  "heap_get_free s = heap_get_free_loop (blocks s) (heap_start s) 0"

section \<open>The abstract heap\<close>

text \<open>A segment is a payload size and whether it is free; every segment has a 32-byte header.\<close>

type_synonym seg = "nat \<times> bool"

fun span :: "seg list \<Rightarrow> nat" where
  "span [] = 0"
| "span ((z, f) # ss) = 32 + z + span ss"

text \<open>First fit on the segment list: the new list and the payload's offset.\<close>

fun a_alloc :: "nat \<Rightarrow> seg list \<Rightarrow> (seg list \<times> nat) option" where
  "a_alloc n [] = None"
| "a_alloc n ((z, f) # ss) =
     (if f \<and> n \<le> z then
        if n + 48 \<le> z then Some ((n, False) # (z - n - 32, True) # ss, 32)
        else Some ((z, False) # ss, 32)
      else map_option (\<lambda>(ss', p). ((z, f) # ss', 32 + z + p)) (a_alloc n ss))"

text \<open>Freeing the segment between \<open>pre\<close> and \<open>post\<close>: merge with a free successor, then with a
  free predecessor.\<close>

fun a_merge_next :: "nat \<Rightarrow> seg list \<Rightarrow> seg list" where
  "a_merge_next z ((y, True) # post) = (z + (32 + y), True) # post"
| "a_merge_next z post = (z, True) # post"

fun a_merge_prev :: "seg list \<Rightarrow> seg list \<Rightarrow> seg list" where
  "a_merge_prev [] ss = ss"
| "a_merge_prev [(x, True)] ((z, g) # ss) = (x + (32 + z), True) # ss"
| "a_merge_prev [s] ss = s # ss"
| "a_merge_prev (s # t # pre) ss = s # a_merge_prev (t # pre) ss"

definition a_free :: "seg list \<Rightarrow> nat \<Rightarrow> seg list \<Rightarrow> seg list" where
  "a_free pre z post = a_merge_prev pre (a_merge_next z post)"

text \<open>The headers at \<open>a, a + 32 + z, \<dots>\<close> describe the segment list.\<close>

fun layout :: "(u64 \<Rightarrow> heap_block) \<Rightarrow> nat \<Rightarrow> seg list \<Rightarrow> bool" where
  "layout h a [] \<longleftrightarrow> True"
| "layout h a ((z, f) # ss) \<longleftrightarrow>
     h (of_nat a) = \<lparr>bsize = of_nat z, is_free = f,
                     bnext = (if ss = [] then 0 else of_nat (a + 32 + z))\<rparr> \<and>
     layout h (a + 32 + z) ss"

fun coalesced :: "seg list \<Rightarrow> bool" where
  "coalesced [] \<longleftrightarrow> True"
| "coalesced [s] \<longleftrightarrow> True"
| "coalesced (s # t # ss) \<longleftrightarrow> \<not> (snd s \<and> snd t) \<and> coalesced (t # ss)"

definition heap_inv :: "heap_state \<Rightarrow> seg list \<Rightarrow> bool" where
  "heap_inv s ss \<longleftrightarrow>
     ss \<noteq> [] \<and> 0 < unat (heap_start s) \<and> 16 dvd unat (heap_start s) \<and>
     unat (heap_start s) + span ss < 2 ^ 64 \<and>
     list_all (\<lambda>(z, f). 16 dvd z) ss \<and> coalesced ss \<and>
     layout (blocks s) (unat (heap_start s)) ss"

text \<open>The payload ranges (address, size) of the blocks in use.\<close>

fun allocated :: "nat \<Rightarrow> seg list \<Rightarrow> (nat \<times> nat) set" where
  "allocated a [] = {}"
| "allocated a ((z, f) # ss) =
     (if f then {} else {(a + 32, z)}) \<union> allocated (a + 32 + z) ss"

section \<open>The header list\<close>

lemma layout_frame:
  "a + span ss < 2 ^ 64 \<Longrightarrow> (\<And>x. a \<le> x \<Longrightarrow> x < 2 ^ 64 \<Longrightarrow> h' (of_nat x) = h (of_nat x)) \<Longrightarrow>
   layout h a ss \<Longrightarrow> layout h' a ss"
  by (induction h a ss rule: layout.induct) auto

lemma layout_upd_below:
  assumes "layout h a ss" "a + span ss < 2 ^ 64" "x < a"
  shows "layout (h(of_nat x := b)) a ss"
proof (rule layout_frame [OF assms(2) _ assms(1)])
  fix y :: nat
  assume "a \<le> y" "y < 2 ^ 64"
  with assms show "(h(of_nat x := b)) (of_nat y) = h (of_nat y)" by simp
qed

lemma layout_tail: "layout h a (pre @ ss) \<Longrightarrow> layout h (a + span pre) ss"
  by (induction h a pre rule: layout.induct) (auto simp: add_ac)

lemma span_append [simp]: "span (xs @ ys) = span xs + span ys"
  by (induction xs rule: span.induct) auto

lemma layout_replace_tail:
  assumes "layout h a (pre @ ss)" "ss \<noteq> []" "ss' \<noteq> []" "a + span pre < 2 ^ 64"
    and "\<And>x. x < a + span pre \<Longrightarrow> h' (of_nat x) = h (of_nat x)"
    and "layout h' (a + span pre) ss'"
  shows "layout h' a (pre @ ss')"
  using assms
proof (induction h a pre rule: layout.induct)
  case (2 h a z f pre)
  have "layout h' (a + 32 + z) (pre @ ss')"
    using "2.prems" by (intro "2.IH") (auto simp: add_ac)
  moreover have "h' (of_nat a) = h (of_nat a)" using "2.prems"(5) by simp
  ultimately show ?case using "2.prems"(1-3) by simp
qed simp

section \<open>Allocation refines first fit\<close>

lemma take_block_layout:
  assumes "layout h a ((z, True) # ss)" "a + 32 + z + span ss < 2 ^ 64" "16 \<le> a" "n \<le> z"
  shows "layout (take_block h (of_nat n) (of_nat a)) a
           (if n + 48 \<le> z then (n, False) # (z - n - 32, True) # ss else (z, False) # ss)"
    and "x < a \<Longrightarrow> take_block h (of_nat n) (of_nat a) (of_nat x) = h (of_nat x)"
proof -
  have hdr: "h (of_nat a) = \<lparr>bsize = of_nat z, is_free = True,
      bnext = (if ss = [] then 0 else of_nat (a + 32 + z))\<rparr>" and tl: "layout h (a + 32 + z) ss"
    using assms(1) by auto
  have split: "(of_nat n + HEADER_SIZE + 16 \<le> (of_nat z :: u64)) \<longleftrightarrow> n + 48 \<le> z"
  proof -
    have "of_nat n + HEADER_SIZE + 16 = (of_nat (n + 48) :: u64)"
      by (simp add: HEADER_SIZE_def)
    moreover have "n + 48 < 2 ^ 64" "z < 2 ^ 64" using assms by simp_all
    ultimately show ?thesis by (simp only: of_nat_u64_le_iff)
  qed
  have nb: "of_nat a + HEADER_SIZE + of_nat n = (of_nat (a + 32 + n) :: u64)"
    by (simp add: HEADER_SIZE_def)
  have sz: "of_nat z - of_nat n - HEADER_SIZE = (of_nat (z - n - 32) :: u64)" if "n + 48 \<le> z"
    using that by (simp add: HEADER_SIZE_def of_nat_diff)
  have ne: "(of_nat a :: u64) \<noteq> of_nat (a + 32 + n)"
    using assms by (subst of_nat_u64_eq_iff) simp_all
  show "layout (take_block h (of_nat n) (of_nat a)) a
           (if n + 48 \<le> z then (n, False) # (z - n - 32, True) # ss else (z, False) # ss)"
  proof (cases "n + 48 \<le> z")
    case True
    let ?h = "take_block h (of_nat n) (of_nat a)"
    have h': "?h = h(of_nat (a + 32 + n) := \<lparr>bsize = of_nat (z - n - 32), is_free = True,
              bnext = (if ss = [] then 0 else of_nat (a + 32 + z))\<rparr>,
            of_nat a := \<lparr>bsize = of_nat n, is_free = False, bnext = of_nat (a + 32 + n)\<rparr>)"
      using True ne
      by (simp add: take_block_def Let_def hdr split sz [OF True] nb fun_upd_twist
               del: of_nat_add of_nat_diff diff_diff_left)
    have "layout ?h (a + 32 + z) ss"
      unfolding h' using assms True tl by (intro layout_upd_below) auto
    moreover have "a + 32 + n + 32 + (z - n - 32) = a + 32 + z" using True by simp
    moreover have "?h (of_nat a) =
        \<lparr>bsize = of_nat n, is_free = False, bnext = of_nat (a + 32 + n)\<rparr>"
      by (simp add: h' del: of_nat_add)
    moreover have "?h (of_nat (a + 32 + n)) = \<lparr>bsize = of_nat (z - n - 32), is_free = True,
        bnext = (if ss = [] then 0 else of_nat (a + 32 + z))\<rparr>"
      unfolding h' using ne by (simp del: of_nat_add of_nat_diff diff_diff_left)
    ultimately show ?thesis using True by (simp only: layout.simps if_True list.distinct if_False)
  next
    case False
    have h': "take_block h (of_nat n) (of_nat a) = h(of_nat a := \<lparr>bsize = of_nat z,
        is_free = False, bnext = (if ss = [] then 0 else of_nat (a + 32 + z))\<rparr>)"
      using False by (simp add: take_block_def Let_def hdr split)
    have "layout (take_block h (of_nat n) (of_nat a)) (a + 32 + z) ss"
      unfolding h' using assms tl by (intro layout_upd_below) auto
    then show ?thesis using False by (simp add: h')
  qed
  show "take_block h (of_nat n) (of_nat a) (of_nat x) = h (of_nat x)" if "x < a"
  proof -
    have "(of_nat x :: u64) \<noteq> of_nat a" "(of_nat x :: u64) \<noteq> of_nat (a + 32 + n)"
      using that assms by (subst of_nat_u64_eq_iff; simp)+
    then show ?thesis by (simp add: take_block_def Let_def nb del: of_nat_add)
  qed
qed

lemma kmalloc_walk_refines:
  assumes "layout h a ss" "ss \<noteq> []" "a + span ss < 2 ^ 64" "16 \<le> a" "n < 2 ^ 64"
  shows "case a_alloc n ss of
      None \<Rightarrow> kmalloc_walk h (of_nat n) (of_nat a) = Some (h, 0)
    | Some (ss', p) \<Rightarrow> \<exists>h'. kmalloc_walk h (of_nat n) (of_nat a) = Some (h', of_nat (a + p)) \<and>
        layout h' a ss' \<and> (\<forall>x < a. h' (of_nat x) = h (of_nat x))"
  using assms
proof (induction n ss arbitrary: a rule: a_alloc.induct)
  case (2 n z f ss)
  have hdr: "h (of_nat a) = \<lparr>bsize = of_nat z, is_free = f,
      bnext = (if ss = [] then 0 else of_nat (a + 32 + z))\<rparr>" and tl: "layout h (a + 32 + z) ss"
    using "2.prems"(1) by auto
  have a0: "(of_nat a :: u64) \<noteq> 0"
    using "2.prems" of_nat_u64_eq_iff [of a 0] by simp
  have fits: "(of_nat n \<le> (of_nat z :: u64)) \<longleftrightarrow> n \<le> z"
    using "2.prems" by (intro of_nat_u64_le_iff) simp_all
  show ?case
  proof (cases "f \<and> n \<le> z")
    case True
    then have walk: "kmalloc_walk h (of_nat n) (of_nat a) =
        Some (take_block h (of_nat n) (of_nat a), of_nat (a + 32))"
      by (simp add: kmalloc_walk.simps [of h "of_nat n" "of_nat a"] a0 hdr fits HEADER_SIZE_def)
    have "layout h a ((z, True) # ss)" using "2.prems"(1) True by simp
    note take_block_layout [OF this, of n]
    then show ?thesis using True "2.prems" walk by (auto simp del: of_nat_add)
  next
    case False
    then have walk: "kmalloc_walk h (of_nat n) (of_nat a) =
        kmalloc_walk h (of_nat n) (if ss = [] then 0 else of_nat (a + 32 + z))"
      by (auto simp: kmalloc_walk.simps [of h "of_nat n" "of_nat a"] a0 hdr fits)
    have al: "a_alloc n ((z, f) # ss) =
        map_option (\<lambda>(ss', p). ((z, f) # ss', 32 + z + p)) (a_alloc n ss)"
      using False by auto
    show ?thesis
    proof (cases "ss = []")
      case True
      with walk show ?thesis
        unfolding al by (simp add: kmalloc_walk.simps [of h "of_nat n" 0])
    next
      case ss: False
      have IH: "case a_alloc n ss of
          None \<Rightarrow> kmalloc_walk h (of_nat n) (of_nat (a + 32 + z)) = Some (h, 0)
        | Some (ss', p) \<Rightarrow> \<exists>h'. kmalloc_walk h (of_nat n) (of_nat (a + 32 + z)) =
            Some (h', of_nat (a + 32 + z + p)) \<and>
            layout h' (a + 32 + z) ss' \<and> (\<forall>x < a + 32 + z. h' (of_nat x) = h (of_nat x))"
        using "2.prems" tl ss False by (intro "2.IH") auto
      show ?thesis
      proof (cases "a_alloc n ss")
        case None
        with IH ss walk show ?thesis unfolding al by simp
      next
        case (Some r)
        obtain ss' p where r: "r = (ss', p)" by (cases r)
        from IH Some r obtain h' where h':
          "kmalloc_walk h (of_nat n) (of_nat (a + 32 + z)) = Some (h', of_nat (a + 32 + z + p))"
          "layout h' (a + 32 + z) ss'" "\<forall>x < a + 32 + z. h' (of_nat x) = h (of_nat x)"
          by auto
        have "ss' \<noteq> []" using Some r by (cases ss) (auto split: if_splits)
        moreover have "h' (of_nat a) = h (of_nat a)" using h'(3) by simp
        ultimately have "layout h' a ((z, f) # ss')" using h'(2) hdr ss by simp
        moreover have "kmalloc_walk h (of_nat n) (of_nat (a + 32 + z)) =
            Some (h', of_nat (a + (32 + z + p)))"
          using h'(1) by (simp only: add.assoc)
        ultimately show ?thesis
          unfolding al using ss walk h'(3) Some r by (auto simp del: of_nat_add)
      qed
    qed
  qed
qed simp

lemma unat_ALIGN16:
  assumes "unat n + 15 < 2 ^ 64"
  shows "unat (ALIGN16 n) = (unat n + 15) div 16 * 16"
proof -
  have "ALIGN16 n = (n + 15) AND NOT (mask 4)"
    by (simp add: ALIGN16_def mask_numeral)
  moreover have "unat (n + 15) = unat n + 15"
    using assms by (subst unat_plus_no_wrap) simp_all
  ultimately show ?thesis by (simp add: unat_and_not_mask)
qed

text \<open>First fit keeps the arena tiled, the sizes aligned and free blocks apart.\<close>

lemma a_alloc_span: "a_alloc n ss = Some (ss', p) \<Longrightarrow> span ss' = span ss"
  by (induction n ss arbitrary: ss' p rule: a_alloc.induct) (auto split: if_splits)

lemma a_alloc_nonempty: "a_alloc n ss = Some (ss', p) \<Longrightarrow> ss' \<noteq> []"
  by (cases ss) (auto split: if_splits)

lemma a_alloc_aligned:
  "a_alloc n ss = Some (ss', p) \<Longrightarrow> 16 dvd n \<Longrightarrow> list_all (\<lambda>(z, f). 16 dvd z) ss \<Longrightarrow>
   list_all (\<lambda>(z, f). 16 dvd z) ss'"
proof (induction n ss arbitrary: ss' p rule: a_alloc.induct)
  case (2 n z f ss)
  have "16 dvd (32::nat)" by simp
  with 2 show ?case by (fastforce split: if_splits intro: dvd_diff_nat)
qed simp

lemma a_alloc_coalesced:
  "a_alloc n ss = Some (ss', p) \<Longrightarrow> coalesced ss \<Longrightarrow>
   coalesced ss' \<and> (ss \<noteq> [] \<longrightarrow> snd (hd ss') \<longrightarrow> snd (hd ss))"
proof (induction n ss arbitrary: ss' p rule: a_alloc.induct)
  case (2 n z f ss)
  show ?case
  proof (cases "f \<and> n \<le> z")
    case True
    with 2 show ?thesis by (cases ss) (auto split: if_splits)
  next
    case False
    with "2.prems" obtain ss'' q where q: "a_alloc n ss = Some (ss'', q)" "ss' = (z, f) # ss''"
      by (auto split: if_splits)
    have "coalesced ss" using "2.prems"(2) by (cases ss) auto
    with "2.IH" [OF False q(1)] have IH: "coalesced ss''" "ss \<noteq> [] \<longrightarrow> snd (hd ss'') \<longrightarrow> snd (hd ss)"
      by auto
    have ss: "ss \<noteq> []" using q(1) by auto
    with "2.prems"(2) have "\<not> (f \<and> snd (hd ss))" by (cases ss) auto
    with IH ss q show ?thesis by (cases ss'') auto
  qed
qed simp

lemma a_alloc_None: "a_alloc n ss = None \<longleftrightarrow> (\<forall>(z, f) \<in> set ss. f \<longrightarrow> z < n)"
  by (induction n ss rule: a_alloc.induct) auto

text \<open>Where first fit takes its block, and what it leaves there.\<close>

definition taken :: "nat \<Rightarrow> nat \<Rightarrow> seg list" where
  "taken n z = (if n + 48 \<le> z then [(n, False), (z - n - 32, True)] else [(z, False)])"

lemma a_alloc_split:
  assumes "a_alloc n ss = Some (ss', p)"
  obtains pre z post where "ss = pre @ (z, True) # post" "n \<le> z" "p = span pre + 32"
    "ss' = pre @ taken n z @ post" "\<forall>(y, f) \<in> set pre. f \<longrightarrow> y < n"
  using assms
proof (induction n ss arbitrary: ss' p thesis rule: a_alloc.induct)
  case (2 n z f ss)
  show ?case
  proof (cases "f \<and> n \<le> z")
    case True
    show ?thesis
      by (rule "2.prems"(1) [of "[]" z ss]) (use True "2.prems"(2) in \<open>auto simp: taken_def split: if_splits\<close>)
  next
    case False
    with "2.prems"(2) obtain ss'' q where q: "a_alloc n ss = Some (ss'', q)"
      "ss' = (z, f) # ss''" "p = 32 + z + q"
      by (auto split: if_splits)
    obtain pre y post where "ss = pre @ (y, True) # post" "n \<le> y" "q = span pre + 32"
      "ss'' = pre @ taken n y @ post" "\<forall>(y, f) \<in> set pre. f \<longrightarrow> y < n"
      using "2.IH" [OF False _ q(1)] by blast
    with q False show ?thesis
      by (intro "2.prems"(1) [of "(z, f) # pre" y post]) auto
  qed
qed simp

lemma allocated_append: "allocated a (xs @ ys) = allocated a xs \<union> allocated (a + span xs) ys"
  by (induction a xs rule: allocated.induct) (auto simp: add_ac)

lemma allocated_bounds: "(x, n) \<in> allocated a ss \<Longrightarrow> a + 32 \<le> x \<and> x + n \<le> a + span ss"
  by (induction a ss rule: allocated.induct) (force split: if_splits)+

lemma allocated_taken:
  assumes "n \<le> z"
  shows "\<exists>m. n \<le> m \<and> m \<le> z \<and> allocated a (taken n z) = {(a + 32, m)} \<and> span (taken n z) = 32 + z"
  using assms by (auto simp: taken_def)

lemma a_alloc_allocated:
  assumes "a_alloc n ss = Some (ss', p)"
  obtains m where "n \<le> m" "allocated a ss' = insert (a + p, m) (allocated a ss)"
    "a + p + m \<le> a + span ss" "32 \<le> p"
    "\<forall>(y, k) \<in> allocated a ss. y + k \<le> a + p \<or> a + p + m \<le> y"
proof -
  obtain pre z post where sp: "ss = pre @ (z, True) # post" "n \<le> z" "p = span pre + 32"
    "ss' = pre @ taken n z @ post"
    using assms by (rule a_alloc_split)
  obtain m where m: "n \<le> m" "m \<le> z" "allocated (a + span pre) (taken n z) = {(a + p, m)}"
    "span (taken n z) = 32 + z"
    using allocated_taken [OF sp(2), of "a + span pre"] sp(3) by (auto simp: add_ac)
  have old: "allocated a ss = allocated a pre \<union> allocated (a + span pre + 32 + z) post"
    by (simp add: sp allocated_append)
  show thesis
  proof
    show "n \<le> m" by fact
    show "allocated a ss' = insert (a + p, m) (allocated a ss)"
      using m by (simp add: sp(4) allocated_append old add_ac)
    show "a + p + m \<le> a + span ss" "32 \<le> p" using m sp by simp_all
    show "\<forall>(y, k) \<in> allocated a ss. y + k \<le> a + p \<or> a + p + m \<le> y"
      unfolding old using m(2) sp(3) by (auto dest!: allocated_bounds)
  qed
qed

lemma heap_inv_start16:
  assumes "heap_inv s ss"
  shows "16 \<le> unat (heap_start s)"
  using assms by (auto simp: heap_inv_def dest: dvd_imp_le)

text \<open>\<open>kmalloc\<close> is first fit on the segments, for every request that does not overflow the
  rounding.\<close>

lemma kmalloc_refines:
  assumes inv: "heap_inv s ss" and n: "n \<noteq> 0" "unat n + 15 < 2 ^ 64"
  shows "case a_alloc (unat (ALIGN16 n)) ss of
      None \<Rightarrow> kmalloc s n = Some (s, 0)
    | Some (ss', p) \<Rightarrow> \<exists>s'. kmalloc s n = Some (s', of_nat (unat (heap_start s) + p)) \<and>
        heap_start s' = heap_start s \<and> heap_inv s' ss'"
proof -
  let ?a = "unat (heap_start s)" and ?n = "unat (ALIGN16 n)"
  from inv have L: "layout (blocks s) ?a ss" "ss \<noteq> []" "?a + span ss < 2 ^ 64" "16 \<le> ?a"
    using heap_inv_start16 by (auto simp: heap_inv_def)
  have nlt: "?n < 2 ^ 64" using unsigned_less [of "ALIGN16 n"] by simp
  have al: "16 dvd ?n" using unat_ALIGN16 [OF n(2)] by simp
  note walk = kmalloc_walk_refines [OF L nlt]
  show ?thesis
  proof (cases "a_alloc ?n ss")
    case None
    with walk n show ?thesis by (simp add: kmalloc_def)
  next
    case (Some r)
    obtain ss' p where r: "r = (ss', p)" by (cases r)
    from walk Some r obtain h' where h': "layout h' ?a ss'"
      "kmalloc_walk (blocks s) (ALIGN16 n) (heap_start s) = Some (h', of_nat (?a + p))"
      by auto
    have "heap_inv (s\<lparr>blocks := h'\<rparr>) ss'"
      using inv h'(1) a_alloc_span [of ?n ss ss' p] a_alloc_nonempty [of ?n ss ss' p]
        a_alloc_aligned [of ?n ss ss' p] a_alloc_coalesced [of ?n ss ss' p] Some r al
      by (simp add: heap_inv_def)
    with h'(2) n Some r show ?thesis by (auto simp: kmalloc_def simp del: of_nat_add)
  qed
qed

section \<open>Freeing refines merging\<close>

lemma a_merge_prev_snoc:
  "a_merge_prev (pre @ [(x, f)]) ((z, g) # ss) =
     (if f then pre @ (x + (32 + z), True) # ss else pre @ (x, f) # (z, g) # ss)"
proof (induction pre)
  case Nil
  show ?case by (cases f) simp_all
next
  case (Cons t pre)
  then show ?case by (cases pre) (auto split: if_splits)
qed

lemma a_merge_next_cases:
  obtains y post' where "post = (y, True) # post'" "a_merge_next z post = (z + (32 + y), True) # post'"
  | "post = [] \<or> \<not> snd (hd post)" "a_merge_next z post = (z, True) # post"
  by (cases "(z, post)" rule: a_merge_next.cases) auto

lemma merge_next_layout:
  assumes "layout h a ((z, True) # post)" "a + 32 + z + span post < 2 ^ 64" "0 < a"
  shows "layout (merge_next h (of_nat a)) a (a_merge_next z post)"
    and "x < a \<Longrightarrow> merge_next h (of_nat a) (of_nat x) = h (of_nat x)"
proof -
  have hdr: "h (of_nat a) = \<lparr>bsize = of_nat z, is_free = True,
      bnext = (if post = [] then 0 else of_nat (a + 32 + z))\<rparr>" and tl: "layout h (a + 32 + z) post"
    using assms(1) by auto
  show "layout (merge_next h (of_nat a)) a (a_merge_next z post)"
  proof (cases post z rule: a_merge_next_cases)
    case (1 y post')
    have nb: "(of_nat (a + 32 + z) :: u64) \<noteq> 0"
      using assms(2,3) of_nat_u64_eq_iff [of "a + 32 + z" 0] by simp
    have hn: "h (of_nat (a + 32 + z)) = \<lparr>bsize = of_nat y, is_free = True,
        bnext = (if post' = [] then 0 else of_nat (a + 32 + z + 32 + y))\<rparr>"
      and tl': "layout h (a + 32 + z + 32 + y) post'"
      using tl 1(1) by (auto simp del: of_nat_add)
    have m: "merge_next h (of_nat a) = h(of_nat a := \<lparr>bsize = of_nat (z + (32 + y)), is_free = True,
        bnext = (if post' = [] then 0 else of_nat (a + 32 + z + 32 + y))\<rparr>)"
    proof -
      have "of_nat z + (HEADER_SIZE + of_nat y) = (of_nat (z + (32 + y)) :: u64)"
        by (simp add: HEADER_SIZE_def)
      then show ?thesis
        using nb 1(1) by (simp add: merge_next_def Let_def hdr hn del: of_nat_add)
    qed
    have "layout (merge_next h (of_nat a)) (a + 32 + z + 32 + y) post'"
      unfolding m using tl' assms(2) 1(1) by (intro layout_upd_below) auto
    then show ?thesis by (simp add: 1(2) m add_ac)
  next
    case 2
    have m: "merge_next h (of_nat a) = h"
    proof (cases post)
      case Nil
      then show ?thesis by (simp add: merge_next_def hdr)
    next
      case (Cons t post')
      then have "\<not> is_free (h (of_nat (a + 32 + z)))" using 2(1) tl by (cases t) auto
      with Cons show ?thesis by (simp add: merge_next_def hdr)
    qed
    with assms(1) 2(2) show ?thesis by simp
  qed
  show "merge_next h (of_nat a) (of_nat x) = h (of_nat x)" if "x < a"
  proof -
    have "(of_nat x :: u64) \<noteq> of_nat a" using that assms(2) by simp
    then show ?thesis by (simp add: merge_next_def Let_def)
  qed
qed

lemma find_prev_layout:
  assumes "layout h a (pre @ (x, f) # ss)" "ss \<noteq> []" "0 < a"
    and "a + span (pre @ (x, f) # ss) < 2 ^ 64"
  shows "find_prev h (of_nat (a + span pre + 32 + x)) (of_nat a) = Some (of_nat (a + span pre))"
  using assms
proof (induction h a pre rule: layout.induct)
  case (1 h a)
  then show ?case by (simp add: find_prev.simps [of h _ "of_nat a"])
next
  case (2 h a z g pre)
  have "(of_nat a :: u64) \<noteq> 0"
    using "2.prems"(3,4) of_nat_u64_eq_iff [of a 0] by simp
  moreover have "(of_nat (a + 32 + z) :: u64) \<noteq> of_nat (a + span ((z, g) # pre) + 32 + x)"
    using "2.prems"(4) by (subst of_nat_u64_eq_iff) auto
  moreover have "bnext (h (of_nat a)) = of_nat (a + 32 + z)"
    using "2.prems"(1) by auto
  ultimately have "find_prev h (of_nat (a + span ((z, g) # pre) + 32 + x)) (of_nat a) =
      find_prev h (of_nat (a + span ((z, g) # pre) + 32 + x)) (of_nat (a + 32 + z))"
    by (subst find_prev.simps) (simp del: of_nat_add)
  also have "\<dots> = Some (of_nat (a + span ((z, g) # pre)))"
  proof -
    have "find_prev h (of_nat (a + 32 + z + span pre + 32 + x)) (of_nat (a + 32 + z)) =
        Some (of_nat (a + 32 + z + span pre))"
      using "2.prems" by (intro "2.IH") auto
    moreover have "a + 32 + z + span pre + 32 + x = a + span ((z, g) # pre) + 32 + x"
      "a + 32 + z + span pre = a + span ((z, g) # pre)" by simp_all
    ultimately show ?thesis by (simp only:)
  qed
  finally show ?case .
qed

lemma coalesced_append:
  "coalesced (xs @ ys) \<longleftrightarrow> coalesced xs \<and> coalesced ys \<and>
     (xs \<noteq> [] \<and> ys \<noteq> [] \<longrightarrow> \<not> (snd (last xs) \<and> snd (hd ys)))"
proof (induction xs rule: coalesced.induct)
  case (2 s)
  then show ?case by (cases ys) auto
qed auto

text \<open>The three shapes of a merge, as one case rule for the proofs about \<open>a_free\<close>.\<close>

lemma a_free_cases:
  obtains z' post' where "a_merge_next z post = (z', True) # post'"
    "(z', post') = (z, post) \<and> (post = [] \<or> \<not> snd (hd post)) \<or>
     (\<exists>y. post = (y, True) # post' \<and> z' = z + (32 + y))"
    "pre = [] \<and> a_free pre z post = (z', True) # post' \<or>
     (\<exists>pre0 x. pre = pre0 @ [(x, True)] \<and> a_free pre z post = pre0 @ (x + (32 + z'), True) # post') \<or>
     (\<exists>pre0 x. pre = pre0 @ [(x, False)] \<and> a_free pre z post = pre @ (z', True) # post')"
proof -
  obtain z' post' where m: "a_merge_next z post = (z', True) # post'"
    "(z', post') = (z, post) \<and> (post = [] \<or> \<not> snd (hd post)) \<or>
     (\<exists>y. post = (y, True) # post' \<and> z' = z + (32 + y))"
    by (cases post z rule: a_merge_next_cases) auto
  show thesis
  proof (cases pre rule: rev_cases)
    case Nil
    with m show ?thesis by (intro that) (auto simp: a_free_def)
  next
    case (snoc pre0 t)
    obtain x f where "t = (x, f)" by (cases t)
    with m snoc show ?thesis
      by (intro that [OF m]) (cases f; auto simp: a_free_def a_merge_prev_snoc)
  qed
qed

lemma a_free_span: "span (a_free pre z post) = span (pre @ (z, False) # post)"
  by (cases z post pre rule: a_free_cases) auto

lemma a_free_nonempty: "a_free pre z post \<noteq> []"
  by (cases z post pre rule: a_free_cases) auto

lemma dvd16_add: "16 dvd x \<Longrightarrow> 16 dvd y \<Longrightarrow> 16 dvd (x + (32 + y) :: nat)"
  by presburger

lemma a_free_aligned:
  "list_all (\<lambda>(y, f). 16 dvd y) (pre @ (z, False) # post) \<Longrightarrow>
   list_all (\<lambda>(y, f). 16 dvd y) (a_free pre z post)"
  by (cases z post pre rule: a_free_cases) (auto intro!: dvd16_add)

lemma a_free_coalesced:
  assumes "coalesced (pre @ (z, False) # post)"
  shows "coalesced (a_free pre z post)"
proof -
  have hd_tl: "coalesced post' \<and> (post' \<noteq> [] \<longrightarrow> \<not> snd (hd post'))"
    if "post = (y, True) # post'" for y post'
    using assms that by (cases post') (auto simp: coalesced_append)
  have post: "coalesced post"
    using assms by (cases post) (auto simp: coalesced_append)
  have free_Cons: "coalesced ((w, True) # ss) \<longleftrightarrow> coalesced ss \<and> (ss \<noteq> [] \<longrightarrow> \<not> snd (hd ss))" for w ss
    by (cases ss) auto
  show ?thesis
    by (cases z post pre rule: a_free_cases)
       (use assms hd_tl post in \<open>auto simp: coalesced_append free_Cons\<close>)
qed

lemma a_free_allocated:
  "allocated a (a_free pre z post) =
     allocated a (pre @ (z, False) # post) - {(a + span pre + 32, z)}"
proof -
  have "(a + span pre + 32, z) \<notin> allocated a pre" "(a + span pre + 32, z) \<notin> allocated (a + span pre + 32 + z) post"
    by (auto dest!: allocated_bounds)
  then show ?thesis
    by (cases z post pre rule: a_free_cases)
       (auto simp: allocated_append add_ac)
qed

text \<open>The second half of \<open>kfree\<close>: the merge with the predecessor.\<close>

lemma merge_prev_layout:
  assumes L: "layout h a (pre @ (x, f) # (z, g) # ss)" and "0 < a"
    and B: "a + span (pre @ (x, f) # (z, g) # ss) < 2 ^ 64"
    and h': "h' = (if f then h(of_nat (a + span pre) := (h (of_nat (a + span pre)))
        \<lparr>bsize := bsize (h (of_nat (a + span pre))) +
            (HEADER_SIZE + bsize (h (of_nat (a + span pre + 32 + x)))),
         bnext := bnext (h (of_nat (a + span pre + 32 + x)))\<rparr>) else h)"
  shows "layout h' a (if f then pre @ (x + (32 + z), True) # ss else pre @ (x, f) # (z, g) # ss)"
proof (cases f)
  case True
  let ?b = "a + span pre"
  have tl: "layout h ?b ((x, True) # (z, g) # ss)" using layout_tail [OF L] True by simp
  have hp: "h (of_nat ?b) = \<lparr>bsize = of_nat x, is_free = True, bnext = of_nat (?b + 32 + x)\<rparr>"
    and hb: "h (of_nat (?b + 32 + x)) = \<lparr>bsize = of_nat z, is_free = g,
        bnext = (if ss = [] then 0 else of_nat (?b + 32 + x + 32 + z))\<rparr>"
    and tl': "layout h (?b + 32 + x + 32 + z) ss"
    using tl by (auto simp del: of_nat_add)
  have sz: "of_nat x + (HEADER_SIZE + of_nat z) = (of_nat (x + (32 + z)) :: u64)"
    by (simp add: HEADER_SIZE_def)
  have m: "h' = h(of_nat ?b := \<lparr>bsize = of_nat (x + (32 + z)), is_free = True,
      bnext = (if ss = [] then 0 else of_nat (?b + 32 + x + 32 + z))\<rparr>)"
    unfolding h' using True by (simp add: hp hb sz del: of_nat_add)
  have "layout h' (?b + 32 + x + 32 + z) ss"
    unfolding m using tl' B by (intro layout_upd_below) auto
  then have "layout h' ?b ((x + (32 + z), True) # ss)" by (simp add: m add_ac)
  moreover have "h' (of_nat y) = h (of_nat y)" if "y < ?b" for y
  proof -
    have "(of_nat y :: u64) \<noteq> of_nat ?b" using that B by (subst of_nat_u64_eq_iff) simp_all
    then show ?thesis unfolding m by (simp del: of_nat_add)
  qed
  ultimately have "layout h' a (pre @ (x + (32 + z), True) # ss)"
    using B by (intro layout_replace_tail [OF L]) auto
  with True show ?thesis by simp
next
  case False
  with L h' show ?thesis by simp
qed

lemma kfree_refines:
  assumes inv: "heap_inv s (pre @ (z, False) # post)"
    and ptr: "unat ptr = unat (heap_start s) + span pre + 32"
  shows "\<exists>s'. kfree s ptr = Some s' \<and> heap_start s' = heap_start s \<and>
    heap_inv s' (a_free pre z post)"
proof -
  let ?a = "unat (heap_start s)" and ?h = "blocks s"
  let ?b = "?a + span pre"
  let ?blk = "of_nat ?b :: u64"
  define h1 where "h1 = ?h(?blk := (?h ?blk)\<lparr>is_free := True\<rparr>)"
  define h2 where "h2 = merge_next h1 ?blk"
  from inv have L: "layout ?h ?a (pre @ (z, False) # post)" "0 < ?a"
    and B: "?a + span (pre @ (z, False) # post) < 2 ^ 64"
    by (auto simp: heap_inv_def)
  have Bb: "?b + 32 + z + span post < 2 ^ 64" using B by simp
  have blk: "ptr - HEADER_SIZE = ?blk"
  proof -
    have "ptr = of_nat (unat ptr)" by simp
    also have "\<dots> = ?blk + 32" by (simp add: ptr)
    finally show ?thesis by (simp add: HEADER_SIZE_def)
  qed
  have ptr0: "ptr \<noteq> 0" using ptr by auto
  have tl: "layout ?h ?b ((z, False) # post)" using layout_tail [OF L(1)] by simp
  have "layout h1 (?b + 32 + z) post"
    unfolding h1_def using tl Bb by (intro layout_upd_below) auto
  with tl have t1: "layout h1 ?b ((z, True) # post)" by (simp add: h1_def)
  have t2: "layout h2 ?b (a_merge_next z post)"
    unfolding h2_def using t1 Bb L(2) by (intro merge_next_layout) auto
  have below: "h2 (of_nat x) = ?h (of_nat x)" if "x < ?b" for x
  proof -
    have "(of_nat x :: u64) \<noteq> ?blk" using that Bb by (subst of_nat_u64_eq_iff) simp_all
    moreover have "h2 (of_nat x) = h1 (of_nat x)"
      unfolding h2_def using merge_next_layout(2) [OF t1 Bb _ that] L(2) by simp
    ultimately show ?thesis unfolding h1_def by (simp del: of_nat_add)
  qed
  obtain z' post' where m: "a_merge_next z post = (z', True) # post'"
    by (cases post z rule: a_merge_next_cases) auto
  have L2: "layout h2 ?a (pre @ (z', True) # post')"
    by (rule layout_replace_tail [OF L(1)]) (use t2 m below Bb in auto)
  have span2: "span ((z', True) # post') = span ((z, False) # post)"
    using m by (cases post z rule: a_merge_next_cases) auto
  have keep: "heap_inv (s\<lparr>blocks := h'\<rparr>) (a_free pre z post)"
    if "layout h' ?a (a_free pre z post)" for h'
    using that inv a_free_span a_free_nonempty a_free_aligned a_free_coalesced
    by (simp add: heap_inv_def)
  show ?thesis
  proof (cases pre rule: rev_cases)
    case Nil
    then have "kfree s ptr = Some (s\<lparr>blocks := h2\<rparr>)"
      using ptr0 by (simp add: kfree_def Let_def blk h1_def h2_def)
    moreover have "layout h2 ?a (a_free pre z post)" using L2 Nil m by (simp add: a_free_def)
    ultimately show ?thesis using keep by simp
  next
    case (snoc pre0 t)
    obtain x f where pre: "pre = pre0 @ [(x, f)]" using snoc by (cases t) auto
    have B2: "?a + span (pre0 @ (x, f) # (z', True) # post') < 2 ^ 64"
      using B span2 pre by simp
    have L2': "layout h2 ?a (pre0 @ (x, f) # (z', True) # post')" using L2 pre by simp
    have bb: "?b = ?a + span pre0 + 32 + x" by (simp add: pre)
    have prev: "find_prev h2 ?blk (heap_start s) = Some (of_nat (?a + span pre0))"
      using find_prev_layout [OF L2' _ L(2) B2] unfolding bb by (simp del: of_nat_add)
    have ne: "heap_start s \<noteq> ?blk"
    proof
      assume "heap_start s = ?blk"
      then have "?a = unat ?blk" by simp
      also have "\<dots> = ?b" using Bb by (intro unat_of_nat_u64) simp
      finally show False by (simp add: pre)
    qed
    have p0: "(of_nat (?a + span pre0) :: u64) \<noteq> 0"
      using of_nat_u64_eq_iff [of "?a + span pre0" 0] L(2) B2 by simp
    have fr: "is_free (h2 (of_nat (?a + span pre0))) = f"
      using layout_tail [OF L2'] by simp
    define h3 where "h3 = (if f then h2(of_nat (?a + span pre0) := (h2 (of_nat (?a + span pre0)))
        \<lparr>bsize := bsize (h2 (of_nat (?a + span pre0))) +
            (HEADER_SIZE + bsize (h2 (of_nat (?a + span pre0 + 32 + x)))),
         bnext := bnext (h2 (of_nat (?a + span pre0 + 32 + x)))\<rparr>) else h2)"
    have "layout h3 ?a (a_free pre z post)"
      using merge_prev_layout [OF L2' L(2) B2 h3_def] by (simp add: a_free_def pre m a_merge_prev_snoc)
    moreover have "kfree s ptr = Some (s\<lparr>blocks := h3\<rparr>)"
      using ptr0 ne p0 fr
      by (simp add: kfree_def Let_def blk h1_def [symmetric] h2_def [symmetric] prev h3_def bb [symmetric]
               del: of_nat_add)
    ultimately show ?thesis using keep by simp
  qed
qed

lemma a_free_taken:
  assumes "n \<le> z" "coalesced (pre @ (z, True) # post)"
  obtains m post' where "taken n z @ post = (m, False) # post'" "a_free pre m post' = pre @ (z, True) # post"
proof -
  have prev: "a_merge_prev pre ((z, True) # post) = pre @ (z, True) # post"
    using assms(2) by (cases pre rule: rev_cases) (auto simp: a_merge_prev_snoc coalesced_append)
  show thesis
  proof (cases "n + 48 \<le> z")
    case True
    with prev show ?thesis
      by (intro that [of n "(z - n - 32, True) # post"]) (simp_all add: taken_def a_free_def)
  next
    case False
    have "a_merge_next z post = (z, True) # post"
      using assms(2) by (cases post z rule: a_merge_next_cases) (auto simp: coalesced_append)
    with prev False show ?thesis
      by (intro that [of z post]) (simp_all add: taken_def a_free_def)
  qed
qed

section \<open>The header list determines the segments\<close>

lemma layout_unique:
  "layout h a ss \<Longrightarrow> layout h a ts \<Longrightarrow> ss \<noteq> [] \<Longrightarrow> ts \<noteq> [] \<Longrightarrow>
   a + span ss < 2 ^ 64 \<Longrightarrow> a + span ts < 2 ^ 64 \<Longrightarrow> ss = ts"
proof (induction h a ss arbitrary: ts rule: layout.induct)
  case (2 h a z f ss)
  obtain y g ts' where ts: "ts = (y, g) # ts'"
    using "2.prems"(4) by (cases ts) auto
  have eq: "(of_nat z :: u64) = of_nat y" "f = g"
    "(if ss = [] then 0 else of_nat (a + 32 + z)) = (if ts' = [] then 0 else of_nat (a + 32 + y) :: u64)"
    using "2.prems"(1,2) by (auto simp: ts simp del: of_nat_add)
  have zy: "z = y" using eq(1) "2.prems"(5,6) ts by simp
  have "(of_nat (a + 32 + z) :: u64) \<noteq> 0"
    using "2.prems"(5) of_nat_u64_eq_iff [of "a + 32 + z" 0] by simp
  with eq(3) zy have "ss = [] \<longleftrightarrow> ts' = []" by (auto split: if_splits simp del: of_nat_add)
  with "2.IH" [of ts'] "2.prems" ts zy eq(2) show ?case by auto
qed simp

lemma heap_inv_unique: "heap_inv s ss \<Longrightarrow> heap_inv s ts \<Longrightarrow> ss = ts"
  unfolding heap_inv_def by (blast intro: layout_unique)

section \<open>Accounting\<close>

fun used_bytes :: "seg list \<Rightarrow> nat" where
  "used_bytes [] = 0"
| "used_bytes ((z, f) # ss) = (if f then 0 else z + 32) + used_bytes ss"

fun free_bytes :: "seg list \<Rightarrow> nat" where
  "free_bytes [] = 0"
| "free_bytes ((z, f) # ss) = (if f then z else 0) + free_bytes ss"

lemma heap_get_used_loop_layout:
  "layout h a ss \<Longrightarrow> 0 < a \<Longrightarrow> a + span ss < 2 ^ 64 \<Longrightarrow>
   heap_get_used_loop h (if ss = [] then 0 else of_nat a) u = Some (u + of_nat (used_bytes ss))"
proof (induction h a ss arbitrary: u rule: layout.induct)
  case (1 h a)
  show ?case by (simp add: heap_get_used_loop.simps [of h 0])
next
  case (2 h a z f ss)
  have "(of_nat a :: u64) \<noteq> 0" using "2.prems"(2,3) of_nat_u64_eq_iff [of a 0] by simp
  with "2.prems" "2.IH" [of "if f then u else u + (of_nat z + 32)"] show ?case
    by (cases "ss = []"; cases f)
       (auto simp: heap_get_used_loop.simps [of h "of_nat a"] HEADER_SIZE_def add_ac)
qed

lemma heap_get_free_loop_layout:
  "layout h a ss \<Longrightarrow> 0 < a \<Longrightarrow> a + span ss < 2 ^ 64 \<Longrightarrow>
   heap_get_free_loop h (if ss = [] then 0 else of_nat a) u = Some (u + of_nat (free_bytes ss))"
proof (induction h a ss arbitrary: u rule: layout.induct)
  case (1 h a)
  show ?case by (simp add: heap_get_free_loop.simps [of h 0])
next
  case (2 h a z f ss)
  have "(of_nat a :: u64) \<noteq> 0" using "2.prems"(2,3) of_nat_u64_eq_iff [of a 0] by simp
  with "2.prems" "2.IH" [of "if f then u + of_nat z else u"] show ?case
    by (cases "ss = []"; cases f)
       (auto simp: heap_get_free_loop.simps [of h "of_nat a"] add_ac)
qed

lemma used_free_span:
  "used_bytes ss + free_bytes ss + 32 * length (filter snd ss) = span ss"
  by (induction ss rule: span.induct) auto

section \<open>The allocator contract\<close>

text \<open>
  What the kernel's other parts rely on when they call \<open>kmalloc\<close> and \<open>kfree\<close>: \<open>live s\<close> is
  the set of payload ranges handed out and not yet returned.
\<close>

locale allocator =
  fixes ok :: "'s \<Rightarrow> bool"
    and live :: "'s \<Rightarrow> (nat \<times> nat) set"
    and alloc :: "'s \<Rightarrow> u64 \<Rightarrow> ('s \<times> u64) option"
    and free :: "'s \<Rightarrow> u64 \<Rightarrow> 's option"
  assumes alloc_returns: "ok s \<Longrightarrow> n \<noteq> 0 \<Longrightarrow> unat n + 15 < 2 ^ 64 \<Longrightarrow>
      \<exists>s' p. alloc s n = Some (s', p) \<and> ok s' \<and>
        (if p = 0 then s' = s
         else \<exists>m. unat n \<le> m \<and> live s' = insert (unat p, m) (live s) \<and>
           (\<forall>(y, k) \<in> live s. y + k \<le> unat p \<or> unat p + m \<le> y) \<and>
           (\<forall>k. (unat p, k) \<notin> live s))"
    and free_returns: "ok s \<Longrightarrow> (unat p, m) \<in> live s \<Longrightarrow>
      \<exists>s'. free s p = Some s' \<and> ok s' \<and> live s' = live s - {(unat p, m)}"
begin

lemma alloc_cases:
  assumes "ok s" "n \<noteq> 0" "unat n + 15 < 2 ^ 64" "alloc s n = Some (s', p)" "p \<noteq> 0"
  obtains m where "ok s'" "unat n \<le> m" "live s' = insert (unat p, m) (live s)"
    "\<forall>(y, k) \<in> live s. y + k \<le> unat p \<or> unat p + m \<le> y" "\<forall>k. (unat p, k) \<notin> live s"
  using alloc_returns [OF assms(1-3)] assms(4,5) by auto

text \<open>Two allocations without a free in between never overlap.\<close>

lemma two_allocs_disjoint:
  assumes "ok s" and n: "n \<noteq> 0" "unat n + 15 < 2 ^ 64" and k: "k \<noteq> 0" "unat k + 15 < 2 ^ 64"
    and "alloc s n = Some (s', p)" "p \<noteq> 0" "alloc s' k = Some (s'', q)" "q \<noteq> 0"
  shows "unat p + unat n \<le> unat q \<or> unat q + unat k \<le> unat p"
proof -
  obtain m where m: "ok s'" "unat n \<le> m" "live s' = insert (unat p, m) (live s)"
    by (rule alloc_cases [OF assms(1) n assms(6,7)]) blast
  obtain j where "unat k \<le> j" "\<forall>(y, i) \<in> live s'. y + i \<le> unat q \<or> unat q + j \<le> y"
    by (rule alloc_cases [OF m(1) k assms(8,9)]) blast
  with m(2,3) show ?thesis by auto
qed

text \<open>Giving a block straight back restores the set of live blocks.\<close>

lemma alloc_then_free:
  assumes "ok s" "n \<noteq> 0" "unat n + 15 < 2 ^ 64" "alloc s n = Some (s', p)" "p \<noteq> 0"
  shows "\<exists>s''. free s' p = Some s'' \<and> ok s'' \<and> live s'' = live s"
proof -
  obtain m where m: "ok s'" "live s' = insert (unat p, m) (live s)" "\<forall>k. (unat p, k) \<notin> live s"
    by (rule alloc_cases [OF assms]) blast
  then show ?thesis using free_returns [of s' p m] by auto
qed

end

definition heap_ok :: "heap_state \<Rightarrow> bool" where
  "heap_ok s \<longleftrightarrow> (\<exists>ss. heap_inv s ss)"

definition heap_live :: "heap_state \<Rightarrow> (nat \<times> nat) set" where
  "heap_live s = {r. \<exists>ss. heap_inv s ss \<and> r \<in> allocated (unat (heap_start s)) ss}"

lemma heap_live_eq: "heap_inv s ss \<Longrightarrow> heap_live s = allocated (unat (heap_start s)) ss"
  using heap_inv_unique by (auto simp: heap_live_def)

lemma allocated_split:
  "(x, m) \<in> allocated a ss \<Longrightarrow> \<exists>pre post. ss = pre @ (m, False) # post \<and> x = a + span pre + 32"
proof (induction a ss rule: allocated.induct)
  case (2 a z f ss)
  show ?case
  proof (cases "\<not> f \<and> (x, m) = (a + 32, z)")
    case True
    then show ?thesis by (intro exI [of _ "[]"] exI [of _ ss]) auto
  next
    case False
    with "2.prems" have "(x, m) \<in> allocated (a + 32 + z) ss" by (auto split: if_splits)
    then obtain pre post where "ss = pre @ (m, False) # post" "x = a + 32 + z + span pre + 32"
      using "2.IH" by blast
    then show ?thesis by (intro exI [of _ "(z, f) # pre"] exI [of _ post]) simp
  qed
qed simp

lemma same_segment:
  "pre @ s # post = pre' @ t # post' \<Longrightarrow> span pre = span pre' \<Longrightarrow> s = t"
proof (induction pre arbitrary: pre')
  case Nil
  then show ?case by (cases pre' rule: span.cases) auto
next
  case (Cons u pre)
  then show ?case by (cases pre'; cases u) auto
qed

lemma kmalloc_live:
  assumes inv: "heap_inv s ss" and n: "n \<noteq> 0" "unat n + 15 < 2 ^ 64"
    and al: "a_alloc (unat (ALIGN16 n)) ss = Some (ss', p)"
  obtains s' m where "kmalloc s n = Some (s', of_nat (unat (heap_start s) + p))"
    "heap_inv s' ss'" "heap_start s' = heap_start s"
    "unat (of_nat (unat (heap_start s) + p) :: u64) = unat (heap_start s) + p" "unat n \<le> m"
    "heap_live s' = insert (unat (heap_start s) + p, m) (heap_live s)"
    "\<forall>(y, k) \<in> heap_live s. y + k \<le> unat (heap_start s) + p \<or> unat (heap_start s) + p + m \<le> y"
    "\<forall>k. (unat (heap_start s) + p, k) \<notin> heap_live s"
proof -
  let ?a = "unat (heap_start s)"
  obtain s' where s': "kmalloc s n = Some (s', of_nat (?a + p))" "heap_start s' = heap_start s"
    "heap_inv s' ss'"
    using kmalloc_refines [OF inv n] al by auto
  obtain m where m: "unat (ALIGN16 n) \<le> m" "allocated ?a ss' = insert (?a + p, m) (allocated ?a ss)"
    "?a + p + m \<le> ?a + span ss" "\<forall>(y, k) \<in> allocated ?a ss. y + k \<le> ?a + p \<or> ?a + p + m \<le> y"
    using al by (rule a_alloc_allocated)
  have "unat n \<le> unat (ALIGN16 n)" using unat_ALIGN16 [OF n(2)] by simp
  moreover have "0 < unat n" using n(1) by (simp add: unat_gt_0)
  ultimately have "unat n \<le> m" "0 < m" using m(1) by simp_all
  have "?a + p < 2 ^ 64" using m(3) inv by (simp add: heap_inv_def)
  then have "unat (of_nat (?a + p) :: u64) = ?a + p" by (rule unat_of_nat_u64)
  moreover have "(?a + p, k) \<notin> heap_live s" for k
  proof
    assume "(?a + p, k) \<in> heap_live s"
    then have k: "(?a + p, k) \<in> allocated ?a ss" using heap_live_eq [OF inv] by simp
    obtain pre post where "ss = pre @ (k, False) # post" "p = span pre + 32"
      using allocated_split [OF k] by auto
    moreover obtain pre' z post' where "ss = pre' @ (z, True) # post'" "p = span pre' + 32"
      by (rule a_alloc_split [OF al]) blast
    ultimately show False using same_segment [of pre "(k, False)" post pre' "(z, True)" post'] by simp
  qed
  ultimately show thesis
    using that [OF s'(1,3,2)] \<open>unat n \<le> m\<close> m(2,4) heap_live_eq [OF inv] heap_live_eq [OF s'(3)] s'(2)
    by auto
qed

lemma kfree_live:
  assumes "heap_ok s" "(unat p, m) \<in> heap_live s"
  shows "\<exists>s'. kfree s p = Some s' \<and> heap_ok s' \<and> heap_live s' = heap_live s - {(unat p, m)}"
proof -
  let ?a = "unat (heap_start s)"
  obtain ss where inv: "heap_inv s ss" using assms(1) by (auto simp: heap_ok_def)
  then have "(unat p, m) \<in> allocated ?a ss" using assms(2) heap_live_eq by simp
  then obtain pre post where ss: "ss = pre @ (m, False) # post" "unat p = ?a + span pre + 32"
    using allocated_split by blast
  with inv obtain s' where s': "kfree s p = Some s'" "heap_start s' = heap_start s"
    "heap_inv s' (a_free pre m post)"
    using kfree_refines [of s pre m post p] by auto
  have "heap_live s' = allocated ?a ss - {(unat p, m)}"
    using heap_live_eq [OF s'(3)] s'(2) ss by (simp add: a_free_allocated)
  with s' inv show ?thesis using heap_live_eq by (auto simp: heap_ok_def)
qed

interpretation kheap: allocator heap_ok heap_live kmalloc kfree
proof
  fix s and n :: u64
  assume ok: "heap_ok s" and n: "n \<noteq> 0" "unat n + 15 < 2 ^ 64"
  then obtain ss where inv: "heap_inv s ss" by (auto simp: heap_ok_def)
  show "\<exists>s' p. kmalloc s n = Some (s', p) \<and> heap_ok s' \<and>
        (if p = 0 then s' = s
         else \<exists>m. unat n \<le> m \<and> heap_live s' = insert (unat p, m) (heap_live s) \<and>
           (\<forall>(y, k) \<in> heap_live s. y + k \<le> unat p \<or> unat p + m \<le> y) \<and>
           (\<forall>k. (unat p, k) \<notin> heap_live s))"
  proof (cases "a_alloc (unat (ALIGN16 n)) ss")
    case None
    with kmalloc_refines [OF inv n] ok show ?thesis by simp
  next
    case (Some r)
    obtain ss' p where al: "a_alloc (unat (ALIGN16 n)) ss = Some (ss', p)"
      using Some by (cases r) simp
    obtain s' m where s':
      "kmalloc s n = Some (s', of_nat (unat (heap_start s) + p))" "heap_inv s' ss'"
      "heap_start s' = heap_start s"
      "unat (of_nat (unat (heap_start s) + p) :: u64) = unat (heap_start s) + p" "unat n \<le> m"
      "heap_live s' = insert (unat (heap_start s) + p, m) (heap_live s)"
      "\<forall>(y, k) \<in> heap_live s. y + k \<le> unat (heap_start s) + p \<or> unat (heap_start s) + p + m \<le> y"
      "\<forall>k. (unat (heap_start s) + p, k) \<notin> heap_live s"
      by (rule kmalloc_live [OF inv n al])
    have "0 < unat (heap_start s)" using inv by (simp add: heap_inv_def)
    with s'(4) have "(of_nat (unat (heap_start s) + p) :: u64) \<noteq> 0"
      by (metis add_gr_0 less_irrefl unat_0)
    with s' show ?thesis by (auto simp: heap_ok_def simp del: of_nat_add)
  qed
next
  fix s and p :: u64 and m
  show "heap_ok s \<Longrightarrow> (unat p, m) \<in> heap_live s \<Longrightarrow>
      \<exists>s'. kfree s p = Some s' \<and> heap_ok s' \<and> heap_live s' = heap_live s - {(unat p, m)}"
    by (rule kfree_live)
qed

section \<open>Properties\<close>

text \<open>A heap of one page at address 4096, as \<open>heap_init\<close> leaves it, for the witnesses.\<close>

definition page_heap :: heap_state where
  "page_heap = heap_init \<lparr>heap_start = 0, blocks = \<lambda>_. \<lparr>bsize = 0, is_free = False, bnext = 0\<rparr>\<rparr> 4096 4096"

lemma heap_init_inv:
  assumes "16 dvd unat start" "0 < unat start" "16 dvd unat sz" "32 \<le> unat sz"
    and "unat start + unat sz < 2 ^ 64"
  shows "heap_inv (heap_init s start sz) [(unat sz - 32, True)]"
proof -
  have "unat start + 15 < 2 ^ 64" using assms(4,5) by simp
  then have "unat (ALIGN16 start) = unat start"
    using unat_ALIGN16 [of start] assms(1) by (auto elim!: dvdE)
  then have st: "ALIGN16 start = start" by (simp add: word_unat_eq_iff)
  have "unat (sz - HEADER_SIZE) = unat sz - 32"
    using assms(4) by (simp add: HEADER_SIZE_def unat_sub word_le_nat_alt)
  moreover have "of_nat (unat (sz - HEADER_SIZE)) = sz - HEADER_SIZE" by simp
  ultimately have "sz - HEADER_SIZE = of_nat (unat sz - 32)" by (simp only:)
  with assms st show ?thesis
    by (auto simp: heap_inv_def heap_init_def Let_def dvd_diff_nat)
qed

lemma page_heap_inv: "heap_inv page_heap [(4064, True)]"
  using heap_init_inv [of 4096 4096] by (simp add: page_heap_def)

text \<open>C3: on every heap that satisfies the invariant, and for every request whose rounding to 16
  does not overflow, \<open>kmalloc\<close> terminates and is first fit on the list of blocks: it returns
  \<open>NULL\<close> and changes nothing when no free block is large enough, and otherwise takes the first
  such block, splits it when the rest can hold a header and 16 bytes, and keeps the invariant
  (headers tile the arena in address order, sizes are multiples of 16, no two free blocks
  are neighbours).\<close>

theorem kmalloc_is_first_fit:
  assumes "heap_inv s ss" "n \<noteq> 0" "unat n + 15 < 2 ^ 64"
  shows "case a_alloc (unat (ALIGN16 n)) ss of
      None \<Rightarrow> kmalloc s n = Some (s, 0)
    | Some (ss', p) \<Rightarrow> \<exists>s'. kmalloc s n = Some (s', of_nat (unat (heap_start s) + p)) \<and>
        heap_start s' = heap_start s \<and> heap_inv s' ss'"
  by (rule kmalloc_refines [OF assms])

theorem kmalloc_is_first_fit_witness:
  "\<exists>s'. kmalloc page_heap 100 = Some (s', 4128) \<and>
     heap_inv s' [(112, False), (3920, True)]"
proof -
  have a: "unat (ALIGN16 100) = 112" by (simp add: unat_ALIGN16)
  have st: "heap_start page_heap = 4096"
    by (simp add: page_heap_def heap_init_def Let_def ALIGN16_def)
  show ?thesis
    using kmalloc_is_first_fit [OF page_heap_inv, of 100] by (auto simp: a st)
qed

text \<open>two \<open>kmalloc\<close> calls that both succeed, with no \<open>kfree\<close> between them, return byte
  ranges that do not overlap.\<close>

lemma kmalloc_ranges_disjoint:
  assumes "heap_ok s" "n \<noteq> 0" "unat n + 15 < 2 ^ 64" "k \<noteq> 0" "unat k + 15 < 2 ^ 64"
    and "kmalloc s n = Some (s', p)" "p \<noteq> 0" "kmalloc s' k = Some (s'', q)" "q \<noteq> 0"
  shows "unat p + unat n \<le> unat q \<or> unat q + unat k \<le> unat p"
  by (rule kheap.two_allocs_disjoint [OF assms])

lemma page_heap_two:
  obtains s1 s2 where "kmalloc page_heap 100 = Some (s1, 4128)" "kmalloc s1 200 = Some (s2, 4272)"
    "heap_inv s1 [(112, False), (3920, True)]"
proof -
  have a: "unat (ALIGN16 100) = 112" "unat (ALIGN16 200) = 208" by (simp_all add: unat_ALIGN16)
  have st: "heap_start page_heap = 4096"
    by (simp add: page_heap_def heap_init_def Let_def ALIGN16_def)
  obtain s1 where s1: "kmalloc page_heap 100 = Some (s1, 4128)" "heap_start s1 = 4096"
    "heap_inv s1 [(112, False), (3920, True)]"
    using kmalloc_refines [OF page_heap_inv, of 100] by (auto simp: a st)
  obtain s2 where "kmalloc s1 200 = Some (s2, 4272)"
    using kmalloc_refines [OF s1(3), of 200] by (auto simp: a s1(2))
  with s1 that show thesis by blast
qed

text \<open>C11: \<open>kfree\<close> of the payload pointer of a block in use terminates, marks the block free, merges
  it with a free successor and then with a free predecessor, keeps the invariant, and removes
  exactly that block from the set of blocks in use.\<close>

theorem kfree_merges_and_releases:
  assumes "heap_inv s (pre @ (z, False) # post)" "unat ptr = unat (heap_start s) + span pre + 32"
  shows "\<exists>s'. kfree s ptr = Some s' \<and> heap_inv s' (a_free pre z post) \<and>
    heap_live s' = heap_live s - {(unat ptr, z)}"
proof -
  obtain s' where s': "kfree s ptr = Some s'" "heap_start s' = heap_start s"
    "heap_inv s' (a_free pre z post)"
    using kfree_refines [OF assms] by blast
  then show ?thesis
    using heap_live_eq [OF s'(3)] heap_live_eq [OF assms(1)] assms(2) by (simp add: a_free_allocated)
qed

theorem kfree_merges_and_releases_witness:
  "\<exists>s1 s2. kmalloc page_heap 100 = Some (s1, 4128) \<and> kfree s1 4128 = Some s2 \<and>
     heap_inv s2 [(4064, True)]"
proof -
  obtain s1 s2 where s: "kmalloc page_heap 100 = Some (s1, 4128)"
    "heap_inv s1 [(112, False), (3920, True)]"
    by (rule page_heap_two)
  have "heap_start page_heap = 4096"
    by (simp add: page_heap_def heap_init_def Let_def ALIGN16_def)
  with s(1) have "heap_start s1 = 4096" by (auto simp: kmalloc_def split: if_splits)
  then show ?thesis
    using kfree_merges_and_releases [of s1 "[]" 112 "[(3920, True)]" 4128] s
    by (auto simp: a_free_def)
qed

text \<open>freeing a block straight after allocating it restores the block list exactly as it was
  before, whether or not the allocation split a block.\<close>

lemma kmalloc_kfree_roundtrip:
  assumes "heap_inv s ss" "n \<noteq> 0" "unat n + 15 < 2 ^ 64" "kmalloc s n = Some (s', p)" "p \<noteq> 0"
  shows "\<exists>s''. kfree s' p = Some s'' \<and> heap_inv s'' ss"
proof -
  obtain ss' off where al: "a_alloc (unat (ALIGN16 n)) ss = Some (ss', off)"
    using kmalloc_refines [OF assms(1-3)] assms(4,5) by (auto split: option.splits)
  obtain s1 m where s1: "kmalloc s n = Some (s1, of_nat (unat (heap_start s) + off))"
    "heap_inv s1 ss'" "heap_start s1 = heap_start s"
    "unat (of_nat (unat (heap_start s) + off) :: u64) = unat (heap_start s) + off"
    by (rule kmalloc_live [OF assms(1-3) al]) blast
  obtain pre z post where sp: "ss = pre @ (z, True) # post" "unat (ALIGN16 n) \<le> z"
    "off = span pre + 32" "ss' = pre @ taken (unat (ALIGN16 n)) z @ post"
    using al by (rule a_alloc_split)
  have "coalesced ss" using assms(1) by (simp add: heap_inv_def)
  then obtain k post' where k: "taken (unat (ALIGN16 n)) z @ post = (k, False) # post'"
    "a_free pre k post' = ss"
    using a_free_taken [OF sp(2), of pre post] sp(1) by blast
  have "unat p = unat (heap_start s') + span pre + 32"
    using s1 assms(4) sp(3) by auto
  with kfree_refines [of s' pre k post' p] s1 assms(4) sp(4) k show ?thesis by auto
qed

text \<open>the byte counts the heap reports add up: bytes in use, free bytes and one header per
  free block make up the whole arena.\<close>

lemma heap_accounting:
  assumes "heap_inv s ss"
  shows "\<exists>u f. heap_get_used s = Some u \<and> heap_get_free s = Some f \<and>
    unat u + unat f + 32 * length (filter snd ss) = span ss"
proof -
  let ?a = "unat (heap_start s)"
  have L: "layout (blocks s) ?a ss" "0 < ?a" "?a + span ss < 2 ^ 64" "ss \<noteq> []"
    using assms by (auto simp: heap_inv_def)
  have "heap_get_used s = Some (of_nat (used_bytes ss))"
    using heap_get_used_loop_layout [OF L(1-3), of 0] L(4) by (simp add: heap_get_used_def)
  moreover have "heap_get_free s = Some (of_nat (free_bytes ss))"
    using heap_get_free_loop_layout [OF L(1-3), of 0] L(4) by (simp add: heap_get_free_def)
  moreover have "used_bytes ss < 2 ^ 64" "free_bytes ss < 2 ^ 64"
    using used_free_span [of ss] L(3) by linarith+
  ultimately show ?thesis using used_free_span [of ss] by auto
qed

text \<open>a request within 15 bytes of \<open>2^64\<close> is not refused: rounding it to 16 wraps to 0, so
  \<open>kmalloc\<close> hands out the first free block of the heap as if 0 bytes had been asked for.\<close>

lemma kmalloc_huge_request_wraps:
  assumes "heap_inv s ss" "2 ^ 64 \<le> unat n + 15" "a_alloc 0 ss = Some (ss', off)"
  shows "\<exists>s'. kmalloc s n = Some (s', of_nat (unat (heap_start s) + off)) \<and>
    of_nat (unat (heap_start s) + off) \<noteq> (0 :: u64) \<and> heap_inv s' ss'"
proof -
  let ?a = "unat (heap_start s)"
  have n: "unat n < 2 ^ 64" using unsigned_less [of n] by simp
  have "unat (n + 15) = (unat n + 15) mod 2 ^ 64" by (simp add: unat_word_ariths)
  also have "\<dots> = unat n + 15 - 2 ^ 64" using assms(2) n by (simp add: mod_if)
  finally have "unat (n + 15) < 16" using n by simp
  then have "unat ((n + 15) AND NOT (mask 4)) = 0" by (simp add: unat_and_not_mask)
  then have z: "ALIGN16 n = 0" by (simp add: ALIGN16_def mask_numeral unat_eq_0)
  have "n \<noteq> 0" using assms(2) by auto
  from assms(1) have L: "layout (blocks s) ?a ss" "ss \<noteq> []" "?a + span ss < 2 ^ 64" "16 \<le> ?a"
    using heap_inv_start16 by (auto simp: heap_inv_def)
  obtain h' where h': "kmalloc_walk (blocks s) 0 (heap_start s) = Some (h', of_nat (?a + off))"
    "layout h' ?a ss'"
    using kmalloc_walk_refines [OF L, of 0] assms(3) by auto
  obtain m where "?a + off + m \<le> ?a + span ss"
    using assms(3) by (rule a_alloc_allocated)
  then have "(of_nat (?a + off) :: u64) \<noteq> of_nat 0"
    using L by (subst of_nat_u64_eq_iff) simp_all
  moreover have "heap_inv (s\<lparr>blocks := h'\<rparr>) ss'"
    using assms(1) h'(2) a_alloc_span [OF assms(3)] a_alloc_nonempty [OF assms(3)]
      a_alloc_aligned [OF assms(3)] a_alloc_coalesced [OF assms(3)]
    by (simp add: heap_inv_def)
  ultimately show ?thesis
    using h'(1) z \<open>n \<noteq> 0\<close> by (auto simp: kmalloc_def simp del: of_nat_add)
qed

end
