(* ===== verification/Pmm.thy ===== *)
theory Pmm
  imports Kernel_Prelude
begin

text \<open>
  The physical frame allocator, \<open>src/mm/pmm.c\<close>: a bitmap with one bit per 4 KiB frame (1 is
  allocated), the counters beside it, allocation of the lowest free frame, release,
  reservation of a range, the run-length walk \<open>pmm_region_iter\<close> and the boot-time set-up
  \<open>pmm_init\<close>.

  The bitmap is modelled as the memory behind the C pointer, a total function of the word
  index, so that an access past its end is what the code would do and not undefined.  The
  Multiboot structures are read through the functions \<open>entry_at\<close> and \<open>mods\<close> (what memory
  holds at the addresses the boot loader passed).  Log lines are left out.

  The lemmas state everything on the set of free frames: allocation takes its minimum,
  release and reservation add and remove one element or one range, and \<open>pmm_init\<close> leaves
  exactly the available frames above the bitmap that belong to no module.
\<close>

section \<open>State\<close>

record pmm =
  bitmap :: "nat \<Rightarrow> u32"
  bitmap_words :: u32
  total_frames :: u32
  used_frames :: u32

record multiboot_mmap_entry =
  entry_size :: u32
  entry_addr :: u64
  entry_len :: u64
  entry_type :: u32

record multiboot_mod =
  mod_start :: u32
  mod_end :: u32

record multiboot_info =
  mbi_flags :: u32
  mem_upper :: u32
  mods_count :: u32
  mods_addr :: u32
  mmap_length :: u32
  mmap_addr :: u32

definition MULTIBOOT_MMAP_AVAILABLE :: u32 where
  "MULTIBOOT_MMAP_AVAILABLE = 1"

section \<open>Bitmap\<close>

definition bitmap_set :: "u32 \<Rightarrow> pmm \<Rightarrow> pmm" where
  "bitmap_set frame s =
     (let i = unat (frame div 32)
      in s\<lparr>bitmap := (bitmap s)(i := bitmap s i OR push_bit (unat (frame mod 32)) 1)\<rparr>)"

definition bitmap_clear :: "u32 \<Rightarrow> pmm \<Rightarrow> pmm" where
  "bitmap_clear frame s =
     (let i = unat (frame div 32)
      in s\<lparr>bitmap := (bitmap s)(i := bitmap s i AND NOT (push_bit (unat (frame mod 32)) 1))\<rparr>)"

definition bitmap_test :: "pmm \<Rightarrow> u32 \<Rightarrow> bool" where
  "bitmap_test s frame =
     (drop_bit (unat (frame mod 32)) (bitmap s (unat (frame div 32))) AND 1 \<noteq> 0)"

section \<open>Allocation, release, reservation\<close>

text \<open>The body of every loop that marks frames used: \<open>if (!bitmap_test(i)) ...\<close>.\<close>

definition reserve_frame :: "u32 \<Rightarrow> pmm \<Rightarrow> pmm" where
  "reserve_frame i s =
     (if \<not> bitmap_test s i
      then (bitmap_set i s)\<lparr>used_frames := used_frames s + 1\<rparr> else s)"

text \<open>The body of the loops that carve out available frames.\<close>

definition release_frame :: "u32 \<Rightarrow> pmm \<Rightarrow> pmm" where
  "release_frame frame s =
     (if frame < total_frames s \<and> bitmap_test s frame
      then (bitmap_clear frame s)\<lparr>used_frames := used_frames s - 1\<rparr> else s)"

text \<open>\<open>for (i = a; i < b; i++)\<close> on \<open>uint32_t\<close>, for a body that changes the state.\<close>

definition for_frames :: "(u32 \<Rightarrow> pmm \<Rightarrow> pmm) \<Rightarrow> u32 \<Rightarrow> u32 \<Rightarrow> pmm \<Rightarrow> pmm" where
  "for_frames body a b = fold (\<lambda>k. body (of_nat k)) [unat a..<unat b]"

definition pmm_reserve_range :: "u64 \<Rightarrow> u64 \<Rightarrow> pmm \<Rightarrow> pmm" where
  "pmm_reserve_range start len s =
     (let first = ucast (start div PAGE_SIZE) :: u32;
          last = ucast ((start + len + PAGE_SIZE - 1) div PAGE_SIZE) :: u32
      in for_frames reserve_frame first (min last (total_frames s)) s)"

fun alloc_bits :: "pmm \<Rightarrow> nat \<Rightarrow> nat list \<Rightarrow> (pmm \<times> u64) option" where
  "alloc_bits s i [] = None"
| "alloc_bits s i (b # bits) =
     (if bitmap s i AND push_bit b 1 = 0
      then let frame = of_nat i * 32 + of_nat b :: u32
           in Some (if total_frames s \<le> frame then (s, 0)
                    else ((bitmap_set frame s)\<lparr>used_frames := used_frames s + 1\<rparr>,
                          ucast frame * PAGE_SIZE))
      else alloc_bits s i bits)"

fun alloc_words :: "pmm \<Rightarrow> nat list \<Rightarrow> pmm \<times> u64" where
  "alloc_words s [] = (s, 0)"
| "alloc_words s (i # is) =
     (if bitmap s i = 0xFFFFFFFF then alloc_words s is
      else case alloc_bits s i [0..<32] of
             Some r \<Rightarrow> r
           | None \<Rightarrow> alloc_words s is)"

definition pmm_alloc_frame :: "pmm \<Rightarrow> pmm \<times> u64" where
  "pmm_alloc_frame s = alloc_words s [0..<unat (bitmap_words s)]"

definition pmm_free_frame :: "u64 \<Rightarrow> pmm \<Rightarrow> pmm" where
  "pmm_free_frame addr s = release_frame (ucast (addr div PAGE_SIZE)) s"

definition pmm_get_free_count :: "pmm \<Rightarrow> u32" where
  "pmm_get_free_count s = total_frames s - used_frames s"

definition pmm_get_total_count :: "pmm \<Rightarrow> u32" where
  "pmm_get_total_count s = total_frames s"

text \<open>\<open>pmm_region_iter\<close>: the sequence of callback invocations (start, length, used).\<close>

fun region_loop :: "pmm \<Rightarrow> u32 \<Rightarrow> bool \<Rightarrow> nat list \<Rightarrow> (u32 \<times> u32 \<times> bool) list" where
  "region_loop s run_start run_used [] =
     [(run_start, total_frames s - run_start, run_used)]"
| "region_loop s run_start run_used (k # ks) =
     (let i = of_nat k; used = bitmap_test s i
      in if used \<noteq> run_used
         then (run_start, i - run_start, run_used) # region_loop s i used ks
         else region_loop s run_start run_used ks)"

definition pmm_region_iter :: "pmm \<Rightarrow> (u32 \<times> u32 \<times> bool) list" where
  "pmm_region_iter s =
     (if total_frames s = 0 then []
      else region_loop s 0 (bitmap_test s 0) [1..<unat (total_frames s)])"

section \<open>Initialisation\<close>

text \<open>The walk over the Multiboot memory map; each entry is preceded by its size field, which
  the size does not count.  The entries met are collected, in order.\<close>

function mmap_walk :: "(nat \<Rightarrow> multiboot_mmap_entry) \<Rightarrow> nat \<Rightarrow> nat \<Rightarrow> multiboot_mmap_entry list"
where
  "mmap_walk entry_at addr mmap_end =
     (if addr < mmap_end
      then entry_at addr # mmap_walk entry_at (addr + unat (entry_size (entry_at addr)) + 4) mmap_end
      else [])"
  by pat_completeness auto
termination
  by (relation "measure (\<lambda>(_, addr, mmap_end). mmap_end - addr)") auto

definition mmap_entries :: "(nat \<Rightarrow> multiboot_mmap_entry) \<Rightarrow> multiboot_info \<Rightarrow> multiboot_mmap_entry list"
where
  "mmap_entries entry_at mbi =
     mmap_walk entry_at (unat (mmap_addr mbi)) (unat (mmap_addr mbi) + unat (mmap_length mbi))"

definition has_mmap :: "multiboot_info \<Rightarrow> bool" where
  "has_mmap mbi \<longleftrightarrow> mbi_flags mbi AND push_bit 6 1 \<noteq> 0"

definition has_mods :: "multiboot_info \<Rightarrow> bool" where
  "has_mods mbi \<longleftrightarrow> mbi_flags mbi AND push_bit 3 1 \<noteq> 0 \<and> 0 < mods_count mbi"

definition raise_mem_end :: "multiboot_mmap_entry \<Rightarrow> u64 \<Rightarrow> u64" where
  "raise_mem_end entry mem_end =
     (if entry_type entry = MULTIBOOT_MMAP_AVAILABLE
      then let region_end = entry_addr entry + entry_len entry
           in if mem_end < region_end then region_end else mem_end
      else mem_end)"

definition find_mem_end :: "(nat \<Rightarrow> multiboot_mmap_entry) \<Rightarrow> multiboot_info \<Rightarrow> u64" where
  "find_mem_end entry_at mbi =
     (let mem_end = (if \<not> has_mmap mbi then (ucast (mem_upper mbi) + 1024) * 1024
                     else fold raise_mem_end (mmap_entries entry_at mbi) 0)
      in if 0x100000000 < mem_end then 0x100000000 else mem_end)"

definition page_up :: "u64 \<Rightarrow> u64" where
  "page_up x = (x + PAGE_SIZE - 1) AND NOT (PAGE_SIZE - 1)"

definition page_down :: "u64 \<Rightarrow> u64" where
  "page_down x = x AND NOT (PAGE_SIZE - 1)"

text \<open>One available region; \<open>addr\<close> runs over the page addresses \<open>4096 * k\<close> below the end.\<close>

definition release_region :: "multiboot_mmap_entry \<Rightarrow> pmm \<Rightarrow> pmm" where
  "release_region entry s =
     (if entry_type entry = MULTIBOOT_MMAP_AVAILABLE
      then let start = page_up (entry_addr entry);
               end = page_down (entry_addr entry + entry_len entry)
           in fold (\<lambda>k. release_frame (ucast (of_nat k :: u64)))
                [unat start div PAGE_SIZE..<unat end div PAGE_SIZE] s
      else s)"

definition bitmap_phys :: "u64 \<Rightarrow> u64" where
  "bitmap_phys kernel_end_phys = page_up kernel_end_phys"

definition bitmap_end_frame :: "u64 \<Rightarrow> u32 \<Rightarrow> u32" where
  "bitmap_end_frame kernel_end_phys words =
     ucast ((bitmap_phys kernel_end_phys + ucast words * 4 + PAGE_SIZE - 1) div PAGE_SIZE)"

definition pmm_size :: "u64 \<Rightarrow> pmm \<Rightarrow> pmm" where
  "pmm_size mem_end s =
     (let total = ucast (mem_end div PAGE_SIZE); words = (total + 31) div 32
      in s\<lparr>total_frames := total, bitmap_words := words,
            bitmap := (\<lambda>i. if i < unat words then 0xFFFFFFFF else bitmap s i),
            used_frames := total\<rparr>)"

definition pmm_release_available :: "(nat \<Rightarrow> multiboot_mmap_entry) \<Rightarrow> multiboot_info \<Rightarrow> pmm \<Rightarrow> pmm"
where
  "pmm_release_available entry_at mbi s =
     (if has_mmap mbi then fold release_region (mmap_entries entry_at mbi) s
      else for_frames release_frame 0 (total_frames s) s)"

definition reserve_module :: "multiboot_mod \<Rightarrow> pmm \<Rightarrow> pmm" where
  "reserve_module m =
     (let start = ucast (mod_start m); end = ucast (mod_end m)
      in pmm_reserve_range start (end - start))"

definition pmm_reserve_modules :: "(nat \<Rightarrow> multiboot_mod) \<Rightarrow> multiboot_info \<Rightarrow> pmm \<Rightarrow> pmm" where
  "pmm_reserve_modules mods mbi s =
     (if has_mods mbi
      then pmm_reserve_range (ucast (mods_addr mbi)) (ucast (mods_count mbi) * 16)
             (fold (\<lambda>i. reserve_module (mods i)) [0..<unat (mods_count mbi)] s)
      else s)"

definition pmm_init ::
  "(nat \<Rightarrow> multiboot_mmap_entry) \<Rightarrow> (nat \<Rightarrow> multiboot_mod) \<Rightarrow> u64 \<Rightarrow> multiboot_info \<Rightarrow> pmm \<Rightarrow> pmm"
where
  "pmm_init entry_at mods kernel_end_phys mbi s0 =
     (let s = pmm_size (find_mem_end entry_at mbi) s0;
          s = pmm_release_available entry_at mbi s;
          s = for_frames reserve_frame 0 (0x100000 div PAGE_SIZE) s;
          s = for_frames reserve_frame (0x100000 div PAGE_SIZE)
                (bitmap_end_frame kernel_end_phys (bitmap_words s)) s
      in pmm_reserve_modules mods mbi s)"


section \<open>The set of free frames\<close>

definition frame_used :: "pmm \<Rightarrow> nat \<Rightarrow> bool" where
  "frame_used s k \<longleftrightarrow> bit (bitmap s (k div 32)) (k mod 32)"

definition free_frames :: "pmm \<Rightarrow> nat set" where
  "free_frames s = {k. k < unat (total_frames s) \<and> \<not> frame_used s k}"

text \<open>The allocator's invariant: the bitmap covers every frame, its padding bits are set, at
  most 4 GiB are managed and the counter counts the frames in use.\<close>

definition pmm_ok :: "pmm \<Rightarrow> bool" where
  "pmm_ok s \<longleftrightarrow>
     bitmap_words s = (total_frames s + 31) div 32 \<and>
     unat (total_frames s) \<le> 2 ^ 20 \<and>
     (\<forall>k < 32 * unat (bitmap_words s). unat (total_frames s) \<le> k \<longrightarrow> frame_used s k) \<and>
     unat (used_frames s) + card (free_frames s) = unat (total_frames s)"

lemma unat_index: "unat (f div 32 :: u32) = unat f div 32" "unat (f mod 32 :: u32) = unat f mod 32"
  by (simp_all add: unat_div_distrib unat_mod_distrib)

lemma bitmap_test_iff: "bitmap_test s f \<longleftrightarrow> frame_used s (unat f)"
  unfolding bitmap_test_def frame_used_def unat_index by (simp add: shift_and_one_iff)

lemma frame_used_bitmap_set:
  "frame_used (bitmap_set f s) k \<longleftrightarrow> k = unat f \<or> frame_used s k"
proof -
  have "k = unat f \<longleftrightarrow> k div 32 = unat f div 32 \<and> k mod 32 = unat f mod 32"
    by (metis div_mult_mod_eq)
  then show ?thesis
    unfolding frame_used_def bitmap_set_def Let_def unat_index
    using bit_set_bit_word [of "unat f mod 32" "k mod 32" "bitmap s (unat f div 32)"]
    by auto
qed

lemma frame_used_bitmap_clear:
  "frame_used (bitmap_clear f s) k \<longleftrightarrow> k \<noteq> unat f \<and> frame_used s k"
proof -
  have "k = unat f \<longleftrightarrow> k div 32 = unat f div 32 \<and> k mod 32 = unat f mod 32"
    by (metis div_mult_mod_eq)
  then show ?thesis
    unfolding frame_used_def bitmap_clear_def Let_def unat_index
    using bit_clear_bit_word [of "unat f mod 32" "k mod 32" "bitmap s (unat f div 32)"]
    by auto
qed

lemma bitmap_set_fields [simp]:
  "bitmap_words (bitmap_set f s) = bitmap_words s"
  "total_frames (bitmap_set f s) = total_frames s"
  "used_frames (bitmap_set f s) = used_frames s"
  by (simp_all add: bitmap_set_def Let_def)

lemma bitmap_clear_fields [simp]:
  "bitmap_words (bitmap_clear f s) = bitmap_words s"
  "total_frames (bitmap_clear f s) = total_frames s"
  "used_frames (bitmap_clear f s) = used_frames s"
  by (simp_all add: bitmap_clear_def Let_def)

lemma frame_used_counter [simp]: "frame_used (s\<lparr>used_frames := n\<rparr>) = frame_used s"
  by (simp add: frame_used_def fun_eq_iff)

lemma free_frames_counter [simp]: "free_frames (s\<lparr>used_frames := n\<rparr>) = free_frames s"
  by (simp add: free_frames_def)

lemma free_frames_bounded: "free_frames s \<subseteq> {..< unat (total_frames s)}"
  by (auto simp: free_frames_def)

lemma finite_free_frames [simp, intro]: "finite (free_frames s)"
  using free_frames_bounded finite_subset by blast

lemma free_frames_set: "free_frames (bitmap_set f s) = free_frames s - {unat f}"
  by (auto simp: free_frames_def frame_used_bitmap_set)

lemma free_frames_clear:
  "free_frames (bitmap_clear f s) = free_frames s \<union> ({unat f} \<inter> {..< unat (total_frames s)})"
  by (auto simp: free_frames_def frame_used_bitmap_clear)

lemma pmm_ok_words:
  assumes "pmm_ok s"
  shows "unat (bitmap_words s) = (unat (total_frames s) + 31) div 32"
proof -
  from assms have "unat (total_frames s) \<le> 2 ^ 20" by (simp add: pmm_ok_def)
  then have "unat (total_frames s + 31) = unat (total_frames s) + 31"
    by (subst unat_plus_no_wrap) auto
  with assms show ?thesis by (simp add: pmm_ok_def unat_index)
qed

lemma pmm_ok_covers:
  assumes "pmm_ok s" "k < unat (total_frames s)"
  shows "k < 32 * unat (bitmap_words s)"
  using assms by (simp add: pmm_ok_words)

lemma pmm_ok_used:
  assumes "pmm_ok s"
  shows "unat (used_frames s) = unat (total_frames s) - card (free_frames s)"
    "card (free_frames s) \<le> unat (total_frames s)"
  using assms by (auto simp: pmm_ok_def)

text \<open>Marking one free frame, and releasing one used frame.\<close>

lemma mark_frame_ok:
  assumes "pmm_ok s" "unat f \<in> free_frames s"
  shows "pmm_ok ((bitmap_set f s)\<lparr>used_frames := used_frames s + 1\<rparr>)"
proof -
  have c: "card (free_frames s - {unat f}) + 1 = card (free_frames s)"
    using assms(2) by (metis Suc_eq_plus1 card_Suc_Diff1 finite_free_frames)
  have "unat (used_frames s + 1) = unat (used_frames s) + 1"
    using assms(1) c by (subst unat_plus_no_wrap) (auto simp: pmm_ok_def)
  with assms(1) c show ?thesis
    by (auto simp: pmm_ok_def free_frames_set frame_used_bitmap_set)
qed

lemma reserve_frame_ok:
  assumes "pmm_ok s" "unat f < unat (total_frames s)"
  shows "pmm_ok (reserve_frame f s)"
  using assms mark_frame_ok [of s f]
  by (auto simp: reserve_frame_def bitmap_test_iff free_frames_def)

lemma reserve_frame_free: "free_frames (reserve_frame f s) = free_frames s - {unat f}"
  by (auto simp: reserve_frame_def bitmap_test_iff free_frames_set)
     (auto simp: free_frames_def)

lemma reserve_frame_fields [simp]:
  "bitmap_words (reserve_frame f s) = bitmap_words s"
  "total_frames (reserve_frame f s) = total_frames s"
  by (simp_all add: reserve_frame_def)

lemma release_frame_fields [simp]:
  "bitmap_words (release_frame f s) = bitmap_words s"
  "total_frames (release_frame f s) = total_frames s"
  by (simp_all add: release_frame_def)

lemma release_frame_free:
  "free_frames (release_frame f s) = free_frames s \<union> ({unat f} \<inter> {..< unat (total_frames s)})"
  by (auto simp: release_frame_def bitmap_test_iff free_frames_clear word_less_nat_alt)
     (auto simp: free_frames_def)

lemma release_frame_ok:
  assumes "pmm_ok s"
  shows "pmm_ok (release_frame f s)"
proof (cases "f < total_frames s \<and> bitmap_test s f")
  case True
  then have f: "unat f < unat (total_frames s)" "unat f \<notin> free_frames s"
    by (auto simp: word_less_nat_alt bitmap_test_iff free_frames_def)
  have c: "card (free_frames (bitmap_clear f s)) = card (free_frames s) + 1"
    using f by (simp add: free_frames_clear)
  moreover have "card (free_frames (bitmap_clear f s)) \<le> unat (total_frames s)"
    using card_mono [OF _ free_frames_bounded, of "bitmap_clear f s"] by simp
  ultimately have "0 < unat (used_frames s)" using assms by (simp add: pmm_ok_def)
  then have "unat (used_frames s - 1) = unat (used_frames s) - 1"
    by (subst unat_minus_no_wrap) auto
  with assms c \<open>0 < unat (used_frames s)\<close> f True show ?thesis
    by (auto simp: pmm_ok_def release_frame_def frame_used_bitmap_clear)
next
  case False
  with assms show ?thesis by (auto simp: release_frame_def)
qed

section \<open>Allocation takes the lowest free frame\<close>

lemma alloc_bits_skip:
  assumes "\<forall>b \<in> set bs. b < 32 \<and> bit (bitmap s i) b"
  shows "alloc_bits s i (bs @ cs) = alloc_bits s i cs"
  using assms
proof (induction bs)
  case (Cons b bs)
  then have "bitmap s i AND push_bit b 1 \<noteq> 0"
    using and_bit_zero_iff [of b "bitmap s i"] by simp
  with Cons show ?case by simp
qed simp

lemma alloc_words_skip:
  assumes "\<forall>i \<in> set is. bitmap s i = 0xFFFFFFFF"
  shows "alloc_words s (is @ js) = alloc_words s js"
  using assms by (induction "is") auto

lemma word_full_iff:
  "bitmap s i = 0xFFFFFFFF \<longleftrightarrow> (\<forall>k. k div 32 = i \<longrightarrow> frame_used s k)"
proof -
  have "(0xFFFFFFFF :: u32) = - 1" by simp
  then have "bitmap s i = 0xFFFFFFFF \<longleftrightarrow> (\<forall>b < 32. bit (bitmap s i) b)"
    using all_bits_set_iff [of "bitmap s i"] by (simp only: len_num1 len_of_numeral_defs) simp
  also have "\<dots> \<longleftrightarrow> (\<forall>k. k div 32 = i \<longrightarrow> frame_used s k)"
  proof
    assume "\<forall>k. k div 32 = i \<longrightarrow> frame_used s k"
    then have "frame_used s (32 * i + b)" if "b < 32" for b using that by simp
    then show "\<forall>b < 32. bit (bitmap s i) b" by (simp add: frame_used_def)
  qed (auto simp: frame_used_def)
  finally show ?thesis .
qed

lemma alloc_none_free:
  assumes "pmm_ok s" "free_frames s = {}"
  shows "pmm_alloc_frame s = (s, 0)"
proof -
  have "frame_used s k" if "k < 32 * unat (bitmap_words s)" for k
    using assms that by (cases "k < unat (total_frames s)") (auto simp: pmm_ok_def free_frames_def)
  then have "\<forall>i \<in> set [0..<unat (bitmap_words s)]. bitmap s i = 0xFFFFFFFF"
    by (auto simp: word_full_iff)
  from alloc_words_skip [OF this, of "[]"] show ?thesis
    by (simp add: pmm_alloc_frame_def)
qed

lemma upt_split: "a \<le> k \<Longrightarrow> k < b \<Longrightarrow> [a..<b] = [a..<k] @ k # [Suc k..<b]"
  by (metis le_add_diff_inverse less_imp_le upt_add_eq_append upt_conv_Cons)

lemma of_nat_index: "(of_nat (k div 32) * 32 + of_nat (k mod 32) :: u32) = of_nat k"
  by (metis div_mult_mod_eq of_nat_add of_nat_mult of_nat_numeral)

lemma alloc_bits_first:
  assumes "\<not> frame_used s m" "\<forall>k < m. k div 32 = m div 32 \<longrightarrow> frame_used s k"
    and "m < unat (total_frames s)"
  shows "alloc_bits s (m div 32) [0..<32] =
    Some ((bitmap_set (of_nat m) s)\<lparr>used_frames := used_frames s + 1\<rparr>,
          ucast (of_nat m :: u32) * PAGE_SIZE)"
proof -
  let ?i = "m div 32" and ?b = "m mod 32"
  have "bit (bitmap s ?i) b" if "b < ?b" for b
  proof -
    have b: "b < 32" using that by (rule less_trans) simp
    have "32 * ?i + b < m" using that mult_div_mod_eq [of 32 m] by linarith
    with b assms(2) have "frame_used s (32 * ?i + b)" by simp
    with b show ?thesis by (simp add: frame_used_def)
  qed
  then have "\<forall>b \<in> set [0..<?b]. b < 32 \<and> bit (bitmap s ?i) b"
    using less_trans [OF _ mod_less_divisor [of 32 m]] by auto
  moreover have "[0..<32] = [0..<?b] @ ?b # [Suc ?b..<32]" by (rule upt_split) simp_all
  moreover have "bitmap s ?i AND push_bit ?b 1 = 0"
    using assms(1) and_bit_zero_iff [of ?b "bitmap s ?i"] by (simp add: frame_used_def)
  moreover have "\<not> total_frames s \<le> of_nat m"
    using assms(3) unsigned_less [of "total_frames s"]
    by (simp add: word_le_nat_alt unat_of_nat not_le)
  ultimately show ?thesis
    by (simp only: alloc_bits_skip alloc_bits.simps of_nat_index Let_def if_True if_False simp_thms)
qed

lemma alloc_lowest_free:
  assumes "pmm_ok s" "m \<in> free_frames s" "\<forall>k < m. k \<notin> free_frames s"
  shows "pmm_alloc_frame s =
    ((bitmap_set (of_nat m) s)\<lparr>used_frames := used_frames s + 1\<rparr>,
     ucast (of_nat m :: u32) * PAGE_SIZE)"
proof -
  have m: "m < unat (total_frames s)" "\<not> frame_used s m"
    using assms(2) by (auto simp: free_frames_def)
  have below: "frame_used s k" if "k < m" for k
    using assms(3) that m(1) by (auto simp: free_frames_def)
  have "m div 32 < unat (bitmap_words s)"
    using pmm_ok_covers [OF assms(1) m(1)] by (simp add: less_mult_imp_div_less mult.commute)
  then have "[0..<unat (bitmap_words s)] =
      [0..<m div 32] @ m div 32 # [Suc (m div 32)..<unat (bitmap_words s)]"
    by (rule upt_split [rotated]) simp
  moreover have "\<forall>i \<in> set [0..<m div 32]. bitmap s i = 0xFFFFFFFF"
    using below by (auto simp: word_full_iff)
  moreover have "bitmap s (m div 32) \<noteq> 0xFFFFFFFF"
    using m(2) by (auto simp: word_full_iff)
  ultimately show ?thesis
    unfolding pmm_alloc_frame_def
    using alloc_bits_first [OF m(2) _ m(1)] below by (simp add: alloc_words_skip)
qed

section \<open>The interface the rest of the kernel uses\<close>

text \<open>Allocating \<open>n\<close> frames one after the other.\<close>

fun alloc_frames :: "('s \<Rightarrow> 's \<times> u64) \<Rightarrow> nat \<Rightarrow> 's \<Rightarrow> 's \<times> u64 list" where
  "alloc_frames alloc 0 s = (s, [])"
| "alloc_frames alloc (Suc n) s =
     (let (s, a) = alloc s; (s, as) = alloc_frames alloc n s in (s, a # as))"

text \<open>The physical address of a frame.\<close>

definition frame_addr :: "nat \<Rightarrow> u64" where
  "frame_addr k = of_nat k * PAGE_SIZE"

lemma unat_frame_addr: "k < 2 ^ 20 \<Longrightarrow> unat (frame_addr k) = k * 4096"
  by (simp add: frame_addr_def unat_mult_lem [THEN iffD1] unat_of_nat)

locale frame_allocator =
  fixes ok :: "'s \<Rightarrow> bool"
    and limit :: "'s \<Rightarrow> nat"
    and free :: "'s \<Rightarrow> nat set"
    and alloc :: "'s \<Rightarrow> 's \<times> u64"
    and release :: "u64 \<Rightarrow> 's \<Rightarrow> 's"
  assumes limit_bound: "ok s \<Longrightarrow> limit s \<le> 2 ^ 20"
    and free_bound: "ok s \<Longrightarrow> free s \<subseteq> {..< limit s}"
    and alloc_empty: "ok s \<Longrightarrow> free s = {} \<Longrightarrow> alloc s = (s, 0)"
    and alloc_min: "ok s \<Longrightarrow> free s \<noteq> {} \<Longrightarrow> snd (alloc s) = frame_addr (Min (free s))"
    and alloc_free: "ok s \<Longrightarrow> free s \<noteq> {} \<Longrightarrow> free (fst (alloc s)) = free s - {Min (free s)}"
    and alloc_ok: "ok s \<Longrightarrow> ok (fst (alloc s))"
    and alloc_limit: "ok s \<Longrightarrow> limit (fst (alloc s)) = limit s"
    and release_ok: "ok s \<Longrightarrow> ok (release a s)"
    and release_free: "ok s \<Longrightarrow> k < limit s \<Longrightarrow> free (release (frame_addr k) s) = insert k (free s)"
    and release_limit: "ok s \<Longrightarrow> limit (release a s) = limit s"
begin

lemma free_finite: "ok s \<Longrightarrow> finite (free s)"
  using free_bound finite_subset by blast

lemma frame_addr_inj:
  assumes "ok s" "k < limit s" "j < limit s" "frame_addr k = frame_addr j"
  shows "k = j"
proof -
  have "k < 2 ^ 20" "j < 2 ^ 20" using assms(2,3) limit_bound [OF assms(1)] by auto
  with assms(4) have "k * 4096 = j * 4096" by (metis unat_frame_addr)
  then show ?thesis by simp
qed

lemma frame_addr_eq_0:
  assumes "ok s" "k < limit s"
  shows "frame_addr k = 0 \<longleftrightarrow> k = 0"
  using frame_addr_inj [OF assms, of 0] assms(2) by (auto simp: frame_addr_def)

lemma alloc_result:
  assumes "ok s" "0 \<notin> free s"
  shows "snd (alloc s) = 0 \<longleftrightarrow> free s = {}"
proof (cases "free s = {}")
  case False
  then have "Min (free s) \<in> free s" using assms(1) by (simp add: free_finite)
  with False assms show ?thesis
    using frame_addr_eq_0 [OF assms(1), of "Min (free s)"] free_bound [OF assms(1)]
    by (auto simp: alloc_min)
qed (simp add: assms alloc_empty)

lemma alloc_release:
  assumes "ok s" "free s \<noteq> {}"
  shows "free (release (snd (alloc s)) (fst (alloc s))) = free s"
proof -
  have m: "Min (free s) \<in> free s" using assms by (simp add: free_finite)
  then have "Min (free s) < limit (fst (alloc s))"
    using free_bound [OF assms(1)] by (auto simp: alloc_limit assms)
  from release_free [OF alloc_ok [OF assms(1)] this] m assms show ?thesis
    by (auto simp: alloc_min alloc_free)
qed

lemma alloc_frames_distinct:
  assumes "ok s" "n \<le> card (free s)" "alloc_frames alloc n s = (s', as)"
  shows "\<exists>ks. as = map frame_addr ks \<and> length ks = n \<and> distinct ks \<and> set ks \<subseteq> free s \<and>
    free s' = free s - set ks \<and> ok s'"
  using assms
proof (induction n arbitrary: s as)
  case (Suc n)
  obtain s1 a where a: "alloc s = (s1, a)" by fastforce
  obtain as1 where as1: "alloc_frames alloc n s1 = (s', as1)" "as = a # as1"
    using Suc.prems(3) a by (auto split: prod.splits)
  have ne: "free s \<noteq> {}" using Suc.prems(2) by auto
  let ?m = "Min (free s)"
  have m: "?m \<in> free s" using ne Suc.prems(1) by (simp add: free_finite)
  have s1: "ok s1" "free s1 = free s - {?m}" "a = frame_addr ?m"
    using a ne Suc.prems(1) alloc_ok [of s] alloc_free [of s] alloc_min [of s] by auto
  have "n \<le> card (free s1)"
    using Suc.prems(1,2) m by (simp add: s1 free_finite)
  from Suc.IH [OF s1(1) this as1(1)] obtain ks where
    "as1 = map frame_addr ks" "length ks = n" "distinct ks" "set ks \<subseteq> free s1"
    "free s' = free s1 - set ks" "ok s'" by blast
  with m s1 as1(2) show ?case by (intro exI [of _ "?m # ks"]) auto
qed auto

end

lemma ucast_frame_addr:
  assumes "k < 2 ^ 20"
  shows "ucast (of_nat k :: u32) * PAGE_SIZE = frame_addr k"
proof -
  have "ucast (of_nat k :: u32) = (of_nat k :: u64)"
    using assms by (simp add: word_unat_eq_iff unat_of_nat unsigned_ucast_eq take_bit_nat_eq_self)
  then show ?thesis by (simp add: frame_addr_def)
qed

lemma frame_of_addr:
  assumes "k < 2 ^ 20"
  shows "unat (ucast (frame_addr k div PAGE_SIZE) :: u32) = k"
  using assms
  by (simp add: unsigned_ucast_eq unat_div_distrib unat_frame_addr take_bit_nat_eq_self)

lemma min_free:
  assumes "pmm_ok s" "free_frames s \<noteq> {}"
  defines "m \<equiv> Min (free_frames s)"
  shows "m \<in> free_frames s" "m < 2 ^ 20" "unat (of_nat m :: u32) = m"
    "pmm_alloc_frame s = ((bitmap_set (of_nat m) s)\<lparr>used_frames := used_frames s + 1\<rparr>, frame_addr m)"
proof -
  show m: "m \<in> free_frames s" unfolding m_def using assms(2) by simp
  then show b: "m < 2 ^ 20"
    using assms(1) by (auto simp: free_frames_def pmm_ok_def)
  then show "unat (of_nat m :: u32) = m" by (simp add: unat_of_nat)
  have "\<forall>k < m. k \<notin> free_frames s"
    unfolding m_def by (meson Min_le finite_free_frames not_le)
  from alloc_lowest_free [OF assms(1) m this]
  show "pmm_alloc_frame s =
      ((bitmap_set (of_nat m) s)\<lparr>used_frames := used_frames s + 1\<rparr>, frame_addr m)"
    by (simp only: ucast_frame_addr [OF b])
qed

interpretation frames: frame_allocator pmm_ok "\<lambda>s. unat (total_frames s)" free_frames
  pmm_alloc_frame pmm_free_frame
proof unfold_locales
  fix s :: pmm and a :: u64 and k
  assume ok: "pmm_ok s"
  then show "unat (total_frames s) \<le> 2 ^ 20" by (simp add: pmm_ok_def)
  show "free_frames s \<subseteq> {..< unat (total_frames s)}" by (rule free_frames_bounded)
  show "free_frames s = {} \<Longrightarrow> pmm_alloc_frame s = (s, 0)" by (rule alloc_none_free [OF ok])
  show "free_frames s \<noteq> {} \<Longrightarrow> snd (pmm_alloc_frame s) = frame_addr (Min (free_frames s))"
    by (simp add: min_free [OF ok])
  show "free_frames s \<noteq> {} \<Longrightarrow>
      free_frames (fst (pmm_alloc_frame s)) = free_frames s - {Min (free_frames s)}"
    by (simp add: min_free [OF ok] free_frames_set)
  show "pmm_ok (fst (pmm_alloc_frame s))"
    using ok alloc_none_free [OF ok] min_free [OF ok]
      mark_frame_ok [OF ok, of "of_nat (Min (free_frames s))"]
    by (cases "free_frames s = {}") simp_all
  show "unat (total_frames (fst (pmm_alloc_frame s))) = unat (total_frames s)"
    using alloc_none_free [OF ok] min_free [OF ok] by (cases "free_frames s = {}") simp_all
  show "pmm_ok (pmm_free_frame a s)" by (simp add: pmm_free_frame_def release_frame_ok ok)
  show "unat (total_frames (pmm_free_frame a s)) = unat (total_frames s)"
    by (simp add: pmm_free_frame_def)
  assume k: "k < unat (total_frames s)"
  with ok have "k < 2 ^ 20" by (simp add: pmm_ok_def)
  with k show "free_frames (pmm_free_frame (frame_addr k) s) = insert k (free_frames s)"
    by (simp add: pmm_free_frame_def release_frame_free frame_of_addr)
qed

section \<open>Ranges\<close>

lemma fold_reserve:
  assumes "pmm_ok s" "\<forall>k \<in> set ks. k < unat (total_frames s)"
  shows "pmm_ok (fold (\<lambda>k. reserve_frame (of_nat k)) ks s) \<and>
    free_frames (fold (\<lambda>k. reserve_frame (of_nat k)) ks s) = free_frames s - set ks \<and>
    total_frames (fold (\<lambda>k. reserve_frame (of_nat k)) ks s) = total_frames s \<and>
    bitmap_words (fold (\<lambda>k. reserve_frame (of_nat k)) ks s) = bitmap_words s"
  using assms
proof (induction ks arbitrary: s)
  case (Cons k ks)
  then have k: "k < unat (total_frames s)" by simp
  then have "unat (of_nat k :: u32) = k" by (rule unat_of_nat_less)
  with Cons k reserve_frame_ok [of s "of_nat k"] show ?case
    by (auto simp: reserve_frame_free)
qed simp

lemma for_frames_reserve:
  assumes "pmm_ok s" "b \<le> total_frames s"
  shows "pmm_ok (for_frames reserve_frame a b s)"
    "free_frames (for_frames reserve_frame a b s) = free_frames s - {unat a..<unat b}"
    "total_frames (for_frames reserve_frame a b s) = total_frames s"
    "bitmap_words (for_frames reserve_frame a b s) = bitmap_words s"
proof -
  have "\<forall>k \<in> set [unat a..<unat b]. k < unat (total_frames s)"
    using assms(2) by (auto simp: word_le_nat_alt)
  from fold_reserve [OF assms(1) this]
  show "pmm_ok (for_frames reserve_frame a b s)"
    "free_frames (for_frames reserve_frame a b s) = free_frames s - {unat a..<unat b}"
    "total_frames (for_frames reserve_frame a b s) = total_frames s"
    "bitmap_words (for_frames reserve_frame a b s) = bitmap_words s"
    by (simp_all add: for_frames_def)
qed

lemma fold_release:
  assumes "pmm_ok s"
  shows "pmm_ok (fold (\<lambda>k. release_frame (g k)) ks s) \<and>
    free_frames (fold (\<lambda>k. release_frame (g k)) ks s) =
      free_frames s \<union> ((\<lambda>k. unat (g k)) ` set ks \<inter> {..< unat (total_frames s)}) \<and>
    total_frames (fold (\<lambda>k. release_frame (g k)) ks s) = total_frames s \<and>
    bitmap_words (fold (\<lambda>k. release_frame (g k)) ks s) = bitmap_words s"
  using assms
proof (induction ks arbitrary: s)
  case (Cons k ks)
  then show ?case by (auto simp: release_frame_ok release_frame_free)
qed simp

text \<open>Frame \<open>k\<close> touches the bytes from \<open>a\<close> to \<open>b\<close>; frame \<open>k\<close> lies inside them.\<close>

definition touches :: "nat \<Rightarrow> nat \<Rightarrow> nat \<Rightarrow> bool" where
  "touches k a b \<longleftrightarrow> 4096 * k < b \<and> a < 4096 * (k + 1)"

definition inside :: "nat \<Rightarrow> nat \<Rightarrow> nat \<Rightarrow> bool" where
  "inside k a b \<longleftrightarrow> a \<le> 4096 * k \<and> 4096 * (k + 1) \<le> b"

lemma touches_iff: "touches k a b \<longleftrightarrow> a div 4096 \<le> k \<and> k < (b + 4095) div 4096"
  unfolding touches_def by auto

lemma inside_iff: "inside k a b \<longleftrightarrow> (a + 4095) div 4096 \<le> k \<and> k < b div 4096"
  unfolding inside_def by auto

lemma unat_page_up:
  assumes "unat x + 4095 < 2 ^ 64"
  shows "unat (page_up x) = (unat x + 4095) div 4096 * 4096"
proof -
  have "(PAGE_SIZE - 1 :: u64) = mask 12" by (simp add: mask_eq_exp_minus_1)
  then have "page_up x = (x + 4095) AND NOT (mask 12)"
    unfolding page_up_def by (simp add: add_diff_eq [symmetric] del: add_diff_eq)
  moreover have "unat (x + 4095) = unat x + 4095"
    using assms by (subst unat_plus_no_wrap) auto
  ultimately show ?thesis by (simp only: unat_and_not_mask) simp
qed

lemma unat_page_down: "unat (page_down x) = unat x div 4096 * 4096"
proof -
  have "page_down x = x AND NOT (mask 12)"
    unfolding page_down_def by (simp add: mask_eq_exp_minus_1)
  then show ?thesis by (simp only: unat_and_not_mask) simp
qed

lemma reserve_range_free:
  assumes "pmm_ok s" "unat start < 2 ^ 44" "unat (start + len) + 4095 < 2 ^ 44"
  shows "pmm_ok (pmm_reserve_range start len s)"
    "free_frames (pmm_reserve_range start len s) =
       free_frames s - {k. touches k (unat start) (unat (start + len))}"
    "total_frames (pmm_reserve_range start len s) = total_frames s"
    "bitmap_words (pmm_reserve_range start len s) = bitmap_words s"
proof -
  define f where "f = (ucast (start div PAGE_SIZE) :: u32)"
  define l where "l = (ucast ((start + len + PAGE_SIZE - 1) div PAGE_SIZE) :: u32)"
  have sum: "unat (start + len + PAGE_SIZE - 1) = unat (start + len) + 4095"
  proof -
    have "start + len + PAGE_SIZE - 1 = start + len + 4095" by simp
    moreover have "unat (start + len + 4095) = unat (start + len) + 4095"
      using assms(3) by (subst unat_plus_no_wrap) auto
    ultimately show ?thesis by (simp only:)
  qed
  have first: "unat f = unat start div 4096" and
    last: "unat l = (unat (start + len) + 4095) div 4096"
    unfolding f_def l_def using assms(2,3) sum
    by (simp_all add: unsigned_ucast_eq unat_div_distrib take_bit_nat_eq_self)
  have eq: "pmm_reserve_range start len s =
      for_frames reserve_frame f (min l (total_frames s)) s"
    by (simp only: pmm_reserve_range_def Let_def f_def l_def)
  note loop = for_frames_reserve [OF assms(1), of "min l (total_frames s)" f, OF min.cobounded2]
  show "pmm_ok (pmm_reserve_range start len s)" "total_frames (pmm_reserve_range start len s) = total_frames s"
    "bitmap_words (pmm_reserve_range start len s) = bitmap_words s"
    unfolding eq by (rule loop)+
  have "unat (min l (total_frames s)) = min (unat l) (unat (total_frames s))"
    by (simp add: min_def word_le_nat_alt)
  then show "free_frames (pmm_reserve_range start len s) =
       free_frames s - {k. touches k (unat start) (unat (start + len))}"
    unfolding eq loop(2) using free_frames_bounded [of s]
    by (auto simp: touches_iff first last)
qed

section \<open>Boot\<close>

lemma pmm_size_ok:
  assumes "unat mem_end \<le> 2 ^ 32"
  shows "pmm_ok (pmm_size mem_end s)" "free_frames (pmm_size mem_end s) = {}"
    "unat (total_frames (pmm_size mem_end s)) = unat mem_end div 4096"
proof -
  let ?s = "pmm_size mem_end s"
  show total: "unat (total_frames ?s) = unat mem_end div 4096"
    using assms
    by (simp add: pmm_size_def Let_def unsigned_ucast_eq unat_div_distrib take_bit_nat_eq_self)
  have used: "frame_used ?s k" if "k < 32 * unat (bitmap_words ?s)" for k
  proof -
    have "k div 32 < unat (bitmap_words ?s)"
      using that by (simp add: less_mult_imp_div_less mult.commute)
    then have "bitmap ?s (k div 32) = - 1" by (simp add: pmm_size_def Let_def)
    then show ?thesis by (simp add: frame_used_def)
  qed
  have words: "bitmap_words ?s = (total_frames ?s + 31) div 32"
    by (simp add: pmm_size_def Let_def)
  moreover have "unat (total_frames ?s + 31) = unat (total_frames ?s) + 31"
    using assms total by (subst unat_plus_no_wrap) auto
  ultimately have "unat (total_frames ?s) \<le> 32 * unat (bitmap_words ?s)"
    by (simp add: unat_index)
  with used show free: "free_frames ?s = {}" by (auto simp: free_frames_def)
  have "used_frames ?s = total_frames ?s" by (simp add: pmm_size_def Let_def)
  with words used free total assms show "pmm_ok ?s" by (simp add: pmm_ok_def)
qed

text \<open>The frames an available region holds completely.\<close>

definition entry_holds :: "multiboot_mmap_entry \<Rightarrow> nat \<Rightarrow> bool" where
  "entry_holds e k \<longleftrightarrow> entry_type e = MULTIBOOT_MMAP_AVAILABLE \<and>
     inside k (unat (entry_addr e)) (unat (entry_addr e) + unat (entry_len e))"

text \<open>Every available region lies in the 16 TiB that 32-bit frame numbers reach.\<close>

definition entry_in_range :: "multiboot_mmap_entry \<Rightarrow> bool" where
  "entry_in_range e \<longleftrightarrow> (entry_type e = MULTIBOOT_MMAP_AVAILABLE \<longrightarrow>
     unat (entry_addr e) + unat (entry_len e) \<le> 2 ^ 44)"

lemma release_region_free:
  assumes "pmm_ok s" "entry_in_range e"
  shows "pmm_ok (release_region e s) \<and>
    free_frames (release_region e s) =
      free_frames s \<union> {k. k < unat (total_frames s) \<and> entry_holds e k} \<and>
    total_frames (release_region e s) = total_frames s \<and>
    bitmap_words (release_region e s) = bitmap_words s"
proof (cases "entry_type e = MULTIBOOT_MMAP_AVAILABLE")
  case True
  let ?a = "unat (entry_addr e)" and ?b = "unat (entry_addr e) + unat (entry_len e)"
  have b: "?b \<le> 2 ^ 44" using assms(2) True by (simp add: entry_in_range_def)
  have sum: "unat (entry_addr e + entry_len e) = ?b"
    using b by (subst unat_plus_no_wrap) auto
  have up: "unat (page_up (entry_addr e)) div 4096 = (?a + 4095) div 4096"
    using b by (subst unat_page_up) auto
  have down: "unat (page_down (entry_addr e + entry_len e)) div 4096 = ?b div 4096"
    by (simp add: unat_page_down sum)
  let ?ks = "[(?a + 4095) div 4096..<?b div 4096]" and ?g = "\<lambda>k. ucast (of_nat k :: u64) :: u32"
  have eq: "release_region e s = fold (\<lambda>k. release_frame (?g k)) ?ks s"
    by (simp only: release_region_def True if_True Let_def up down simp_thms)
  have "unat (?g k) = k" if "k \<in> set ?ks" for k
  proof -
    have "k < 2 ^ 32" using that b by auto
    then show ?thesis by (simp add: unsigned_ucast_eq unat_of_nat take_bit_nat_eq_self)
  qed
  then have "(\<lambda>k. unat (?g k)) ` set ?ks = set ?ks" by (auto intro: image_eqI)
  with fold_release [OF assms(1), of ?g ?ks] True show ?thesis
    unfolding eq by (auto simp: entry_holds_def inside_iff)
next
  case False
  with assms(1) show ?thesis by (simp add: release_region_def entry_holds_def)
qed

lemma release_regions_free:
  assumes "pmm_ok s" "\<forall>e \<in> set es. entry_in_range e"
  shows "pmm_ok (fold release_region es s) \<and>
    free_frames (fold release_region es s) =
      free_frames s \<union> {k. k < unat (total_frames s) \<and> (\<exists>e \<in> set es. entry_holds e k)} \<and>
    total_frames (fold release_region es s) = total_frames s \<and>
    bitmap_words (fold release_region es s) = bitmap_words s"
  using assms
proof (induction es arbitrary: s)
  case (Cons e es)
  then show ?case using release_region_free [of s e] by auto
qed simp

lemma find_mem_end_bound: "unat (find_mem_end entry_at mbi) \<le> 2 ^ 32"
  by (auto simp: find_mem_end_def Let_def word_less_nat_alt)

definition boot_available :: "(nat \<Rightarrow> multiboot_mmap_entry) \<Rightarrow> multiboot_info \<Rightarrow> nat \<Rightarrow> bool" where
  "boot_available entry_at mbi k \<longleftrightarrow>
     (has_mmap mbi \<longrightarrow> (\<exists>e \<in> set (mmap_entries entry_at mbi). entry_holds e k))"

definition boot_module :: "(nat \<Rightarrow> multiboot_mod) \<Rightarrow> multiboot_info \<Rightarrow> nat \<Rightarrow> bool" where
  "boot_module mods mbi k \<longleftrightarrow> has_mods mbi \<and>
     ((\<exists>i < unat (mods_count mbi). touches k (unat (mod_start (mods i))) (unat (mod_end (mods i)))) \<or>
      touches k (unat (mods_addr mbi)) (unat (mods_addr mbi) + 16 * unat (mods_count mbi)))"

lemma release_available_free:
  assumes "pmm_ok s" "\<forall>e \<in> set (mmap_entries entry_at mbi). entry_in_range e"
  shows "pmm_ok (pmm_release_available entry_at mbi s)"
    "free_frames (pmm_release_available entry_at mbi s) =
       free_frames s \<union> {k. k < unat (total_frames s) \<and> boot_available entry_at mbi k}"
    "total_frames (pmm_release_available entry_at mbi s) = total_frames s"
    "bitmap_words (pmm_release_available entry_at mbi s) = bitmap_words s"
proof -
  let ?t = "total_frames s"
  have "unat (of_nat k :: u32) = k" if "k \<in> set [0..<unat ?t]" for k
    using that unat_of_nat_less [of k ?t] by simp
  then have "(\<lambda>k. unat (of_nat k :: u32)) ` set [0..<unat ?t] = set [0..<unat ?t]"
    by (auto intro: image_eqI)
  with fold_release [OF assms(1), of of_nat "[0..<unat ?t]"] release_regions_free [OF assms]
  show "pmm_ok (pmm_release_available entry_at mbi s)"
    "free_frames (pmm_release_available entry_at mbi s) =
       free_frames s \<union> {k. k < unat (total_frames s) \<and> boot_available entry_at mbi k}"
    "total_frames (pmm_release_available entry_at mbi s) = total_frames s"
    "bitmap_words (pmm_release_available entry_at mbi s) = bitmap_words s"
    by (auto simp: pmm_release_available_def for_frames_def boot_available_def)
qed

lemma reserve_module_free:
  assumes "pmm_ok s"
  shows "pmm_ok (reserve_module m s)"
    "free_frames (reserve_module m s) =
       free_frames s - {k. touches k (unat (mod_start m)) (unat (mod_end m))}"
    "total_frames (reserve_module m s) = total_frames s"
    "bitmap_words (reserve_module m s) = bitmap_words s"
proof -
  have "unat (mod_start m) < 2 ^ 44" "unat (mod_end m) + 4095 < 2 ^ 44"
    using unsigned_less [of "mod_start m", where 'a = nat]
      unsigned_less [of "mod_end m", where 'a = nat] by simp_all
  with reserve_range_free [OF assms, of "ucast (mod_start m)" "ucast (mod_end m) - ucast (mod_start m)"]
  show "pmm_ok (reserve_module m s)"
    "free_frames (reserve_module m s) =
       free_frames s - {k. touches k (unat (mod_start m)) (unat (mod_end m))}"
    "total_frames (reserve_module m s) = total_frames s"
    "bitmap_words (reserve_module m s) = bitmap_words s"
    by (simp_all add: reserve_module_def Let_def unat_ucast_u32_u64)
qed

lemma fold_modules_free:
  assumes "pmm_ok s"
  shows "pmm_ok (fold (\<lambda>i. reserve_module (mods i)) is s) \<and>
    free_frames (fold (\<lambda>i. reserve_module (mods i)) is s) = free_frames s -
      {k. \<exists>i \<in> set is. touches k (unat (mod_start (mods i))) (unat (mod_end (mods i)))} \<and>
    total_frames (fold (\<lambda>i. reserve_module (mods i)) is s) = total_frames s \<and>
    bitmap_words (fold (\<lambda>i. reserve_module (mods i)) is s) = bitmap_words s"
  using assms
proof (induction "is" arbitrary: s)
  case (Cons i "is")
  then show ?case using reserve_module_free [of s "mods i"] by auto
qed simp

lemma reserve_modules_free:
  assumes "pmm_ok s"
  shows "pmm_ok (pmm_reserve_modules mods mbi s)"
    "free_frames (pmm_reserve_modules mods mbi s) = free_frames s - {k. boot_module mods mbi k}"
    "total_frames (pmm_reserve_modules mods mbi s) = total_frames s"
    "bitmap_words (pmm_reserve_modules mods mbi s) = bitmap_words s"
proof -
  let ?a = "ucast (mods_addr mbi) :: u64" and ?l = "ucast (mods_count mbi) * 16 :: u64"
  have a: "unat ?a = unat (mods_addr mbi)" by (rule unat_ucast_u32_u64)
  have bounds: "unat (mods_addr mbi) < 2 ^ 32" "unat (mods_count mbi) < 2 ^ 32"
    using unsigned_less [of "mods_addr mbi", where 'a = nat]
      unsigned_less [of "mods_count mbi", where 'a = nat] by simp_all
  then have l: "unat ?l = 16 * unat (mods_count mbi)"
    by (subst unat_mult_lem [THEN iffD1]) (simp_all add: unat_ucast_u32_u64)
  with bounds have al: "unat (?a + ?l) = unat (mods_addr mbi) + 16 * unat (mods_count mbi)"
    by (subst unat_plus_no_wrap) (simp_all add: a)
  let ?s = "fold (\<lambda>i. reserve_module (mods i)) [0..<unat (mods_count mbi)] s"
  have s: "pmm_ok ?s" using fold_modules_free [OF assms] by blast
  have "unat ?a < 2 ^ 44" "unat (?a + ?l) + 4095 < 2 ^ 44"
    using bounds by (simp_all only: a al) simp_all
  from reserve_range_free [OF s this] fold_modules_free [OF assms, of mods "[0..<unat (mods_count mbi)]"]
  show "pmm_ok (pmm_reserve_modules mods mbi s)"
    "free_frames (pmm_reserve_modules mods mbi s) = free_frames s - {k. boot_module mods mbi k}"
    "total_frames (pmm_reserve_modules mods mbi s) = total_frames s"
    "bitmap_words (pmm_reserve_modules mods mbi s) = bitmap_words s"
    using assms by (auto simp: pmm_reserve_modules_def boot_module_def a al)
qed

text \<open>The first frame past the kernel image and the bitmap behind it.\<close>

definition kernel_limit :: "(nat \<Rightarrow> multiboot_mmap_entry) \<Rightarrow> u64 \<Rightarrow> multiboot_info \<Rightarrow> nat" where
  "kernel_limit entry_at kernel_end_phys mbi =
     unat (bitmap_end_frame kernel_end_phys
             ((ucast (find_mem_end entry_at mbi div PAGE_SIZE) + 31) div 32))"

lemma pmm_init_facts:
  fixes entry_at mods kernel_end_phys mbi s0
  defines "s \<equiv> pmm_init entry_at mods kernel_end_phys mbi s0"
    and "n \<equiv> unat (find_mem_end entry_at mbi) div 4096"
    and "l \<equiv> kernel_limit entry_at kernel_end_phys mbi"
  assumes es: "\<forall>e \<in> set (mmap_entries entry_at mbi). entry_in_range e"
    and n: "256 \<le> n" and l: "l \<le> n"
  shows "pmm_ok s" "unat (total_frames s) = n"
    "free_frames s = {k. k < n \<and> 256 \<le> k \<and> l \<le> k \<and> boot_available entry_at mbi k \<and>
       \<not> boot_module mods mbi k}"
proof -
  define s1 where "s1 = pmm_size (find_mem_end entry_at mbi) s0"
  define s2 where "s2 = pmm_release_available entry_at mbi s1"
  define s3 where "s3 = for_frames reserve_frame 0 (0x100000 div PAGE_SIZE) s2"
  define e where "e = bitmap_end_frame kernel_end_phys (bitmap_words s3)"
  define s4 where "s4 = for_frames reserve_frame (0x100000 div PAGE_SIZE) e s3"
  have s: "s = pmm_reserve_modules mods mbi s4"
    unfolding s_def s4_def e_def s3_def s2_def s1_def pmm_init_def Let_def ..
  note s1 = pmm_size_ok [OF find_mem_end_bound, of entry_at mbi s0, folded s1_def n_def]
  have w1: "bitmap_words s1 = (ucast (find_mem_end entry_at mbi div PAGE_SIZE) + 31) div 32"
    by (simp add: s1_def pmm_size_def Let_def)
  note s2 = release_available_free [OF s1(1) es, folded s2_def]
  have low: "unat (0x100000 div PAGE_SIZE :: u32) = 256" by simp
  have "0x100000 div PAGE_SIZE \<le> total_frames s2"
    using n s1(3) s2(3) low by (simp only: word_le_nat_alt)
  note s3 = for_frames_reserve [OF s2(1) this, of 0, folded s3_def]
  have e: "unat e = l" by (simp only: e_def l_def kernel_limit_def s3(4) s2(4) w1)
  have tot: "unat (total_frames s3) = n" using s1(3) s2(3) s3(3) by simp
  with e l have "e \<le> total_frames s3" by (simp only: word_le_nat_alt)
  note s4 = for_frames_reserve [OF s3(1) this, of "0x100000 div PAGE_SIZE", folded s4_def]
  note s5 = reserve_modules_free [OF s4(1), of mods mbi, folded s]
  show "pmm_ok s" by (rule s5)
  show "unat (total_frames s) = n" using s5(3) s4(3) tot by simp
  show "free_frames s = {k. k < n \<and> 256 \<le> k \<and> l \<le> k \<and> boot_available entry_at mbi k \<and>
       \<not> boot_module mods mbi k}"
    unfolding s5(2) s4(2) s3(2) s2(2) s1(2) s1(3) low e by auto
qed

section \<open>Run-length walk\<close>

text \<open>Consecutive, non-empty, maximal runs from frame \<open>a\<close> on.\<close>

fun run_list :: "nat \<Rightarrow> (u32 \<times> u32 \<times> bool) list \<Rightarrow> bool" where
  "run_list a [] = True"
| "run_list a ((start, len, used) # rs) \<longleftrightarrow>
     unat start = a \<and> 0 < len \<and> (rs \<noteq> [] \<longrightarrow> snd (snd (hd rs)) \<noteq> used) \<and>
     run_list (a + unat len) rs"

definition run_frames :: "(u32 \<times> u32 \<times> bool) list \<Rightarrow> bool list" where
  "run_frames rs = concat (map (\<lambda>(start, len, used). replicate (unat len) used) rs)"

lemma region_loop_runs:
  fixes s
  defines "n \<equiv> unat (total_frames s)"
  assumes "unat a < k" "k \<le> n" "\<forall>j \<in> {unat a..<k}. frame_used s j = u"
  shows "run_list (unat a) (region_loop s a u [k..<n]) \<and>
    run_frames (region_loop s a u [k..<n]) = map (frame_used s) [unat a..<n] \<and>
    region_loop s a u [k..<n] \<noteq> [] \<and> snd (snd (hd (region_loop s a u [k..<n]))) = u"
  using assms(2-)
proof (induction "n - k" arbitrary: k a u)
  case 0
  then have "[k..<n] = []" "k = n" by auto
  moreover have "unat (total_frames s - a) = n - unat a"
    using 0 by (subst unat_minus_no_wrap) (auto simp: n_def)
  moreover have "map (frame_used s) [unat a..<n] = replicate (n - unat a) u"
    using 0 by (intro replicate_eqI) auto
  moreover have "0 < total_frames s - a"
    using calculation 0 by (simp add: word_less_nat_alt)
  ultimately show ?case by (simp add: run_frames_def)
next
  case (Suc d)
  then have k: "k < n" "[k..<n] = k # [Suc k..<n]" by (auto simp: upt_conv_Cons)
  let ?i = "of_nat k :: u32"
  have i: "unat ?i = k" using k(1) unfolding n_def by (rule unat_of_nat_less)
  show ?case
  proof (cases "frame_used s k = u")
    case True
    with Suc.prems have "\<forall>j \<in> {unat a..<Suc k}. frame_used s j = u"
      by (auto simp: less_Suc_eq)
    with Suc.hyps(1) [of "Suc k" a u] Suc.hyps(2) Suc.prems k True show ?thesis
      by (simp add: Let_def bitmap_test_iff i)
  next
    case False
    have len: "unat (?i - a) = k - unat a"
      using Suc.prems(1) by (subst unat_minus_no_wrap) (auto simp: i)
    have "map (frame_used s) [unat a..<k] = replicate (k - unat a) u"
      using Suc.prems by (intro replicate_eqI) auto
    moreover have "[unat a..<n] = [unat a..<k] @ [k..<n]"
      using Suc.prems(1) k(1) by (metis le_add_diff_inverse less_imp_le upt_add_eq_append)
    moreover have "0 < ?i - a" using Suc.prems(1) by (simp add: word_less_nat_alt len)
    ultimately show ?thesis
      using Suc.hyps(1) [of "Suc k" ?i "frame_used s k"] Suc.hyps(2) k False Suc.prems(1)
      by (auto simp: Let_def bitmap_test_iff i len run_frames_def less_Suc_eq)
  qed
qed

section \<open>Properties\<close>

text \<open>A machine with 4 MiB of RAM from 1 MiB on and a kernel image that ends at 1.5 MiB, and a
  state with three frames of which two are free, for the examples.\<close>

definition blank_pmm :: pmm where
  "blank_pmm = \<lparr>bitmap = \<lambda>_. 0, bitmap_words = 0, total_frames = 0, used_frames = 0\<rparr>"

definition ram_entry :: "nat \<Rightarrow> multiboot_mmap_entry" where
  "ram_entry a = \<lparr>entry_size = 20, entry_addr = 0x100000, entry_len = 0x300000, entry_type = 1\<rparr>"

definition no_mods :: "nat \<Rightarrow> multiboot_mod" where
  "no_mods i = \<lparr>mod_start = 0, mod_end = 0\<rparr>"

definition ram_mbi :: multiboot_info where
  "ram_mbi = \<lparr>mbi_flags = 0x40, mem_upper = 0, mods_count = 0, mods_addr = 0,
     mmap_length = 24, mmap_addr = 0x1000\<rparr>"

definition three_frames :: pmm where
  "three_frames = release_frame 1 (release_frame 2 (pmm_size 0x3000 blank_pmm))"

lemma three_frames_ok: "pmm_ok three_frames"
  by (simp add: three_frames_def release_frame_ok pmm_size_ok)

lemma three_frames_free: "free_frames three_frames = {1, 2}"
  by (auto simp: three_frames_def release_frame_free pmm_size_ok)

text \<open>C26: \<open>pmm_alloc_frame\<close> hands out the lowest free frame: it returns the address of the
  minimum of the free set, removes exactly that frame from the set, keeps the invariant and
  lowers the free count by one; with no free frame it returns 0 and changes nothing.\<close>

theorem pmm_alloc_frame_lowest:
  assumes "pmm_ok s"
  shows "case pmm_alloc_frame s of (s', a) \<Rightarrow>
    (if free_frames s = {} then s' = s \<and> a = 0
     else a = frame_addr (Min (free_frames s)) \<and>
          free_frames s' = free_frames s - {Min (free_frames s)} \<and>
          pmm_get_free_count s' = pmm_get_free_count s - 1 \<and> pmm_ok s')"
proof (cases "free_frames s = {}")
  case True
  then show ?thesis by (simp add: alloc_none_free assms)
next
  case False
  have "pmm_get_free_count (fst (pmm_alloc_frame s)) = pmm_get_free_count s - 1"
    by (simp add: min_free [OF assms False] pmm_get_free_count_def)
  with False frames.alloc_ok [OF assms] frames.alloc_free [OF assms False]
    frames.alloc_min [OF assms False]
  show ?thesis by (simp add: split_beta)
qed

theorem pmm_alloc_frame_lowest_witness:
  "pmm_ok three_frames \<and> snd (pmm_alloc_frame three_frames) = 0x1000 \<and>
   free_frames (fst (pmm_alloc_frame three_frames)) = {2}"
  using pmm_alloc_frame_lowest [OF three_frames_ok]
  by (auto simp: three_frames_free three_frames_ok frame_addr_def split_beta)

text \<open>\<open>n\<close> successive allocations return the addresses of \<open>n\<close> different frames, all of
  them free before and none of them free after, as long as \<open>n\<close> frames are free; nobody is
  handed a frame that somebody else already holds.\<close>

lemma pmm_allocations_distinct:
  assumes "pmm_ok s" "n \<le> card (free_frames s)"
  shows "\<exists>ks. snd (alloc_frames pmm_alloc_frame n s) = map frame_addr ks \<and> length ks = n \<and>
    distinct (map frame_addr ks) \<and> set ks \<subseteq> free_frames s \<and>
    free_frames (fst (alloc_frames pmm_alloc_frame n s)) = free_frames s - set ks"
proof -
  obtain ks where ks: "snd (alloc_frames pmm_alloc_frame n s) = map frame_addr ks"
    "length ks = n" "distinct ks" "set ks \<subseteq> free_frames s"
    "free_frames (fst (alloc_frames pmm_alloc_frame n s)) = free_frames s - set ks"
    using frames.alloc_frames_distinct [OF assms] by (metis prod.collapse)
  moreover have "inj_on frame_addr (set ks)"
    using frames.frame_addr_inj [OF assms(1)] ks(4) free_frames_bounded [of s]
    by (intro inj_onI) blast
  ultimately show ?thesis by (auto simp: distinct_map)
qed

text \<open>freeing the frame just allocated restores the set of free frames, and freeing any
  address keeps the invariant, frees at most the frame of that address and never frees a frame
  twice (the count stays the size of the set).\<close>

lemma pmm_free_frame_correct:
  assumes "pmm_ok s"
  shows "(free_frames s \<noteq> {} \<longrightarrow>
      free_frames (pmm_free_frame (snd (pmm_alloc_frame s)) (fst (pmm_alloc_frame s))) = free_frames s) \<and>
    (\<forall>a. pmm_ok (pmm_free_frame a s) \<and>
       free_frames (pmm_free_frame a s) \<subseteq> insert (unat a div 4096 mod 2 ^ 32) (free_frames s) \<and>
       unat (pmm_get_free_count (pmm_free_frame a s)) = card (free_frames (pmm_free_frame a s)))"
proof (intro conjI allI impI)
  fix a
  show ok: "pmm_ok (pmm_free_frame a s)" by (rule frames.release_ok [OF assms])
  have "unat (ucast (a div PAGE_SIZE) :: u32) = unat a div 4096 mod 2 ^ 32"
    by (simp add: unsigned_ucast_eq unat_div_distrib take_bit_eq_mod)
  then show "free_frames (pmm_free_frame a s) \<subseteq> insert (unat a div 4096 mod 2 ^ 32) (free_frames s)"
    by (auto simp: pmm_free_frame_def release_frame_free)
  show "unat (pmm_get_free_count (pmm_free_frame a s)) = card (free_frames (pmm_free_frame a s))"
    unfolding pmm_get_free_count_def using pmm_ok_used [OF ok]
    by (subst unat_minus_no_wrap) auto
qed (rule frames.alloc_release [OF assms])

text \<open>C25: after \<open>pmm_init\<close> the free frames are exactly those that lie completely inside an
  available region of the memory map, above the first MiB and above the kernel image with its
  bitmap, and that touch neither a boot module nor the array of module records; the invariant
  holds.  The machine must have room for the kernel and the bitmap (the reservation loops are
  not bounded by the frame count) and its regions must lie in the 16 TiB of 32-bit frame
  numbers.\<close>

theorem pmm_init_free_frames:
  assumes "\<forall>e \<in> set (mmap_entries entry_at mbi). entry_in_range e"
    and "256 \<le> unat (find_mem_end entry_at mbi) div 4096"
    and "kernel_limit entry_at kernel_end_phys mbi \<le> unat (find_mem_end entry_at mbi) div 4096"
  shows "pmm_ok (pmm_init entry_at mods kernel_end_phys mbi s0) \<and>
    (\<forall>k. k \<in> free_frames (pmm_init entry_at mods kernel_end_phys mbi s0) \<longleftrightarrow>
       k < unat (find_mem_end entry_at mbi) div 4096 \<and> 256 \<le> k \<and>
       kernel_limit entry_at kernel_end_phys mbi \<le> k \<and>
       boot_available entry_at mbi k \<and> \<not> boot_module mods mbi k)"
  using pmm_init_facts [OF assms] by auto

lemma ram_entries: "mmap_entries ram_entry ram_mbi = [ram_entry 0x1000]"
  by code_simp

lemma ram_mem_end: "find_mem_end ram_entry ram_mbi = 0x400000"
  by code_simp

theorem pmm_init_free_frames_witness:
  "512 \<in> free_frames (pmm_init ram_entry no_mods 0x180000 ram_mbi blank_pmm) \<and>
   384 \<notin> free_frames (pmm_init ram_entry no_mods 0x180000 ram_mbi blank_pmm)"
proof -
  have l: "kernel_limit ram_entry 0x180000 ram_mbi = 385" by code_simp
  have "boot_available ram_entry ram_mbi 512" "\<not> boot_module no_mods ram_mbi 512"
    by (simp add: boot_available_def ram_entries entry_holds_def ram_entry_def inside_def
        MULTIBOOT_MMAP_AVAILABLE_def) (simp add: boot_module_def has_mods_def ram_mbi_def)
  with pmm_init_free_frames [of ram_entry ram_mbi "0x180000" no_mods blank_pmm] l show ?thesis
    by (simp add: ram_entries ram_mem_end entry_in_range_def ram_entry_def)
qed

text \<open>\<open>pmm_region_iter\<close> reports the bitmap faithfully: the runs start at frame 0, follow
  one another without gap or overlap, are non-empty and maximal (neighbouring runs differ),
  and spelled out they give the state of every frame.\<close>

lemma pmm_region_iter_tiles:
  "run_list 0 (pmm_region_iter s) \<and>
   run_frames (pmm_region_iter s) = map (frame_used s) [0..<unat (total_frames s)]"
proof (cases "total_frames s = 0")
  case True
  then show ?thesis by (simp add: pmm_region_iter_def run_frames_def)
next
  case False
  then have "1 \<le> unat (total_frames s)" by (simp add: unat_gt_0 Suc_leI)
  with region_loop_runs [of 0 1 s "frame_used s 0"] False show ?thesis
    by (simp add: pmm_region_iter_def bitmap_test_iff)
qed

end
