(* ===== verification/Vmm.thy ===== *)
theory Vmm
  imports Pmm Cstring
begin

text \<open>
  Four-level paging, \<open>src/mm/vmm.c\<close>: creation and lookup of page-table chains, mapping,
  unmapping, translation and protection of a page, address-space creation and teardown, and
  the checks on user pointers.

  Physical memory that holds page tables is a function from a frame's address and an index to
  an entry.  The kernel reaches a table through the direct map, at a constant distance from its
  physical address; a table pointer of the code is the physical address here and \<open>NULL\<close> is
  \<open>None\<close>.  A panic is the value \<open>None\<close> of a fallible operation.  The TLB instructions
  (\<open>invlpg\<close>, loads of \<open>cr3\<close>) are recorded in order in the field \<open>tlb\<close>.
\<close>

section \<open>State\<close>

datatype tlb_op = Invlpg u64 | Load_cr3 u64

record vm =
  frames :: pmm
  tables :: "u64 \<Rightarrow> nat \<Rightarrow> u64"
  kernel_pml4 :: "u64 option"
  current_cr3 :: "u64 option"
  tlb :: "tlb_op list"

definition VMM_FLAG_PRESENT :: u64 where "VMM_FLAG_PRESENT = 0x001"
definition VMM_FLAG_WRITE :: u64 where "VMM_FLAG_WRITE = 0x002"
definition VMM_FLAG_USER :: u64 where "VMM_FLAG_USER = 0x004"
definition VMM_FLAG_HUGE :: u64 where "VMM_FLAG_HUGE = 0x080"
definition VMM_FLAG_GLOBAL :: u64 where "VMM_FLAG_GLOBAL = 0x100"
definition VMM_FLAG_NX :: u64 where "VMM_FLAG_NX = push_bit 63 1"
definition PTE_ADDR_MASK :: u64 where "PTE_ADDR_MASK = 0x000FFFFFFFFFF000"
definition KERNEL_DIRECT_MAP_LIMIT :: u64 where "KERNEL_DIRECT_MAP_LIMIT = 0x04000000"

definition has :: "u64 \<Rightarrow> u64 \<Rightarrow> bool" where
  "has e flag \<longleftrightarrow> e AND flag \<noteq> 0"

definition pml4_idx :: "u64 \<Rightarrow> nat" where "pml4_idx va = unat (drop_bit 39 va AND 0x1FF)"
definition pdpt_idx :: "u64 \<Rightarrow> nat" where "pdpt_idx va = unat (drop_bit 30 va AND 0x1FF)"
definition pd_idx :: "u64 \<Rightarrow> nat" where "pd_idx va = unat (drop_bit 21 va AND 0x1FF)"
definition pt_idx :: "u64 \<Rightarrow> nat" where "pt_idx va = unat (drop_bit 12 va AND 0x1FF)"

definition entry_to_table :: "u64 \<Rightarrow> u64" where
  "entry_to_table entry = entry AND PTE_ADDR_MASK"

text \<open>Writing entry \<open>i\<close> of the table at \<open>t\<close>; zeroing a whole table.\<close>

definition set_entry :: "u64 \<Rightarrow> nat \<Rightarrow> u64 \<Rightarrow> vm \<Rightarrow> vm" where
  "set_entry t i e s = s\<lparr>tables := (tables s)(t := (tables s t)(i := e))\<rparr>"

definition zero_table :: "u64 \<Rightarrow> vm \<Rightarrow> vm" where
  "zero_table t s = s\<lparr>tables := (tables s)(t := (\<lambda>_. 0))\<rparr>"

section \<open>Walks\<close>

definition check_low :: "u64 \<Rightarrow> bool" where
  "check_low phys \<longleftrightarrow> \<not> KERNEL_DIRECT_MAP_LIMIT \<le> phys"

definition alloc_table :: "vm \<Rightarrow> (vm \<times> u64) option" where
  "alloc_table s =
     (let (f, phys) = pmm_alloc_frame (frames s)
      in if phys = 0 \<or> \<not> check_low phys then None
         else Some (zero_table phys (s\<lparr>frames := f\<rparr>), phys))"

text \<open>One level of \<open>walk_create\<close>: make entry \<open>i\<close> of table \<open>t\<close> present.\<close>

definition ensure_entry :: "vm \<Rightarrow> u64 \<Rightarrow> nat \<Rightarrow> bool \<Rightarrow> vm option" where
  "ensure_entry s t i user =
     (let mid_flags = VMM_FLAG_PRESENT OR VMM_FLAG_WRITE OR (if user then VMM_FLAG_USER else 0)
      in if \<not> has (tables s t i) VMM_FLAG_PRESENT
         then case alloc_table s of
                None \<Rightarrow> None
              | Some (s', phys) \<Rightarrow> Some (set_entry t i (phys OR mid_flags) s')
         else Some (if user then set_entry t i (tables s t i OR VMM_FLAG_USER) s else s))"

definition walk_create :: "vm \<Rightarrow> u64 \<Rightarrow> u64 \<Rightarrow> bool \<Rightarrow> (vm \<times> (u64 \<times> nat) option) option" where
  "walk_create s pml4 va user =
     (case ensure_entry s pml4 (pml4_idx va) user of
        None \<Rightarrow> None
      | Some s \<Rightarrow>
          let pdpt = entry_to_table (tables s pml4 (pml4_idx va))
          in case ensure_entry s pdpt (pdpt_idx va) user of
               None \<Rightarrow> None
             | Some s \<Rightarrow>
                 if has (tables s pdpt (pdpt_idx va)) VMM_FLAG_HUGE then Some (s, None)
                 else
                   let pd = entry_to_table (tables s pdpt (pdpt_idx va))
                   in case ensure_entry s pd (pd_idx va) user of
                        None \<Rightarrow> None
                      | Some s \<Rightarrow>
                          if has (tables s pd (pd_idx va)) VMM_FLAG_HUGE then Some (s, None)
                          else Some (s, Some (entry_to_table (tables s pd (pd_idx va)), pt_idx va)))"

definition walk_lookup :: "vm \<Rightarrow> u64 \<Rightarrow> u64 \<Rightarrow> (u64 \<times> nat) option" where
  "walk_lookup s pml4 va =
     (let e = tables s pml4 (pml4_idx va)
      in if \<not> has e VMM_FLAG_PRESENT then None
         else let pdpt = entry_to_table e; e = tables s pdpt (pdpt_idx va)
              in if \<not> has e VMM_FLAG_PRESENT then None
                 else if has e VMM_FLAG_HUGE then None
                 else let pd = entry_to_table e; e = tables s pd (pd_idx va)
                      in if \<not> has e VMM_FLAG_PRESENT then None
                         else if has e VMM_FLAG_HUGE then None
                         else Some (entry_to_table e, pt_idx va))"

section \<open>Mapping\<close>

definition flush_page :: "u64 \<Rightarrow> u64 \<Rightarrow> vm \<Rightarrow> vm" where
  "flush_page pml4 virt s =
     (if current_cr3 s = Some pml4 then s\<lparr>tlb := tlb s @ [Invlpg virt]\<rparr> else s)"

definition make_pte :: "u64 \<Rightarrow> u64 \<Rightarrow> u64" where
  "make_pte phys flags =
     (phys AND PTE_ADDR_MASK) OR (flags AND 0xFFF) OR (flags AND VMM_FLAG_NX) OR VMM_FLAG_PRESENT"

definition vmm_map_in :: "vm \<Rightarrow> u64 \<Rightarrow> u64 \<Rightarrow> u64 \<Rightarrow> u64 \<Rightarrow> vm option" where
  "vmm_map_in s pml4 virt phys flags =
     (case walk_create s pml4 virt (has flags VMM_FLAG_USER) of
        None \<Rightarrow> None
      | Some (s, None) \<Rightarrow> Some s
      | Some (s, Some (t, i)) \<Rightarrow> Some (flush_page pml4 virt (set_entry t i (make_pte phys flags) s)))"

definition vmm_unmap_in :: "vm \<Rightarrow> u64 \<Rightarrow> u64 \<Rightarrow> vm" where
  "vmm_unmap_in s pml4 virt =
     (case walk_lookup s pml4 virt of
        None \<Rightarrow> s
      | Some (t, i) \<Rightarrow> flush_page pml4 virt (set_entry t i 0 s))"

definition vmm_get_physical_in :: "vm \<Rightarrow> u64 \<Rightarrow> u64 \<Rightarrow> u64" where
  "vmm_get_physical_in s pml4 virt =
     (case walk_lookup s pml4 virt of
        None \<Rightarrow> 0
      | Some (t, i) \<Rightarrow>
          if \<not> has (tables s t i) VMM_FLAG_PRESENT then 0
          else (tables s t i AND PTE_ADDR_MASK) OR (virt AND 0xFFF))"

definition vmm_set_flags_in :: "vm \<Rightarrow> u64 \<Rightarrow> u64 \<Rightarrow> u64 \<Rightarrow> vm \<times> int" where
  "vmm_set_flags_in s pml4 virt flags =
     (case walk_lookup s pml4 virt of
        None \<Rightarrow> (s, - 1)
      | Some (t, i) \<Rightarrow>
          if \<not> has (tables s t i) VMM_FLAG_PRESENT then (s, - 1)
          else (flush_page pml4 virt (set_entry t i (make_pte (tables s t i) flags) s), 0))"

text \<open>The operations without a page-table argument use the current task's table, \<open>cur\<close> being
  the result of \<open>task_current_pml4\<close>.\<close>

definition default_pml4 :: "vm \<Rightarrow> u64 option \<Rightarrow> u64 option" where
  "default_pml4 s cur = (case cur of Some p \<Rightarrow> Some p | None \<Rightarrow> kernel_pml4 s)"

definition vmm_map_page :: "vm \<Rightarrow> u64 option \<Rightarrow> u64 \<Rightarrow> u64 \<Rightarrow> u64 \<Rightarrow> vm option" where
  "vmm_map_page s cur virt phys flags =
     Option.bind (default_pml4 s cur) (\<lambda>p. vmm_map_in s p virt phys flags)"

definition vmm_unmap_page :: "vm \<Rightarrow> u64 option \<Rightarrow> u64 \<Rightarrow> vm option" where
  "vmm_unmap_page s cur virt = map_option (\<lambda>p. vmm_unmap_in s p virt) (default_pml4 s cur)"

definition vmm_get_physical :: "vm \<Rightarrow> u64 option \<Rightarrow> u64 \<Rightarrow> u64 option" where
  "vmm_get_physical s cur virt = map_option (\<lambda>p. vmm_get_physical_in s p virt) (default_pml4 s cur)"

section \<open>Address spaces\<close>

definition install_huge_2m :: "u64 \<Rightarrow> nat \<Rightarrow> u64 \<Rightarrow> u64 \<Rightarrow> vm \<Rightarrow> vm" where
  "install_huge_2m pd_table pd_i phys flags =
     set_entry pd_table pd_i
       ((phys AND NOT 0x1FFFFF) OR flags OR VMM_FLAG_PRESENT OR VMM_FLAG_HUGE)"

definition load_cr3 :: "u64 \<Rightarrow> vm \<Rightarrow> vm" where
  "load_cr3 pml4 s = s\<lparr>tlb := tlb s @ [Load_cr3 pml4]\<rparr>"

definition vmm_init :: "vm \<Rightarrow> vm option" where
  "vmm_init s =
     (case alloc_table s of None \<Rightarrow> None | Some (s, kernel_pml4_phys) \<Rightarrow>
      case alloc_table (s\<lparr>kernel_pml4 := Some kernel_pml4_phys\<rparr>) of None \<Rightarrow> None | Some (s, pdpt_hhdm) \<Rightarrow>
      case alloc_table s of None \<Rightarrow> None | Some (s, pd_hhdm) \<Rightarrow>
      let s = set_entry pdpt_hhdm 0 (pd_hhdm OR VMM_FLAG_PRESENT OR VMM_FLAG_WRITE) s;
          s = fold (\<lambda>i. install_huge_2m pd_hhdm i (of_nat i * 0x200000)
                (VMM_FLAG_WRITE OR VMM_FLAG_GLOBAL)) [0..<512] s;
          s = set_entry kernel_pml4_phys 256 (pdpt_hhdm OR VMM_FLAG_PRESENT OR VMM_FLAG_WRITE) s
      in case alloc_table s of None \<Rightarrow> None | Some (s, pdpt_high) \<Rightarrow>
      let s = set_entry pdpt_high 510 (pd_hhdm OR VMM_FLAG_PRESENT OR VMM_FLAG_WRITE) s;
          s = set_entry kernel_pml4_phys 511 (pdpt_high OR VMM_FLAG_PRESENT OR VMM_FLAG_WRITE) s
      in Some ((load_cr3 kernel_pml4_phys s)\<lparr>current_cr3 := Some kernel_pml4_phys\<rparr>))"

text \<open>\<open>None\<close> is a panic; an allocation failure returns \<open>NULL\<close>.\<close>

definition vmm_new_pml4 :: "vm \<Rightarrow> (vm \<times> u64 option) option" where
  "vmm_new_pml4 s =
     (let (f, phys) = pmm_alloc_frame (frames s); s = s\<lparr>frames := f\<rparr>
      in if phys = 0 then Some (s, None)
         else if \<not> check_low phys then None
         else case kernel_pml4 s of
                None \<Rightarrow> None
              | Some k \<Rightarrow>
                  Some (fold (\<lambda>i s. set_entry phys i (tables s k i) s) [256..<512] (zero_table phys s),
                        Some phys))"

definition free_entry :: "u64 \<Rightarrow> vm \<Rightarrow> vm" where
  "free_entry e s = s\<lparr>frames := pmm_free_frame (e AND PTE_ADDR_MASK) (frames s)\<rparr>"

definition free_pt :: "u64 \<Rightarrow> vm \<Rightarrow> vm" where
  "free_pt pt = fold (\<lambda>i1 s. let e1 = tables s pt i1
     in if has e1 VMM_FLAG_PRESENT then free_entry e1 s else s) [0..<512]"

definition free_pd :: "u64 \<Rightarrow> vm \<Rightarrow> vm" where
  "free_pd pd = fold (\<lambda>i2 s. let e2 = tables s pd i2
     in if \<not> has e2 VMM_FLAG_PRESENT then s
        else if has e2 VMM_FLAG_HUGE then free_entry e2 s
        else free_entry e2 (free_pt (entry_to_table e2) s)) [0..<512]"

definition free_pdpt :: "u64 \<Rightarrow> vm \<Rightarrow> vm" where
  "free_pdpt pdpt = fold (\<lambda>i3 s. let e3 = tables s pdpt i3
     in if \<not> has e3 VMM_FLAG_PRESENT then s
        else if has e3 VMM_FLAG_HUGE then free_entry e3 s
        else free_entry e3 (free_pd (entry_to_table e3) s)) [0..<512]"

definition free_user_subtree :: "u64 \<Rightarrow> vm \<Rightarrow> vm" where
  "free_user_subtree pml4 = fold (\<lambda>i4 s. let e4 = tables s pml4 i4
     in if \<not> has e4 VMM_FLAG_PRESENT then s
        else set_entry pml4 i4 0 (free_entry e4 (free_pdpt (entry_to_table e4) s))) [0..<256]"

definition vmm_free_pml4 :: "u64 option \<Rightarrow> vm \<Rightarrow> vm" where
  "vmm_free_pml4 pml4 s =
     (case pml4 of
        None \<Rightarrow> s
      | Some p \<Rightarrow> if Some p = kernel_pml4 s then s
                  else let s = free_user_subtree p s in s\<lparr>frames := pmm_free_frame p (frames s)\<rparr>)"

definition vmm_unmap_user_space :: "u64 option \<Rightarrow> vm \<Rightarrow> vm" where
  "vmm_unmap_user_space pml4 s =
     (case pml4 of
        None \<Rightarrow> s
      | Some p \<Rightarrow> let s = free_user_subtree p s
                  in if Some p = current_cr3 s then load_cr3 p s else s)"

definition vmm_switch_pml4 :: "u64 option \<Rightarrow> vm \<Rightarrow> vm" where
  "vmm_switch_pml4 pml4 s =
     (case pml4 of
        None \<Rightarrow> s
      | Some p \<Rightarrow> if Some p = current_cr3 s then s else load_cr3 p (s\<lparr>current_cr3 := Some p\<rparr>))"

section \<open>User pointers\<close>

definition page_user_accessible :: "vm \<Rightarrow> u64 \<Rightarrow> u64 \<Rightarrow> bool \<Rightarrow> bool" where
  "page_user_accessible s pml4 va wr =
     (let e = tables s pml4 (pml4_idx va)
      in if \<not> has e VMM_FLAG_PRESENT \<or> \<not> has e VMM_FLAG_USER then False
         else let e = tables s (entry_to_table e) (pdpt_idx va)
              in if \<not> has e VMM_FLAG_PRESENT \<or> \<not> has e VMM_FLAG_USER then False
                 else if has e VMM_FLAG_HUGE then \<not> (wr \<and> \<not> has e VMM_FLAG_WRITE)
                 else let e = tables s (entry_to_table e) (pd_idx va)
                      in if \<not> has e VMM_FLAG_PRESENT \<or> \<not> has e VMM_FLAG_USER then False
                         else if has e VMM_FLAG_HUGE then \<not> (wr \<and> \<not> has e VMM_FLAG_WRITE)
                         else let e = tables s (entry_to_table e) (pt_idx va)
                              in if \<not> has e VMM_FLAG_PRESENT \<or> \<not> has e VMM_FLAG_USER then False
                                 else \<not> (wr \<and> \<not> has e VMM_FLAG_WRITE))"

text \<open>The loop of \<open>user_ptr_ok\<close>; it ends when \<open>va\<close> meets \<open>last_va\<close> or an inaccessible page.\<close>

partial_function (option) check_pages :: "(u64 \<Rightarrow> bool) \<Rightarrow> u64 \<Rightarrow> u64 \<Rightarrow> bool option" where
  "check_pages acc va last_va =
     (if \<not> acc va then Some False
      else if va = last_va then Some True
      else check_pages acc (va + PAGE_SIZE) last_va)"

definition user_ptr_ok :: "vm \<Rightarrow> u64 option \<Rightarrow> u64 \<Rightarrow> u64 \<Rightarrow> bool \<Rightarrow> bool option" where
  "user_ptr_ok s cur start len wr =
     (if len = 0 then Some True
      else case default_pml4 s cur of
             None \<Rightarrow> Some False
           | Some pml4 \<Rightarrow>
               if start + len < start then Some False
               else check_pages (\<lambda>va. page_user_accessible s pml4 va wr)
                      (start AND NOT 0xFFF) ((start + len - 1) AND NOT 0xFFF))"

text \<open>The copies run in the current address space, whose bytes are \<open>m\<close>; the length is cast to
  32 bits.\<close>

definition copy_from_user ::
  "vm \<Rightarrow> u64 option \<Rightarrow> mem \<Rightarrow> u64 \<Rightarrow> u64 \<Rightarrow> u64 \<Rightarrow> (mem \<times> int) option" where
  "copy_from_user s cur m kdst usrc n =
     map_option (\<lambda>ok. if \<not> ok then (m, - 1)
         else (memcpy m (unat kdst) (unat usrc) (unat (ucast n :: u32)), sint (ucast n :: u32)))
       (user_ptr_ok s cur usrc n False)"

definition copy_to_user ::
  "vm \<Rightarrow> u64 option \<Rightarrow> mem \<Rightarrow> u64 \<Rightarrow> u64 \<Rightarrow> u64 \<Rightarrow> (mem \<times> int) option" where
  "copy_to_user s cur m udst ksrc n =
     map_option (\<lambda>ok. if \<not> ok then (m, - 1)
         else (memcpy m (unat udst) (unat ksrc) (unat (ucast n :: u32)), sint (ucast n :: u32)))
       (user_ptr_ok s cur udst n True)"

function strncpy_user_loop ::
  "(u64 \<Rightarrow> bool) \<Rightarrow> mem \<Rightarrow> u64 \<Rightarrow> u64 \<Rightarrow> u64 \<Rightarrow> u64 \<Rightarrow> u64 \<Rightarrow> mem \<times> int" where
  "strncpy_user_loop acc m kdst usrc mx i last_page_checked =
     (if i < mx - 1
      then let va = usrc + i; page = va AND NOT 0xFFF
           in if page \<noteq> last_page_checked \<and> \<not> acc page then (m, - 1)
              else let c = m (unat va); m = m(unat (kdst + i) := c)
                   in if c = 0 then (m, sint (ucast i :: u32))
                      else strncpy_user_loop acc m kdst usrc mx (i + 1) page
      else (m(unat (kdst + (mx - 1)) := 0), - 1))"
  by pat_completeness auto
termination
proof (relation "measure (\<lambda>(_, _, _, _, mx, i, _). unat (mx - 1 - i))")
  fix i mx :: u64 and acc m kdst usrc l page va c ma
  assume "i < mx - 1"
  then have "mx - 1 - i \<noteq> 0" by auto
  then have "unat (mx - 1 - i - 1) < unat (mx - 1 - i)" by (rule measure_unat)
  moreover have "mx - 1 - (i + 1) = mx - 1 - i - 1" by simp
  ultimately have "unat (mx - 1 - (i + 1)) < unat (mx - 1 - i)" by (simp only:)
  then show "((acc, ma, kdst, usrc, mx, i + 1, page), acc, m, kdst, usrc, mx, i, l)
      \<in> measure (\<lambda>(_, _, _, _, mx, i, _). unat (mx - 1 - i))" by (simp only: in_measure prod.case)
qed simp

declare strncpy_user_loop.simps [simp del]

definition strncpy_from_user ::
  "vm \<Rightarrow> u64 option \<Rightarrow> mem \<Rightarrow> u64 \<Rightarrow> u64 \<Rightarrow> u64 \<Rightarrow> mem \<times> int" where
  "strncpy_from_user s cur m kdst usrc mx =
     (if mx = 0 then (m, - 1)
      else case default_pml4 s cur of
             None \<Rightarrow> (m, - 1)
           | Some pml4 \<Rightarrow>
               strncpy_user_loop (\<lambda>va. page_user_accessible s pml4 va False) m kdst usrc mx 0 (- 1))"

section \<open>Entries\<close>

lemma PTE_ADDR_MASK_eq: "PTE_ADDR_MASK = push_bit 12 (mask 40)"
  by (simp add: PTE_ADDR_MASK_def mask_eq_exp_minus_1 push_bit_eq_mult)

lemma PTE_ADDR_MASK_bits: "bit PTE_ADDR_MASK n \<longleftrightarrow> 12 \<le> n \<and> n < 52"
  unfolding PTE_ADDR_MASK_eq by (auto simp: bit_push_bit_iff bit_mask_iff)

lemma has_bit: "k < 64 \<Longrightarrow> has e (push_bit k 1) \<longleftrightarrow> bit e k"
  unfolding has_def using and_bit_zero_iff [of k e] by simp

lemma flag_bits:
  "VMM_FLAG_PRESENT = push_bit 0 1" "VMM_FLAG_WRITE = push_bit 1 1" "VMM_FLAG_USER = push_bit 2 1"
  "VMM_FLAG_HUGE = push_bit 7 1" "VMM_FLAG_NX = push_bit 63 1"
  by (simp_all add: VMM_FLAG_PRESENT_def VMM_FLAG_WRITE_def VMM_FLAG_USER_def VMM_FLAG_HUGE_def
      VMM_FLAG_NX_def)

lemma has_flag:
  "has e VMM_FLAG_PRESENT \<longleftrightarrow> bit e 0" "has e VMM_FLAG_WRITE \<longleftrightarrow> bit e 1"
  "has e VMM_FLAG_USER \<longleftrightarrow> bit e 2" "has e VMM_FLAG_HUGE \<longleftrightarrow> bit e 7"
  unfolding flag_bits by (rule has_bit; simp)+

lemma bit_flags:
  "bit VMM_FLAG_PRESENT n \<longleftrightarrow> n = 0" "bit VMM_FLAG_WRITE n \<longleftrightarrow> n = 1"
  "bit VMM_FLAG_USER n \<longleftrightarrow> n = 2" "bit VMM_FLAG_NX n \<longleftrightarrow> n = 63"
  unfolding flag_bits push_bit_of_1 bit_exp_iff by auto

lemma bit_frame_addr: "bit (frame_addr k) n \<Longrightarrow> 12 \<le> n"
proof -
  have "frame_addr k = push_bit 12 (of_nat k)"
    by (simp add: frame_addr_def push_bit_eq_mult)
  then show "bit (frame_addr k) n \<Longrightarrow> 12 \<le> n" by (simp add: bit_push_bit_iff)
qed

lemma bit_frame_addr_high:
  assumes "k < 2 ^ 20" "bit (frame_addr k) n"
  shows "n < 52"
proof (rule ccontr)
  assume n: "\<not> n < 52"
  have "bit (unat (frame_addr k)) n" using assms(2) by (simp add: bit_unsigned_iff)
  then have "odd (k * 4096 div 2 ^ n)" using assms(1) by (simp add: bit_iff_odd unat_frame_addr)
  then have "2 ^ n \<le> k * 4096" by (metis div_less even_zero not_le)
  moreover have "(2 :: nat) ^ 52 \<le> 2 ^ n" using n by (intro power_increasing) auto
  ultimately show False using assms(1) by simp
qed

lemma table_of_frame:
  assumes "k < 2 ^ 20"
  shows "entry_to_table (frame_addr k OR VMM_FLAG_PRESENT OR VMM_FLAG_WRITE OR f) =
    frame_addr k OR (f AND PTE_ADDR_MASK)"
  unfolding entry_to_table_def
  by (rule bit_word_eqI)
     (use bit_frame_addr [of k] bit_frame_addr_high [OF assms] in
       \<open>auto simp: bit_or_iff bit_and_iff bit_flags PTE_ADDR_MASK_bits\<close>)

lemma make_pte_simps:
  "has (make_pte phys flags) VMM_FLAG_PRESENT"
  "make_pte phys flags AND PTE_ADDR_MASK = phys AND PTE_ADDR_MASK"
  "has (make_pte phys flags) VMM_FLAG_USER = has flags VMM_FLAG_USER"
  "has (make_pte phys flags) VMM_FLAG_WRITE = has flags VMM_FLAG_WRITE"
proof -
  have low: "bit (0xFFF :: u64) n \<longleftrightarrow> n < 12" for n
    using bit_mask_iff [of 12 n, where 'a = u64] by (auto simp: mask_eq_exp_minus_1)
  show "has (make_pte phys flags) VMM_FLAG_PRESENT"
    "has (make_pte phys flags) VMM_FLAG_USER = has flags VMM_FLAG_USER"
    "has (make_pte phys flags) VMM_FLAG_WRITE = has flags VMM_FLAG_WRITE"
    unfolding has_flag make_pte_def
    by (simp_all only: bit_or_iff bit_and_iff bit_flags low PTE_ADDR_MASK_bits) auto
  show "make_pte phys flags AND PTE_ADDR_MASK = phys AND PTE_ADDR_MASK"
    unfolding make_pte_def
    by (rule bit_word_eqI)
       (auto simp: bit_or_iff bit_and_iff bit_flags low PTE_ADDR_MASK_bits simp del: bit_numeral_word_iff)
qed

text \<open>Setting the user bit of an entry changes neither its table nor the other flags.\<close>

lemma or_user_simps:
  "entry_to_table (e OR VMM_FLAG_USER) = entry_to_table e"
  "has (e OR VMM_FLAG_USER) VMM_FLAG_PRESENT = has e VMM_FLAG_PRESENT"
  "has (e OR VMM_FLAG_USER) VMM_FLAG_HUGE = has e VMM_FLAG_HUGE"
  "has (e OR VMM_FLAG_USER) VMM_FLAG_USER"
  unfolding has_flag entry_to_table_def
  by (simp_all only: bit_or_iff bit_flags)
     (auto intro!: bit_word_eqI simp: bit_or_iff bit_and_iff bit_flags PTE_ADDR_MASK_bits)

section \<open>Page-table trees\<close>

text \<open>The table reached from \<open>r\<close> along a path of indices.\<close>

fun tbl :: "(u64 \<Rightarrow> nat \<Rightarrow> u64) \<Rightarrow> u64 \<Rightarrow> nat list \<Rightarrow> u64 option" where
  "tbl m r [] = Some r"
| "tbl m r (i # is) =
     (if has (m r i) VMM_FLAG_PRESENT \<and> \<not> has (m r i) VMM_FLAG_HUGE
      then tbl m (entry_to_table (m r i)) is else None)"

lemma tbl_append: "tbl m r (p @ q) = Option.bind (tbl m r p) (\<lambda>t. tbl m t q)"
  by (induction m r p rule: tbl.induct) auto

text \<open>A path sees only the entries it goes through.\<close>

lemma tbl_cong:
  assumes "\<And>q i z t. p = q @ i # z \<Longrightarrow> tbl m r q = Some t \<Longrightarrow> m' t i = m t i"
  shows "tbl m' r p = tbl m r p"
  using assms
proof (induction p arbitrary: r)
  case (Cons i p)
  have e: "m' r i = m r i" using Cons.prems [of "[]" i p] by simp
  show ?case
  proof (cases "has (m r i) VMM_FLAG_PRESENT \<and> \<not> has (m r i) VMM_FLAG_HUGE")
    case True
    have "tbl m' (entry_to_table (m r i)) p = tbl m (entry_to_table (m r i)) p"
    proof (rule Cons.IH)
      fix q j z t
      assume "p = q @ j # z" "tbl m (entry_to_table (m r i)) q = Some t"
      with True show "m' t j = m t j" using Cons.prems [of "i # q" j z t] by simp
    qed
    with True e show ?thesis by simp
  qed (auto simp: e)
qed simp

text \<open>Paths in the user half of an address space.\<close>

definition user_path :: "nat list \<Rightarrow> bool" where
  "user_path p \<longleftrightarrow> length p \<le> 3 \<and> (\<forall>i \<in> set p. i < 512) \<and> (p \<noteq> [] \<longrightarrow> hd p < 256)"

lemma user_path_prefix: "user_path (p @ q) \<Longrightarrow> user_path p"
  by (auto simp: user_path_def)

text \<open>The invariant for the address spaces \<open>R\<close>: their table trees are disjoint, every table is a
  frame in use, and the user half holds no huge pages.\<close>

definition owned_frame :: "pmm \<Rightarrow> u64 \<Rightarrow> bool" where
  "owned_frame f a \<longleftrightarrow> (\<exists>k < unat (total_frames f). a = frame_addr k \<and> k \<notin> free_frames f)"

definition vm_ok :: "u64 set \<Rightarrow> vm \<Rightarrow> bool" where
  "vm_ok R s \<longleftrightarrow> pmm_ok (frames s) \<and> 0 \<notin> free_frames (frames s) \<and>
     (\<forall>r \<in> R. \<forall>p t. user_path p \<longrightarrow> tbl (tables s) r p = Some t \<longrightarrow> owned_frame (frames s) t) \<and>
     (\<forall>r \<in> R. \<forall>p i t. user_path (p @ [i]) \<longrightarrow> tbl (tables s) r p = Some t \<longrightarrow>
        \<not> has (tables s t i) VMM_FLAG_HUGE) \<and>
     (\<forall>r \<in> R. \<forall>r' \<in> R. \<forall>p p' t. user_path p \<longrightarrow> user_path p' \<longrightarrow>
        tbl (tables s) r p = Some t \<longrightarrow> tbl (tables s) r' p' = Some t \<longrightarrow> r = r' \<and> p = p')"

lemma vm_okD:
  assumes "vm_ok R s"
  shows "pmm_ok (frames s)" "0 \<notin> free_frames (frames s)"
    "r \<in> R \<Longrightarrow> user_path p \<Longrightarrow> tbl (tables s) r p = Some t \<Longrightarrow> owned_frame (frames s) t"
    "r \<in> R \<Longrightarrow> user_path (p @ [i]) \<Longrightarrow> tbl (tables s) r p = Some t \<Longrightarrow>
       \<not> has (tables s t i) VMM_FLAG_HUGE"
    "r \<in> R \<Longrightarrow> r' \<in> R \<Longrightarrow> user_path p \<Longrightarrow> user_path p' \<Longrightarrow> tbl (tables s) r p = Some t \<Longrightarrow>
       tbl (tables s) r' p' = Some t \<Longrightarrow> r = r' \<and> p = p'"
  using assms unfolding vm_ok_def by blast+

text \<open>The entry an address space holds for a page, if it is present.\<close>

definition page_entry :: "vm \<Rightarrow> u64 \<Rightarrow> nat list \<Rightarrow> nat \<Rightarrow> u64 option" where
  "page_entry s r p i = Option.bind (tbl (tables s) r p)
     (\<lambda>t. if has (tables s t i) VMM_FLAG_PRESENT then Some (tables s t i) else None)"

definition va_path :: "u64 \<Rightarrow> nat list" where
  "va_path va = [pml4_idx va, pdpt_idx va, pd_idx va]"

definition user_va :: "u64 \<Rightarrow> bool" where
  "user_va va \<longleftrightarrow> pml4_idx va < 256"

lemma idx_bound: "unat (x AND 0x1FF :: u64) < 512"
proof -
  have "x AND 0x1FF \<le> 0x1FF" by (rule word_and_le1)
  then show ?thesis by (simp add: word_le_nat_alt)
qed

lemma va_path_user: "user_va va \<Longrightarrow> user_path (va_path va)"
  by (auto simp: user_path_def va_path_def user_va_def pdpt_idx_def pd_idx_def idx_bound)

lemma walk_lookup_tbl:
  assumes "vm_ok R s" "r \<in> R" "user_va va"
  shows "walk_lookup s r va = map_option (\<lambda>t. (t, pt_idx va)) (tbl (tables s) r (va_path va))"
proof -
  have "\<not> has (tables s r (pml4_idx va)) VMM_FLAG_HUGE"
    using vm_okD(4) [OF assms(1,2), of "[]" "pml4_idx va" r] assms(3)
    by (simp add: user_path_def user_va_def)
  then show ?thesis by (simp add: walk_lookup_def va_path_def Let_def)
qed

lemma get_physical_entry:
  assumes "vm_ok R s" "r \<in> R" "user_va va"
  shows "vmm_get_physical_in s r va =
    (case page_entry s r (va_path va) (pt_idx va) of None \<Rightarrow> 0
     | Some e \<Rightarrow> (e AND PTE_ADDR_MASK) OR (va AND 0xFFF))"
  unfolding vmm_get_physical_in_def walk_lookup_tbl [OF assms] page_entry_def
  by (cases "tbl (tables s) r (va_path va)") auto

section \<open>Creating tables\<close>

lemma set_entry_simps [simp]:
  "tables (set_entry t i e s) = (tables s)(t := (tables s t)(i := e))"
  "frames (set_entry t i e s) = frames s"
  "kernel_pml4 (set_entry t i e s) = kernel_pml4 s" "current_cr3 (set_entry t i e s) = current_cr3 s"
  "tlb (set_entry t i e s) = tlb s"
  by (simp_all add: set_entry_def)

lemma zero_table_simps [simp]:
  "tables (zero_table t s) = (tables s)(t := (\<lambda>_. 0))" "frames (zero_table t s) = frames s"
  "kernel_pml4 (zero_table t s) = kernel_pml4 s" "current_cr3 (zero_table t s) = current_cr3 s"
  "tlb (zero_table t s) = tlb s"
  by (simp_all add: zero_table_def)

lemma has_0 [simp]: "\<not> has 0 f"
  by (simp add: has_def)

text \<open>What a step that only adds tables keeps of the address spaces \<open>R\<close>.\<close>

definition grows :: "u64 set \<Rightarrow> vm \<Rightarrow> vm \<Rightarrow> bool" where
  "grows R s s' \<longleftrightarrow> vm_ok R s' \<and>
     (\<forall>r \<in> R. \<forall>p t. user_path p \<longrightarrow> tbl (tables s) r p = Some t \<longrightarrow> tbl (tables s') r p = Some t) \<and>
     (\<forall>r \<in> R. \<forall>p i t. user_path (p @ [i]) \<longrightarrow> tbl (tables s) r p = Some t \<longrightarrow>
        has (tables s t i) VMM_FLAG_PRESENT \<longrightarrow> has (tables s' t i) VMM_FLAG_PRESENT \<and>
        (has (tables s t i) VMM_FLAG_USER \<longrightarrow> has (tables s' t i) VMM_FLAG_USER)) \<and>
     (\<forall>r \<in> R. \<forall>p i. user_path p \<longrightarrow> length p = 3 \<longrightarrow> page_entry s' r p i = page_entry s r p i) \<and>
     (\<forall>r \<in> R. \<forall>i \<ge> 256. tables s' r i = tables s r i) \<and>
     kernel_pml4 s' = kernel_pml4 s \<and> current_cr3 s' = current_cr3 s"

lemma growsD:
  assumes "grows R s s'"
  shows "vm_ok R s'" "kernel_pml4 s' = kernel_pml4 s" "current_cr3 s' = current_cr3 s"
    "r \<in> R \<Longrightarrow> user_path p \<Longrightarrow> tbl (tables s) r p = Some t \<Longrightarrow> tbl (tables s') r p = Some t"
    "r \<in> R \<Longrightarrow> user_path (p @ [i]) \<Longrightarrow> tbl (tables s) r p = Some t \<Longrightarrow>
       has (tables s t i) VMM_FLAG_PRESENT \<Longrightarrow> has (tables s' t i) VMM_FLAG_PRESENT"
    "r \<in> R \<Longrightarrow> user_path (p @ [i]) \<Longrightarrow> tbl (tables s) r p = Some t \<Longrightarrow>
       has (tables s t i) VMM_FLAG_PRESENT \<Longrightarrow> has (tables s t i) VMM_FLAG_USER \<Longrightarrow>
       has (tables s' t i) VMM_FLAG_USER"
    "r \<in> R \<Longrightarrow> user_path p \<Longrightarrow> length p = 3 \<Longrightarrow> page_entry s' r p i = page_entry s r p i"
    "r \<in> R \<Longrightarrow> 256 \<le> j \<Longrightarrow> tables s' r j = tables s r j"
  using assms unfolding grows_def by blast+

lemma grows_trans:
  assumes "grows R s s'" "grows R s' s''"
  shows "grows R s s''"
proof -
  have "tbl (tables s'') r p = Some t" if "r \<in> R" "user_path p" "tbl (tables s) r p = Some t" for r p t
    using that assms growsD(4) by blast
  moreover have "has (tables s'' t i) VMM_FLAG_PRESENT"
    if "r \<in> R" "user_path (p @ [i])" "tbl (tables s) r p = Some t" "has (tables s t i) VMM_FLAG_PRESENT"
    for r p i t
    by (rule growsD(5) [OF assms(2) that(1,2) growsD(4) [OF assms(1) that(1) user_path_prefix [OF that(2)]
          that(3)] growsD(5) [OF assms(1) that]])
  moreover have "has (tables s'' t i) VMM_FLAG_USER"
    if "r \<in> R" "user_path (p @ [i])" "tbl (tables s) r p = Some t" "has (tables s t i) VMM_FLAG_PRESENT"
      "has (tables s t i) VMM_FLAG_USER" for r p i t
    by (rule growsD(6) [OF assms(2) that(1,2) growsD(4) [OF assms(1) that(1) user_path_prefix [OF that(2)]
          that(3)] growsD(5) [OF assms(1) that(1-4)] growsD(6) [OF assms(1) that]])
  ultimately show ?thesis
    using assms unfolding grows_def by simp
qed

lemma grows_refl: "vm_ok R s \<Longrightarrow> grows R s s"
  by (simp add: grows_def)

lemma alloc_table_fresh:
  assumes "pmm_ok (frames s)" "0 \<notin> free_frames (frames s)" "alloc_table s = Some (s', a)"
  obtains k where "k \<in> free_frames (frames s)" "k < 2 ^ 20" "a = frame_addr k"
    "s' = zero_table a (s\<lparr>frames := fst (pmm_alloc_frame (frames s))\<rparr>)"
    "free_frames (frames s') = free_frames (frames s) - {k}" "pmm_ok (frames s')"
    "total_frames (frames s') = total_frames (frames s)" "check_low a"
proof
  have a: "a = snd (pmm_alloc_frame (frames s))" "a \<noteq> 0" "check_low a"
    and s': "s' = zero_table a (s\<lparr>frames := fst (pmm_alloc_frame (frames s))\<rparr>)"
    using assms(3) by (auto simp: alloc_table_def Let_def split: prod.splits if_splits)
  have ne: "free_frames (frames s) \<noteq> {}"
    using a frames.alloc_empty [OF assms(1)] by auto
  let ?k = "Min (free_frames (frames s))"
  note min = min_free [OF assms(1) ne]
  show "?k \<in> free_frames (frames s)" "?k < 2 ^ 20" by (rule min)+
  show "a = frame_addr ?k" using a(1) frames.alloc_min [OF assms(1) ne] by simp
  show "s' = zero_table a (s\<lparr>frames := fst (pmm_alloc_frame (frames s))\<rparr>)" "check_low a" by fact+
  show "free_frames (frames s') = free_frames (frames s) - {?k}" "pmm_ok (frames s')"
    "total_frames (frames s') = total_frames (frames s)"
    unfolding s' using frames.alloc_free [OF assms(1) ne] frames.alloc_ok [OF assms(1)] min(4)
    by simp_all
qed

lemma fresh_not_owned:
  assumes "pmm_ok f" "k \<in> free_frames f"
  shows "\<not> owned_frame f (frame_addr k)"
  using assms frames.frame_addr_inj [OF assms(1)] free_frames_bounded [of f]
  by (auto simp: owned_frame_def)

text \<open>Linking a fresh, zeroed table \<open>a\<close> at an empty entry adds exactly one path.\<close>

lemma tbl_link:
  assumes ok: "vm_ok R s" and r0: "r0 \<in> R" and q0: "user_path (q0 @ [i0])"
    and t: "tbl (tables s) r0 q0 = Some t" and absent: "\<not> has (tables s t i0) VMM_FLAG_PRESENT"
    and a: "\<not> owned_frame (frames s) a"
    and e: "entry_to_table e = a" "has e VMM_FLAG_PRESENT" "\<not> has e VMM_FLAG_HUGE"
    and r: "r \<in> R" and p: "user_path p"
  defines "m \<equiv> (tables s)(a := (\<lambda>_. 0), t := (tables s t)(i0 := e))"
  shows "tbl m r p = (if r = r0 \<and> p = q0 @ [i0] then Some a else tbl (tables s) r p)"
proof -
  have not_a: "t' \<noteq> a" if "r' \<in> R" "user_path q" "tbl (tables s) r' q = Some t'" for r' q t'
    using vm_okD(3) [OF ok that] a by blast
  have same: "tbl m r' p' = tbl (tables s) r' p'"
    if "r' \<in> R" "user_path p'" "\<And>z. \<not> (r' = r0 \<and> p' = q0 @ i0 # z)" for r' p'
  proof (rule tbl_cong)
    fix q i z t'
    assume q: "p' = q @ i # z" "tbl (tables s) r' q = Some t'"
    then have uq: "user_path q" using that(2) user_path_prefix by blast
    have "\<not> (t' = t \<and> i = i0)"
      using vm_okD(5) [OF ok that(1) r0 uq user_path_prefix [OF q0] q(2), of] t q(1) that(3) by auto
    with not_a [OF that(1) uq q(2)] show "m t' i = tables s t' i" by (auto simp: m_def)
  qed
  show ?thesis
  proof (cases "\<exists>z. r = r0 \<and> p = q0 @ i0 # z")
    case False
    then show ?thesis using same [OF r p] by auto
  next
    case True
    then obtain z where z: "r = r0" "p = q0 @ i0 # z" by blast
    have "tbl m r0 q0 = Some t"
      using same [OF r0 user_path_prefix [OF q0]] t by auto
    moreover have "m t i0 = e" "m a = (\<lambda>_. 0)"
      using not_a [OF r0 user_path_prefix [OF q0] t] by (auto simp: m_def)
    ultimately have "tbl m r p = tbl m a z" using e z by (simp add: tbl_append)
    moreover have "tbl m a z = (if z = [] then Some a else None)"
      using \<open>m a = (\<lambda>_. 0)\<close> by (cases z) auto
    moreover have "tbl (tables s) r p = None" using z t absent by (simp add: tbl_append)
    ultimately show ?thesis using z by auto
  qed
qed

text \<open>The user bit of an entry is irrelevant for the tree.\<close>

lemma tbl_or_user:
  "tbl ((tables s)(t := (tables s t)(i := tables s t i OR VMM_FLAG_USER))) r p = tbl (tables s) r p"
proof (induction p arbitrary: r)
  case (Cons j p)
  then show ?case by (auto simp: or_user_simps)
qed simp

lemma vm_ok_cong:
  assumes "vm_ok R s" "frames s' = frames s"
    and "\<And>r p. r \<in> R \<Longrightarrow> user_path p \<Longrightarrow> tbl (tables s') r p = tbl (tables s) r p"
    and "\<And>r p i t. r \<in> R \<Longrightarrow> user_path (p @ [i]) \<Longrightarrow> tbl (tables s) r p = Some t \<Longrightarrow>
      \<not> has (tables s' t i) VMM_FLAG_HUGE"
  shows "vm_ok R s'"
  unfolding vm_ok_def assms(2)
proof (intro conjI ballI allI impI)
  show "pmm_ok (frames s)" "0 \<notin> free_frames (frames s)" by (rule vm_okD [OF assms(1)])+
next
  fix r p t
  assume "r \<in> R" "user_path p" "tbl (tables s') r p = Some t"
  then show "owned_frame (frames s) t" using vm_okD(3) [OF assms(1)] assms(3) by simp
next
  fix r p i t
  assume r: "r \<in> R" and p: "user_path (p @ [i])" and t: "tbl (tables s') r p = Some t"
  show "\<not> has (tables s' t i) VMM_FLAG_HUGE"
    by (rule assms(4) [OF r p]) (use t assms(3) [OF r user_path_prefix [OF p]] in simp)
next
  fix r r' p p' t
  assume h: "r \<in> R" "r' \<in> R" "user_path p" "user_path p'"
    "tbl (tables s') r p = Some t" "tbl (tables s') r' p' = Some t"
  have "r = r' \<and> p = p'"
    by (rule vm_okD(5) [OF assms(1), of r r' p p' t]) (use h assms(3) in simp_all)
  then show "r = r'" "p = p'" by simp_all
qed

lemma ensure_entry_present:
  assumes ok: "vm_ok R s" and r0: "r0 \<in> R" and q0: "user_path (q0 @ [i0])"
    and t: "tbl (tables s) r0 q0 = Some t" and present: "has (tables s t i0) VMM_FLAG_PRESENT"
  shows "grows R s (set_entry t i0 (tables s t i0 OR VMM_FLAG_USER) s)"
proof -
  let ?s = "set_entry t i0 (tables s t i0 OR VMM_FLAG_USER) s"
  have tb: "tbl (tables ?s) r p = tbl (tables s) r p" for r p
    by (simp add: tbl_or_user)
  have flags: "has (tables ?s x j) VMM_FLAG_PRESENT = has (tables s x j) VMM_FLAG_PRESENT"
    "has (tables ?s x j) VMM_FLAG_HUGE = has (tables s x j) VMM_FLAG_HUGE"
    "has (tables s x j) VMM_FLAG_USER \<Longrightarrow> has (tables ?s x j) VMM_FLAG_USER" for x j
    by (auto simp: or_user_simps)
  have ok': "vm_ok R ?s"
    using vm_ok_cong [OF ok, of ?s] tb flags(2) vm_okD(4) [OF ok] by simp
  have pe: "page_entry ?s r p i = page_entry s r p i" if "r \<in> R" "user_path p" "length p = 3" for r p i
  proof (cases "tbl (tables s) r p")
    case (Some x)
    have "x \<noteq> t"
      using vm_okD(5) [OF ok that(1) r0 that(2) user_path_prefix [OF q0] Some] t that(3) q0
      by (auto simp: user_path_def)
    then show ?thesis using Some tb [of r p] by (simp add: page_entry_def)
  next
    case None
    then show ?thesis using tb [of r p] by (simp add: page_entry_def)
  qed
  have high: "tables ?s r i = tables s r i" if "r \<in> R" "256 \<le> i" for r i
  proof -
    have "\<not> (t = r \<and> i0 = i)"
      using vm_okD(5) [OF ok that(1) r0, of "[]" q0 t] t q0 user_path_prefix [OF q0] that(2)
      by (auto simp: user_path_def)
    then show ?thesis by auto
  qed
  show ?thesis
    unfolding grows_def using ok' tb flags pe high by simp
qed

text \<open>\<open>s'\<close> is \<open>s\<close> with the fresh table \<open>a\<close> linked at entry \<open>i0\<close> of the table at path \<open>q0\<close>.\<close>

definition linked :: "u64 set \<Rightarrow> vm \<Rightarrow> vm \<Rightarrow> u64 \<Rightarrow> nat list \<Rightarrow> nat \<Rightarrow> u64 \<Rightarrow> bool" where
  "linked R s s' r0 q0 i0 a \<longleftrightarrow>
     \<not> owned_frame (frames s) a \<and> owned_frame (frames s') a \<and>
     (\<forall>x. owned_frame (frames s) x \<longrightarrow> owned_frame (frames s') x) \<and>
     pmm_ok (frames s') \<and> 0 \<notin> free_frames (frames s') \<and> tables s' a = (\<lambda>_. 0) \<and>
     (\<forall>r \<in> R. \<forall>p. user_path p \<longrightarrow>
        tbl (tables s') r p = (if r = r0 \<and> p = q0 @ [i0] then Some a else tbl (tables s) r p)) \<and>
     (\<forall>r \<in> R. \<forall>p x j. user_path p \<longrightarrow> tbl (tables s) r p = Some x \<longrightarrow>
        (if r = r0 \<and> p = q0 \<and> j = i0
         then \<not> has (tables s x j) VMM_FLAG_PRESENT \<and> \<not> has (tables s' x j) VMM_FLAG_HUGE
         else tables s' x j = tables s x j)) \<and>
     kernel_pml4 s' = kernel_pml4 s \<and> current_cr3 s' = current_cr3 s"

lemma linkedD:
  assumes "linked R s s' r0 q0 i0 a"
  shows "\<not> owned_frame (frames s) a" "owned_frame (frames s') a"
    "owned_frame (frames s) x \<Longrightarrow> owned_frame (frames s') x"
    "pmm_ok (frames s')" "0 \<notin> free_frames (frames s')" "tables s' a = (\<lambda>_. 0)"
    "r \<in> R \<Longrightarrow> user_path p \<Longrightarrow>
       tbl (tables s') r p = (if r = r0 \<and> p = q0 @ [i0] then Some a else tbl (tables s) r p)"
    "r \<in> R \<Longrightarrow> user_path p \<Longrightarrow> tbl (tables s) r p = Some x \<Longrightarrow>
       if r = r0 \<and> p = q0 \<and> j = i0
       then \<not> has (tables s x j) VMM_FLAG_PRESENT \<and> \<not> has (tables s' x j) VMM_FLAG_HUGE
       else tables s' x j = tables s x j"
    "kernel_pml4 s' = kernel_pml4 s" "current_cr3 s' = current_cr3 s"
  using assms unfolding linked_def by blast+

lemma ensure_entry_linked:
  assumes ok: "vm_ok R s" and r0: "r0 \<in> R" and q0: "user_path (q0 @ [i0])"
    and t: "tbl (tables s) r0 q0 = Some t" and absent: "\<not> has (tables s t i0) VMM_FLAG_PRESENT"
    and alloc: "alloc_table s = Some (s1, a)"
    and e: "entry_to_table e = a" "has e VMM_FLAG_PRESENT" "\<not> has e VMM_FLAG_HUGE"
  shows "linked R s (set_entry t i0 e s1) r0 q0 i0 a"
proof -
  obtain k where k: "k \<in> free_frames (frames s)" "a = frame_addr k"
    and s1: "s1 = zero_table a (s\<lparr>frames := fst (pmm_alloc_frame (frames s))\<rparr>)"
    and fr: "free_frames (frames s1) = free_frames (frames s) - {k}" "pmm_ok (frames s1)"
      "total_frames (frames s1) = total_frames (frames s)"
    by (rule alloc_table_fresh [OF vm_okD(1,2) [OF ok] alloc]) blast
  have a: "\<not> owned_frame (frames s) a"
    using fresh_not_owned [OF vm_okD(1) [OF ok] k(1)] k(2) by simp
  have ta: "t \<noteq> a" using vm_okD(3) [OF ok r0 user_path_prefix [OF q0] t] a by blast
  define s2 where "s2 = set_entry t i0 e s1"
  have s2: "frames s2 = frames s1" "kernel_pml4 s2 = kernel_pml4 s" "current_cr3 s2 = current_cr3 s"
    "tables s2 = (tables s)(a := (\<lambda>_. 0), t := (tables s t)(i0 := e))"
    using ta by (simp_all add: s2_def s1 fun_eq_iff)
  have "owned_frame (frames s2) x" if "owned_frame (frames s) x \<or> x = a" for x
    using that k free_frames_bounded [of "frames s"] by (auto simp: owned_frame_def fr s2)
  moreover have "tbl (tables s2) r p = (if r = r0 \<and> p = q0 @ [i0] then Some a else tbl (tables s) r p)"
    if "r \<in> R" "user_path p" for r p
    unfolding s2 by (rule tbl_link [OF ok r0 q0 t absent a e that])
  moreover have "if r = r0 \<and> p = q0 \<and> j = i0
       then \<not> has (tables s x j) VMM_FLAG_PRESENT \<and> \<not> has (tables s2 x j) VMM_FLAG_HUGE
       else tables s2 x j = tables s x j"
    if "r \<in> R" "user_path p" "tbl (tables s) r p = Some x" for r p x j
  proof -
    have "x \<noteq> a" using vm_okD(3) [OF ok that(1-3)] a by blast
    moreover have "x = t \<Longrightarrow> r = r0 \<and> p = q0"
      using vm_okD(5) [OF ok that(1) r0 that(2) user_path_prefix [OF q0] that(3)] t by auto
    ultimately show ?thesis using t that(3) absent e(3) by (auto simp: s2)
  qed
  moreover have "tables s2 a = (\<lambda>_. 0)" "0 \<notin> free_frames (frames s2)" "pmm_ok (frames s2)"
    using ta fr vm_okD(2) [OF ok] by (simp_all add: s2)
  ultimately show ?thesis
    using a s2(2,3) unfolding linked_def s2_def [symmetric] by (intro conjI) blast+
qed

lemma linked_ok:
  assumes ok: "vm_ok R s" and l: "linked R s s' r0 q0 i0 a"
  shows "vm_ok R s'"
  unfolding vm_ok_def
proof (intro conjI ballI allI impI)
  show "pmm_ok (frames s')" "0 \<notin> free_frames (frames s')" by (rule linkedD [OF l])+
next
  fix r p x
  assume "r \<in> R" "user_path p" "tbl (tables s') r p = Some x"
  then show "owned_frame (frames s') x"
    using linkedD(2,3,7) [OF l] vm_okD(3) [OF ok, of r p x] by (auto split: if_splits)
next
  fix r p i x
  assume h: "r \<in> R" "user_path (p @ [i])" "tbl (tables s') r p = Some x"
  note up = user_path_prefix [OF h(2)]
  show "\<not> has (tables s' x i) VMM_FLAG_HUGE"
  proof (cases "r = r0 \<and> p = q0 @ [i0]")
    case True
    then have "x = a" using linkedD(7) [OF l h(1) up] h(3) by simp
    then show ?thesis by (simp add: linkedD(6) [OF l])
  next
    case False
    then have x: "tbl (tables s) r p = Some x" using linkedD(7) [OF l h(1) up] h(3) by auto
    show ?thesis
      using linkedD(8) [OF l h(1) up x, of i] vm_okD(4) [OF ok h(1,2) x] by (auto split: if_splits)
  qed
next
  fix r r' p p' x
  assume h: "r \<in> R" "r' \<in> R" "user_path p" "user_path p'"
    "tbl (tables s') r p = Some x" "tbl (tables s') r' p' = Some x"
  have "tbl (tables s) r p \<noteq> Some a" "tbl (tables s) r' p' \<noteq> Some a"
    using vm_okD(3) [OF ok] h(1-4) linkedD(1) [OF l] by blast+
  then have "r = r' \<and> p = p'"
    using h vm_okD(5) [OF ok h(1-4), of x] linkedD(7) [OF l h(1,3)] linkedD(7) [OF l h(2,4)]
    by (auto split: if_splits)
  then show "r = r'" "p = p'" by simp_all
qed

lemma linked_grows:
  assumes ok: "vm_ok R s" and l: "linked R s s' r0 q0 i0 a" and q0: "user_path (q0 @ [i0])"
    and absent: "tbl (tables s) r0 (q0 @ [i0]) = None"
  shows "grows R s s'"
proof -
  have "page_entry s' r p i = page_entry s r p i" if "r \<in> R" "user_path p" "length p = 3" for r p i
  proof (cases "r = r0 \<and> p = q0 @ [i0]")
    case True
    then show ?thesis
      using linkedD(7) [OF l that(1,2)] absent by (simp add: page_entry_def linkedD(6) [OF l])
  next
    case False
    then have "tbl (tables s') r p = tbl (tables s) r p" using linkedD(7) [OF l that(1,2)] by auto
    moreover have "p \<noteq> q0" using q0 that(3) by (auto simp: user_path_def)
    ultimately show ?thesis
      using linkedD(8) [OF l that(1,2)] unfolding page_entry_def
      by (cases "tbl (tables s) r p") auto
  qed
  moreover have "tables s' r i = tables s r i" if "r \<in> R" "256 \<le> i" for r i
    using linkedD(8) [OF l that(1), of "[]" r i] that(2) q0 by (auto simp: user_path_def split: if_splits)
  moreover have "tbl (tables s') r p = Some x" if "r \<in> R" "user_path p" "tbl (tables s) r p = Some x" for r p x
    using linkedD(7) [OF l that(1,2)] that(3) absent by auto
  moreover have "has (tables s x i) VMM_FLAG_PRESENT \<longrightarrow> has (tables s' x i) VMM_FLAG_PRESENT \<and>
      (has (tables s x i) VMM_FLAG_USER \<longrightarrow> has (tables s' x i) VMM_FLAG_USER)"
    if "r \<in> R" "user_path (p @ [i])" "tbl (tables s) r p = Some x" for r p i x
    using linkedD(8) [OF l that(1) user_path_prefix [OF that(2)] that(3), of i] by (auto split: if_splits)
  ultimately show ?thesis
    unfolding grows_def using linked_ok [OF ok l] linkedD(9,10) [OF l] by blast
qed

lemma mid_entry:
  assumes "k < 2 ^ 20"
  defines "e \<equiv> \<lambda>user. frame_addr k OR
    (VMM_FLAG_PRESENT OR VMM_FLAG_WRITE OR (if user then VMM_FLAG_USER else 0))"
  shows "entry_to_table (e user) = frame_addr k" "has (e user) VMM_FLAG_PRESENT"
    "\<not> has (e user) VMM_FLAG_HUGE" "user \<Longrightarrow> has (e user) VMM_FLAG_USER"
proof -
  have low: "\<not> bit (frame_addr k) n" if "n < 12" for n using bit_frame_addr [of k n] that by auto
  show "has (e user) VMM_FLAG_PRESENT" "\<not> has (e user) VMM_FLAG_HUGE" "user \<Longrightarrow> has (e user) VMM_FLAG_USER"
    unfolding has_flag e_def by (auto simp: bit_or_iff bit_flags low)
  show "entry_to_table (e user) = frame_addr k"
    unfolding entry_to_table_def e_def
    by (rule bit_word_eqI)
       (use bit_frame_addr [of k] bit_frame_addr_high [OF assms(1)] in
         \<open>auto simp: bit_or_iff bit_and_iff bit_flags PTE_ADDR_MASK_bits\<close>)
qed

lemma ensure_entry_grows:
  assumes ok: "vm_ok R s" and r0: "r0 \<in> R" and q0: "user_path (q0 @ [i0])"
    and t: "tbl (tables s) r0 q0 = Some t" and s': "ensure_entry s t i0 user = Some s'"
  shows "grows R s s'" "has (tables s' t i0) VMM_FLAG_PRESENT" "\<not> has (tables s' t i0) VMM_FLAG_HUGE"
    "user \<Longrightarrow> has (tables s' t i0) VMM_FLAG_USER"
    "tbl (tables s') r0 (q0 @ [i0]) = Some (entry_to_table (tables s' t i0))"
proof -
  have main: "grows R s s' \<and> has (tables s' t i0) VMM_FLAG_PRESENT \<and>
    (user \<longrightarrow> has (tables s' t i0) VMM_FLAG_USER)"
  proof (cases "has (tables s t i0) VMM_FLAG_PRESENT")
    case True
    with s' show ?thesis
      using ensure_entry_present [OF ok r0 q0 t True] grows_refl [OF ok]
      by (auto simp: ensure_entry_def Let_def or_user_simps)
  next
    case False
    define e where "e = (\<lambda>a. a OR (VMM_FLAG_PRESENT OR VMM_FLAG_WRITE OR (if user then VMM_FLAG_USER else 0)))"
    from False s' obtain s1 a where alloc: "alloc_table s = Some (s1, a)"
      and eq: "s' = set_entry t i0 (e a) s1"
      by (auto simp: ensure_entry_def Let_def e_def split: option.splits prod.splits)
    obtain k where k: "k < 2 ^ 20" "a = frame_addr k"
      by (rule alloc_table_fresh [OF vm_okD(1,2) [OF ok] alloc]) blast
    have ent: "entry_to_table (e a) = a" "has (e a) VMM_FLAG_PRESENT" "\<not> has (e a) VMM_FLAG_HUGE"
      "user \<Longrightarrow> has (e a) VMM_FLAG_USER"
      unfolding e_def k(2) by (rule mid_entry [OF k(1)]; assumption)+
    have "linked R s s' r0 q0 i0 a"
      unfolding eq by (rule ensure_entry_linked [OF ok r0 q0 t False alloc ent(1-3)])
    moreover have "tbl (tables s) r0 (q0 @ [i0]) = None" using t False by (simp add: tbl_append)
    ultimately show ?thesis using linked_grows [OF ok _ q0] ent(2,4) by (simp add: eq)
  qed
  then show g: "grows R s s'" and "has (tables s' t i0) VMM_FLAG_PRESENT"
    "user \<Longrightarrow> has (tables s' t i0) VMM_FLAG_USER" by blast+
  have t': "tbl (tables s') r0 q0 = Some t"
    by (rule growsD(4) [OF g r0 user_path_prefix [OF q0] t])
  show huge: "\<not> has (tables s' t i0) VMM_FLAG_HUGE"
    by (rule vm_okD(4) [OF growsD(1) [OF g] r0 q0 t'])
  show "tbl (tables s') r0 (q0 @ [i0]) = Some (entry_to_table (tables s' t i0))"
    using t' main huge by (simp add: tbl_append)
qed

text \<open>\<open>walk_create\<close> on a user address: it adds tables only, and it ends at the entry of the page.\<close>

lemma walk_create_grows:
  assumes ok: "vm_ok R s" and r0: "r0 \<in> R" and va: "user_va va"
    and w: "walk_create s r0 va user = Some (s', res)"
  obtains t where "grows R s s'" "res = Some (t, pt_idx va)" "tbl (tables s') r0 (va_path va) = Some t"
    "user \<Longrightarrow> (\<forall>q i z x. va_path va = q @ i # z \<longrightarrow> tbl (tables s') r0 q = Some x \<longrightarrow>
       has (tables s' x i) VMM_FLAG_USER)"
proof -
  let ?i4 = "pml4_idx va" and ?i3 = "pdpt_idx va" and ?i2 = "pd_idx va"
  have up: "user_path ([] @ [?i4])" "user_path ([?i4] @ [?i3])" "user_path ([?i4, ?i3] @ [?i2])"
    using va_path_user [OF va] by (auto simp: va_path_def user_path_def)
  obtain s1 where s1: "ensure_entry s r0 ?i4 user = Some s1"
    using w by (auto simp: walk_create_def split: option.splits)
  note g1 = ensure_entry_grows [OF ok r0 up(1) _ s1, simplified]
  define t3 where "t3 = entry_to_table (tables s1 r0 ?i4)"
  obtain s2 where s2: "ensure_entry s1 t3 ?i3 user = Some s2"
    using w s1 by (auto simp: walk_create_def Let_def t3_def split: option.splits)
  have t3: "tbl (tables s1) r0 [?i4] = Some t3" using g1(5) by (simp add: t3_def)
  note g2 = ensure_entry_grows [OF growsD(1) [OF g1(1)] r0 up(2) t3 s2]
  define t2 where "t2 = entry_to_table (tables s2 t3 ?i3)"
  obtain s3 where s3: "ensure_entry s2 t2 ?i2 user = Some s3"
    using w s1 s2 g2(3) by (auto simp: walk_create_def Let_def t3_def t2_def split: option.splits)
  have t2: "tbl (tables s2) r0 [?i4, ?i3] = Some t2" using g2(5) by (simp add: t2_def)
  note g3 = ensure_entry_grows [OF growsD(1) [OF g2(1)] r0 up(3) t2 s3]
  have res: "s' = s3" "res = Some (entry_to_table (tables s3 t2 ?i2), pt_idx va)"
    using w s1 s2 s3 g2(3) g3(3) by (auto simp: walk_create_def Let_def t3_def t2_def)
  have "has (tables s3 r0 ?i4) VMM_FLAG_USER" "has (tables s3 t3 ?i3) VMM_FLAG_USER" if user
    using that growsD(6) [OF grows_trans [OF g2(1) g3(1)] r0 up(1), of r0] g1(2,4)
      growsD(6) [OF g3(1) r0 up(2), of t3] growsD(4) [OF g2(1) r0 _ t3] g2(2,4) up
    by (auto simp: user_path_def)
  moreover have "tbl (tables s3) r0 [?i4] = Some t3" "tbl (tables s3) r0 [?i4, ?i3] = Some t2"
    using growsD(4) [OF grows_trans [OF g2(1) g3(1)] r0 _ t3] growsD(4) [OF g3(1) r0 _ t2] up
    by (auto simp: user_path_def)
  ultimately have usr: "\<forall>q i z x. va_path va = q @ i # z \<longrightarrow> tbl (tables s') r0 q = Some x \<longrightarrow>
       has (tables s' x i) VMM_FLAG_USER" if user
    using that g3(4) by (auto simp: res va_path_def Cons_eq_append_conv simp del: tbl.simps(2))
  show ?thesis
  proof (rule that)
    show "grows R s s'" unfolding res by (rule grows_trans [OF grows_trans [OF g1(1) g2(1)] g3(1)])
    show "res = Some (entry_to_table (tables s3 t2 ?i2), pt_idx va)" by (rule res)
    show "tbl (tables s') r0 (va_path va) = Some (entry_to_table (tables s3 t2 ?i2))"
      using g3(5) unfolding res va_path_def by simp
  qed (rule usr)
qed

section \<open>Writing page entries\<close>

lemma leaf_write:
  assumes ok: "vm_ok R s" and r0: "r0 \<in> R" and p0: "user_path p0" "length p0 = 3"
    and t: "tbl (tables s) r0 p0 = Some t"
  shows "vm_ok R (set_entry t i e s)"
    "r \<in> R \<Longrightarrow> user_path p \<Longrightarrow> tbl (tables (set_entry t i e s)) r p = tbl (tables s) r p"
    "r \<in> R \<Longrightarrow> user_path p \<Longrightarrow> length p = 3 \<Longrightarrow> page_entry (set_entry t i e s) r p j =
       (if r = r0 \<and> p = p0 \<and> j = i then (if has e VMM_FLAG_PRESENT then Some e else None)
        else page_entry s r p j)"
    "r \<in> R \<Longrightarrow> user_path (p @ [j]) \<Longrightarrow> tbl (tables s) r p = Some x \<Longrightarrow>
       tables (set_entry t i e s) x j = tables s x j"
    "r \<in> R \<Longrightarrow> 256 \<le> k \<Longrightarrow> tables (set_entry t i e s) r k = tables s r k"
proof -
  let ?s = "set_entry t i e s"
  have other: "x \<noteq> t" if "r \<in> R" "user_path (p @ [j])" "tbl (tables s) r p = Some x" for r p j x
    using vm_okD(5) [OF ok that(1) r0 user_path_prefix [OF that(2)] p0(1) that(3)] t that(2) p0(2)
    by (auto simp: user_path_def)
  have tb: "tbl (tables ?s) r p = tbl (tables s) r p" if "r \<in> R" "user_path p" for r p
  proof (rule tbl_cong)
    fix q j z x
    assume q: "p = q @ j # z" "tbl (tables s) r q = Some x"
    then have "user_path (q @ [j])" using that(2) user_path_prefix [of "q @ [j]" z] by simp
    with other [OF that(1) this q(2)] show "tables ?s x j = tables s x j" by simp
  qed
  show "vm_ok R ?s"
    by (rule vm_ok_cong [OF ok _ tb]) (use other vm_okD(4) [OF ok] in auto)
  show "r \<in> R \<Longrightarrow> user_path p \<Longrightarrow> tbl (tables ?s) r p = tbl (tables s) r p" by (rule tb)
  show "r \<in> R \<Longrightarrow> user_path (p @ [j]) \<Longrightarrow> tbl (tables s) r p = Some x \<Longrightarrow>
      tables ?s x j = tables s x j" using other by simp
  show "r \<in> R \<Longrightarrow> 256 \<le> k \<Longrightarrow> tables ?s r k = tables s r k"
    using other [of r "[]" 0 r] by (simp add: user_path_def)
  show "page_entry ?s r p j =
       (if r = r0 \<and> p = p0 \<and> j = i then (if has e VMM_FLAG_PRESENT then Some e else None)
        else page_entry s r p j)" if h: "r \<in> R" "user_path p" "length p = 3"
  proof (cases "tbl (tables s) r p")
    case None
    then show ?thesis using tb [OF h(1,2)] t by (auto simp: page_entry_def)
  next
    case (Some x)
    have "x = t \<longleftrightarrow> r = r0 \<and> p = p0"
      using vm_okD(5) [OF ok h(1) r0 h(2) p0(1) Some] t Some by auto
    then show ?thesis using Some tb [OF h(1,2)] by (auto simp: page_entry_def)
  qed
qed

lemma flush_page_simps [simp]:
  "tables (flush_page p v s) = tables s" "frames (flush_page p v s) = frames s"
  "kernel_pml4 (flush_page p v s) = kernel_pml4 s" "current_cr3 (flush_page p v s) = current_cr3 s"
  by (simp_all add: flush_page_def)

lemma vm_ok_flush [simp]: "vm_ok R (flush_page p v s) = vm_ok R s"
  by (simp add: vm_ok_def)

lemma page_entry_flush [simp]: "page_entry (flush_page p v s) = page_entry s"
  by (intro ext) (simp only: page_entry_def flush_page_simps)

lemma map_in_entries:
  assumes ok: "vm_ok R s" and r: "r \<in> R" and va: "user_va va"
    and s': "vmm_map_in s r va phys flags = Some s'"
  shows "vm_ok R s'"
    "r' \<in> R \<Longrightarrow> user_path p \<Longrightarrow> length p = 3 \<Longrightarrow> page_entry s' r' p i =
      (if r' = r \<and> p = va_path va \<and> i = pt_idx va then Some (make_pte phys flags)
       else page_entry s r' p i)"
    "r' \<in> R \<Longrightarrow> 256 \<le> k \<Longrightarrow> tables s' r' k = tables s r' k"
proof -
  obtain s1 res where w: "walk_create s r va (has flags VMM_FLAG_USER) = Some (s1, res)"
    using s' by (auto simp: vmm_map_in_def split: option.splits)
  obtain t where g: "grows R s s1" and res: "res = Some (t, pt_idx va)"
    and t: "tbl (tables s1) r (va_path va) = Some t"
    by (rule walk_create_grows [OF ok r va w]) blast
  have eq: "s' = flush_page r va (set_entry t (pt_idx va) (make_pte phys flags) s1)"
    using s' w res by (simp add: vmm_map_in_def)
  have len: "length (va_path va) = 3" by (simp add: va_path_def)
  note lw = leaf_write [OF growsD(1) [OF g] r va_path_user [OF va] len t]
  show "vm_ok R s'" by (simp only: eq vm_ok_flush lw(1))
  show "r' \<in> R \<Longrightarrow> user_path p \<Longrightarrow> length p = 3 \<Longrightarrow> page_entry s' r' p i =
      (if r' = r \<and> p = va_path va \<and> i = pt_idx va then Some (make_pte phys flags)
       else page_entry s r' p i)"
    using lw(3) growsD(7) [OF g] by (simp add: eq make_pte_simps(1))
  show "r' \<in> R \<Longrightarrow> 256 \<le> k \<Longrightarrow> tables s' r' k = tables s r' k"
    using lw(5) [of r' k "pt_idx va" "make_pte phys flags"] growsD(8) [OF g] by (simp add: eq)
qed

lemma unmap_in_entries:
  assumes ok: "vm_ok R s" and r: "r \<in> R" and va: "user_va va"
  shows "vm_ok R (vmm_unmap_in s r va)"
    "r' \<in> R \<Longrightarrow> user_path p \<Longrightarrow> length p = 3 \<Longrightarrow> page_entry (vmm_unmap_in s r va) r' p i =
      (if r' = r \<and> p = va_path va \<and> i = pt_idx va then None else page_entry s r' p i)"
proof -
  have len: "length (va_path va) = 3" by (simp add: va_path_def)
  note lw = leaf_write [OF ok r va_path_user [OF va] len]
  show "vm_ok R (vmm_unmap_in s r va)"
    using lw(1) ok by (auto simp: vmm_unmap_in_def walk_lookup_tbl [OF ok r va] split: option.splits)
  show "r' \<in> R \<Longrightarrow> user_path p \<Longrightarrow> length p = 3 \<Longrightarrow> page_entry (vmm_unmap_in s r va) r' p i =
      (if r' = r \<and> p = va_path va \<and> i = pt_idx va then None else page_entry s r' p i)"
  proof (cases "tbl (tables s) r (va_path va)")
    case None
    then show ?thesis by (auto simp: vmm_unmap_in_def walk_lookup_tbl [OF ok r va] page_entry_def)
  next
    case (Some t)
    assume "r' \<in> R" "user_path p" "length p = 3"
    with lw(3) [OF Some] Some show ?thesis
      by (simp add: vmm_unmap_in_def walk_lookup_tbl [OF ok r va])
  qed
qed

lemma set_flags_entries:
  assumes ok: "vm_ok R s" and r: "r \<in> R" and va: "user_va va"
  shows "case vmm_set_flags_in s r va flags of (s', rc) \<Rightarrow> vm_ok R s' \<and>
    (case page_entry s r (va_path va) (pt_idx va) of
       None \<Rightarrow> s' = s \<and> rc = - 1
     | Some e \<Rightarrow> rc = 0 \<and> (\<forall>r' \<in> R. \<forall>p i. user_path p \<longrightarrow> length p = 3 \<longrightarrow> page_entry s' r' p i =
        (if r' = r \<and> p = va_path va \<and> i = pt_idx va then Some (make_pte e flags)
         else page_entry s r' p i)))"
proof (cases "page_entry s r (va_path va) (pt_idx va)")
  case None
  then show ?thesis using ok
    by (auto simp: vmm_set_flags_in_def walk_lookup_tbl [OF ok r va] page_entry_def split: option.splits)
next
  case (Some e)
  then obtain t where t: "tbl (tables s) r (va_path va) = Some t" and e: "tables s t (pt_idx va) = e"
    "has e VMM_FLAG_PRESENT"
    by (auto simp: page_entry_def bind_eq_Some_conv split: if_splits)
  have len: "length (va_path va) = 3" by (simp add: va_path_def)
  note lw = leaf_write [OF ok r va_path_user [OF va] len t]
  have "vmm_set_flags_in s r va flags =
      (flush_page r va (set_entry t (pt_idx va) (make_pte e flags) s), 0)"
    using t e by (simp add: vmm_set_flags_in_def walk_lookup_tbl [OF ok r va])
  then show ?thesis using Some lw(1,3) by (simp add: make_pte_simps(1))
qed

section \<open>User pointers, byte by byte\<close>

lemma page_mask: "(0xFFF :: u64) = mask 12"
  by (simp add: mask_eq_exp_minus_1)

lemma unat_page: "k < 2 ^ 52 \<Longrightarrow> unat (frame_addr k) = k * 4096"
  by (simp add: frame_addr_def unat_mult_lem [THEN iffD1] unat_of_nat)

lemma page_of: "va AND NOT 0xFFF = frame_addr (unat va div 4096)"
proof (rule word_eq_unatI)
  have "unat va div 4096 < 2 ^ 52"
    using unsigned_less [of va, where 'a = nat] by (simp add: less_mult_imp_div_less)
  then show "unat (va AND NOT 0xFFF) = unat (frame_addr (unat va div 4096))"
    by (simp only: page_mask unat_and_not_mask unat_page) simp
qed

lemma drop_page: "12 \<le> n \<Longrightarrow> drop_bit n (va AND NOT 0xFFF :: u64) = drop_bit n va"
  unfolding page_mask
  by (rule bit_word_eqI) (auto simp: bit_drop_bit_eq bit_and_iff bit_not_iff bit_mask_iff
      dest: bit_imp_le_length)

lemma accessible_page:
  "page_user_accessible s p (va AND NOT 0xFFF) w = page_user_accessible s p va w"
  unfolding page_user_accessible_def pml4_idx_def pdpt_idx_def pd_idx_def pt_idx_def
  by (simp only: drop_page)

lemma check_pages_all:
  assumes "a \<le> b" "b < 2 ^ 52"
  shows "check_pages acc (frame_addr a) (frame_addr b) = Some (\<forall>k \<in> {a..b}. acc (frame_addr k))"
  using assms
proof (induction "b - a" arbitrary: a)
  case 0
  then show ?case by (subst check_pages.simps) auto
next
  case (Suc d)
  have ne: "frame_addr a \<noteq> frame_addr b"
  proof
    assume "frame_addr a = frame_addr b"
    moreover have "a < 2 ^ 52" using Suc.prems by (rule le_less_trans)
    ultimately have "a * 4096 = b * 4096" using Suc.prems(2) by (metis unat_page)
    then show False using Suc.hyps(2) by simp
  qed
  have "frame_addr a + PAGE_SIZE = frame_addr (Suc a)"
    by (simp add: frame_addr_def algebra_simps)
  moreover have "{a..b} = insert a {Suc a..b}" using Suc.hyps(2) by auto
  ultimately show ?case
    using Suc.hyps(1) [of "Suc a"] Suc.hyps(2) Suc.prems ne
    by (subst check_pages.simps) simp
qed

lemma div_range: "(\<forall>x. a \<le> x \<and> x < b \<longrightarrow> P (x div 4096)) \<longleftrightarrow> (\<forall>k \<in> {a div 4096..(b - 1) div 4096}. P k)"
  if "a < (b :: nat)"
proof
  assume h: "\<forall>x. a \<le> x \<and> x < b \<longrightarrow> P (x div 4096)"
  show "\<forall>k \<in> {a div 4096..(b - 1) div 4096}. P k"
  proof
    fix k assume k: "k \<in> {a div 4096..(b - 1) div 4096}"
    then have "a \<le> max a (k * 4096)" "max a (k * 4096) < b" "max a (k * 4096) div 4096 = k"
      using that by (auto simp: max_def)
    with h show "P k" by metis
  qed
next
  assume h: "\<forall>k \<in> {a div 4096..(b - 1) div 4096}. P k"
  show "\<forall>x. a \<le> x \<and> x < b \<longrightarrow> P (x div 4096)"
  proof (intro allI impI)
    fix x assume "a \<le> x \<and> x < b"
    then have "a div 4096 \<le> x div 4096" "x div 4096 \<le> (b - 1) div 4096"
      by (auto intro: div_le_mono)
    with h show "P (x div 4096)" by simp
  qed
qed

lemma user_ptr_ok_bytes:
  assumes "default_pml4 s cur = Some p" "0 < len"
  shows "user_ptr_ok s cur start len w =
    Some (unat start + unat len \<le> 2 ^ 64 - 1 \<and>
      (\<forall>x. unat start \<le> x \<and> x < unat start + unat len \<longrightarrow>
         page_user_accessible s p (of_nat x) w))"
proof -
  have len: "0 < unat len" "len \<noteq> 0" using assms(2) by (auto simp: unat_gt_0)
  have wrap: "start + len < start \<longleftrightarrow> \<not> unat start + unat len \<le> 2 ^ 64 - 1"
    using len unsigned_less [of start, where 'a = nat] unsigned_less [of len, where 'a = nat]
    by (auto simp: word_less_nat_alt unat_word_ariths mod_if)
  show ?thesis
  proof (cases "unat start + unat len \<le> 2 ^ 64 - 1")
    case False
    then show ?thesis using assms wrap by (simp add: user_ptr_ok_def)
  next
    case True
    let ?a = "unat start div 4096" and ?b = "(unat start + unat len - 1) div 4096"
    have "unat (start + len) = unat start + unat len"
      using True by (subst unat_plus_no_wrap) auto
    then have last: "unat (start + len - 1) = unat start + unat len - 1"
      using len by (subst unat_minus_no_wrap) auto
    have acc: "page_user_accessible s p (of_nat x) w = page_user_accessible s p (frame_addr (x div 4096)) w"
      if "x < unat start + unat len" for x
      using accessible_page [of s p "of_nat x" w] that True unfolding page_of by simp
    have "check_pages (\<lambda>va. page_user_accessible s p va w) (frame_addr ?a) (frame_addr ?b) =
        Some (\<forall>k \<in> {?a..?b}. page_user_accessible s p (frame_addr k) w)"
      by (rule check_pages_all) (use len True in \<open>auto intro!: div_le_mono\<close>)
    also have "(\<forall>k \<in> {?a..?b}. page_user_accessible s p (frame_addr k) w) \<longleftrightarrow>
        (\<forall>x. unat start \<le> x \<and> x < unat start + unat len \<longrightarrow>
           page_user_accessible s p (frame_addr (x div 4096)) w)"
      using div_range [of "unat start" "unat start + unat len"
          "\<lambda>k. page_user_accessible s p (frame_addr k) w"] len by simp
    finally show ?thesis
      unfolding user_ptr_ok_def page_of last using assms(1) len(2) wrap True acc by simp
  qed
qed

lemma page_not_minus_one: "va AND NOT 0xFFF \<noteq> (- 1 :: u64)"
proof
  assume "va AND NOT 0xFFF = (- 1 :: u64)"
  then have "bit (va AND NOT (mask 12)) 0" by (simp only: page_mask bit_minus_1_iff) simp
  then show False by (simp add: bit_and_iff bit_not_iff bit_mask_iff)
qed

text \<open>What \<open>strncpy_user_loop\<close> has done when it returns: written only inside the destination from
  position \<open>i\<close> on, and on success copied a terminated string of accessible bytes.\<close>

definition copied_string ::
  "(u64 \<Rightarrow> bool) \<Rightarrow> mem \<Rightarrow> mem \<Rightarrow> u64 \<Rightarrow> u64 \<Rightarrow> u64 \<Rightarrow> u64 \<Rightarrow> bool" where
  "copied_string acc m m' kdst usrc i n \<longleftrightarrow> m (unat (usrc + n)) = 0 \<and>
     (\<forall>j. i \<le> j \<and> j \<le> n \<longrightarrow> acc ((usrc + j) AND NOT 0xFFF) \<and>
        m' (unat (kdst + j)) = m (unat (usrc + j)) \<and> (j < n \<longrightarrow> m (unat (usrc + j)) \<noteq> 0))"

lemma copied_string_step:
  assumes "unat (i + 1) = unat i + 1" "i + 1 \<le> n"
    and rest: "copied_string acc (m(a := c)) m' kdst usrc (i + 1) n"
    and "\<forall>j \<le> n. unat (usrc + j) \<noteq> a"
    and "acc ((usrc + i) AND NOT 0xFFF)" "m (unat (usrc + i)) \<noteq> 0"
    and "m' (unat (kdst + i)) = m (unat (usrc + i))"
  shows "copied_string acc m m' kdst usrc i n"
  unfolding copied_string_def
proof (intro conjI allI impI)
  have keep: "(m(a := c)) (unat (usrc + j)) = m (unat (usrc + j))" if "j \<le> n" for j
    using that assms(4) by simp
  show "m (unat (usrc + n)) = 0" using rest keep [of n] by (simp add: copied_string_def)
  fix j assume j: "i \<le> j \<and> j \<le> n"
  have "j = i \<or> i + 1 \<le> j" using j assms(1) by (auto simp: word_le_nat_alt word_eq_unatI)
  then show "acc ((usrc + j) AND NOT 0xFFF)" "m' (unat (kdst + j)) = m (unat (usrc + j))"
    "j < n \<Longrightarrow> m (unat (usrc + j)) \<noteq> 0"
    using rest j keep [of j] assms(5-) unfolding copied_string_def by (auto simp del: fun_upd_apply)
qed

lemma strncpy_user_loop_facts:
  assumes "unat kdst + unat mx \<le> 2 ^ 64" "mx \<noteq> 0" "i \<le> mx - 1" "lp = - 1 \<or> acc lp"
    and "\<forall>j < mx. unat (usrc + j) \<notin> {unat kdst..<unat kdst + unat mx}"
    and "strncpy_user_loop acc m kdst usrc mx i lp = (m', r)"
  shows "(\<forall>a. a \<notin> {unat kdst + unat i..<unat kdst + unat mx} \<longrightarrow> m' a = m a) \<and>
    (r = - 1 \<or> (\<exists>n. i \<le> n \<and> n < mx - 1 \<and> r = sint (ucast n :: u32) \<and>
       copied_string acc m m' kdst usrc i n))"
  using assms
proof (induction acc m kdst usrc mx i lp rule: strncpy_user_loop.induct)
  case (1 acc m kdst usrc mx i lp)
  have mx: "unat (mx - 1) = unat mx - 1" "0 < unat mx"
    using \<open>mx \<noteq> 0\<close> by (auto simp: unat_minus_one unat_gt_0)
  have dst: "unat (kdst + j) = unat kdst + unat j" if "j \<le> mx - 1" for j
    using that 1(2) mx by (subst unat_plus_no_wrap) (auto simp: word_le_nat_alt)
  note unfold = strncpy_user_loop.simps [of acc m kdst usrc mx i lp]
  show ?case
  proof (cases "i < mx - 1")
    case False
    then have "i = mx - 1" using 1(4) by simp
    then show ?thesis
      using 1(7) False dst [of "mx - 1"] mx unfolding unfold by auto
  next
    case True
    let ?page = "(usrc + i) AND NOT 0xFFF"
    let ?c = "m (unat (usrc + i))"
    let ?m = "m(unat (kdst + i) := ?c)"
    have i: "unat i < unat mx - 1" using True mx by (simp add: word_less_nat_alt)
    have imx: "i < mx" using i by (simp add: word_less_nat_alt)
    consider "?page \<noteq> lp \<and> \<not> acc ?page" | "acc ?page" "?c = 0" | "acc ?page" "?c \<noteq> 0"
      using 1(5) page_not_minus_one [of "usrc + i"] by auto
    then show ?thesis
    proof cases
      case 1
      then show ?thesis using True "1.prems"(6) unfolding unfold by (simp add: Let_def)
    next
      case 2
      then have "m' = ?m" "r = sint (ucast i :: u32)"
        using True "1.prems"(6) unfolding unfold by (auto simp: Let_def)
      moreover have "copied_string acc m ?m kdst usrc i i"
        using 2 by (auto simp: copied_string_def)
      moreover have "\<forall>a. a \<notin> {unat kdst + unat i..<unat kdst + unat mx} \<longrightarrow> ?m a = m a"
        using True dst [of i] i by (auto simp: less_imp_le)
      ultimately show ?thesis using True by blast
    next
      case 3
      have rec: "strncpy_user_loop acc ?m kdst usrc mx (i + 1) ?page = (m', r)"
        using 3 True "1.prems"(6) unfolding unfold by (simp add: Let_def)
      have i1: "unat (i + 1) = unat i + 1"
        using i unsigned_less [of mx, where 'a = nat] by (subst unat_plus_no_wrap) auto
      have i2: "i + 1 \<le> mx - 1" using i i1 mx by (simp add: word_le_nat_alt)
      have IH: "(\<forall>a. a \<notin> {unat kdst + unat (i + 1)..<unat kdst + unat mx} \<longrightarrow> m' a = ?m a) \<and>
          (r = - 1 \<or> (\<exists>n. i + 1 \<le> n \<and> n < mx - 1 \<and> r = sint (ucast n :: u32) \<and>
             copied_string acc ?m m' kdst usrc (i + 1) n))"
        by (rule 1(1) [OF True refl refl _ refl refl 3(2) 1(2,3) i2 _ 1(6) rec]) (use 3 in auto)
      have frame: "\<forall>a. a \<notin> {unat kdst + unat i..<unat kdst + unat mx} \<longrightarrow> m' a = m a"
        using IH dst [of i] True i i1 by (auto simp: less_imp_le)
      have here: "m' (unat (kdst + i)) = ?c"
        using IH dst [of i] True i1 by (auto simp: less_imp_le)
      have "copied_string acc m m' kdst usrc i n"
        if n: "i + 1 \<le> n" "n < mx - 1" "copied_string acc ?m m' kdst usrc (i + 1) n" for n
      proof (rule copied_string_step [OF i1 n(1,3) _ 3 here])
        have "j < mx" if "j \<le> n" for j
          using that n(2) mx by (auto simp: word_le_nat_alt word_less_nat_alt)
        moreover have "unat (kdst + i) \<in> {unat kdst..<unat kdst + unat mx}"
          using dst [of i] True i by (auto simp: less_imp_le)
        ultimately show "\<forall>j \<le> n. unat (usrc + j) \<noteq> unat (kdst + i)"
          using 1(6) by metis
      qed
      moreover have "i \<le> n" if "i + 1 \<le> n" for n
        using that i1 by (auto simp: word_le_nat_alt)
      ultimately show ?thesis using IH frame by blast
    qed
  qed
qed

section \<open>Teardown\<close>

text \<open>The frame an entry refers to, as \<open>pmm_free_frame\<close> reads it, and the frames below a table.\<close>

definition entry_frame :: "u64 \<Rightarrow> nat" where
  "entry_frame e = unat (ucast ((e AND PTE_ADDR_MASK) div PAGE_SIZE) :: u32)"

definition present_entries :: "(u64 \<Rightarrow> nat \<Rightarrow> u64) \<Rightarrow> u64 \<Rightarrow> nat \<Rightarrow> u64 set" where
  "present_entries m t n = m t ` {i. i < n \<and> has (m t i) VMM_FLAG_PRESENT}"

definition pt_frames :: "(u64 \<Rightarrow> nat \<Rightarrow> u64) \<Rightarrow> u64 \<Rightarrow> nat set" where
  "pt_frames m t = entry_frame ` present_entries m t 512"

definition dir_frames :: "(u64 \<Rightarrow> nat set) \<Rightarrow> u64 set \<Rightarrow> nat set" where
  "dir_frames below es =
     (\<Union>e \<in> es. insert (entry_frame e) (if has e VMM_FLAG_HUGE then {} else below (entry_to_table e)))"

definition pd_frames :: "(u64 \<Rightarrow> nat \<Rightarrow> u64) \<Rightarrow> u64 \<Rightarrow> nat set" where
  "pd_frames m t = dir_frames (pt_frames m) (present_entries m t 512)"

definition pdpt_frames :: "(u64 \<Rightarrow> nat \<Rightarrow> u64) \<Rightarrow> u64 \<Rightarrow> nat set" where
  "pdpt_frames m t = dir_frames (pd_frames m) (present_entries m t 512)"

definition user_frames :: "(u64 \<Rightarrow> nat \<Rightarrow> u64) \<Rightarrow> u64 \<Rightarrow> nat set" where
  "user_frames m r = dir_frames (pdpt_frames m) (present_entries m r 256)"

text \<open>A step that only returns the frames \<open>A\<close> to the allocator.\<close>

definition releases :: "vm \<Rightarrow> vm \<Rightarrow> nat set \<Rightarrow> bool" where
  "releases s s' A \<longleftrightarrow> (\<exists>f. s' = s\<lparr>frames := f\<rparr> \<and> pmm_ok f \<and> total_frames f = total_frames (frames s) \<and>
     free_frames f = free_frames (frames s) \<union> (A \<inter> {..< unat (total_frames (frames s))}))"

lemma releases_refl: "pmm_ok (frames s) \<Longrightarrow> releases s s {}"
  by (auto simp: releases_def intro!: exI [of _ "frames s"])

lemma releases_trans: "releases s s' A \<Longrightarrow> releases s' s'' B \<Longrightarrow> releases s s'' (A \<union> B)"
  by (auto simp: releases_def)

lemma releases_tables: "releases s s' A \<Longrightarrow> tables s' = tables s \<and> pmm_ok (frames s')"
  by (auto simp: releases_def)

lemma releases_entry: "pmm_ok (frames s) \<Longrightarrow> releases s (free_entry e s) {entry_frame e}"
  unfolding releases_def
  by (intro exI [of _ "pmm_free_frame (e AND PTE_ADDR_MASK) (frames s)"])
     (auto simp: free_entry_def entry_frame_def pmm_free_frame_def release_frame_free release_frame_ok)

lemma releases_fold:
  assumes "pmm_ok (frames s)"
    and "\<And>s1 i. i \<in> set is \<Longrightarrow> tables s1 = tables s \<Longrightarrow> pmm_ok (frames s1) \<Longrightarrow> releases s1 (f i s1) (A i)"
  shows "releases s (fold f is s) (\<Union>i \<in> set is. A i)"
  using assms
proof (induction "is" arbitrary: s)
  case Nil
  then show ?case by (simp add: releases_refl)
next
  case (Cons i "is")
  have 1: "releases s (f i s) (A i)" using Cons.prems by simp
  have "releases (f i s) (fold f is (f i s)) (\<Union>i \<in> set is. A i)"
    by (intro Cons.IH) (use Cons.prems releases_tables [OF 1] in auto)
  from releases_trans [OF 1 this] show ?case by simp
qed

lemma free_pt_releases: "pmm_ok (frames s) \<Longrightarrow> releases s (free_pt t s) (pt_frames (tables s) t)"
proof -
  assume ok: "pmm_ok (frames s)"
  let ?A = "\<lambda>i. if has (tables s t i) VMM_FLAG_PRESENT then {entry_frame (tables s t i)} else {}"
  have "releases s (free_pt t s) (\<Union>i \<in> set [0..<512]. ?A i)"
    unfolding free_pt_def
    by (rule releases_fold [OF ok]) (auto simp: Let_def releases_entry releases_refl)
  moreover have "(\<Union>i \<in> set [0..<512]. ?A i) = pt_frames (tables s) t"
    by (auto simp: pt_frames_def present_entries_def split: if_splits)
  ultimately show ?thesis by simp
qed

lemma UN_if_image:
  fixes n :: nat
  shows "(\<Union>i \<in> {0..<n}. if P i then F (g i) else {}) = (\<Union>e \<in> g ` {i. i < n \<and> P i}. F e)"
  by (fastforce split: if_splits)

text \<open>The middle levels, for a routine \<open>free\<close> that releases what is below an entry.\<close>

lemma free_dir_releases:
  assumes ok: "pmm_ok (frames s)"
    and below: "\<And>s1 t. tables s1 = tables s \<Longrightarrow> pmm_ok (frames s1) \<Longrightarrow>
      releases s1 (free t s1) (below t)"
  shows "releases s (fold (\<lambda>i s. let e = tables s t i
      in if \<not> has e VMM_FLAG_PRESENT then s
         else if has e VMM_FLAG_HUGE then free_entry e s
         else free_entry e (free (entry_to_table e) s)) [0..<512] s)
    (dir_frames below (present_entries (tables s) t 512))"
proof -
  let ?F = "\<lambda>e. insert (entry_frame e) (if has e VMM_FLAG_HUGE then {} else below (entry_to_table e))"
  let ?A = "\<lambda>i. if has (tables s t i) VMM_FLAG_PRESENT then ?F (tables s t i) else {}"
  have "releases s (fold (\<lambda>i s. let e = tables s t i
      in if \<not> has e VMM_FLAG_PRESENT then s
         else if has e VMM_FLAG_HUGE then free_entry e s
         else free_entry e (free (entry_to_table e) s)) [0..<512] s) (\<Union>i \<in> set [0..<512]. ?A i)"
  proof (rule releases_fold [OF ok])
    fix s1 :: vm and i
    assume s1: "tables s1 = tables s" "pmm_ok (frames s1)"
    let ?e = "tables s t i"
    have "releases s1 (free_entry ?e (free (entry_to_table ?e) s1))
        (insert (entry_frame ?e) (below (entry_to_table ?e)))"
      using releases_trans [OF below [OF s1] releases_entry] releases_tables [OF below [OF s1]] by simp
    with s1 show "releases s1 (let e = tables s1 t i
      in if \<not> has e VMM_FLAG_PRESENT then s1
         else if has e VMM_FLAG_HUGE then free_entry e s1
         else free_entry e (free (entry_to_table e) s1)) (?A i)"
      by (simp add: Let_def releases_entry releases_refl)
  qed
  moreover have "(\<Union>i \<in> set [0..<512]. ?A i) = dir_frames below (present_entries (tables s) t 512)"
    unfolding dir_frames_def present_entries_def set_upt by (rule UN_if_image)
  ultimately show ?thesis by simp
qed

lemma free_pd_releases: "pmm_ok (frames s) \<Longrightarrow> releases s (free_pd t s) (pd_frames (tables s) t)"
  unfolding free_pd_def pd_frames_def
  by (rule free_dir_releases) (use free_pt_releases in metis)+

lemma free_pdpt_releases: "pmm_ok (frames s) \<Longrightarrow> releases s (free_pdpt t s) (pdpt_frames (tables s) t)"
  unfolding free_pdpt_def pdpt_frames_def
  by (rule free_dir_releases) (use free_pd_releases in metis)+

text \<open>What is below the root does not depend on the root's own entries.\<close>

lemma dir_frames_cong:
  assumes "\<And>e. e \<in> es \<Longrightarrow> \<not> has e VMM_FLAG_HUGE \<Longrightarrow> below' (entry_to_table e) = below (entry_to_table e)"
  shows "dir_frames below' es = dir_frames below es"
  unfolding dir_frames_def using assms by (intro SUP_cong) auto

lemma tbl_snoc:
  "tbl m r p = Some t \<Longrightarrow> i < 512 \<Longrightarrow> has (m t i) VMM_FLAG_PRESENT \<Longrightarrow> \<not> has (m t i) VMM_FLAG_HUGE \<Longrightarrow>
   tbl m r (p @ [i]) = Some (entry_to_table (m t i))"
  by (simp add: tbl_append)

lemma below_root_cong:
  assumes ok: "vm_ok R s" and r: "r \<in> R" and m': "\<And>x. x \<noteq> r \<Longrightarrow> m' x = tables s x"
    and i: "i < 256" "has (tables s r i) VMM_FLAG_PRESENT"
  shows "pdpt_frames m' (entry_to_table (tables s r i)) =
    pdpt_frames (tables s) (entry_to_table (tables s r i))"
proof -
  let ?m = "tables s"
  have not_root: "x \<noteq> r" if "user_path p" "p \<noteq> []" "tbl ?m r p = Some x" for p x
    using vm_okD(5) [OF ok r r that(1), of "[]" x] that by (auto simp: user_path_def)
  have up: "user_path [i]" "\<And>j. j < 512 \<Longrightarrow> user_path ([i] @ [j])"
    "\<And>j k. j < 512 \<Longrightarrow> k < 512 \<Longrightarrow> user_path (([i] @ [j]) @ [k])"
    using i(1) by (auto simp: user_path_def)
  have "\<not> has (?m r i) VMM_FLAG_HUGE"
    using vm_okD(4) [OF ok r, of "[]" i r] up(1) by simp
  with i have t3: "tbl ?m r [i] = Some (entry_to_table (?m r i))" by simp
  have pt: "pt_frames m' t = pt_frames ?m t" if "t \<noteq> r" for t
    by (simp add: pt_frames_def present_entries_def m' [OF that])
  have pd: "pd_frames m' t = pd_frames ?m t" if j: "j < 512" and t: "tbl ?m r ([i] @ [j]) = Some t" for j t
  proof -
    have "t \<noteq> r" by (rule not_root [OF up(2) [OF j] _ t]) simp
    then have e: "present_entries m' t 512 = present_entries ?m t 512"
      by (simp add: present_entries_def m')
    show ?thesis
      unfolding pd_frames_def e
    proof (rule dir_frames_cong)
      fix e assume "e \<in> present_entries ?m t 512" and h: "\<not> has e VMM_FLAG_HUGE"
      then obtain k where k: "k < 512" "e = ?m t k" "has e VMM_FLAG_PRESENT"
        by (auto simp: present_entries_def)
      then have "tbl ?m r (([i] @ [j]) @ [k]) = Some (entry_to_table e)"
        using tbl_snoc [OF t k(1)] h by simp
      from not_root [OF up(3) [OF j k(1)] _ this]
      show "pt_frames m' (entry_to_table e) = pt_frames ?m (entry_to_table e)" by (intro pt) simp
    qed
  qed
  have "entry_to_table (?m r i) \<noteq> r" by (rule not_root [OF up(1) _ t3]) simp
  then have e: "present_entries m' (entry_to_table (?m r i)) 512 =
      present_entries ?m (entry_to_table (?m r i)) 512"
    by (simp add: present_entries_def m')
  show ?thesis
    unfolding pdpt_frames_def e
  proof (rule dir_frames_cong)
    fix e assume "e \<in> present_entries ?m (entry_to_table (?m r i)) 512" and h: "\<not> has e VMM_FLAG_HUGE"
    then obtain j where j: "j < 512" "e = ?m (entry_to_table (?m r i)) j" "has e VMM_FLAG_PRESENT"
      by (auto simp: present_entries_def)
    then have "tbl ?m r ([i] @ [j]) = Some (entry_to_table e)"
      using tbl_snoc [OF t3 j(1)] h by simp
    then show "pd_frames m' (entry_to_table e) = pd_frames ?m (entry_to_table e)"
      by (rule pd [OF j(1)])
  qed
qed

text \<open>The state after the first \<open>n\<close> entries of the root.\<close>

definition torn :: "u64 \<Rightarrow> vm \<Rightarrow> nat \<Rightarrow> vm \<Rightarrow> bool" where
  "torn r s n s' \<longleftrightarrow>
     (\<forall>x. x \<noteq> r \<longrightarrow> tables s' x = tables s x) \<and>
     tables s' r = (\<lambda>i. if i < n \<and> has (tables s r i) VMM_FLAG_PRESENT then 0 else tables s r i) \<and>
     pmm_ok (frames s') \<and> total_frames (frames s') = total_frames (frames s) \<and>
     free_frames (frames s') = free_frames (frames s) \<union>
       (dir_frames (pdpt_frames (tables s)) (present_entries (tables s) r n)
          \<inter> {..< unat (total_frames (frames s))}) \<and>
     kernel_pml4 s' = kernel_pml4 s \<and> current_cr3 s' = current_cr3 s \<and> tlb s' = tlb s"

lemma present_entries_Suc:
  "present_entries m t (Suc n) = present_entries m t n \<union> (if has (m t n) VMM_FLAG_PRESENT then {m t n} else {})"
  by (auto simp: present_entries_def less_Suc_eq)

lemma free_user_subtree_torn:
  assumes ok: "vm_ok R s" and r: "r \<in> R"
  shows "torn r s 256 (free_user_subtree r s)"
proof -
  define f where "f = (\<lambda>i4 s. let e4 = tables s r i4
     in if \<not> has e4 VMM_FLAG_PRESENT then s
        else set_entry r i4 0 (free_entry e4 (free_pdpt (entry_to_table e4) s)))"
  have "torn r s n (fold f [0..<n] s)" if "n \<le> 256" for n
    using that
  proof (induction n)
    case 0
    then show ?case
      using vm_okD(1) [OF ok] by (auto simp: torn_def dir_frames_def present_entries_def)
  next
    case (Suc n)
    let ?s = "fold f [0..<n] s" and ?e = "tables s r n"
    have IH: "torn r s n ?s" using Suc by simp
    have e: "tables ?s r n = ?e" using IH by (simp add: torn_def)
    have step: "fold f [0..<Suc n] s = f n ?s" by simp
    show ?case
    proof (cases "has ?e VMM_FLAG_PRESENT")
      case False
      then show ?thesis
        using IH e unfolding step
        by (auto simp: torn_def f_def present_entries_Suc less_Suc_eq fun_eq_iff)
    next
      case True
      have huge: "\<not> has ?e VMM_FLAG_HUGE"
        using vm_okD(4) [OF ok r, of "[]" n r] Suc.prems by (simp add: user_path_def)
      have ok': "pmm_ok (frames ?s)" using IH by (simp add: torn_def)
      let ?A = "pdpt_frames (tables ?s) (entry_to_table ?e)"
      have A: "?A = pdpt_frames (tables s) (entry_to_table ?e)"
        by (rule below_root_cong [OF ok r _ _ True]) (use IH Suc.prems in \<open>auto simp: torn_def\<close>)
      have "releases ?s (free_entry ?e (free_pdpt (entry_to_table ?e) ?s)) (insert (entry_frame ?e) ?A)"
        using releases_trans [OF free_pdpt_releases [OF ok'] releases_entry]
          releases_tables [OF free_pdpt_releases [OF ok']] by simp
      then obtain fr where fr: "free_entry ?e (free_pdpt (entry_to_table ?e) ?s) = ?s\<lparr>frames := fr\<rparr>"
        "pmm_ok fr" "total_frames fr = total_frames (frames ?s)"
        "free_frames fr = free_frames (frames ?s) \<union>
           (insert (entry_frame ?e) ?A \<inter> {..< unat (total_frames (frames ?s))})"
        unfolding releases_def by blast
      have "f n ?s = set_entry r n 0 (?s\<lparr>frames := fr\<rparr>)"
        using True e fr(1) by (simp add: f_def Let_def)
      then show ?thesis
        using IH True huge fr(2-4) unfolding step A
        by (auto simp: torn_def present_entries_Suc dir_frames_def fun_eq_iff less_Suc_eq)
    qed
  qed
  from this [of 256] show ?thesis by (simp add: free_user_subtree_def f_def del: upt_rec_numeral)
qed

section \<open>Mapping succeeds while low frames are free\<close>

definition low_free :: "vm \<Rightarrow> nat" where
  "low_free s = card (free_frames (frames s) \<inter> {..< 16384})"

lemma alloc_table_low:
  assumes ok: "pmm_ok (frames s)" "0 \<notin> free_frames (frames s)" and low: "0 < low_free s"
  obtains s' a where "alloc_table s = Some (s', a)" "pmm_ok (frames s')" "0 \<notin> free_frames (frames s')"
    "low_free s \<le> low_free s' + 1"
proof -
  let ?F = "free_frames (frames s)" and ?k = "Min (free_frames (frames s))"
  obtain j where j: "j \<in> ?F" "j < 16384"
    using low unfolding low_free_def card_gt_0_iff by auto
  then have ne: "?F \<noteq> {}" by auto
  have "?k \<le> j" by (rule Min_le [OF finite_free_frames j(1)])
  then have k: "?k \<in> ?F" "?k < 16384" using ne j(2) by simp_all
  have pos: "?k \<noteq> 0" using k(1) ok(2) by metis
  have "unat (frame_addr ?k) = ?k * 4096" using k(2) by (intro unat_frame_addr) simp
  then have "check_low (frame_addr ?k)" "frame_addr ?k \<noteq> 0"
    using k(2) pos
    by (auto simp: check_low_def KERNEL_DIRECT_MAP_LIMIT_def word_le_nat_alt)
  moreover define s' where "s' = zero_table (frame_addr ?k) (s\<lparr>frames := fst (pmm_alloc_frame (frames s))\<rparr>)"
  ultimately have s': "alloc_table s = Some (s', frame_addr ?k)"
    "frames s' = fst (pmm_alloc_frame (frames s))"
    using frames.alloc_min [OF ok(1) ne] by (simp_all add: alloc_table_def split_beta)
  have fr: "free_frames (frames s') = ?F - {?k}" "pmm_ok (frames s')"
    using frames.alloc_free [OF ok(1) ne] frames.alloc_ok [OF ok(1)] s'(2) by simp_all
  have "?F \<inter> {..< 16384} = insert ?k (free_frames (frames s') \<inter> {..< 16384})"
    using k by (auto simp: fr)
  then have "low_free s \<le> low_free s' + 1"
    unfolding low_free_def by (simp add: card_insert_if)
  with that s'(1) fr ok(2) show ?thesis by auto
qed

lemma low_free_set_entry [simp]: "low_free (set_entry t i e s) = low_free s"
  by (simp add: low_free_def)

lemma ensure_entry_low:
  assumes "pmm_ok (frames s)" "0 \<notin> free_frames (frames s)" "0 < low_free s"
  obtains s' where "ensure_entry s t i user = Some s'" "pmm_ok (frames s')"
    "0 \<notin> free_frames (frames s')" "low_free s \<le> low_free s' + 1"
proof (cases "has (tables s t i) VMM_FLAG_PRESENT")
  case True
  then show ?thesis using that assms by (auto simp: ensure_entry_def Let_def)
next
  case False
  obtain s1 a where "alloc_table s = Some (s1, a)" "pmm_ok (frames s1)" "0 \<notin> free_frames (frames s1)"
    "low_free s \<le> low_free s1 + 1"
    by (rule alloc_table_low [OF assms])
  with False that show ?thesis by (auto simp: ensure_entry_def Let_def)
qed

lemma walk_create_low:
  assumes "pmm_ok (frames s)" "0 \<notin> free_frames (frames s)" "3 \<le> low_free s"
  shows "\<exists>s' res. walk_create s pml4 va user = Some (s', res)"
proof -
  obtain s1 where s1: "ensure_entry s pml4 (pml4_idx va) user = Some s1" "pmm_ok (frames s1)"
    "0 \<notin> free_frames (frames s1)" "low_free s \<le> low_free s1 + 1"
    by (rule ensure_entry_low [OF assms(1,2)]) (use assms(3) in auto)
  let ?t3 = "entry_to_table (tables s1 pml4 (pml4_idx va))"
  obtain s2 where s2: "ensure_entry s1 ?t3 (pdpt_idx va) user = Some s2" "pmm_ok (frames s2)"
    "0 \<notin> free_frames (frames s2)" "low_free s1 \<le> low_free s2 + 1"
    by (rule ensure_entry_low [OF s1(2,3)]) (use assms(3) s1(4) in auto)
  let ?t2 = "entry_to_table (tables s2 ?t3 (pdpt_idx va))"
  obtain s3 where "ensure_entry s2 ?t2 (pd_idx va) user = Some s3"
    by (rule ensure_entry_low [OF s2(2,3)]) (use assms(3) s1(4) s2(4) in auto)
  with s1(1) s2(1) show ?thesis by (simp add: walk_create_def Let_def)
qed

lemma map_in_low:
  assumes "pmm_ok (frames s)" "0 \<notin> free_frames (frames s)" "3 \<le> low_free s"
  shows "\<exists>s'. vmm_map_in s pml4 va phys flags = Some s'"
  using walk_create_low [OF assms, of pml4 va "has flags VMM_FLAG_USER"]
  by (auto simp: vmm_map_in_def split: option.splits)

section \<open>The interface of an address space\<close>

definition page_id :: "u64 \<Rightarrow> nat list \<times> nat" where
  "page_id va = (va_path va, pt_idx va)"

definition space_entry :: "vm \<Rightarrow> u64 \<Rightarrow> u64 \<Rightarrow> u64 option" where
  "space_entry s r va = page_entry s r (va_path va) (pt_idx va)"

text \<open>Mapping a list of pages (address, frame) one after the other, as the loader and
  \<open>mmap_anon\<close> do.\<close>

fun map_pages ::
  "('s \<Rightarrow> u64 \<Rightarrow> u64 \<Rightarrow> u64 \<Rightarrow> u64 \<Rightarrow> 's option) \<Rightarrow> 's \<Rightarrow> u64 \<Rightarrow> u64 \<Rightarrow> (u64 \<times> u64) list \<Rightarrow> 's option" where
  "map_pages map_in s r flags [] = Some s"
| "map_pages map_in s r flags ((va, phys) # ps) =
     Option.bind (map_in s r va phys flags) (\<lambda>s. map_pages map_in s r flags ps)"

locale page_map =
  fixes ok :: "'s \<Rightarrow> bool"
    and roots :: "u64 set"
    and entry :: "'s \<Rightarrow> u64 \<Rightarrow> u64 \<Rightarrow> u64 option"
    and map_in :: "'s \<Rightarrow> u64 \<Rightarrow> u64 \<Rightarrow> u64 \<Rightarrow> u64 \<Rightarrow> 's option"
    and unmap_in :: "'s \<Rightarrow> u64 \<Rightarrow> u64 \<Rightarrow> 's"
  assumes map_ok: "ok s \<Longrightarrow> r \<in> roots \<Longrightarrow> user_va va \<Longrightarrow> map_in s r va phys flags = Some s' \<Longrightarrow> ok s'"
    and map_entry: "ok s \<Longrightarrow> r \<in> roots \<Longrightarrow> user_va va \<Longrightarrow> map_in s r va phys flags = Some s' \<Longrightarrow>
      r' \<in> roots \<Longrightarrow> user_va va' \<Longrightarrow> entry s' r' va' =
        (if r' = r \<and> page_id va' = page_id va then Some (make_pte phys flags) else entry s r' va')"
    and unmap_ok: "ok s \<Longrightarrow> r \<in> roots \<Longrightarrow> user_va va \<Longrightarrow> ok (unmap_in s r va)"
    and unmap_entry: "ok s \<Longrightarrow> r \<in> roots \<Longrightarrow> user_va va \<Longrightarrow> r' \<in> roots \<Longrightarrow> user_va va' \<Longrightarrow>
      entry (unmap_in s r va) r' va' =
        (if r' = r \<and> page_id va' = page_id va then None else entry s r' va')"
begin

lemma unmap_map:
  assumes "ok s" "r \<in> roots" "user_va va" "map_in s r va phys flags = Some s'" "r' \<in> roots" "user_va va'"
    "entry s r va = None"
  shows "r' \<noteq> r \<or> page_id va' \<noteq> page_id va \<Longrightarrow> entry (unmap_in s' r va) r' va' = entry s r' va'"
    "entry (unmap_in s' r va) r va = entry s r va"
  using assms map_ok [OF assms(1-4)] by (auto simp: unmap_entry map_entry)

lemma map_pages_entry:
  assumes "ok s" "r \<in> roots" "\<forall>(va, phys) \<in> set ps. user_va va"
    and "distinct (map (page_id \<circ> fst) ps)" "map_pages map_in s r flags ps = Some s'"
  shows "ok s' \<and> (\<forall>(va, phys) \<in> set ps. entry s' r va = Some (make_pte phys flags)) \<and>
    (\<forall>r' \<in> roots. \<forall>va'. user_va va' \<longrightarrow> (r' \<noteq> r \<or> page_id va' \<notin> (page_id \<circ> fst) ` set ps) \<longrightarrow>
       entry s' r' va' = entry s r' va')"
  using assms
proof (induction ps arbitrary: s)
  case (Cons p ps)
  obtain va phys where p: "p = (va, phys)" by fastforce
  then obtain s1 where s1: "map_in s r va phys flags = Some s1" "map_pages map_in s1 r flags ps = Some s'"
    using Cons.prems(5) by (auto simp: bind_eq_Some_conv)
  have va: "user_va va" using Cons.prems(3) p by simp
  note ok1 = map_ok [OF Cons.prems(1,2) va s1(1)]
  note ent1 = map_entry [OF Cons.prems(1,2) va s1(1)]
  have "ok s' \<and> (\<forall>(va, phys) \<in> set ps. entry s' r va = Some (make_pte phys flags)) \<and>
    (\<forall>r' \<in> roots. \<forall>va'. user_va va' \<longrightarrow> (r' \<noteq> r \<or> page_id va' \<notin> (page_id \<circ> fst) ` set ps) \<longrightarrow>
       entry s' r' va' = entry s1 r' va')"
    by (rule Cons.IH [OF ok1 Cons.prems(2) _ _ s1(2)]) (use Cons.prems(3,4) in auto)
  moreover have "page_id va \<notin> (page_id \<circ> fst) ` set ps" using Cons.prems(4) p by simp
  ultimately show ?case
    using ent1 va Cons.prems(2) by (auto simp: p)
qed auto

end

interpretation space: page_map "vm_ok R" R space_entry vmm_map_in vmm_unmap_in for R
proof unfold_locales
  fix s s' :: vm and r r' va va' phys flags :: u64
  assume ok: "vm_ok R s" and r: "r \<in> R" and va: "user_va va"
  show "vm_ok R (vmm_unmap_in s r va)" by (rule unmap_in_entries [OF ok r va])
  show "space_entry (vmm_unmap_in s r va) r' va' =
      (if r' = r \<and> page_id va' = page_id va then None else space_entry s r' va')"
    if "r' \<in> R" "user_va va'"
    unfolding space_entry_def page_id_def
    using unmap_in_entries(2) [OF ok r va that(1) va_path_user [OF that(2)]] by (auto simp: va_path_def)
  assume m: "vmm_map_in s r va phys flags = Some s'"
  show "vm_ok R s'" by (rule map_in_entries [OF ok r va m])
  show "space_entry s' r' va' =
      (if r' = r \<and> page_id va' = page_id va then Some (make_pte phys flags) else space_entry s r' va')"
    if "r' \<in> R" "user_va va'"
    unfolding space_entry_def page_id_def
    using map_in_entries(2) [OF ok r va m that(1) va_path_user [OF that(2)]] by (auto simp: va_path_def)
qed

section \<open>New address spaces\<close>

lemma copy_kernel_half:
  assumes "k \<noteq> p" "256 \<le> n" "n \<le> 512"
  shows "fold (\<lambda>i s. set_entry p i (tables s k i) s) [256..<n] (zero_table p s) =
    s\<lparr>tables := (tables s)(p := (\<lambda>i. if 256 \<le> i \<and> i < n then tables s k i else 0))\<rparr>"
  using assms(2,3)
proof (induction n rule: nat_induct_at_least)
  case base
  have "(\<lambda>i. if 256 \<le> i \<and> i < 256 then tables s k i else 0) = (\<lambda>_. 0)" by (rule ext) auto
  then show ?case by (simp add: zero_table_def fun_upd_def)
next
  case (Suc n)
  then have "[256..<Suc n] = [256..<n] @ [n]" by simp
  with Suc assms(1) show ?case by (auto simp: set_entry_def fun_eq_iff)
qed

text \<open>A fresh frame \<open>p\<close> whose lower half is zero is an empty address space beside the others.\<close>

definition fresh_root :: "u64 \<Rightarrow> vm \<Rightarrow> vm \<Rightarrow> bool" where
  "fresh_root p s s' \<longleftrightarrow> \<not> owned_frame (frames s) p \<and> owned_frame (frames s') p \<and>
     (\<forall>x. owned_frame (frames s) x \<longrightarrow> owned_frame (frames s') x) \<and>
     pmm_ok (frames s') \<and> 0 \<notin> free_frames (frames s') \<and>
     (\<forall>x. x \<noteq> p \<longrightarrow> tables s' x = tables s x) \<and> (\<forall>i < 256. tables s' p i = 0)"

lemma fresh_root_tbl:
  assumes ok: "vm_ok R s" and fr: "fresh_root p s s'" and q: "user_path q"
  shows "tbl (tables s') p q = (if q = [] then Some p else None)"
    "r \<in> R \<Longrightarrow> tbl (tables s') r q = tbl (tables s) r q"
    "r \<in> R \<Longrightarrow> tbl (tables s) r q = Some x \<Longrightarrow> x \<noteq> p"
proof -
  show not_p: "x \<noteq> p" if "r \<in> R" "tbl (tables s) r q = Some x" for r x
    using vm_okD(3) [OF ok that(1) q that(2)] fr by (auto simp: fresh_root_def)
  show "tbl (tables s') p q = (if q = [] then Some p else None)"
    using q fr by (cases q) (auto simp: fresh_root_def user_path_def)
  show "tbl (tables s') r q = tbl (tables s) r q" if "r \<in> R"
  proof (rule tbl_cong)
    fix q' i z t
    assume h: "q = q' @ i # z" "tbl (tables s) r q' = Some t"
    then have "user_path q'" using q user_path_prefix by blast
    with vm_okD(3) [OF ok that this h(2)] fr show "tables s' t i = tables s t i"
      by (auto simp: fresh_root_def)
  qed
qed

lemma fresh_root_ok:
  assumes ok: "vm_ok R s" and fr: "fresh_root p s s'"
  shows "vm_ok (insert p R) s'"
  unfolding vm_ok_def
proof (intro conjI ballI allI impI)
  show "pmm_ok (frames s')" "0 \<notin> free_frames (frames s')" using fr by (auto simp: fresh_root_def)
next
  fix r q x
  assume h: "r \<in> insert p R" "user_path q" "tbl (tables s') r q = Some x"
  then show "owned_frame (frames s') x"
    using fresh_root_tbl [OF ok fr h(2)] vm_okD(3) [OF ok, of r q x] fr
    by (auto simp: fresh_root_def split: if_splits)
next
  fix r q i x
  assume h: "r \<in> insert p R" "user_path (q @ [i])" "tbl (tables s') r q = Some x"
  note tb = fresh_root_tbl [OF ok fr user_path_prefix [OF h(2)]]
  show "\<not> has (tables s' x i) VMM_FLAG_HUGE"
  proof (cases "r = p")
    case True
    then show ?thesis using h tb(1) fr by (auto simp: fresh_root_def user_path_def split: if_splits)
  next
    case False
    then have "r \<in> R" "tbl (tables s) r q = Some x" using h tb(2) [of r] by auto
    then show ?thesis using vm_okD(4) [OF ok _ h(2)] tb(3) [of r x] fr by (simp add: fresh_root_def)
  qed
next
  fix r r' q q' x
  assume h: "r \<in> insert p R" "r' \<in> insert p R" "user_path q" "user_path q'"
    "tbl (tables s') r q = Some x" "tbl (tables s') r' q' = Some x"
  then have "r = r' \<and> q = q'"
    using fresh_root_tbl [OF ok fr h(3)] fresh_root_tbl [OF ok fr h(4)]
      vm_okD(5) [OF ok, of r r' q q' x] by (auto split: if_splits) blast+
  then show "r = r'" "q = q'" by simp_all
qed

lemma new_pml4_fresh:
  assumes ok: "vm_ok R s" and k: "kernel_pml4 s = Some k" "owned_frame (frames s) k"
    and new: "vmm_new_pml4 s = Some (s', Some p)"
  shows "fresh_root p s s'" "256 \<le> i \<Longrightarrow> i < 512 \<Longrightarrow> tables s' p i = tables s k i"
proof -
  let ?fs = "frames s"
  have a: "p = snd (pmm_alloc_frame ?fs)" "p \<noteq> 0" "check_low p"
    using new k(1)
    by (auto simp: vmm_new_pml4_def Let_def simp del: upt_rec_numeral split: prod.splits if_splits)
  have ne: "free_frames ?fs \<noteq> {}" using a frames.alloc_empty [OF vm_okD(1) [OF ok]] by auto
  define j where "j = Min (free_frames ?fs)"
  have j: "j \<in> free_frames ?fs" "p = frame_addr j"
    using min_free [OF vm_okD(1) [OF ok] ne] frames.alloc_min [OF vm_okD(1) [OF ok] ne] a(1)
    by (simp_all add: j_def)
  have fresh: "\<not> owned_frame ?fs p" using fresh_not_owned [OF vm_okD(1) [OF ok] j(1)] j(2) by simp
  then have kp: "k \<noteq> p" using k(2) by blast
  define f where "f = fst (pmm_alloc_frame ?fs)"
  have f: "free_frames f = free_frames ?fs - {j}" "pmm_ok f" "total_frames f = total_frames ?fs"
    using min_free [OF vm_okD(1) [OF ok] ne] frames.alloc_free [OF vm_okD(1) [OF ok] ne]
      frames.alloc_ok [OF vm_okD(1) [OF ok]] by (simp_all add: f_def j_def)
  have "s' = fold (\<lambda>i s. set_entry p i (tables s k i) s) [256..<512] (zero_table p (s\<lparr>frames := f\<rparr>))"
    using new a k(1) by (simp add: vmm_new_pml4_def Let_def split_beta f_def del: upt_rec_numeral)
  then have s': "tables s' = (tables s)(p := (\<lambda>i. if 256 \<le> i \<and> i < 512 then tables s k i else 0))"
    "frames s' = f"
    using copy_kernel_half [OF kp, of 512 "s\<lparr>frames := f\<rparr>"]
    by (simp_all del: upt_rec_numeral cong: if_cong)
  then show "256 \<le> i \<Longrightarrow> i < 512 \<Longrightarrow> tables s' p i = tables s k i" by simp
  have "owned_frame f x" if "owned_frame ?fs x \<or> x = p" for x
    using that j f free_frames_bounded [of ?fs] by (auto simp: owned_frame_def)
  then show "fresh_root p s s'"
    using fresh f vm_okD(2) [OF ok] by (simp add: fresh_root_def s')
qed

section \<open>Properties\<close>

text \<open>A machine with 16 frames of which 3 to 9 are free, an empty address space at frame 1 and the
  kernel's at frame 2, for the examples.\<close>

definition small_vm :: vm where
  "small_vm = \<lparr>frames = fold (\<lambda>k. release_frame (of_nat k)) [3..<10] (pmm_size 0x10000 blank_pmm),
     tables = (\<lambda>_ _. 0), kernel_pml4 = Some 0x2000, current_cr3 = Some 0x1000, tlb = []\<rparr>"

lemma small_vm_frames:
  "pmm_ok (frames small_vm)" "free_frames (frames small_vm) = {3..<10}"
  "unat (total_frames (frames small_vm)) = 16"
proof -
  let ?p = "pmm_size 0x10000 blank_pmm"
  have p: "pmm_ok ?p" "free_frames ?p = {}" "unat (total_frames ?p) = 16"
    by (simp_all add: pmm_size_ok)
  have "(\<lambda>k. unat (of_nat k :: u32)) ` set [3..<10] = {3..<10}"
    by (auto simp: unat_of_nat image_def intro!: bexI)
  with fold_release [OF p(1), of of_nat "[3..<10]"] p
  show "pmm_ok (frames small_vm)" "free_frames (frames small_vm) = {3..<10}"
    "unat (total_frames (frames small_vm)) = 16"
    by (auto simp: small_vm_def simp del: upt_rec_numeral)
qed

lemma small_vm_tables [simp]: "tables small_vm = (\<lambda>_ _. 0)" "kernel_pml4 small_vm = Some 0x2000"
  by (simp_all add: small_vm_def)

lemma small_vm_tbl: "tbl (\<lambda>_ _. 0) r p = (if p = [] then Some r else None)"
  by (cases p) auto

lemma small_vm_owned: "owned_frame (frames small_vm) 0x1000" "owned_frame (frames small_vm) 0x2000"
  by (auto simp: owned_frame_def small_vm_frames frame_addr_def intro: exI [of _ 1] exI [of _ 2])

lemma small_vm_ok: "vm_ok {0x1000} small_vm"
  using small_vm_frames small_vm_owned
  by (auto simp: vm_ok_def small_vm_tbl split: if_splits)

text \<open>C4: \<open>vmm_map_in\<close> on a user address either panics for lack of frames or leaves a page table in
  which the page translates to the given frame, every other page of this and of every other
  address space translates as before, the kernel half is untouched and the tables stay
  disjoint; it does not panic while three frames of the direct-map region are free.\<close>

theorem vmm_map_in_correct:
  assumes "vm_ok R s" "r \<in> R" "user_va va"
  shows "(3 \<le> low_free s \<longrightarrow> vmm_map_in s r va phys flags \<noteq> None) \<and>
    (\<forall>s'. vmm_map_in s r va phys flags = Some s' \<longrightarrow>
       vm_ok R s' \<and>
       vmm_get_physical_in s' r va = (phys AND PTE_ADDR_MASK) OR (va AND 0xFFF) \<and>
       (\<forall>r' \<in> R. \<forall>va'. user_va va' \<longrightarrow> r' \<noteq> r \<or> page_id va' \<noteq> page_id va \<longrightarrow>
          vmm_get_physical_in s' r' va' = vmm_get_physical_in s r' va') \<and>
       (\<forall>r' \<in> R. \<forall>i \<ge> 256. tables s' r' i = tables s r' i))"
proof (intro conjI allI impI ballI)
  show "vmm_map_in s r va phys flags \<noteq> None" if "3 \<le> low_free s"
    using map_in_low [OF vm_okD(1,2) [OF assms(1)] that] by auto
next
  fix s' assume m: "vmm_map_in s r va phys flags = Some s'"
  note ent = space.map_entry [OF assms m, unfolded space_entry_def]
  show ok': "vm_ok R s'" by (rule space.map_ok [OF assms m])
  show "vmm_get_physical_in s' r va = (phys AND PTE_ADDR_MASK) OR (va AND 0xFFF)"
    by (simp add: get_physical_entry [OF ok' assms(2,3)] ent assms make_pte_simps(2))
  show "vmm_get_physical_in s' r' va' = vmm_get_physical_in s r' va'"
    if "r' \<in> R" "user_va va'" "r' \<noteq> r \<or> page_id va' \<noteq> page_id va" for r' va'
    using ent [OF that(1,2)] that(3)
    by (auto simp: get_physical_entry [OF ok' that(1,2)] get_physical_entry [OF assms(1) that(1,2)])
  show "tables s' r' i = tables s r' i" if "r' \<in> R" "256 \<le> i" for r' i
    by (rule map_in_entries(3) [OF assms m that])
qed

theorem vmm_map_in_correct_witness:
  "\<exists>s'. vmm_map_in small_vm 0x1000 0x400000 0x7000 7 = Some s' \<and>
     vmm_get_physical_in s' 0x1000 0x400000 = 0x7000"
proof -
  have "user_va 0x400000" by (simp add: user_va_def pml4_idx_def)
  moreover have "3 \<le> low_free small_vm"
  proof -
    have "{3..<10} \<inter> {..<16384} = {3..<10 :: nat}" by auto
    then show ?thesis by (simp add: low_free_def small_vm_frames)
  qed
  ultimately show ?thesis
    using vmm_map_in_correct [OF small_vm_ok, of "0x1000" "0x400000" "0x7000" 7]
    by (auto simp: PTE_ADDR_MASK_def)
qed

text \<open>a new address space from \<open>vmm_new_pml4\<close> is disjoint from every existing one, maps no
  user page, shares the kernel's upper half entry by entry, and leaves the existing address
  spaces as they are.\<close>

lemma vmm_new_pml4_correct:
  assumes "vm_ok R s" "kernel_pml4 s = Some k" "owned_frame (frames s) k"
    and "vmm_new_pml4 s = Some (s', Some p)"
  shows "p \<notin> R \<and> vm_ok (insert p R) s' \<and>
    (\<forall>i. 256 \<le> i \<and> i < 512 \<longrightarrow> tables s' p i = tables s k i) \<and>
    (\<forall>va. user_va va \<longrightarrow> vmm_get_physical_in s' p va = 0 \<and>
       (\<forall>r \<in> R. vmm_get_physical_in s' r va = vmm_get_physical_in s r va))"
proof (intro conjI allI impI ballI)
  note fr = new_pml4_fresh [OF assms]
  note tb = fresh_root_tbl [OF assms(1) fr(1)]
  show ok': "vm_ok (insert p R) s'" by (rule fresh_root_ok [OF assms(1) fr(1)])
  show "p \<notin> R" using tb(3) [of "[]" p p] by (auto simp: user_path_def)
  show "tables s' p i = tables s k i" if "256 \<le> i \<and> i < 512" for i using fr(2) that by simp
  show "vmm_get_physical_in s' p va = 0" if "user_va va" for va
    using tb(1) [OF va_path_user [OF that]]
    by (simp add: get_physical_entry [OF ok' insertI1 that] page_entry_def va_path_def)
  show "vmm_get_physical_in s' r va = vmm_get_physical_in s r va" if "user_va va" "r \<in> R" for va r
  proof -
    have "page_entry s' r (va_path va) (pt_idx va) = page_entry s r (va_path va) (pt_idx va)"
      using tb(2,3) [OF va_path_user [OF that(1)] that(2)] fr(1)
      by (cases "tbl (tables s) r (va_path va)") (auto simp: page_entry_def fresh_root_def)
    then show ?thesis
      using that by (simp add: get_physical_entry [OF ok'] get_physical_entry [OF assms(1)])
  qed
qed

text \<open>C21: tearing an address space down (\<open>vmm_free_pml4\<close>, not the kernel's) returns exactly the
  frames its user half refers to, tables included, and the frame of its top table to the
  allocator, and touches the tables of no other address space.\<close>

theorem vmm_free_pml4_releases:
  assumes "vm_ok R s" "r \<in> R" "kernel_pml4 s \<noteq> Some r"
  shows "free_frames (frames (vmm_free_pml4 (Some r) s)) = free_frames (frames s) \<union>
      (insert (unat (ucast (r div PAGE_SIZE) :: u32)) (user_frames (tables s) r)
         \<inter> {..< unat (total_frames (frames s))}) \<and>
    pmm_ok (frames (vmm_free_pml4 (Some r) s)) \<and>
    (\<forall>x. x \<noteq> r \<longrightarrow> tables (vmm_free_pml4 (Some r) s) x = tables s x) \<and>
    (\<forall>i < 256. \<not> has (tables (vmm_free_pml4 (Some r) s) r i) VMM_FLAG_PRESENT)"
proof -
  note torn = free_user_subtree_torn [OF assms(1,2), unfolded torn_def]
  have "vmm_free_pml4 (Some r) s =
      (let s1 = free_user_subtree r s in s1\<lparr>frames := pmm_free_frame r (frames s1)\<rparr>)"
    using assms(3) by (auto simp: vmm_free_pml4_def)
  then show ?thesis
    using torn
    by (auto simp: Let_def pmm_free_frame_def release_frame_free release_frame_ok user_frames_def)
qed

theorem vmm_free_pml4_releases_witness:
  "free_frames (frames (vmm_free_pml4 (Some 0x1000) small_vm)) = insert 1 {3..<10}"
proof -
  have "user_frames (\<lambda>_ _. 0) 0x1000 = {}"
    by (simp add: user_frames_def dir_frames_def present_entries_def)
  then show ?thesis
    using vmm_free_pml4_releases [OF small_vm_ok, of "0x1000"] by (simp add: small_vm_frames)
qed

text \<open>An address space in which every entry at every level is present, writable and open to user
  mode, for the examples.\<close>

definition open_vm :: vm where
  "open_vm = small_vm\<lparr>tables := (\<lambda>_ _. 7)\<rparr>"

lemma open_vm_accessible: "page_user_accessible open_vm p va wr"
  by (simp add: page_user_accessible_def Let_def open_vm_def has_def VMM_FLAG_PRESENT_def
      VMM_FLAG_WRITE_def VMM_FLAG_USER_def VMM_FLAG_HUGE_def)

text \<open>C10: \<open>user_ptr_ok\<close> always returns, and for a non-empty range it says yes exactly when the
  range does not wrap around and every single byte of it lies on a page that user mode may
  read (or write, if asked).\<close>

theorem user_ptr_ok_correct:
  assumes "default_pml4 s cur = Some p" "0 < len"
  shows "user_ptr_ok s cur start len wr =
    Some (unat start + unat len < 2 ^ 64 \<and>
      (\<forall>x. unat start \<le> x \<and> x < unat start + unat len \<longrightarrow>
         page_user_accessible s p (of_nat x) wr))"
  using user_ptr_ok_bytes [OF assms, of start wr] by (simp add: less_eq_Suc_le)

theorem user_ptr_ok_correct_witness:
  "user_ptr_ok open_vm (Some 0x1000) 0x5FFF 2 True = Some True \<and>
   user_ptr_ok open_vm (Some 0x1000) 0xFFFFFFFFFFFFFFFF 2 True = Some False"
  using user_ptr_ok_correct [of open_vm "Some 0x1000" "0x1000" 2 "0x5FFF" True]
    user_ptr_ok_correct [of open_vm "Some 0x1000" "0x1000" 2 "0xFFFFFFFFFFFFFFFF" True]
  by (simp add: default_pml4_def open_vm_accessible)



end
