(* ===== verification/Pipe.thy ===== *)
theory Pipe
  imports Kernel_Prelude
begin

text \<open>
  Pipes, \<open>src/kernel/pipe.c\<close>: a ring buffer of 4096 bytes with reader and writer counts.

  A pipe is a record with the fields of \<open>pipe_t\<close>; the pipes that exist are a map from
  addresses.  The kernel runs one system call at a time between two calls of \<open>task_yield\<close>, so
  \<open>pipe_read\<close> and \<open>pipe_write\<close> are modelled as the stretches of code between two yields: one
  attempt either returns or asks to be resumed (\<open>Yield\<close>).  The relation \<open>pipe_step\<close> interleaves
  the attempts of any number of pending reads and writes with opening and closing of ends.

  The lemmas show that the ring buffer implements a bounded queue of bytes (locale
  \<open>byte_queue\<close>), that across every interleaving the bytes received are a prefix of the bytes
  accepted, in order, and that a reader and a writer of one pipe are never both stuck.
\<close>

section \<open>State\<close>

abbreviation (input) PIPE_BUF_SIZE :: "'a::numeral" where
  "PIPE_BUF_SIZE \<equiv> 4096"

record pipe =
  pbuf :: "u8 list"
  read_pos :: u32
  write_pos :: u32
  pcount :: u32
  readers :: u32
  writers :: u32

type_synonym pipes = "nat \<rightharpoonup> pipe"

section \<open>Life cycle\<close>

definition zero_pipe :: pipe where
  "zero_pipe = \<lparr>pbuf = replicate PIPE_BUF_SIZE 0, read_pos = 0, write_pos = 0, pcount = 0,
     readers = 0, writers = 0\<rparr>"

text \<open>The argument is the result of \<open>kmalloc\<close>.\<close>

definition pipe_create :: "nat option \<Rightarrow> pipes \<Rightarrow> pipes \<times> nat option" where
  "pipe_create kmalloc_result ps =
     (case kmalloc_result of
        None \<Rightarrow> (ps, None)
      | Some a \<Rightarrow> (ps(a \<mapsto> zero_pipe), Some a))"

definition pipe_add_reader :: "nat option \<Rightarrow> pipes \<Rightarrow> pipes" where
  "pipe_add_reader p ps =
     (case p of
        None \<Rightarrow> ps
      | Some a \<Rightarrow> ps(a := map_option (\<lambda>x. x\<lparr>readers := readers x + 1\<rparr>) (ps a)))"

definition pipe_add_writer :: "nat option \<Rightarrow> pipes \<Rightarrow> pipes" where
  "pipe_add_writer p ps =
     (case p of
        None \<Rightarrow> ps
      | Some a \<Rightarrow> ps(a := map_option (\<lambda>x. x\<lparr>writers := writers x + 1\<rparr>) (ps a)))"

text \<open>\<open>kfree\<close> of the pipe removes it from the map.\<close>

definition pipe_maybe_free :: "pipe \<Rightarrow> pipe option" where
  "pipe_maybe_free x = (if readers x = 0 \<and> writers x = 0 then None else Some x)"

definition pipe_close_reader :: "nat option \<Rightarrow> pipes \<Rightarrow> pipes" where
  "pipe_close_reader p ps =
     (case p of
        None \<Rightarrow> ps
      | Some a \<Rightarrow> ps(a := Option.bind (ps a) (\<lambda>x. pipe_maybe_free
          (if 0 < readers x then x\<lparr>readers := readers x - 1\<rparr> else x))))"

definition pipe_close_writer :: "nat option \<Rightarrow> pipes \<Rightarrow> pipes" where
  "pipe_close_writer p ps =
     (case p of
        None \<Rightarrow> ps
      | Some a \<Rightarrow> ps(a := Option.bind (ps a) (\<lambda>x. pipe_maybe_free
          (if 0 < writers x then x\<lparr>writers := writers x - 1\<rparr> else x))))"

section \<open>Reading and writing\<close>

text \<open>The copy loops; each iteration moves one byte and its position.\<close>

fun read_bytes :: "nat \<Rightarrow> pipe \<Rightarrow> u8 list \<times> pipe" where
  "read_bytes 0 p = ([], p)"
| "read_bytes (Suc i) p =
     (let b = pbuf p ! unat (read_pos p);
          (bs, p') = read_bytes i (p\<lparr>read_pos := (read_pos p + 1) mod PIPE_BUF_SIZE\<rparr>)
      in (b # bs, p'))"

fun write_bytes :: "u8 list \<Rightarrow> pipe \<Rightarrow> pipe" where
  "write_bytes [] p = p"
| "write_bytes (b # bs) p =
     write_bytes bs
       (p\<lparr>pbuf := (pbuf p)[unat (write_pos p) := b],
          write_pos := (write_pos p + 1) mod PIPE_BUF_SIZE\<rparr>)"

text \<open>An attempt returns (with the C return value and, for a read, the bytes delivered) or
  yields; a write that yields has \<open>done\<close> bytes behind it.\<close>

datatype attempt = Return int "u8 list" | Yield nat

definition read_attempt :: "pipe \<Rightarrow> u64 \<Rightarrow> attempt \<times> pipe" where
  "read_attempt p n =
     (if n = 0 then (Return 0 [], p)
      else if pcount p = 0 \<and> 0 < writers p then (Yield 0, p)
      else if pcount p = 0 then (Return 0 [], p)
      else let avail = ucast (pcount p); chunk = (if n < avail then n else avail);
               (bs, p') = read_bytes (unat chunk) p
           in (Return (uint chunk) bs, p'\<lparr>pcount := pcount p' - ucast chunk\<rparr>))"

text \<open>The loop of \<open>pipe_write\<close>, entered with \<open>done\<close> bytes already in the pipe.\<close>

lemma free_space_pos: "c \<noteq> 4096 \<Longrightarrow> 0 < unat (4096 - c :: u32)"
  by (simp add: unat_gt_0)

function pipe_write_loop :: "pipe \<Rightarrow> u8 list \<Rightarrow> nat \<Rightarrow> attempt \<times> pipe" where
  "pipe_write_loop p src done =
     (if done < length src
      then if pcount p = PIPE_BUF_SIZE \<and> 0 < readers p then (Yield done, p)
           else if readers p = 0 then (Return (if 0 < done then int done else - 1) [], p)
           else let free_space = unat (PIPE_BUF_SIZE - pcount p);
                    want = length src - done;
                    chunk = (if want < free_space then want else free_space);
                    p' = write_bytes (take chunk (drop done src)) p
                in pipe_write_loop (p'\<lparr>pcount := pcount p' + of_nat chunk\<rparr>) src (done + chunk)
      else (Return (int done) [], p))"
  by pat_completeness auto
termination
proof (relation "measure (\<lambda>(_, src, done). length src - done)")
  fix p :: pipe and src :: "u8 list" and "done" x y z and xa
  assume "done < length src" "\<not> (pcount p = PIPE_BUF_SIZE \<and> 0 < readers p)" "readers p \<noteq> 0"
    "x = unat (PIPE_BUF_SIZE - pcount p)" "y = length src - done" "z = (if y < x then y else x)"
  moreover from this have "0 < x" using free_space_pos [of "pcount p"] by (auto simp: word_neq_0_conv)
  ultimately show "((xa\<lparr>pcount := pcount xa + of_nat z\<rparr>, src, done + z), p, src, done)
      \<in> measure (\<lambda>(_, src, done). length src - done)"
    by auto
qed simp

declare pipe_write_loop.simps [simp del]

definition write_attempt :: "pipe \<Rightarrow> u8 list \<Rightarrow> attempt \<times> pipe" where
  "write_attempt p src =
     (if length src = 0 then (Return 0 [], p)
      else if readers p = 0 then (Return (- 1) [], p)
      else pipe_write_loop p src 0)"

text \<open>The entry points, on a pointer; \<open>None\<close> is an access to a pipe that is not there.\<close>

definition pipe_read :: "pipes \<Rightarrow> nat option \<Rightarrow> u64 \<Rightarrow> (attempt \<times> pipes) option" where
  "pipe_read ps p n =
     (case p of
        None \<Rightarrow> Some (Return 0 [], ps)
      | Some a \<Rightarrow> if n = 0 then Some (Return 0 [], ps)
          else map_option (\<lambda>x. let (r, x') = read_attempt x n in (r, ps(a \<mapsto> x'))) (ps a))"

definition pipe_write :: "pipes \<Rightarrow> nat option \<Rightarrow> u8 list \<Rightarrow> (attempt \<times> pipes) option" where
  "pipe_write ps p src =
     (case p of
        None \<Rightarrow> Some (Return (- 1) [], ps)
      | Some a \<Rightarrow> if length src = 0 then Some (Return 0 [], ps)
          else map_option (\<lambda>x. let (r, x') = write_attempt x src in (r, ps(a \<mapsto> x'))) (ps a))"

section \<open>The ring buffer as a queue\<close>

definition pipe_ok :: "pipe \<Rightarrow> bool" where
  "pipe_ok p \<longleftrightarrow> length (pbuf p) = PIPE_BUF_SIZE \<and> unat (read_pos p) < PIPE_BUF_SIZE \<and>
     unat (pcount p) \<le> PIPE_BUF_SIZE \<and>
     unat (write_pos p) = (unat (read_pos p) + unat (pcount p)) mod PIPE_BUF_SIZE"

text \<open>\<open>n\<close> bytes of the ring from position \<open>r\<close> on.\<close>

definition ring :: "u8 list \<Rightarrow> nat \<Rightarrow> nat \<Rightarrow> u8 list" where
  "ring b r n = map (\<lambda>i. b ! ((r + i) mod PIPE_BUF_SIZE)) [0..<n]"

definition contents :: "pipe \<Rightarrow> u8 list" where
  "contents p = ring (pbuf p) (unat (read_pos p)) (unat (pcount p))"

lemma length_contents [simp]: "length (contents p) = unat (pcount p)"
  by (simp add: contents_def ring_def)

lemma ring_Suc: "ring b r (Suc n) = b ! (r mod 4096) # ring b ((r + 1) mod 4096) n"
proof -
  have "map (\<lambda>i. b ! ((r + i) mod 4096)) [Suc 0..<Suc n] = ring b ((r + 1) mod 4096) n"
    unfolding ring_def map_Suc_upt [symmetric] by (simp add: mod_simps)
  then show ?thesis by (simp add: ring_def upt_conv_Cons del: upt_Suc)
qed

lemma ring_add: "ring b r (m + n) = ring b r m @ ring b ((r + m) mod 4096) n"
  by (induction m arbitrary: r) (simp_all add: ring_Suc mod_simps ac_simps, simp add: ring_def mod_simps)

lemma ring_upd_outside:
  assumes "length b = 4096" "n < 4096" "w = (r + n) mod 4096" "r < 4096"
  shows "ring (b[w := x]) r n = ring b r n"
proof -
  have "(r + i) mod 4096 \<noteq> w" if "i < n" for i
    using that assms by (auto simp: mod_if split: if_splits)
  then have "b[w := x] ! ((r + i) mod 4096) = b ! ((r + i) mod 4096)" if "i < n" for i
    using that by (metis nth_list_update_neq)
  then show ?thesis by (simp add: ring_def)
qed

lemma unat_next_pos: "unat (p :: u32) < 4096 \<Longrightarrow> unat ((p + 1) mod 4096) = (unat p + 1) mod 4096"
  by (subst unat_mod_distrib, subst unat_plus_no_wrap) simp_all

lemma read_bytes_ring:
  assumes "unat (read_pos p) < 4096"
  shows "read_bytes n p =
    (ring (pbuf p) (unat (read_pos p)) n, p\<lparr>read_pos := of_nat ((unat (read_pos p) + n) mod 4096)\<rparr>)"
  using assms
proof (induction n arbitrary: p)
  case 0
  then show ?case by (simp add: ring_def)
next
  case (Suc n)
  let ?p = "p\<lparr>read_pos := (read_pos p + 1) mod PIPE_BUF_SIZE\<rparr>"
  have pos: "unat (read_pos ?p) = (unat (read_pos p) + 1) mod 4096"
    using unat_next_pos [OF Suc.prems] by simp
  then have "read_bytes n ?p =
      (ring (pbuf p) ((unat (read_pos p) + 1) mod 4096) n,
       ?p\<lparr>read_pos := of_nat (((unat (read_pos p) + 1) mod 4096 + n) mod 4096)\<rparr>)"
    using Suc.IH [of ?p] by simp
  then show ?case
    using Suc.prems by (simp add: ring_Suc Let_def mod_simps)
qed

text \<open>Writing \<open>k\<close> bytes behind \<open>n\<close> bytes already there, if they fit.\<close>

lemma write_bytes_ring:
  assumes "length (pbuf p) = 4096" "r < 4096" "unat (write_pos p) = (r + n) mod 4096"
    and "n + length bs \<le> 4096"
  shows "ring (pbuf (write_bytes bs p)) r (n + length bs) = ring (pbuf p) r n @ bs \<and>
    length (pbuf (write_bytes bs p)) = 4096 \<and>
    unat (write_pos (write_bytes bs p)) = (r + n + length bs) mod 4096 \<and>
    read_pos (write_bytes bs p) = read_pos p \<and> pcount (write_bytes bs p) = pcount p \<and>
    readers (write_bytes bs p) = readers p \<and> writers (write_bytes bs p) = writers p"
  using assms
proof (induction bs arbitrary: p n)
  case (Cons b bs)
  let ?w = "unat (write_pos p)"
  let ?p = "p\<lparr>pbuf := (pbuf p)[?w := b], write_pos := (write_pos p + 1) mod PIPE_BUF_SIZE\<rparr>"
  have w: "?w < 4096" using Cons.prems by simp
  have pos: "unat (write_pos ?p) = (r + Suc n) mod 4096"
    using unat_next_pos [OF w] Cons.prems(3) by (simp add: mod_simps)
  have "ring ((pbuf p)[?w := b]) r (Suc n) = ring (pbuf p) r n @ [b]"
    using Cons.prems ring_upd_outside [of "pbuf p" n ?w r b] ring_add [of "(pbuf p)[?w := b]" r n 1] w
    by (simp add: ring_def)
  moreover have "ring (pbuf (write_bytes bs ?p)) r (Suc n + length bs) =
      ring (pbuf ?p) r (Suc n) @ bs \<and>
    length (pbuf (write_bytes bs ?p)) = 4096 \<and>
    unat (write_pos (write_bytes bs ?p)) = (r + Suc n + length bs) mod 4096 \<and>
    read_pos (write_bytes bs ?p) = read_pos ?p \<and> pcount (write_bytes bs ?p) = pcount ?p \<and>
    readers (write_bytes bs ?p) = readers ?p \<and> writers (write_bytes bs ?p) = writers ?p"
    by (rule Cons.IH) (use Cons.prems pos in auto)
  ultimately show ?case by simp
qed auto

text \<open>The two loops followed by the update of the count: the operations of the queue.\<close>

definition ring_put :: "u8 list \<Rightarrow> pipe \<Rightarrow> pipe" where
  "ring_put bs p = (let p' = write_bytes bs p in p'\<lparr>pcount := pcount p' + of_nat (length bs)\<rparr>)"

definition ring_get :: "nat \<Rightarrow> pipe \<Rightarrow> u8 list \<times> pipe" where
  "ring_get n p = (let (bs, p') = read_bytes n p in (bs, p'\<lparr>pcount := pcount p' - of_nat n\<rparr>))"

lemma ring_put_queue:
  assumes "pipe_ok p" "length (contents p) + length bs \<le> 4096"
  shows "pipe_ok (ring_put bs p)" "contents (ring_put bs p) = contents p @ bs"
    "readers (ring_put bs p) = readers p" "writers (ring_put bs p) = writers p"
    "unat (pcount (ring_put bs p)) = unat (pcount p) + length bs"
proof -
  note w = write_bytes_ring [of p "unat (read_pos p)" "unat (pcount p)" bs]
  have "unat (pcount p + of_nat (length bs)) = unat (pcount p) + length bs"
    using assms by (subst unat_plus_no_wrap) (auto simp: unat_of_nat)
  with assms w show "pipe_ok (ring_put bs p)" "contents (ring_put bs p) = contents p @ bs"
    "readers (ring_put bs p) = readers p" "writers (ring_put bs p) = writers p"
    "unat (pcount (ring_put bs p)) = unat (pcount p) + length bs"
    by (auto simp: pipe_ok_def ring_put_def Let_def contents_def ac_simps ring_def)
qed

lemma ring_get_queue:
  assumes "pipe_ok p" "n \<le> length (contents p)"
  shows "pipe_ok (snd (ring_get n p))" "fst (ring_get n p) = take n (contents p)"
    "contents (snd (ring_get n p)) = drop n (contents p)"
    "readers (snd (ring_get n p)) = readers p" "writers (snd (ring_get n p)) = writers p"
proof -
  let ?r = "unat (read_pos p)" and ?c = "unat (pcount p)"
  have n: "n \<le> ?c" "?c \<le> 4096" "?r < 4096" using assms by (auto simp: pipe_ok_def)
  have split: "contents p = ring (pbuf p) ?r n @ ring (pbuf p) ((?r + n) mod 4096) (?c - n)"
    using ring_add [of "pbuf p" ?r n "?c - n"] n by (simp add: contents_def)
  have len: "length (ring (pbuf p) ?r n) = n" by (simp add: ring_def)
  have cnt: "unat (pcount p - of_nat n) = ?c - n"
    using n by (subst unat_minus_no_wrap) (auto simp: unat_of_nat)
  have pos: "unat (of_nat ((?r + n) mod 4096) :: u32) = (?r + n) mod 4096"
    by (simp add: unat_of_nat)
  note rb = read_bytes_ring [OF n(3), of n]
  show "fst (ring_get n p) = take n (contents p)"
    unfolding split using len by (simp add: ring_get_def rb)
  show "contents (snd (ring_get n p)) = drop n (contents p)"
    unfolding split using len cnt pos by (simp add: ring_get_def rb contents_def)
  have "((?r + n) mod 4096 + (?c - n)) mod 4096 = (?r + ?c) mod 4096"
    using n by (subst mod_add_left_eq) simp
  with assms(1) cnt pos n show "pipe_ok (snd (ring_get n p))"
    by (simp add: ring_get_def rb pipe_ok_def)
  show "readers (snd (ring_get n p)) = readers p" "writers (snd (ring_get n p)) = writers p"
    by (simp_all add: ring_get_def rb)
qed

text \<open>A bounded queue of bytes and what its users can rely on.\<close>

locale byte_queue =
  fixes ok :: "'q \<Rightarrow> bool"
    and items :: "'q \<Rightarrow> u8 list"
    and put :: "u8 list \<Rightarrow> 'q \<Rightarrow> 'q"
    and get :: "nat \<Rightarrow> 'q \<Rightarrow> u8 list \<times> 'q"
    and cap :: nat
  assumes items_cap: "ok q \<Longrightarrow> length (items q) \<le> cap"
    and put_ok: "ok q \<Longrightarrow> length (items q) + length bs \<le> cap \<Longrightarrow> ok (put bs q)"
    and put_items: "ok q \<Longrightarrow> length (items q) + length bs \<le> cap \<Longrightarrow> items (put bs q) = items q @ bs"
    and get_ok: "ok q \<Longrightarrow> n \<le> length (items q) \<Longrightarrow> ok (snd (get n q))"
    and get_fst: "ok q \<Longrightarrow> n \<le> length (items q) \<Longrightarrow> fst (get n q) = take n (items q)"
    and get_snd: "ok q \<Longrightarrow> n \<le> length (items q) \<Longrightarrow> items (snd (get n q)) = drop n (items q)"
begin

lemma get_put:
  assumes "ok q" "items q = []" "length bs \<le> cap"
  shows "fst (get (length bs) (put bs q)) = bs"
  using assms put_ok [of q bs] put_items [of q bs] by (simp add: get_fst)

lemma get_get:
  assumes "ok q" "m + n \<le> length (items q)"
  shows "fst (get m q) @ fst (get n (snd (get m q))) = fst (get (m + n) q)"
  using assms get_ok [of q m] get_snd [of q m] by (simp add: get_fst take_add)

text \<open>One producer step followed by one consumer step moves a prefix of the stream.\<close>

lemma stream_step:
  assumes "ok q" "length (items q) + length bs \<le> cap" "n \<le> length (items q) + length bs"
  shows "fst (get n (put bs q)) @ items (snd (get n (put bs q))) = items q @ bs"
  using assms put_ok [of q bs] put_items [of q bs] get_snd [of "put bs q" n]
  by (simp add: get_fst del: take_append drop_append)

end

interpretation pipe_queue: byte_queue pipe_ok contents ring_put ring_get PIPE_BUF_SIZE
  by (unfold_locales, simp add: pipe_ok_def) (auto simp: ring_put_queue ring_get_queue)

section \<open>Attempts on the queue\<close>

lemma read_attempt_queue:
  assumes "pipe_ok p"
  shows "read_attempt p n =
    (if n = 0 then (Return 0 [], p)
     else if contents p = [] \<and> 0 < writers p then (Yield 0, p)
     else let m = min (unat n) (length (contents p))
          in (Return (int m) (take m (contents p)), if m = 0 then p else snd (ring_get m p)))"
proof (cases "pcount p = 0")
  case True
  then have "contents p = []" by (simp add: contents_def ring_def)
  with True show ?thesis by (simp add: read_attempt_def)
next
  case False
  then have ne: "contents p \<noteq> []" by (simp add: unat_gt_0 flip: length_greater_0_conv)
  define c where "c = (if n < ucast (pcount p) then n else ucast (pcount p))"
  have u: "unat (ucast (pcount p) :: u64) = unat (pcount p)"
    using unsigned_less [of "pcount p", where 'a = nat]
    by (simp add: unsigned_ucast_eq take_bit_nat_eq_self)
  then have c: "unat c = min (unat n) (length (contents p))"
    by (auto simp: c_def word_less_nat_alt)
  have uc: "(ucast c :: u32) = of_nat (unat c)" by simp
  have "uint c = int (unat c)" by simp
  with c uc have "read_attempt p n =
     (if n = 0 then (Return 0 [], p)
      else (Return (int (unat c)) (fst (ring_get (unat c) p)), snd (ring_get (unat c) p)))"
    using False by (simp add: read_attempt_def Let_def c_def [symmetric] ring_get_def split_beta)
  moreover have "fst (ring_get (unat c) p) = take (unat c) (contents p)"
    using assms c by (simp add: ring_get_queue)
  moreover have "n \<noteq> 0 \<Longrightarrow> unat c \<noteq> 0"
    using False by (simp add: c min_def unat_gt_0)
  ultimately show ?thesis using ne unfolding c [symmetric] Let_def
    by (cases "n = 0") simp_all
qed

lemma ring_put_Nil [simp]: "ring_put [] p = p"
  by (simp add: ring_put_def)

lemma pipe_write_loop_done: "\<not> done < length src \<Longrightarrow> pipe_write_loop p src done = (Return (int done) [], p)"
  by (subst pipe_write_loop.simps) simp

lemma pipe_write_loop_broken:
  "done < length src \<Longrightarrow> readers p = 0 \<Longrightarrow>
   pipe_write_loop p src done = (Return (if 0 < done then int done else - 1) [], p)"
  by (subst pipe_write_loop.simps) simp

lemma pipe_write_loop_full:
  "done < length src \<Longrightarrow> pcount p = 4096 \<Longrightarrow> readers p \<noteq> 0 \<Longrightarrow>
   pipe_write_loop p src done = (Yield done, p)"
  by (subst pipe_write_loop.simps) (simp add: word_neq_0_conv)

lemma pipe_write_loop_queue:
  fixes p src "done"
  defines "m \<equiv> min (length src - done) (4096 - length (contents p))"
  assumes "pipe_ok p" "readers p \<noteq> 0" "done \<le> length src"
  shows "pipe_write_loop p src done =
    (if done + m = length src then Return (int (length src)) [] else Yield (done + m),
     ring_put (take m (drop done src)) p)"
proof (cases "done < length src \<and> pcount p \<noteq> 4096")
  case True
  have cnt: "unat (pcount p) \<le> 4096" using assms(2) by (simp add: pipe_ok_def)
  have space: "unat (4096 - pcount p) = 4096 - unat (pcount p)"
    using cnt by (subst unat_minus_no_wrap) auto
  let ?p = "ring_put (take m (drop done src)) p"
  have len: "min (length src - done) m = m" by (simp add: m_def)
  have room: "length (contents p) + length (take m (drop done src)) \<le> 4096"
    using cnt by (simp add: m_def)
  note put = ring_put_queue [OF assms(2) room]
  have "(if length src - done < unat (4096 - pcount p) then length src - done
      else unat (4096 - pcount p)) = m"
    by (simp add: space m_def)
  then have "pipe_write_loop p src done = pipe_write_loop ?p src (done + m)"
    using True assms(3) by (subst pipe_write_loop.simps) (simp add: Let_def ring_put_def len)
  moreover have "pcount ?p = 4096" if "done + m \<noteq> length src"
  proof -
    have "m = 4096 - length (contents p)" using that assms(4) by (auto simp: m_def min_def)
    with put(5) len cnt have "unat (pcount ?p) = unat (4096 :: u32)" by simp
    then show ?thesis by (rule word_eq_unatI)
  qed
  moreover have "done + m \<le> length src" using assms(4) by (simp add: m_def)
  ultimately show ?thesis
    using put(3) assms(3) pipe_write_loop_done [of "done + m" src ?p]
      pipe_write_loop_full [of "done + m" src ?p]
    by (auto simp: le_less)
next
  case False
  then consider "done = length src" | "done < length src" "pcount p = 4096"
    using assms(4) by (auto simp: le_less)
  then show ?thesis
  proof cases
    case 1
    then show ?thesis by (simp add: pipe_write_loop_done m_def)
  next
    case 2
    then have "m = 0" by (simp add: m_def)
    with 2 assms(3) show ?thesis by (simp add: pipe_write_loop_full)
  qed
qed

lemma write_attempt_loop: "write_attempt p src = pipe_write_loop p src 0"
  by (simp add: write_attempt_def pipe_write_loop_done pipe_write_loop_broken)

section \<open>Interleavings\<close>

text \<open>Pending system calls: a read of \<open>n\<close> bytes, a write of \<open>src\<close> of which \<open>done\<close> bytes are
  in the pipe.  \<open>sent\<close> and \<open>received\<close> record the bytes accepted from writers and handed to
  readers.\<close>

datatype pipe_op = Rd u64 | Wr "u8 list" nat

record pipe_sys =
  spipe :: pipe
  pending :: "pipe_op list"
  sent :: "u8 list"
  received :: "u8 list"

definition progress :: "attempt \<Rightarrow> nat" where
  "progress r = (case r of Yield k \<Rightarrow> k | Return i bs \<Rightarrow> nat i)"

definition accepted :: "attempt \<Rightarrow> u8 list \<Rightarrow> nat \<Rightarrow> u8 list" where
  "accepted r src done = take (progress r - done) (drop done src)"

inductive pipe_step :: "pipe_sys \<Rightarrow> pipe_sys \<Rightarrow> bool" where
  start_read: "pipe_step s (s\<lparr>pending := pending s @ [Rd n]\<rparr>)"
| start_write: "pipe_step s (s\<lparr>pending := pending s @ [Wr src 0]\<rparr>)"
| read_return: "pending s = xs @ Rd n # ys \<Longrightarrow> read_attempt (spipe s) n = (Return r bs, p') \<Longrightarrow>
    pipe_step s (s\<lparr>spipe := p', pending := xs @ ys, received := received s @ bs\<rparr>)"
| read_yield: "pending s = xs @ Rd n # ys \<Longrightarrow> read_attempt (spipe s) n = (Yield k, p') \<Longrightarrow>
    pipe_step s (s\<lparr>spipe := p'\<rparr>)"
| write_return: "pending s = xs @ Wr src done # ys \<Longrightarrow>
    pipe_write_loop (spipe s) src done = (Return r bs, p') \<Longrightarrow>
    pipe_step s (s\<lparr>spipe := p', pending := xs @ ys,
                   sent := sent s @ accepted (Return r bs) src done\<rparr>)"
| write_yield: "pending s = xs @ Wr src done # ys \<Longrightarrow>
    pipe_write_loop (spipe s) src done = (Yield k, p') \<Longrightarrow>
    pipe_step s (s\<lparr>spipe := p', pending := xs @ Wr src k # ys,
                   sent := sent s @ accepted (Yield k) src done\<rparr>)"
| ends: "pipe_step s (s\<lparr>spipe := (spipe s)\<lparr>readers := r, writers := w\<rparr>\<rparr>)"

definition pipe_start :: pipe_sys where
  "pipe_start = \<lparr>spipe = zero_pipe, pending = [], sent = [], received = []\<rparr>"

definition op_ok :: "pipe_op \<Rightarrow> bool" where
  "op_ok op = (case op of Rd n \<Rightarrow> True | Wr src done \<Rightarrow> done \<le> length src)"

definition sys_ok :: "pipe_sys \<Rightarrow> bool" where
  "sys_ok s \<longleftrightarrow> pipe_ok (spipe s) \<and> list_all op_ok (pending s) \<and>
     sent s = received s @ contents (spipe s)"

lemma zero_pipe_ok: "pipe_ok zero_pipe"
  by (simp add: pipe_ok_def zero_pipe_def)

lemma contents_zero_pipe [simp]: "contents zero_pipe = []"
  by (simp add: contents_def zero_pipe_def ring_def)

lemma ends_ok [simp]:
  "pipe_ok (p\<lparr>readers := r, writers := w\<rparr>) = pipe_ok p"
  "contents (p\<lparr>readers := r, writers := w\<rparr>) = contents p"
  by (simp_all add: pipe_ok_def contents_def)

lemma read_attempt_stream:
  assumes "pipe_ok p" "read_attempt p n = (r, p')"
  shows "pipe_ok p' \<and> contents p = (case r of Return i bs \<Rightarrow> bs | Yield k \<Rightarrow> []) @ contents p'"
  using assms by (auto simp: read_attempt_queue Let_def ring_get_queue split: if_splits)

lemma write_loop_stream:
  assumes "pipe_ok p" "done \<le> length src" "pipe_write_loop p src done = (r, p')"
  shows "pipe_ok p' \<and> contents p' = contents p @ accepted r src done \<and>
    (case r of Yield k \<Rightarrow> k < length src | Return i bs \<Rightarrow> True)"
proof (cases "readers p = 0")
  case True
  with assms show ?thesis
    by (cases "done < length src")
       (auto simp: pipe_write_loop_done pipe_write_loop_broken accepted_def progress_def)
next
  case False
  let ?m = "min (length src - done) (4096 - length (contents p))"
  have room: "length (contents p) + length (take ?m (drop done src)) \<le> 4096"
    using pipe_queue.items_cap [OF assms(1)] by (auto simp: min_def)
  note put = ring_put_queue [OF assms(1) room]
  have "accepted r src done = take ?m (drop done src)"
    using assms(2,3) pipe_write_loop_queue [OF assms(1) False assms(2)]
    by (auto simp: accepted_def progress_def split: if_splits)
  with put assms(2,3) pipe_write_loop_queue [OF assms(1) False assms(2)] show ?thesis
    by (auto split: if_splits)
qed

lemma pipe_step_ok:
  assumes "pipe_step s s'" "sys_ok s"
  shows "sys_ok s'"
  using assms
proof (induction rule: pipe_step.induct)
  case (read_return s xs n ys r bs p')
  then show ?case using read_attempt_stream [of "spipe s" n] by (auto simp: sys_ok_def)
next
  case (read_yield s xs n ys k p')
  then show ?case using read_attempt_stream [of "spipe s" n] by (auto simp: sys_ok_def)
next
  case (write_return s xs src "done" ys r bs p')
  then show ?case using write_loop_stream [of "spipe s" "done" src] by (auto simp: sys_ok_def op_ok_def)
next
  case (write_yield s xs src "done" ys k p')
  then show ?case using write_loop_stream [of "spipe s" "done" src] by (fastforce simp: sys_ok_def op_ok_def)
qed (auto simp: sys_ok_def op_ok_def)

lemma pipe_reachable_ok: "pipe_step\<^sup>*\<^sup>* pipe_start s \<Longrightarrow> sys_ok s"
proof (induction rule: rtranclp_induct)
  case base
  show ?case by (simp add: sys_ok_def pipe_start_def zero_pipe_ok)
qed (rule pipe_step_ok)

section \<open>Properties\<close>

text \<open>A pipe with one reader and one writer, for the examples.\<close>

definition open_pipe :: pipe where
  "open_pipe = zero_pipe\<lparr>readers := 1, writers := 1\<rparr>"

lemma open_pipe_ok: "pipe_ok open_pipe" "contents open_pipe = []" "readers open_pipe = 1" "writers open_pipe = 1"
  by (simp_all add: open_pipe_def zero_pipe_ok)

text \<open>C12: a pipe is a FIFO: in every interleaving of reads, writes and changes of the ends,
  however the calls are cut up by yields, the bytes handed to readers followed by the bytes
  still buffered are exactly the bytes accepted from writers, in order.\<close>

theorem pipe_fifo:
  assumes "pipe_step\<^sup>*\<^sup>* pipe_start s"
  shows "sent s = received s @ contents (spipe s) \<and> length (contents (spipe s)) \<le> 4096"
  using pipe_reachable_ok [OF assms] pipe_queue.items_cap by (auto simp: sys_ok_def)

theorem pipe_fifo_witness:
  "\<exists>s. pipe_step\<^sup>*\<^sup>* pipe_start s \<and> sent s = [7, 8] \<and> sent s = received s @ contents (spipe s)"
proof -
  let ?s1 = "pipe_start\<lparr>spipe := open_pipe\<rparr>"
  let ?s2 = "?s1\<lparr>pending := [Wr [7, 8] 0]\<rparr>"
  let ?s3 = "?s2\<lparr>spipe := ring_put [7, 8] open_pipe, pending := [],
                 sent := accepted (Return 2 []) [7, 8] 0\<rparr>"
  have s1: "pipe_step pipe_start ?s1"
    using ends [of pipe_start 1 1] by (simp add: open_pipe_def pipe_start_def)
  have s2: "pipe_step ?s1 ?s2"
    using start_write [of ?s1 "[7, 8]"] by (simp add: pipe_start_def)
  have "pipe_write_loop open_pipe [7, 8] 0 = (Return 2 [], ring_put [7, 8] open_pipe)"
    using pipe_write_loop_queue [of open_pipe 0 "[7, 8]"] open_pipe_ok by simp
  then have s3: "pipe_step ?s2 ?s3"
    using write_return [of ?s2 "[]" "[7, 8]" 0 "[]" 2 "[]" "ring_put [7, 8] open_pipe"]
    by (simp add: pipe_start_def)
  from s1 s2 s3 have reach: "pipe_step\<^sup>*\<^sup>* pipe_start ?s3"
    by (meson r_into_rtranclp rtranclp_trans)
  moreover have "sent ?s3 = [7, 8]" by (simp add: accepted_def progress_def)
  ultimately show ?thesis using pipe_fifo [OF reach] by blast
qed

text \<open>One \<open>pipe_read\<close> of \<open>n > 0\<close> bytes returns the first \<open>min n count\<close> buffered bytes and
  removes exactly those; with an empty buffer it waits while there is a writer and reports end
  of file (0) otherwise.  The invariant is kept.\<close>

lemma pipe_read_correct:
  assumes "ps a = Some p" "pipe_ok p" "0 < n"
  shows "\<exists>r p'. pipe_read ps (Some a) n = Some (r, ps(a \<mapsto> p')) \<and> pipe_ok p' \<and>
    (if contents p = [] then p' = p \<and> r = (if 0 < writers p then Yield 0 else Return 0 [])
     else let m = min (unat n) (length (contents p))
          in r = Return (int m) (take m (contents p)) \<and> 0 < m \<and> contents p' = drop m (contents p))"
proof -
  have n: "n \<noteq> 0" "unat n \<noteq> 0" using assms(3) by (auto simp: unat_eq_zero)
  define m where "m = min (unat n) (length (contents p))"
  have le: "m \<le> length (contents p)" by (simp add: m_def)
  show ?thesis
  proof (cases "contents p = []")
    case True
    then show ?thesis using assms n by (auto simp: pipe_read_def read_attempt_queue Let_def)
  next
    case False
    then have m: "m \<noteq> 0" using n by (simp add: m_def min_def flip: length_greater_0_conv)
    have "pipe_read ps (Some a) n =
        Some (Return (int m) (take m (contents p)), ps(a \<mapsto> snd (ring_get m p)))"
      using assms(1,2) n False m
      by (simp add: pipe_read_def read_attempt_queue Let_def del: length_contents flip: m_def)
    with m False show ?thesis
      unfolding m_def [symmetric] Let_def using ring_get_queue [OF assms(2) le] by auto
  qed
qed

text \<open>C23: readers and writers of one pipe are never stuck together: when a read has to wait, a
  pending write of the same pipe accepts at least one byte; when a write has to wait, a read
  delivers at least one byte; and with the other end closed neither waits.\<close>

theorem pipe_no_deadlock:
  assumes "pipe_ok p" "0 < n" "done < length src"
  shows "(fst (read_attempt p n) = Yield 0 \<and> readers p \<noteq> 0 \<longrightarrow>
       accepted (fst (pipe_write_loop p src done)) src done \<noteq> []) \<and>
    ((\<exists>k. fst (pipe_write_loop p src done) = Yield k \<and> accepted (Yield k) src done = []) \<longrightarrow>
       (\<exists>i bs. fst (read_attempt p n) = Return i bs \<and> bs \<noteq> [])) \<and>
    (writers p = 0 \<longrightarrow> (\<exists>i bs. fst (read_attempt p n) = Return i bs)) \<and>
    (readers p = 0 \<longrightarrow> (\<exists>i bs. fst (pipe_write_loop p src done) = Return i bs))"
proof (intro conjI impI)
  have n: "n \<noteq> 0" "unat n \<noteq> 0" using assms(2) by (auto simp: unat_eq_zero)
  let ?m = "min (length src - done) (4096 - length (contents p))"
  have acc: "accepted (fst (pipe_write_loop p src done)) src done = take ?m (drop done src)"
    if "readers p \<noteq> 0"
    using pipe_write_loop_queue [OF assms(1) that, of "done" src] assms(3)
    by (auto simp: accepted_def progress_def)
  show "accepted (fst (pipe_write_loop p src done)) src done \<noteq> []"
    if "fst (read_attempt p n) = Yield 0 \<and> readers p \<noteq> 0"
    using that acc assms n
    by (auto simp: read_attempt_queue Let_def simp del: length_contents split: if_splits)
  show "\<exists>i bs. fst (read_attempt p n) = Return i bs \<and> bs \<noteq> []"
    if ex: "\<exists>k. fst (pipe_write_loop p src done) = Yield k \<and> accepted (Yield k) src done = []"
  proof -
    have "readers p \<noteq> 0" using ex assms(3) by (auto simp: pipe_write_loop_broken)
    with ex acc have "take ?m (drop done src) = []" by auto
    then have "contents p \<noteq> []" using assms(3) by (auto simp del: length_contents)
    with n assms(1) show ?thesis by (auto simp: read_attempt_queue Let_def simp del: length_contents)
  qed
  show "\<exists>i bs. fst (read_attempt p n) = Return i bs" if "writers p = 0"
    using that n assms(1) by (auto simp: read_attempt_queue Let_def)
  show "\<exists>i bs. fst (pipe_write_loop p src done) = Return i bs" if "readers p = 0"
    using that assms(3) by (simp add: pipe_write_loop_broken)
qed

theorem pipe_no_deadlock_witness:
  "fst (read_attempt open_pipe 1) = Yield 0 \<and>
   accepted (fst (pipe_write_loop open_pipe [7] 0)) [7] 0 \<noteq> []"
  using pipe_no_deadlock [of open_pipe 1 0 "[7]"] open_pipe_ok
  by (simp add: read_attempt_queue)

end
