(* ===== verification/Vfs.thy ===== *)
theory Vfs
  imports Kernel_Prelude
begin

text \<open>
  The virtual file system, \<open>src/fs/vfs.c\<close>: the mount table, the choice of the mount that serves
  a path, the walk along the path's components, and the operations on paths.

  Strings are NUL-free character lists (the C string routines are in theory \<open>Cstring\<close>).  A file
  system is a state \<open>'s\<close> with nodes \<open>'n\<close>; the table of operations a node points to is given by
  \<open>ops_of\<close>, a missing table or a missing entry being \<open>None\<close>.  Operations may change the state of
  the file system, lookups included, since they allocate nodes.

  The lemmas show that the walk is the fold of the directory lookup over the non-empty
  components, that the longest mount point wins, and that a fresh mount is found again.
\<close>

section \<open>State\<close>

abbreviation (input) VFS_FILE :: u32 where "VFS_FILE \<equiv> 1"
abbreviation (input) VFS_DIR :: u32 where "VFS_DIR \<equiv> 2"
abbreviation (input) VFS_MAX_NAME :: nat where "VFS_MAX_NAME \<equiv> 64"
abbreviation (input) VFS_MAX_PATH :: nat where "VFS_MAX_PATH \<equiv> 256"
abbreviation (input) MAX_MOUNTS :: nat where "MAX_MOUNTS \<equiv> 8"

abbreviation (input) slash :: char where "slash \<equiv> CHR 0x2F"

record vfs_stat_t =
  st_inode :: u32
  st_type :: u32
  st_size :: u32

text \<open>The operation tables.  Results carry the C return value; \<open>open\<close> and \<open>close\<close> have no caller.\<close>

record ('s, 'n) vfs_ops =
  op_read :: "('n \<Rightarrow> u64 \<Rightarrow> int \<Rightarrow> 's \<Rightarrow> 's \<times> int \<times> u8 list) option"
  op_write :: "('n \<Rightarrow> u8 list \<Rightarrow> int \<Rightarrow> 's \<Rightarrow> 's \<times> int) option"
  op_readdir :: "('n \<Rightarrow> u32 \<Rightarrow> 's \<Rightarrow> 's \<times> int \<times> string \<times> u32) option"
  op_finddir :: "('n \<Rightarrow> string \<Rightarrow> 's \<Rightarrow> 's \<times> 'n option) option"
  op_create :: "('n \<Rightarrow> string \<Rightarrow> u32 \<Rightarrow> 's \<Rightarrow> 's \<times> int) option"
  op_unlink :: "('n \<Rightarrow> string \<Rightarrow> 's \<Rightarrow> 's \<times> int) option"
  op_stat :: "('n \<Rightarrow> 's \<Rightarrow> 's \<times> int \<times> vfs_stat_t) option"
  op_mkdir :: "('n \<Rightarrow> string \<Rightarrow> 's \<Rightarrow> 's \<times> int) option"

text \<open>A mount; the pointer to the operations stored in it is never read and is left out.\<close>

record ('n, 'd) vfs_mount_t =
  mount_point :: string
  mnt_root :: 'n
  mnt_data :: 'd
  in_use :: bool

type_synonym ('n, 'd) mounts = "('n, 'd) vfs_mount_t list"

section \<open>Mount table\<close>

definition vfs_init :: "('n, 'd) mounts \<Rightarrow> ('n, 'd) mounts" where
  "vfs_init ms = map (\<lambda>m. m\<lparr>mount_point := [], in_use := False\<rparr>) ms"

definition mounted_at :: "string \<Rightarrow> ('n, 'd) vfs_mount_t \<Rightarrow> bool" where
  "mounted_at path m \<longleftrightarrow> in_use m \<and> mount_point m = path"

definition detach :: "string \<Rightarrow> ('n, 'd) mounts \<Rightarrow> ('n, 'd) mounts" where
  "detach path = map (\<lambda>m. if mounted_at path m then m\<lparr>in_use := False\<rparr> else m)"

text \<open>The first free slot takes the mount; \<open>set_mount i\<close> stores the slot in the root node.\<close>

fun mount_loop ::
  "(nat \<Rightarrow> 'n \<Rightarrow> 'n) \<Rightarrow> string \<Rightarrow> 'n \<Rightarrow> 'd \<Rightarrow> nat \<Rightarrow> ('n, 'd) mounts \<Rightarrow> ('n, 'd) mounts \<times> int" where
  "mount_loop set_mount path root d i [] = ([], - 1)"
| "mount_loop set_mount path root d i (m # ms) =
     (if \<not> in_use m
      then (m\<lparr>mount_point := take (VFS_MAX_PATH - 1) path, mnt_root := set_mount i root,
              mnt_data := d, in_use := True\<rparr> # ms, 0)
      else let (ms', rc) = mount_loop set_mount path root d (i + 1) ms in (m # ms', rc))"

definition vfs_mount ::
  "(nat \<Rightarrow> 'n \<Rightarrow> 'n) \<Rightarrow> string \<Rightarrow> 'n \<Rightarrow> 'd \<Rightarrow> ('n, 'd) mounts \<Rightarrow> ('n, 'd) mounts \<times> int" where
  "vfs_mount set_mount path root d ms = mount_loop set_mount path root d 0 (detach path ms)"

fun vfs_umount :: "string \<Rightarrow> ('n, 'd) mounts \<Rightarrow> ('n, 'd) mounts \<times> int" where
  "vfs_umount path [] = ([], - 1)"
| "vfs_umount path (m # ms) =
     (if mounted_at path m then (m\<lparr>in_use := False\<rparr> # ms, 0)
      else let (ms', rc) = vfs_umount path ms in (m # ms', rc))"

text \<open>\<open>path[i]\<close>, the terminator included.\<close>

definition char_at :: "string \<Rightarrow> nat \<Rightarrow> char" where
  "char_at path i = (if i < length path then path ! i else CHR 0x00)"

definition mount_matches :: "string \<Rightarrow> ('n, 'd) vfs_mount_t \<Rightarrow> bool" where
  "mount_matches path m \<longleftrightarrow>
     (let mlen = length (mount_point m)
      in in_use m \<and> prefix (mount_point m) path \<and>
         (mlen = 1 \<or> char_at path mlen = slash \<or> char_at path mlen = CHR 0x00))"

fun find_mount_loop ::
  "string \<Rightarrow> ('n, 'd) mounts \<Rightarrow> ('n, 'd) vfs_mount_t option \<Rightarrow> nat \<Rightarrow> ('n, 'd) vfs_mount_t option \<times> nat" where
  "find_mount_loop path [] best best_len = (best, best_len)"
| "find_mount_loop path (m # ms) best best_len =
     (if mount_matches path m \<and> best_len < length (mount_point m)
      then find_mount_loop path ms (Some m) (length (mount_point m))
      else find_mount_loop path ms best best_len)"

text \<open>The mount and the remainder of the path, \<open>None\<close> when nothing remains.\<close>

definition find_mount :: "string \<Rightarrow> ('n, 'd) mounts \<Rightarrow> (('n, 'd) vfs_mount_t \<times> string option) option" where
  "find_mount path ms =
     (case find_mount_loop path ms None 0 of
        (None, _) \<Rightarrow> None
      | (Some m, best_len) \<Rightarrow>
          let rem = drop best_len path;
              rem = (if char_at rem 0 = slash then drop 1 rem else rem)
          in Some (m, if char_at rem 0 = CHR 0x00 then None else Some rem))"

section \<open>Resolution\<close>

text \<open>The length of the first component and what follows its slash.\<close>

definition first_component :: "string \<Rightarrow> string" where
  "first_component rem = takeWhile (\<lambda>c. c \<noteq> slash) rem"

definition after_component :: "string \<Rightarrow> string" where
  "after_component rem = drop 1 (dropWhile (\<lambda>c. c \<noteq> slash) rem)"

lemma after_component_shorter: "rem \<noteq> [] \<Longrightarrow> length (after_component rem) < length rem"
  using length_dropWhile_le [of "\<lambda>c. c \<noteq> slash" rem]
  by (cases rem) (auto simp: after_component_def)

function resolve_walk ::
  "('n \<Rightarrow> ('s, 'n) vfs_ops option) \<Rightarrow> 'n \<Rightarrow> string \<Rightarrow> 's \<Rightarrow> 's \<times> 'n option" where
  "resolve_walk ops_of node rem s =
     (if rem = [] then (s, Some node)
      else let component = first_component rem
           in if length component = 0 then resolve_walk ops_of node (after_component rem) s
              else if VFS_MAX_NAME \<le> length component then (s, None)
              else case Option.bind (ops_of node) op_finddir of
                     None \<Rightarrow> (s, None)
                   | Some finddir \<Rightarrow>
                       (case finddir node component s of
                          (s, None) \<Rightarrow> (s, None)
                        | (s, Some node) \<Rightarrow> resolve_walk ops_of node (after_component rem) s))"
  by pat_completeness auto
termination
  by (relation "measure (\<lambda>(_, _, rem, _). length rem)") (auto simp: after_component_shorter)

declare resolve_walk.simps [simp del]

definition vfs_resolve ::
  "('n \<Rightarrow> ('s, 'n) vfs_ops option) \<Rightarrow> ('n, 'd) mounts \<Rightarrow> string \<Rightarrow> 's \<Rightarrow> 's \<times> 'n option" where
  "vfs_resolve ops_of ms path s =
     (case find_mount path ms of
        None \<Rightarrow> (s, None)
      | Some (m, None) \<Rightarrow> (s, Some (mnt_root m))
      | Some (m, Some rem) \<Rightarrow> resolve_walk ops_of (mnt_root m) rem s)"

text \<open>The index of the last slash.\<close>

fun last_slash :: "nat \<Rightarrow> string \<Rightarrow> nat option" where
  "last_slash i [] = None"
| "last_slash i (c # cs) =
     (case last_slash (i + 1) cs of
        Some j \<Rightarrow> Some j
      | None \<Rightarrow> if c = slash then Some i else None)"

definition resolve_parent ::
  "('n \<Rightarrow> ('s, 'n) vfs_ops option) \<Rightarrow> ('n, 'd) mounts \<Rightarrow> string \<Rightarrow> 's \<Rightarrow> 's \<times> 'n option \<times> string" where
  "resolve_parent ops_of ms path s =
     (case last_slash 0 path of
        None \<Rightarrow> (s, None, [])
      | Some plen \<Rightarrow>
          if plen = 0
          then let (s, n) = vfs_resolve ops_of ms [slash] s in (s, n, drop 1 path)
          else if VFS_MAX_PATH \<le> plen then (s, None, [])
          else let (s, n) = vfs_resolve ops_of ms (take plen path) s in (s, n, drop (plen + 1) path))"

section \<open>Operations on paths\<close>

definition with_node ::
  "('n \<Rightarrow> ('s, 'n) vfs_ops option) \<Rightarrow> 's \<times> 'n option \<Rightarrow> (('s, 'n) vfs_ops \<Rightarrow> 'f option) \<Rightarrow>
   ('f \<Rightarrow> 'n \<Rightarrow> 's \<Rightarrow> 's \<times> 'r) \<Rightarrow> 'r \<Rightarrow> 's \<times> 'r" where
  "with_node ops_of r sel call err =
     (case r of
        (s, None) \<Rightarrow> (s, err)
      | (s, Some node) \<Rightarrow>
          (case Option.bind (ops_of node) sel of
             None \<Rightarrow> (s, err)
           | Some f \<Rightarrow> call f node s))"

definition vfs_read ::
  "('n \<Rightarrow> ('s, 'n) vfs_ops option) \<Rightarrow> ('n, 'd) mounts \<Rightarrow> string \<Rightarrow> u64 \<Rightarrow> int \<Rightarrow> 's \<Rightarrow> 's \<times> int \<times> u8 list" where
  "vfs_read ops_of ms path sz offset s =
     with_node ops_of (vfs_resolve ops_of ms path s) op_read (\<lambda>f node. f node sz offset) (- 1, [])"

definition vfs_write ::
  "('n \<Rightarrow> ('s, 'n) vfs_ops option) \<Rightarrow> ('n, 'd) mounts \<Rightarrow> string \<Rightarrow> u8 list \<Rightarrow> int \<Rightarrow> 's \<Rightarrow> 's \<times> int" where
  "vfs_write ops_of ms path buf offset s =
     with_node ops_of (vfs_resolve ops_of ms path s) op_write (\<lambda>f node. f node buf offset) (- 1)"

definition vfs_readdir ::
  "('n \<Rightarrow> ('s, 'n) vfs_ops option) \<Rightarrow> ('n, 'd) mounts \<Rightarrow> string \<Rightarrow> u32 \<Rightarrow> 's \<Rightarrow> 's \<times> int \<times> string \<times> u32" where
  "vfs_readdir ops_of ms path index s =
     with_node ops_of (vfs_resolve ops_of ms path s) op_readdir (\<lambda>f node. f node index) (- 1, [], 0)"

definition vfs_stat ::
  "('n \<Rightarrow> ('s, 'n) vfs_ops option) \<Rightarrow> ('n, 'd) mounts \<Rightarrow> string \<Rightarrow> 's \<Rightarrow> 's \<times> int \<times> vfs_stat_t" where
  "vfs_stat ops_of ms path s =
     with_node ops_of (vfs_resolve ops_of ms path s) op_stat (\<lambda>f node. f node)
       (- 1, \<lparr>st_inode = 0, st_type = 0, st_size = 0\<rparr>)"

definition vfs_create ::
  "('n \<Rightarrow> ('s, 'n) vfs_ops option) \<Rightarrow> ('n, 'd) mounts \<Rightarrow> string \<Rightarrow> u32 \<Rightarrow> 's \<Rightarrow> 's \<times> int" where
  "vfs_create ops_of ms path type s =
     (case resolve_parent ops_of ms path s of (s, parent, name) \<Rightarrow>
        with_node ops_of (s, parent) op_create
          (\<lambda>f node s. if length name = 0 then (s, - 1) else f node name type s) (- 1))"

definition vfs_unlink ::
  "('n \<Rightarrow> ('s, 'n) vfs_ops option) \<Rightarrow> ('n, 'd) mounts \<Rightarrow> string \<Rightarrow> 's \<Rightarrow> 's \<times> int" where
  "vfs_unlink ops_of ms path s =
     (case resolve_parent ops_of ms path s of (s, parent, name) \<Rightarrow>
        with_node ops_of (s, parent) op_unlink (\<lambda>f node. f node name) (- 1))"

definition vfs_mkdir ::
  "('n \<Rightarrow> ('s, 'n) vfs_ops option) \<Rightarrow> ('n, 'd) mounts \<Rightarrow> string \<Rightarrow> 's \<Rightarrow> 's \<times> int" where
  "vfs_mkdir ops_of ms path s =
     (case resolve_parent ops_of ms path s of (s, parent, name) \<Rightarrow>
        with_node ops_of (s, parent) op_mkdir (\<lambda>f node. f node name) (- 1))"

section \<open>Components\<close>

text \<open>The specification of a walk: split at slashes, drop empty components, look up one after the
  other.\<close>

fun split_slash :: "string \<Rightarrow> string list" where
  "split_slash [] = [[]]"
| "split_slash (c # cs) =
     (if c = slash then [] # split_slash cs
      else (c # hd (split_slash cs)) # tl (split_slash cs))"

definition components :: "string \<Rightarrow> string list" where
  "components path = filter (\<lambda>c. c \<noteq> []) (split_slash path)"

fun lookup_all ::
  "('n \<Rightarrow> ('s, 'n) vfs_ops option) \<Rightarrow> 'n \<Rightarrow> string list \<Rightarrow> 's \<Rightarrow> 's \<times> 'n option" where
  "lookup_all ops_of node [] s = (s, Some node)"
| "lookup_all ops_of node (c # cs) s =
     (if VFS_MAX_NAME \<le> length c then (s, None)
      else case Option.bind (ops_of node) op_finddir of
             None \<Rightarrow> (s, None)
           | Some finddir \<Rightarrow>
               (case finddir node c s of
                  (s, None) \<Rightarrow> (s, None)
                | (s, Some node) \<Rightarrow> lookup_all ops_of node cs s))"

lemma split_slash_not_Nil [simp]: "split_slash path \<noteq> []"
  by (cases path) auto

lemma split_slash_step:
  "split_slash rem = first_component rem #
     (if slash \<in> set rem then split_slash (after_component rem) else [])"
  by (induction rem) (auto simp: first_component_def after_component_def)

lemma after_component_Nil: "slash \<notin> set rem \<Longrightarrow> after_component rem = []"
  unfolding after_component_def by (subst dropWhile_eq_Nil_conv [THEN iffD2]) auto

lemma components_step:
  "components rem =
     (if first_component rem = [] then [] else [first_component rem]) @ components (after_component rem)"
  unfolding components_def
  by (subst split_slash_step) (auto simp: after_component_Nil)

lemma components_Nil [simp]: "components [] = []"
  by (simp add: components_def)

lemma resolve_walk_components: "resolve_walk ops_of node rem s = lookup_all ops_of node (components rem) s"
proof (induction ops_of node rem s rule: resolve_walk.induct)
  case (1 ops_of node rem s)
  show ?case
  proof (cases "rem = []")
    case True
    then show ?thesis by (subst resolve_walk.simps) simp
  next
    case False
    then show ?thesis
      using 1 components_step [of rem]
      by (subst resolve_walk.simps) (auto simp: Let_def split: option.splits prod.splits)
  qed
qed

text \<open>The remainder of the path has the components behind the mount point.\<close>

lemma components_slash: "components (slash # p) = components p"
  by (simp add: components_def)

lemma components_no_empty: "[] \<notin> set (components p)" "\<forall>c \<in> set (components p). slash \<notin> set c"
proof -
  have "\<forall>c \<in> set (split_slash p). slash \<notin> set c"
  proof (induction p)
    case (Cons c cs)
    then show ?case using hd_in_set [of "split_slash cs"] list.set_sel(2) [of "split_slash cs"] by auto
  qed simp
  then show "[] \<notin> set (components p)" "\<forall>c \<in> set (components p). slash \<notin> set c"
    by (auto simp: components_def)
qed

section \<open>The longest mount point wins\<close>

lemma find_mount_loop_best:
  assumes "find_mount_loop path ms best n = (b, l)"
  shows "n \<le> l \<and> (\<forall>m \<in> set ms. mount_matches path m \<longrightarrow> length (mount_point m) \<le> l) \<and>
    (b = best \<and> l = n \<or>
     (\<exists>m \<in> set ms. b = Some m \<and> mount_matches path m \<and> l = length (mount_point m) \<and> n < l))"
  using assms
proof (induction path ms best n rule: find_mount_loop.induct)
  case (2 path m ms best n)
  then show ?case by (cases "mount_matches path m \<and> n < length (mount_point m)") (auto; fastforce)+
qed simp

lemma char_at_terminator: "CHR 0x00 \<notin> set p \<Longrightarrow> char_at p i = CHR 0x00 \<longleftrightarrow> length p \<le> i"
  by (auto simp: char_at_def) (metis nth_mem)

lemma vfs_resolve_walk:
  assumes "CHR 0x00 \<notin> set path"
  shows "vfs_resolve ops_of ms path s =
    (case find_mount_loop path ms None 0 of
       (None, _) \<Rightarrow> (s, None)
     | (Some m, l) \<Rightarrow> lookup_all ops_of (mnt_root m) (components (drop l path)) s)"
proof (cases "find_mount_loop path ms None 0")
  case (Pair b l)
  show ?thesis
  proof (cases b)
    case None
    with Pair show ?thesis by (simp add: vfs_resolve_def find_mount_def)
  next
    case (Some m)
    let ?r = "drop l path"
    let ?q = "if char_at ?r 0 = slash then drop 1 ?r else ?r"
    have nul: "CHR 0x00 \<notin> set ?q" using assms by (auto dest: in_set_dropD)
    have "components ?q = components ?r"
      by (cases ?r) (auto simp: char_at_def components_slash)
    with Pair Some nul show ?thesis
      by (auto simp: vfs_resolve_def find_mount_def Let_def char_at_terminator resolve_walk_components)
  qed
qed

lemma vfs_resolve_best:
  assumes "CHR 0x00 \<notin> set path"
  shows "if \<forall>m \<in> set ms. mount_matches path m \<longrightarrow> mount_point m = []
    then vfs_resolve ops_of ms path s = (s, None)
    else \<exists>m \<in> set ms. mount_matches path m \<and>
      (\<forall>m' \<in> set ms. mount_matches path m' \<longrightarrow> length (mount_point m') \<le> length (mount_point m)) \<and>
      vfs_resolve ops_of ms path s =
        lookup_all ops_of (mnt_root m) (components (drop (length (mount_point m)) path)) s"
proof (cases "find_mount_loop path ms None 0")
  case (Pair b l)
  from find_mount_loop_best [OF Pair] show ?thesis
    unfolding vfs_resolve_walk [OF assms] Pair by (auto split: option.splits)
qed

lemma mount_loop_shape:
  assumes "mount_loop f path root d i ms = (ms', 0)"
  shows "\<exists>xs m ys. ms = xs @ m # ys \<and> \<not> in_use m \<and>
    ms' = xs @ m\<lparr>mount_point := take 255 path, mnt_root := f (i + length xs) root, mnt_data := d,
                 in_use := True\<rparr> # ys"
  using assms
proof (induction f path root d i ms arbitrary: ms' rule: mount_loop.induct)
  case (2 f path root d i m ms)
  show ?case
  proof (cases "in_use m")
    case True
    then obtain ns where ns: "mount_loop f path root d (i + 1) ms = (ns, 0)" "ms' = m # ns"
      using 2(2) by (auto split: prod.splits)
    from 2(1) [OF _ ns(1)] True obtain xs x ys where "ms = xs @ x # ys" "\<not> in_use x"
      "ns = xs @ x\<lparr>mount_point := take 255 path, mnt_root := f (i + 1 + length xs) root, mnt_data := d,
                 in_use := True\<rparr> # ys" by auto
    then show ?thesis using ns(2) by (intro exI [of _ "m # xs"] exI [of _ x] exI [of _ ys]) simp
  next
    case False
    then show ?thesis using 2(2) by (intro exI [of _ "[]"] exI [of _ m] exI [of _ ms]) auto
  qed
qed simp

text \<open>Does the path \<open>q\<close> lie at or below the mount point \<open>p\<close>?\<close>

definition path_under :: "string \<Rightarrow> string \<Rightarrow> bool" where
  "path_under p q \<longleftrightarrow> prefix p q \<and>
     (length p = 1 \<or> char_at q (length p) = slash \<or> char_at q (length p) = CHR 0x00)"

lemma mount_matches_under: "mount_matches q m \<longleftrightarrow> in_use m \<and> path_under (mount_point m) q"
  by (auto simp: mount_matches_def path_under_def Let_def)

lemma find_mount_loop_cong:
  assumes "length ms' = length ms"
    and "\<forall>i < length ms. mount_matches q (ms' ! i) = mount_matches q (ms ! i) \<and>
      (mount_matches q (ms ! i) \<longrightarrow> ms' ! i = ms ! i)"
  shows "find_mount_loop q ms' best n = find_mount_loop q ms best n"
  using assms
proof (induction ms' ms arbitrary: best n rule: list_induct2)
  case (Cons m' ms' m ms)
  have h: "mount_matches q m' = mount_matches q m" "mount_matches q m \<Longrightarrow> m' = m"
    using Cons.prems by auto
  have t: "\<forall>i < length ms. mount_matches q (ms' ! i) = mount_matches q (ms ! i) \<and>
      (mount_matches q (ms ! i) \<longrightarrow> ms' ! i = ms ! i)"
    using Cons.prems by auto
  show ?case using h Cons.IH [OF t] by auto
qed simp

lemma detach_not_mounted: "x \<in> set (detach path ms) \<Longrightarrow> \<not> mounted_at path x"
proof -
  assume "x \<in> set (detach path ms)"
  then obtain m where "x = (if mounted_at path m then m\<lparr>in_use := False\<rparr> else m)"
    unfolding detach_def set_map by blast
  then show ?thesis by (cases "mounted_at path m") (simp_all add: mounted_at_def)
qed

lemma mount_resolves:
  assumes m: "vfs_mount f path root d ms = (ms', 0)"
    and path: "path \<noteq> []" "length path < 256" "CHR 0x00 \<notin> set path"
  shows "\<exists>i < length ms. vfs_resolve ops_of ms' path s = (s, Some (f i root))"
proof -
  obtain xs m0 ys where det: "detach path ms = xs @ m0 # ys"
    and ms': "ms' = xs @ m0\<lparr>mount_point := take 255 path, mnt_root := f (length xs) root, mnt_data := d,
                 in_use := True\<rparr> # ys" (is "_ = xs @ ?m # ys")
    using mount_loop_shape [OF m [unfolded vfs_mount_def]] by auto
  have len: "length xs < length ms"
    using arg_cong [OF det, of length] by (simp add: detach_def)
  have others: "\<not> mounted_at path x" if "x \<in> set xs \<union> set ys" for x
    by (rule detach_not_mounted [of _ path ms]) (use that det in auto)
  have mp: "mount_point ?m = path" using path(2) by simp
  have "mount_matches path ?m"
    using path by (simp add: mount_matches_def Let_def char_at_def)
  then have new: "?m \<in> set ms'" "mount_matches path ?m" using ms' by auto
  obtain b where b: "b \<in> set ms'" "mount_matches path b"
    "length path \<le> length (mount_point b)"
    "vfs_resolve ops_of ms' path s =
        lookup_all ops_of (mnt_root b) (components (drop (length (mount_point b)) path)) s"
    using vfs_resolve_best [OF path(3), of ms' ops_of s] new mp path(1) by (auto split: if_splits)
  have "mount_point b = path"
    using b(2,3) by (auto simp: mount_matches_def Let_def prefix_def)
  moreover from this b(1,2) others have "b = ?m"
    unfolding ms' by (auto simp: mount_matches_def mounted_at_def Let_def)
  ultimately have "vfs_resolve ops_of ms' path s = (s, Some (f (length xs) root))"
    using b(4) by simp
  with len show ?thesis by blast
qed

lemma mount_elsewhere:
  assumes m: "vfs_mount f path root d ms = (ms', 0)" and path: "length path < 256"
    and q: "\<not> path_under path q" "CHR 0x00 \<notin> set q"
  shows "vfs_resolve ops_of ms' q s = vfs_resolve ops_of ms q s"
proof -
  obtain xs m0 ys where det: "detach path ms = xs @ m0 # ys" and m0: "\<not> in_use m0"
    and ms': "ms' = xs @ m0\<lparr>mount_point := take 255 path, mnt_root := f (length xs) root, mnt_data := d,
                 in_use := True\<rparr> # ys" (is "_ = xs @ ?m # ys")
    using mount_loop_shape [OF m [unfolded vfs_mount_def]] by auto
  have "\<not> mount_matches q ?m" "\<not> mount_matches q m0"
    using q(1) path m0 by (auto simp: mount_matches_under)
  then have "find_mount_loop q ms' None 0 = find_mount_loop q (detach path ms) None 0"
    by (intro find_mount_loop_cong) (auto simp: ms' det nth_append nth_Cons')
  also have "\<dots> = find_mount_loop q ms None 0"
    by (rule find_mount_loop_cong)
       (use q(1) in \<open>auto simp: detach_def mounted_at_def mount_matches_under\<close>)
  finally show ?thesis by (simp add: vfs_resolve_walk [OF q(2)])
qed

lemma last_slash_split:
  assumes "slash \<notin> set name"
  shows "last_slash i (d @ slash # name) = Some (i + length d)"
proof -
  have none: "last_slash j name = None" for j
    using assms by (induction name arbitrary: j) auto
  show ?thesis by (induction d arbitrary: i) (simp_all add: none)
qed

lemma resolve_parent_split:
  assumes "slash \<notin> set name" "length d < 256"
  shows "resolve_parent ops_of ms (d @ slash # name) s =
    (let (s', n) = vfs_resolve ops_of ms (if d = [] then [slash] else d) s in (s', n, name))"
  using assms by (auto simp: resolve_parent_def last_slash_split Let_def)

section \<open>The interface of a directory\<close>

text \<open>What the path operations rely on in a file system: directories are partial maps from names
  to objects, \<open>finddir\<close> reads them, \<open>create\<close> and \<open>unlink\<close> change one name of one directory.  A
  failed operation changes nothing.\<close>

definition valid_name :: "string \<Rightarrow> bool" where
  "valid_name c \<longleftrightarrow> c \<noteq> [] \<and> length c < VFS_MAX_NAME"

locale directory =
  fixes ok :: "'s \<Rightarrow> bool"
    and is_dir :: "'s \<Rightarrow> 'n \<Rightarrow> bool"
    and obj :: "'n \<Rightarrow> 'i"
    and entry :: "'s \<Rightarrow> 'i \<Rightarrow> string \<Rightarrow> 'i option"
    and finddir :: "'n \<Rightarrow> string \<Rightarrow> 's \<Rightarrow> 's \<times> 'n option"
    and create :: "'n \<Rightarrow> string \<Rightarrow> u32 \<Rightarrow> 's \<Rightarrow> 's \<times> int"
    and unlink :: "'n \<Rightarrow> string \<Rightarrow> 's \<Rightarrow> 's \<times> int"
  assumes find_state: "ok s \<Longrightarrow> is_dir s d \<Longrightarrow> fst (finddir d c s) = s"
    and find_entry: "ok s \<Longrightarrow> is_dir s d \<Longrightarrow> finddir d c s = (s', Some n) \<Longrightarrow>
      entry s (obj d) c = Some (obj n)"
    and create_ok: "ok s \<Longrightarrow> is_dir s d \<Longrightarrow> valid_name c \<Longrightarrow> create d c t s = (s', 0) \<Longrightarrow>
      ok s' \<and> is_dir s' d"
    and create_entry: "ok s \<Longrightarrow> is_dir s d \<Longrightarrow> valid_name c \<Longrightarrow> create d c t s = (s', 0) \<Longrightarrow>
      entry s (obj d) c = None \<and> entry s' (obj d) c \<noteq> None \<and>
      (\<forall>i c'. entry s i c' \<noteq> None \<or> (i, c') \<noteq> (obj d, c) \<longrightarrow> entry s' i c' = entry s i c')"
    and create_fail: "ok s \<Longrightarrow> is_dir s d \<Longrightarrow> create d c t s = (s', rc) \<Longrightarrow> rc \<noteq> 0 \<Longrightarrow> s' = s"
    and unlink_ok: "ok s \<Longrightarrow> is_dir s d \<Longrightarrow> unlink d c s = (s', 0) \<Longrightarrow> ok s' \<and> is_dir s' d"
    and unlink_entry: "ok s \<Longrightarrow> is_dir s d \<Longrightarrow> unlink d c s = (s', 0) \<Longrightarrow>
      entry s (obj d) c \<noteq> None \<and> entry s' (obj d) c = None \<and>
      (\<forall>i c'. (i, c') \<noteq> (obj d, c) \<longrightarrow> entry s' i c' = entry s i c')"
    and unlink_fail: "ok s \<Longrightarrow> is_dir s d \<Longrightarrow> unlink d c s = (s', rc) \<Longrightarrow> rc \<noteq> 0 \<Longrightarrow> s' = s"
begin

lemma create_twice:
  assumes "ok s" "is_dir s d" "valid_name c" "create d c t s = (s', 0)"
  shows "snd (create d c t' s') \<noteq> 0"
proof
  assume "snd (create d c t' s') = 0"
  then obtain s'' where "create d c t' s' = (s'', 0)" by (metis prod.collapse)
  with create_entry create_ok assms show False by blast
qed

lemma unlink_create:
  assumes "ok s" "is_dir s d" "valid_name c" "create d c t s = (s1, 0)" "unlink d c s1 = (s2, 0)"
  shows "entry s2 i c' = entry s i c'"
proof (cases "(i, c') = (obj d, c)")
  case True
  then show ?thesis
    using unlink_entry [OF _ _ assms(5)] create_ok [OF assms(1-4)] create_entry [OF assms(1-4)] by simp
next
  case False
  then show ?thesis
    using unlink_entry [OF _ _ assms(5)] create_ok [OF assms(1-4)] create_entry [OF assms(1-4)] by simp
qed

lemma find_after_create:
  assumes "ok s" "is_dir s d" "valid_name c" "create d c t s = (s', 0)" "finddir d c s' = (s'', Some n)"
  shows "entry s' (obj d) c = Some (obj n)"
  using find_entry [OF _ _ assms(5)] create_ok [OF assms(1-4)] by blast

end

section \<open>Properties\<close>

text \<open>C20: Resolution.  A path is served by the mount with the longest mount point that lies above it,
  and the walk is the lookup of the non-empty components of the rest of the path one after the other;
  a path that no mount serves resolves to nothing.\<close>

theorem vfs_resolve_longest_mount:
  assumes "CHR 0x00 \<notin> set path"
  shows "if \<forall>m \<in> set ms. mount_matches path m \<longrightarrow> mount_point m = []
    then vfs_resolve ops_of ms path s = (s, None)
    else \<exists>m \<in> set ms. mount_matches path m \<and>
      (\<forall>m' \<in> set ms. mount_matches path m' \<longrightarrow> length (mount_point m') \<le> length (mount_point m)) \<and>
      vfs_resolve ops_of ms path s =
        lookup_all ops_of (mnt_root m) (components (drop (length (mount_point m)) path)) s"
  by (rule vfs_resolve_best [OF assms])

text \<open>Two mounts, and a file system in which every directory has one entry, its successor.\<close>

definition demo_mount :: "string \<Rightarrow> nat \<Rightarrow> (nat, unit) vfs_mount_t" where
  "demo_mount path n = \<lparr>mount_point = path, mnt_root = n, mnt_data = (), in_use = True\<rparr>"

definition chain_ops :: "(unit, nat) vfs_ops" where
  "chain_ops = \<lparr>op_read = None, op_write = None, op_readdir = None,
     op_finddir = Some (\<lambda>n c s. (s, if c = ''x'' then Some (n + 1) else None)),
     op_create = None, op_unlink = None, op_stat = None, op_mkdir = None\<rparr>"

theorem vfs_resolve_longest_mount_witness:
  "vfs_resolve (\<lambda>_. Some chain_ops) [demo_mount ''/'' 0, demo_mount ''/m'' 7] ''/m//x/x'' () = ((), Some 9)"
proof -
  have m: "mount_matches ''/m//x/x'' (demo_mount ''/'' 0)" "mount_matches ''/m//x/x'' (demo_mount ''/m'' 7)"
    by (simp_all add: mount_matches_def demo_mount_def char_at_def)
  have "\<not> length (mount_point (demo_mount ''/m'' 7)) \<le> length (mount_point (demo_mount ''/'' 0))"
    by (simp add: demo_mount_def)
  with vfs_resolve_longest_mount [of "''/m//x/x''" "[demo_mount ''/'' 0, demo_mount ''/m'' 7]"
      "\<lambda>_. Some chain_ops" "()"] m
  have "vfs_resolve (\<lambda>_. Some chain_ops) [demo_mount ''/'' 0, demo_mount ''/m'' 7] ''/m//x/x'' () =
      lookup_all (\<lambda>_. Some chain_ops) (mnt_root (demo_mount ''/m'' 7))
        (components (drop (length (mount_point (demo_mount ''/m'' 7))) ''/m//x/x'')) ()"
    by (auto simp: demo_mount_def)
  then show ?thesis by (simp add: demo_mount_def components_def chain_ops_def)
qed

text \<open>C31: Mounting.  After a successful mount the mount point itself resolves to the new root, whatever
  was mounted there before, and every path that does not lie at or below the mount point resolves
  as it did.\<close>

theorem vfs_mount_serves_path:
  assumes "vfs_mount set_mount path root d ms = (ms', 0)"
    and "path \<noteq> []" "length path < 256" "CHR 0x00 \<notin> set path"
  shows "(\<exists>i < length ms. vfs_resolve ops_of ms' path s = (s, Some (set_mount i root))) \<and>
    (\<forall>q. \<not> path_under path q \<and> CHR 0x00 \<notin> set q \<longrightarrow>
       vfs_resolve ops_of ms' q s = vfs_resolve ops_of ms q s)"
proof (intro conjI allI impI)
  show "\<exists>i < length ms. vfs_resolve ops_of ms' path s = (s, Some (set_mount i root))"
    by (rule mount_resolves [OF assms])
  show "vfs_resolve ops_of ms' q s = vfs_resolve ops_of ms q s"
    if "\<not> path_under path q \<and> CHR 0x00 \<notin> set q" for q
    by (rule mount_elsewhere [OF assms(1,3)]) (use that in blast)+
qed

theorem vfs_mount_serves_path_witness:
  "vfs_resolve (\<lambda>_. Some chain_ops)
     (fst (vfs_mount (\<lambda>_ r. r) ''/m'' 5 () [demo_mount ''/m'' 7, (demo_mount ''/'' 0)\<lparr>in_use := False\<rparr>])) ''/m'' () =
   ((), Some 5)"
proof -
  let ?ms = "[demo_mount ''/m'' 7, (demo_mount ''/'' 0)\<lparr>in_use := False\<rparr>]"
  have "vfs_mount (\<lambda>_ r. r) ''/m'' 5 () ?ms = (fst (vfs_mount (\<lambda>_ r. r) ''/m'' 5 () ?ms), 0)"
    by (simp add: vfs_mount_def detach_def mounted_at_def demo_mount_def)
  from vfs_mount_serves_path [OF this, of "\<lambda>_. Some chain_ops" "()"] show ?thesis by simp
qed

end
