(* ===== verification/Ramfs.thy ===== *)
theory Ramfs
  imports Vfs
begin

text \<open>
  The in-memory file system, \<open>src/fs/ramfs.c\<close>: inodes on the kernel heap, files as growing
  buffers, directories as arrays of at most 256 children.

  The inodes that exist are a map from addresses; the array of children with its count is one
  list.  What \<open>kmalloc\<close> returns is given by a policy: an address for a new inode, whether a node
  can be allocated, and a data buffer with whatever bytes it holds.  A fresh buffer is not
  cleared, and the model keeps the bytes it had.  The size that \<open>ramfs_write\<close> copies back into the
  node it was given is never read again and is left out.

  The lemmas show the invariant of the tree, that writes and reads of a file agree, and that
  \<open>create\<close>, \<open>unlink\<close> and \<open>finddir\<close> implement a directory (locale \<open>directory\<close>).
\<close>

section \<open>State\<close>

abbreviation (input) RAMFS_MAX_CHILDREN :: nat where "RAMFS_MAX_CHILDREN \<equiv> 256"
abbreviation (input) RAMFS_MAX_FILE :: u64 where "RAMFS_MAX_FILE \<equiv> 0xFFFFFFFF"

record ramfs_inode =
  iname :: string
  itype :: u32
  inode_num :: u32
  idata :: "u8 list option"
  isize :: u32
  icap :: u32
  children :: "nat list"
  iparent :: "nat option"

record ramfs =
  inodes :: "nat \<rightharpoonup> ramfs_inode"
  next_inode :: u32

record ram_node =
  n_name :: string
  n_type :: u32
  n_size :: u32
  n_inode :: u32
  n_ptr :: nat

record ram_policy =
  new_inode :: "ramfs \<Rightarrow> nat option"
  new_node :: "ramfs \<Rightarrow> bool"
  new_data :: "ramfs \<Rightarrow> u32 \<Rightarrow> u8 list option"

text \<open>\<open>*p\<close> for a pointer to an inode.\<close>

definition deref :: "ramfs \<Rightarrow> nat \<Rightarrow> ramfs_inode" where
  "deref s a = the (inodes s a)"

section \<open>Operations\<close>

definition ramfs_alloc_inode :: "ram_policy \<Rightarrow> string \<Rightarrow> u32 \<Rightarrow> ramfs \<Rightarrow> ramfs \<times> nat option" where
  "ramfs_alloc_inode pol name type s =
     (case new_inode pol s of
        None \<Rightarrow> (s, None)
      | Some a \<Rightarrow>
          (s\<lparr>inodes := (inodes s)(a \<mapsto> \<lparr>iname = take (VFS_MAX_NAME - 1) name, itype = type,
                inode_num = next_inode s, idata = None, isize = 0, icap = 0, children = [],
                iparent = None\<rparr>),
             next_inode := next_inode s + 1\<rparr>, Some a))"

definition inode_to_vfs_node :: "ram_policy \<Rightarrow> ramfs \<Rightarrow> nat option \<Rightarrow> ram_node option" where
  "inode_to_vfs_node pol s p =
     (case p of
        None \<Rightarrow> None
      | Some a \<Rightarrow>
          if \<not> new_node pol s then None
          else let i = deref s a
               in Some \<lparr>n_name = take (VFS_MAX_NAME - 1) (iname i), n_type = itype i, n_size = isize i,
                        n_inode = inode_num i, n_ptr = a\<rparr>)"

definition ramfs_read :: "ram_node \<Rightarrow> u64 \<Rightarrow> int \<Rightarrow> ramfs \<Rightarrow> ramfs \<times> int \<times> u8 list" where
  "ramfs_read node sz offset s =
     (let inode = deref s (n_ptr node)
      in if itype inode \<noteq> VFS_FILE then (s, - 1, [])
         else if offset < 0 then (s, - 1, [])
         else if uint (isize inode) \<le> offset then (s, 0, [])
         else let avail = ucast (isize inode) - of_int offset :: u64;
                  n = (if avail < sz then avail else sz)
              in (s, uint n, take (unat n) (drop (nat offset) (the (idata inode)))))"

text \<open>\<open>memcpy(data + off, buf, len)\<close> on a buffer that is long enough.\<close>

definition overwrite :: "u8 list \<Rightarrow> nat \<Rightarrow> u8 list \<Rightarrow> u8 list" where
  "overwrite d off bs = take off d @ bs @ drop (off + length bs) d"

definition grow_cap :: "u32 \<Rightarrow> u32" where
  "grow_cap needed =
     (let c = ucast needed * 2 :: u64; c = (if RAMFS_MAX_FILE < c then RAMFS_MAX_FILE else c)
      in ucast (if c < 256 then 256 else c))"

text \<open>The buffer after a possible reallocation; \<open>None\<close> when \<open>kmalloc\<close> fails.\<close>

definition ramfs_grow :: "ram_policy \<Rightarrow> ramfs \<Rightarrow> ramfs_inode \<Rightarrow> u32 \<Rightarrow> ramfs_inode option" where
  "ramfs_grow pol s inode needed =
     (if icap inode < needed
      then case new_data pol s (grow_cap needed) of
             None \<Rightarrow> None
           | Some new \<Rightarrow>
               Some (inode\<lparr>idata := Some (case idata inode of
                              None \<Rightarrow> new
                            | Some old \<Rightarrow> overwrite new 0 (take (unat (isize inode)) old)),
                           icap := grow_cap needed\<rparr>)
      else Some inode)"

definition ramfs_write :: "ram_policy \<Rightarrow> ram_node \<Rightarrow> u8 list \<Rightarrow> int \<Rightarrow> ramfs \<Rightarrow> ramfs \<times> int" where
  "ramfs_write pol node buf offset s =
     (let inode = deref s (n_ptr node)
      in if itype inode \<noteq> VFS_FILE then (s, - 1)
         else if offset < 0 then (s, - 1)
         else let off = of_int offset :: u64; endp = off + of_nat (length buf)
              in if endp < off \<or> RAMFS_MAX_FILE < endp then (s, - 1)
                 else let needed = ucast endp :: u32
                      in case ramfs_grow pol s inode needed of
                           None \<Rightarrow> (s, - 1)
                         | Some inode \<Rightarrow>
                             let inode = inode\<lparr>idata := map_option (\<lambda>d. overwrite d (nat offset) buf) (idata inode),
                                               isize := (if isize inode < needed then needed else isize inode)\<rparr>
                             in (s\<lparr>inodes := (inodes s)(n_ptr node \<mapsto> inode)\<rparr>, int (length buf)))"

definition ramfs_readdir :: "ram_node \<Rightarrow> u32 \<Rightarrow> ramfs \<Rightarrow> ramfs \<times> int \<times> string \<times> u32" where
  "ramfs_readdir dir index s =
     (let inode = deref s (n_ptr dir)
      in if itype inode \<noteq> VFS_DIR then (s, - 1, [], 0)
         else if length (children inode) \<le> unat index then (s, - 1, [], 0)
         else let c = deref s (children inode ! unat index)
              in (s, 0, take (VFS_MAX_NAME - 1) (iname c), itype c))"

text \<open>The loop \<open>for (i = 0; i < child_count; i++) if (strcmp(children[i]->name, name) == 0)\<close>.\<close>

fun find_child :: "ramfs \<Rightarrow> string \<Rightarrow> nat list \<Rightarrow> nat option" where
  "find_child s name [] = None"
| "find_child s name (c # cs) = (if iname (deref s c) = name then Some c else find_child s name cs)"

definition ramfs_finddir :: "ram_policy \<Rightarrow> ram_node \<Rightarrow> string \<Rightarrow> ramfs \<Rightarrow> ramfs \<times> ram_node option" where
  "ramfs_finddir pol dir name s =
     (let inode = deref s (n_ptr dir)
      in if itype inode \<noteq> VFS_DIR then (s, None)
         else (s, inode_to_vfs_node pol s (find_child s name (children inode))))"

definition ramfs_create :: "ram_policy \<Rightarrow> ram_node \<Rightarrow> string \<Rightarrow> u32 \<Rightarrow> ramfs \<Rightarrow> ramfs \<times> int" where
  "ramfs_create pol dir name type s =
     (let p = n_ptr dir; parent = deref s p
      in if itype parent \<noteq> VFS_DIR then (s, - 1)
         else if RAMFS_MAX_CHILDREN \<le> length (children parent) then (s, - 1)
         else if find_child s name (children parent) \<noteq> None then (s, - 1)
         else case ramfs_alloc_inode pol name type s of
                (s, None) \<Rightarrow> (s, - 1)
              | (s, Some c) \<Rightarrow>
                  (s\<lparr>inodes := (inodes s)(c \<mapsto> (deref s c)\<lparr>iparent := Some p\<rparr>,
                                         p \<mapsto> parent\<lparr>children := children parent @ [c]\<rparr>)\<rparr>, 0))"

definition ramfs_unlink :: "ram_node \<Rightarrow> string \<Rightarrow> ramfs \<Rightarrow> ramfs \<times> int" where
  "ramfs_unlink dir name s =
     (let p = n_ptr dir; parent = deref s p
      in if itype parent \<noteq> VFS_DIR then (s, - 1)
         else case find_child s name (children parent) of
                None \<Rightarrow> (s, - 1)
              | Some c \<Rightarrow>
                  let victim = deref s c
                  in if itype victim = VFS_DIR \<and> children victim \<noteq> [] then (s, - 1)
                     else (s\<lparr>inodes := (inodes s)(c := None,
                              p \<mapsto> parent\<lparr>children := remove1 c (children parent)\<rparr>)\<rparr>, 0))"

definition ramfs_stat :: "ram_node \<Rightarrow> ramfs \<Rightarrow> ramfs \<times> int \<times> vfs_stat_t" where
  "ramfs_stat node s =
     (let inode = deref s (n_ptr node)
      in (s, 0, \<lparr>st_inode = inode_num inode, st_type = itype inode, st_size = isize inode\<rparr>))"

definition ramfs_mkdir :: "ram_policy \<Rightarrow> ram_node \<Rightarrow> string \<Rightarrow> ramfs \<Rightarrow> ramfs \<times> int" where
  "ramfs_mkdir pol dir name s = ramfs_create pol dir name VFS_DIR s"

definition ramfs_ops :: "ram_policy \<Rightarrow> (ramfs, ram_node) vfs_ops" where
  "ramfs_ops pol =
     \<lparr>op_read = Some ramfs_read, op_write = Some (ramfs_write pol), op_readdir = Some ramfs_readdir,
      op_finddir = Some (ramfs_finddir pol), op_create = Some (ramfs_create pol),
      op_unlink = Some ramfs_unlink, op_stat = Some ramfs_stat, op_mkdir = Some (ramfs_mkdir pol)\<rparr>"

definition ramfs_init :: "ram_policy \<Rightarrow> ramfs \<Rightarrow> ramfs \<times> ram_node option" where
  "ramfs_init pol s =
     (case ramfs_alloc_inode pol ''/'' VFS_DIR s of
        (s, None) \<Rightarrow> (s, None)
      | (s, Some r) \<Rightarrow> (s, inode_to_vfs_node pol s (Some r)))"

section \<open>Invariant\<close>

definition inode_ok :: "ramfs_inode \<Rightarrow> bool" where
  "inode_ok i \<longleftrightarrow> length (iname i) < VFS_MAX_NAME \<and> length (children i) \<le> RAMFS_MAX_CHILDREN \<and>
     distinct (children i) \<and> (itype i \<noteq> VFS_DIR \<longrightarrow> children i = []) \<and>
     (case idata i of
        None \<Rightarrow> isize i = 0 \<and> icap i = 0
      | Some d \<Rightarrow> length d = unat (icap i) \<and> isize i \<le> icap i)"

definition ram_ok :: "ramfs \<Rightarrow> bool" where
  "ram_ok s \<longleftrightarrow> (\<forall>a i. inodes s a = Some i \<longrightarrow> inode_ok i \<and>
     (\<forall>c \<in> set (children i). \<exists>ci. inodes s c = Some ci \<and> iparent ci = Some a) \<and>
     distinct (map (\<lambda>c. iname (deref s c)) (children i)))"

definition good_policy :: "ram_policy \<Rightarrow> bool" where
  "good_policy pol \<longleftrightarrow> (\<forall>s a. new_inode pol s = Some a \<longrightarrow> inodes s a = None) \<and>
     (\<forall>s n d. new_data pol s n = Some d \<longrightarrow> length d = unat n)"

lemma ram_okD:
  assumes "ram_ok s" "inodes s a = Some i"
  shows "inode_ok i" "c \<in> set (children i) \<Longrightarrow> \<exists>ci. inodes s c = Some ci \<and> iparent ci = Some a"
    "distinct (map (\<lambda>c. iname (deref s c)) (children i))"
  using assms unfolding ram_ok_def by blast+

text \<open>A child belongs to one directory only.\<close>

lemma ram_ok_parent:
  assumes "ram_ok s" "inodes s a = Some i" "inodes s b = Some j" "c \<in> set (children i)" "c \<in> set (children j)"
  shows "a = b"
proof -
  obtain ci where "inodes s c = Some ci" "iparent ci = Some a"
    using ram_okD(2) [OF assms(1,2,4)] by blast
  moreover obtain cj where "inodes s c = Some cj" "iparent cj = Some b"
    using ram_okD(2) [OF assms(1,3,5)] by blast
  ultimately show ?thesis by simp
qed

lemma find_child_Some: "find_child s name cs = Some c \<Longrightarrow> c \<in> set cs \<and> iname (deref s c) = name"
  by (induction cs) (auto split: if_splits)

lemma find_child_None: "find_child s name cs = None \<longleftrightarrow> (\<forall>c \<in> set cs. iname (deref s c) \<noteq> name)"
  by (induction cs) auto

lemma find_child_cong:
  "(\<And>c. c \<in> set cs \<Longrightarrow> iname (deref s' c) = iname (deref s c)) \<Longrightarrow> find_child s' name cs = find_child s name cs"
  by (induction cs) auto

lemma find_child_append:
  "find_child s name (cs @ ds) = (case find_child s name cs of None \<Rightarrow> find_child s name ds | Some c \<Rightarrow> Some c)"
  by (induction cs) auto

lemma find_child_remove1:
  assumes "distinct (map (\<lambda>c. iname (deref s c)) cs)" "find_child s name cs = Some c"
  shows "find_child s name' (remove1 c cs) = (if name' = name then None else find_child s name' cs)"
proof -
  have c: "c \<in> set cs" "iname (deref s c) = name" using find_child_Some [OF assms(2)] by auto
  show ?thesis
    using assms(1) c
  proof (induction cs)
    case (Cons x cs)
    show ?case
    proof (cases "x = c")
      case True
      then show ?thesis using Cons.prems by (auto simp: find_child_None image_iff)
    next
      case False
      then have "iname (deref s x) \<noteq> name" using Cons.prems by auto
      then show ?thesis using False Cons by auto
    qed
  qed simp
qed

text \<open>The directory a file system state describes.\<close>

definition ram_entry :: "ramfs \<Rightarrow> nat \<Rightarrow> string \<Rightarrow> nat option" where
  "ram_entry s a name =
     (case inodes s a of None \<Rightarrow> None | Some i \<Rightarrow> find_child s name (children i))"

definition ram_is_dir :: "ramfs \<Rightarrow> ram_node \<Rightarrow> bool" where
  "ram_is_dir s d \<longleftrightarrow> (\<exists>i. inodes s (n_ptr d) = Some i \<and> itype i = VFS_DIR)"

lemma create_shape:
  assumes "ram_is_dir s d" "ramfs_create pol d name type s = (s', 0)"
  obtains p i c where "n_ptr d = p" "inodes s p = Some i" "itype i = VFS_DIR"
    "length (children i) < 256" "find_child s name (children i) = None" "new_inode pol s = Some c"
    "inodes s' = (inodes s)(c \<mapsto> \<lparr>iname = take 63 name, itype = type, inode_num = next_inode s,
        idata = None, isize = 0, icap = 0, children = [], iparent = Some p\<rparr>,
        p \<mapsto> i\<lparr>children := children i @ [c]\<rparr>)"
proof -
  obtain i where i: "inodes s (n_ptr d) = Some i" "itype i = VFS_DIR"
    using assms(1) by (auto simp: ram_is_dir_def)
  show thesis
    by (rule that [of "n_ptr d" i "the (new_inode pol s)"])
       (use assms(2) i in \<open>auto simp: ramfs_create_def Let_def deref_def ramfs_alloc_inode_def
          split: if_splits option.splits\<close>)
qed

text \<open>What a successful \<open>create\<close> does, seen from the invariant.\<close>

lemma create_facts:
  assumes ok: "ram_ok s" and pol: "good_policy pol" and d: "ram_is_dir s d" and name: "length name < 64"
    and cr: "ramfs_create pol d name type s = (s', 0)"
  obtains p i c where "n_ptr d = p" "inodes s p = Some i" "itype i = VFS_DIR"
    "length (children i) < 256" "find_child s name (children i) = None" "inodes s c = None" "c \<noteq> p"
    "inodes s' = (inodes s)(c \<mapsto> \<lparr>iname = take 63 name, itype = type, inode_num = next_inode s,
        idata = None, isize = 0, icap = 0, children = [], iparent = Some p\<rparr>,
        p \<mapsto> i\<lparr>children := children i @ [c]\<rparr>)"
    "\<And>b j. inodes s b = Some j \<Longrightarrow> c \<notin> set (children j)"
    "\<And>x. x \<noteq> c \<Longrightarrow> iname (deref s' x) = iname (deref s x)" "iname (deref s' c) = name"
proof -
  obtain p i c where p: "n_ptr d = p" "inodes s p = Some i" "itype i = VFS_DIR"
    and room: "length (children i) < 256" and absent: "find_child s name (children i) = None"
    and c: "new_inode pol s = Some c"
    and s': "inodes s' = (inodes s)(c \<mapsto> \<lparr>iname = take 63 name, itype = type, inode_num = next_inode s,
        idata = None, isize = 0, icap = 0, children = [], iparent = Some p\<rparr>,
        p \<mapsto> i\<lparr>children := children i @ [c]\<rparr>)"
    by (rule create_shape [OF d cr])
  have fresh: "inodes s c = None" using pol c by (auto simp: good_policy_def)
  then have cp: "c \<noteq> p" using p by auto
  show thesis
  proof (rule that [OF p room absent fresh cp s'])
    show "c \<notin> set (children j)" if "inodes s b = Some j" for b j
      using ram_okD(2) [OF ok that] fresh by fastforce
    show "iname (deref s' x) = iname (deref s x)" if "x \<noteq> c" for x
      using that p(2) cp by (auto simp: s' deref_def)
    show "iname (deref s' c) = name" using cp name by (simp add: s' deref_def)
  qed
qed

lemma create_ram_entry:
  assumes "ram_ok s" "good_policy pol" "ram_is_dir s d" "length name < 64"
    "ramfs_create pol d name type s = (s', 0)"
  shows "ram_is_dir s' d" "ram_entry s (n_ptr d) name = None" "ram_entry s' (n_ptr d) name \<noteq> None"
    "ram_entry s a n \<noteq> None \<or> (a, n) \<noteq> (n_ptr d, name) \<Longrightarrow> ram_entry s' a n = ram_entry s a n"
proof -
  obtain p i c where p: "n_ptr d = p" "inodes s p = Some i" "itype i = VFS_DIR"
    and absent: "find_child s name (children i) = None" and fresh: "inodes s c = None" and cp: "c \<noteq> p"
    and s': "inodes s' = (inodes s)(c \<mapsto> \<lparr>iname = take 63 name, itype = type, inode_num = next_inode s,
        idata = None, isize = 0, icap = 0, children = [], iparent = Some p\<rparr>,
        p \<mapsto> i\<lparr>children := children i @ [c]\<rparr>)"
    and not_child: "\<And>b j. inodes s b = Some j \<Longrightarrow> c \<notin> set (children j)"
    and nm: "\<And>x. x \<noteq> c \<Longrightarrow> iname (deref s' x) = iname (deref s x)" and nmc: "iname (deref s' c) = name"
    by (rule create_facts [OF assms]) blast
  have fc: "find_child s' n (children j) = find_child s n (children j)" if "inodes s b = Some j" for b j n
    by (rule find_child_cong) (use not_child [OF that] nm in metis)
  show "ram_entry s (n_ptr d) name = None" using p absent by (simp add: ram_entry_def)
  have ent: "ram_entry s' p n = (if n = name then Some c else ram_entry s p n)" for n
    using p cp fc [OF p(2)] absent
    by (auto simp: ram_entry_def s' find_child_append nmc split: option.splits)
  then show "ram_entry s' (n_ptr d) name \<noteq> None" using p by simp
  show "ram_is_dir s' d" using p by (simp add: ram_is_dir_def s')
  show "ram_entry s' a n = ram_entry s a n"
    if "ram_entry s a n \<noteq> None \<or> (a, n) \<noteq> (n_ptr d, name)"
  proof (cases "a = p")
    case True
    then show ?thesis using ent [of n] that p absent by (auto simp: ram_entry_def)
  next
    case False
    then show ?thesis
      using fresh fc [of a] by (auto simp: ram_entry_def s' split: option.splits)
  qed
qed

lemma create_ram_ok:
  assumes "ram_ok s" "good_policy pol" "ram_is_dir s d" "length name < 64"
    "ramfs_create pol d name type s = (s', 0)"
  shows "ram_ok s'"
  unfolding ram_ok_def
proof (intro allI impI)
  obtain p i c where p: "inodes s p = Some i" "itype i = VFS_DIR" and room: "length (children i) < 256"
    and absent: "find_child s name (children i) = None" and fresh: "inodes s c = None" and cp: "c \<noteq> p"
    and s': "inodes s' = (inodes s)(c \<mapsto> \<lparr>iname = take 63 name, itype = type, inode_num = next_inode s,
        idata = None, isize = 0, icap = 0, children = [], iparent = Some p\<rparr>,
        p \<mapsto> i\<lparr>children := children i @ [c]\<rparr>)"
    and not_child: "\<And>b j. inodes s b = Some j \<Longrightarrow> c \<notin> set (children j)"
    and nm: "\<And>x. x \<noteq> c \<Longrightarrow> iname (deref s' x) = iname (deref s x)" and nmc: "iname (deref s' c) = name"
    by (rule create_facts [OF assms]) blast
  have old: "distinct (map (\<lambda>c. iname (deref s' c)) (children k)) \<and>
      (\<forall>x \<in> set (children k). \<exists>ci. inodes s' x = Some ci \<and> iparent ci = Some b)"
    if k: "inodes s b = Some k" for b k
  proof -
    have eq: "map (\<lambda>c. iname (deref s' c)) (children k) = map (\<lambda>c. iname (deref s c)) (children k)"
      using not_child [OF k] nm by (intro map_cong refl) metis
    have "\<exists>ci. inodes s' x = Some ci \<and> iparent ci = Some b" if "x \<in> set (children k)" for x
      using ram_okD(2) [OF assms(1) k that] not_child [OF k] that p(1) by (auto simp: s')
    then show ?thesis unfolding eq using ram_okD(3) [OF assms(1) k] by blast
  qed
  fix a j assume j: "inodes s' a = Some j"
  consider (dir) "a = p" | (new) "a \<noteq> p" "a = c" | (other) "a \<noteq> p" "a \<noteq> c" by blast
  then show "inode_ok j \<and> (\<forall>c \<in> set (children j). \<exists>ci. inodes s' c = Some ci \<and> iparent ci = Some a) \<and>
      distinct (map (\<lambda>c. iname (deref s' c)) (children j))"
  proof cases
    case dir
    have je: "j = i\<lparr>children := children i @ [c]\<rparr>" using j dir by (simp add: s')
    have "inode_ok j"
      using ram_okD(1) [OF assms(1) p(1)] p(2) room not_child [OF p(1)]
      by (cases "idata i") (simp_all add: inode_ok_def je)
    moreover have "name \<notin> (\<lambda>c. iname (deref s' c)) ` set (children i)"
      using absent nm not_child [OF p(1)] by (force simp: find_child_None)
    moreover have "\<exists>ci. inodes s' c = Some ci \<and> iparent ci = Some a"
      using dir cp by (simp add: s')
    ultimately show ?thesis using old [OF p(1)] dir nmc by (simp add: je)
  next
    case new
    have je: "j = \<lparr>iname = take 63 name, itype = type, inode_num = next_inode s,
        idata = None, isize = 0, icap = 0, children = [], iparent = Some p\<rparr>"
      using j new by (simp add: s')
    show ?thesis unfolding je by (simp add: inode_ok_def)
  next
    case other
    then have sa: "inodes s a = Some j" using j by (simp add: s')
    show ?thesis using old [OF sa] ram_okD(1) [OF assms(1) sa] by simp
  qed
qed

lemma unlink_shape:
  assumes "ram_is_dir s d" "ramfs_unlink d name s = (s', 0)"
  obtains p i c where "n_ptr d = p" "inodes s p = Some i" "itype i = VFS_DIR"
    "find_child s name (children i) = Some c"
    "itype (deref s c) = VFS_DIR \<Longrightarrow> children (deref s c) = []"
    "inodes s' = (inodes s)(c := None, p \<mapsto> i\<lparr>children := remove1 c (children i)\<rparr>)"
proof -
  obtain i where i: "inodes s (n_ptr d) = Some i" "itype i = VFS_DIR"
    using assms(1) by (auto simp: ram_is_dir_def)
  show thesis
    by (rule that [of "n_ptr d" i "the (find_child s name (children i))"])
       (use assms(2) i in \<open>auto simp: ramfs_unlink_def Let_def deref_def
          split: if_splits option.splits\<close>)
qed

lemma unlink_facts:
  assumes ok: "ram_ok s" and d: "ram_is_dir s d" and un: "ramfs_unlink d name s = (s', 0)"
  obtains p i c where "n_ptr d = p" "inodes s p = Some i" "itype i = VFS_DIR"
    "find_child s name (children i) = Some c" "c \<noteq> p" "children (deref s c) = []"
    "inodes s' = (inodes s)(c := None, p \<mapsto> i\<lparr>children := remove1 c (children i)\<rparr>)"
    "\<And>b j. inodes s b = Some j \<Longrightarrow> c \<in> set (children j) \<Longrightarrow> b = p"
    "\<And>x. x \<noteq> c \<Longrightarrow> iname (deref s' x) = iname (deref s x)"
proof -
  obtain p i c where p: "n_ptr d = p" "inodes s p = Some i" "itype i = VFS_DIR"
    and found: "find_child s name (children i) = Some c"
    and emp: "itype (deref s c) = VFS_DIR \<Longrightarrow> children (deref s c) = []"
    and s': "inodes s' = (inodes s)(c := None, p \<mapsto> i\<lparr>children := remove1 c (children i)\<rparr>)"
    by (rule unlink_shape [OF d un]) blast
  have child: "c \<in> set (children i)" using find_child_Some [OF found] by simp
  obtain ci where ci: "inodes s c = Some ci" using ram_okD(2) [OF ok p(2) child] by blast
  have no_kids: "children (deref s c) = []"
    using emp ram_okD(1) [OF ok ci] by (auto simp: inode_ok_def deref_def ci)
  have cp: "c \<noteq> p" using no_kids child p(2) by (auto simp: deref_def)
  show thesis
  proof (rule that [OF p found cp no_kids s'])
    show "b = p" if "inodes s b = Some j" "c \<in> set (children j)" for b j
      using ram_ok_parent [OF ok that(1) p(2) that(2) child] .
    show "iname (deref s' x) = iname (deref s x)" if "x \<noteq> c" for x
      using that p(2) cp by (auto simp: s' deref_def)
  qed
qed

lemma unlink_ram_entry:
  assumes "ram_ok s" "ram_is_dir s d" "ramfs_unlink d name s = (s', 0)"
  shows "ram_is_dir s' d" "ram_entry s (n_ptr d) name \<noteq> None" "ram_entry s' (n_ptr d) name = None"
    "(a, n) \<noteq> (n_ptr d, name) \<Longrightarrow> ram_entry s' a n = ram_entry s a n"
proof -
  obtain p i c where p: "n_ptr d = p" "inodes s p = Some i" "itype i = VFS_DIR"
    and found: "find_child s name (children i) = Some c" and cp: "c \<noteq> p"
    and no_kids: "children (deref s c) = []"
    and s': "inodes s' = (inodes s)(c := None, p \<mapsto> i\<lparr>children := remove1 c (children i)\<rparr>)"
    and only: "\<And>b j. inodes s b = Some j \<Longrightarrow> c \<in> set (children j) \<Longrightarrow> b = p"
    and nm: "\<And>x. x \<noteq> c \<Longrightarrow> iname (deref s' x) = iname (deref s x)"
    by (rule unlink_facts [OF assms]) blast
  have dist: "distinct (children i)" using ram_okD(1) [OF assms(1) p(2)] by (simp add: inode_ok_def)
  have "find_child s' n (remove1 c (children i)) = find_child s n (remove1 c (children i))" for n
    by (rule find_child_cong) (use dist nm in auto)
  then have ent: "ram_entry s' p n = (if n = name then None else ram_entry s p n)" for n
    using find_child_remove1 [OF ram_okD(3) [OF assms(1) p(2)] found] p
    by (simp add: ram_entry_def s')
  show "ram_is_dir s' d" using p by (simp add: ram_is_dir_def s')
  show "ram_entry s (n_ptr d) name \<noteq> None" using p found by (simp add: ram_entry_def)
  show "ram_entry s' (n_ptr d) name = None" using ent p by simp
  show "ram_entry s' a n = ram_entry s a n" if ne: "(a, n) \<noteq> (n_ptr d, name)"
  proof (cases "inodes s a")
    case (Some j)
    consider "a = p" | "a = c" | "a \<noteq> p" "a \<noteq> c" by blast
    then show ?thesis
    proof cases
      case 1
      then show ?thesis using ent ne p by simp
    next
      case 2
      then show ?thesis using Some no_kids cp by (simp add: ram_entry_def s' deref_def)
    next
      case 3
      have "find_child s' n (children j) = find_child s n (children j)"
        by (rule find_child_cong) (use only [OF Some] 3 nm in metis)
      then show ?thesis using 3 Some by (simp add: ram_entry_def s')
    qed
  next
    case None
    then show ?thesis using p(2) by (auto simp: ram_entry_def s')
  qed
qed

lemma unlink_ram_ok:
  assumes "ram_ok s" "ram_is_dir s d" "ramfs_unlink d name s = (s', 0)"
  shows "ram_ok s'"
  unfolding ram_ok_def
proof (intro allI impI)
  obtain p i c where p: "n_ptr d = p" "inodes s p = Some i" "itype i = VFS_DIR"
    and cp: "c \<noteq> p"
    and s': "inodes s' = (inodes s)(c := None, p \<mapsto> i\<lparr>children := remove1 c (children i)\<rparr>)"
    and only: "\<And>b j. inodes s b = Some j \<Longrightarrow> c \<in> set (children j) \<Longrightarrow> b = p"
    and nm: "\<And>x. x \<noteq> c \<Longrightarrow> iname (deref s' x) = iname (deref s x)"
    by (rule unlink_facts [OF assms]) blast
  note ok = ram_okD [OF assms(1)]
  have keep: "\<exists>ci. inodes s' x = Some ci \<and> iparent ci = Some b"
    if "inodes s b = Some k" "x \<in> set (children k)" "x \<noteq> c" for b k x
    using ok(2) [OF that(1,2)] that(3) p(2) by (auto simp: s')
  fix a j assume j: "inodes s' a = Some j"
  show "inode_ok j \<and> (\<forall>x \<in> set (children j). \<exists>ci. inodes s' x = Some ci \<and> iparent ci = Some a) \<and>
      distinct (map (\<lambda>x. iname (deref s' x)) (children j))"
  proof (cases "a = p")
    case True
    then have je: "j = i\<lparr>children := remove1 c (children i)\<rparr>" using j by (simp add: s')
    have oki: "inode_ok i" by (rule ok(1) [OF p(2)])
    then have dist: "distinct (children i)" by (simp add: inode_ok_def)
    have "inode_ok j" using oki dist p(3)
      by (cases "idata i") (auto simp: inode_ok_def je length_remove1)
    moreover have "distinct (map (\<lambda>x. iname (deref s x)) (remove1 c (children i)))"
      using ok(3) [OF p(2)] dist by (simp add: distinct_map inj_on_def)
    then have "distinct (map (\<lambda>x. iname (deref s' x)) (remove1 c (children i)))"
      using nm dist by (simp add: distinct_map inj_on_def)
    ultimately show ?thesis using keep [OF p(2)] True dist by (auto simp: je)
  next
    case False
    then have sa: "inodes s a = Some j" using j by (auto simp: s' split: if_splits)
    have nc: "x \<noteq> c" if "x \<in> set (children j)" for x using only [OF sa] that False by blast
    have eq: "map (\<lambda>x. iname (deref s' x)) (children j) = map (\<lambda>x. iname (deref s x)) (children j)"
      using nc nm by (intro map_cong refl) blast
    show ?thesis unfolding eq using ok(1,3) [OF sa] keep [OF sa] nc by blast
  qed
qed

lemma create_fail: "ramfs_create pol d c t s = (s', rc) \<Longrightarrow> rc \<noteq> 0 \<Longrightarrow> s' = s"
  by (auto simp: ramfs_create_def Let_def ramfs_alloc_inode_def split: if_splits option.splits)

lemma unlink_fail: "ramfs_unlink d c s = (s', rc) \<Longrightarrow> rc \<noteq> 0 \<Longrightarrow> s' = s"
  by (auto simp: ramfs_unlink_def Let_def split: if_splits option.splits)

lemma ram_find_entry:
  "ram_is_dir s d \<Longrightarrow> ramfs_finddir pol d c s = (s', Some n) \<Longrightarrow> ram_entry s (n_ptr d) c = Some (n_ptr n)"
  by (auto simp: ram_is_dir_def ramfs_finddir_def Let_def deref_def ram_entry_def inode_to_vfs_node_def
      split: if_splits option.splits)

interpretation ram: directory "\<lambda>s. good_policy pol \<and> ram_ok s" ram_is_dir n_ptr ram_entry
  "ramfs_finddir pol" "ramfs_create pol" ramfs_unlink for pol
proof (unfold_locales, goal_cases)
  case 1 then show ?case by (simp add: ramfs_finddir_def Let_def)
next
  case 2 then show ?case by (blast intro: ram_find_entry)
next
  case (3 s d c t s')
  then have c: "length c < 64" by (simp add: valid_name_def)
  show ?case
    using 3(1) create_ram_ok [OF _ _ 3(2) c 3(4)] create_ram_entry(1) [OF _ _ 3(2) c 3(4)] by blast
next
  case (4 s d c t s')
  then have c: "length c < 64" by (simp add: valid_name_def)
  note entry = create_ram_entry [OF _ _ 4(2) c 4(4)]
  show ?case using 4(1) entry by blast
next
  case 5 then show ?case by (blast intro: create_fail)
next
  case 6 then show ?case by (blast intro: unlink_ram_ok unlink_ram_entry(1))
next
  case (7 s d c s')
  note entry = unlink_ram_entry [OF _ 7(2,3)]
  show ?case using 7(1) entry by blast
next
  case 8 then show ?case by (blast intro: unlink_fail)
qed

section \<open>Contents of files\<close>

definition file_bytes :: "ramfs_inode \<Rightarrow> u8 list" where
  "file_bytes i = (case idata i of None \<Rightarrow> [] | Some d \<Rightarrow> take (unat (isize i)) d)"

lemma length_file_bytes: "inode_ok i \<Longrightarrow> length (file_bytes i) = unat (isize i)"
  by (auto simp: inode_ok_def file_bytes_def word_le_nat_alt split: option.splits)

lemma length_overwrite: "off + length bs \<le> length d \<Longrightarrow> length (overwrite d off bs) = length d"
  by (simp add: overwrite_def)

lemma nth_overwrite:
  "off + length bs \<le> length d \<Longrightarrow> k < length d \<Longrightarrow>
   overwrite d off bs ! k = (if off \<le> k \<and> k < off + length bs then bs ! (k - off) else d ! k)"
  by (auto simp: overwrite_def nth_append)

lemma take_overwrite_0: "length bs \<le> length d \<Longrightarrow> take (length bs) (overwrite d 0 bs) = bs"
  by (simp add: overwrite_def)

lemma grow_cap_enough: "needed \<le> grow_cap needed"
proof -
  define c :: u64 where "c = ucast needed * 2"
  have un: "unat (ucast needed :: u64) = unat needed" by (rule unat_ucast_u32_u64)
  have lt: "unat needed < 2 ^ 32" using unsigned_less [of needed, where 'a = nat] by simp
  have c: "unat c = unat needed * 2"
    unfolding c_def by (subst unat_mult_lem [THEN iffD1]) (use lt un in simp_all)
  show ?thesis
    using lt c unfolding grow_cap_def Let_def c_def [symmetric]
    by (auto simp: word_le_nat_alt word_less_nat_alt unsigned_ucast_eq take_bit_nat_def split: if_splits)
qed

lemma grow_keeps:
  assumes "inode_ok i" "good_policy pol" "ramfs_grow pol s i needed = Some j"
  shows "inode_ok j" "needed \<le> icap j" "isize j = isize i" "file_bytes j = file_bytes i"
    "iname j = iname i" "itype j = itype i" "children j = children i" "iparent j = iparent i"
proof -
  have cap: "icap i < needed \<Longrightarrow> icap i < grow_cap needed" using grow_cap_enough [of needed] by simp
  have len: "length new = unat (grow_cap needed)" if "new_data pol s (grow_cap needed) = Some new" for new
    using assms(2) that by (auto simp: good_policy_def)
  show "needed \<le> icap j" using assms(3) grow_cap_enough [of needed]
    by (auto simp: ramfs_grow_def not_less split: if_splits option.splits)
  show "isize j = isize i" "iname j = iname i" "itype j = itype i" "children j = children i" "iparent j = iparent i"
    using assms(3) by (auto simp: ramfs_grow_def split: if_splits option.splits)
  show "inode_ok j" using assms(1,3) cap len
    by (auto simp: ramfs_grow_def inode_ok_def overwrite_def word_le_nat_alt word_less_nat_alt
        split: if_splits option.splits)
  show "file_bytes j = file_bytes i" using assms(1,3) cap len
    by (auto simp: ramfs_grow_def inode_ok_def file_bytes_def word_le_nat_alt word_less_nat_alt overwrite_def
        split: if_splits option.splits)
qed

lemma write_range:
  assumes "0 \<le> offset" "offset < 2 ^ 63" "len < 2 ^ 64"
  defines "off \<equiv> of_int offset :: u64" and "endp \<equiv> of_int offset + of_nat len :: u64"
  shows "(endp < off \<or> 0xFFFFFFFF < endp) \<longleftrightarrow> 2 ^ 32 \<le> nat offset + len"
    and "nat offset + len < 2 ^ 32 \<Longrightarrow> unat (ucast endp :: u32) = nat offset + len"
proof -
  have off: "unat off = nat offset"
    using assms(1,2) by (simp add: off_def unat_eq_nat_uint uint_word_of_int)
  have len: "unat (of_nat len :: u64) = len" using assms(3) by simp
  have en: "unat endp = (nat offset + len) mod 2 ^ 64"
    unfolding endp_def by (simp add: unat_word_ariths(1) flip: off_def) (use off len in simp)
  show "(endp < off \<or> 0xFFFFFFFF < endp) \<longleftrightarrow> 2 ^ 32 \<le> nat offset + len"
  proof (cases "nat offset + len < 2 ^ 64")
    case True
    then show ?thesis using off en by (auto simp: word_less_nat_alt)
  next
    case False
    then have "unat endp = nat offset + len - 2 ^ 64"
      unfolding en using assms(2,3) by (subst mod_if) (auto simp: le_mod_geq)
    then show ?thesis using off False assms(2,3) by (auto simp: word_less_nat_alt)
  qed
  show "unat (ucast endp :: u32) = nat offset + len" if "nat offset + len < 2 ^ 32"
    using that en by (simp add: unsigned_ucast_eq take_bit_nat_def)
qed

lemma ramfs_write_shape:
  assumes "inodes s (n_ptr node) = Some i" "itype i = VFS_FILE" "0 \<le> offset" "offset < 2 ^ 63"
    "length buf < 2 ^ 64"
  shows "ramfs_write pol node buf offset s =
    (if 2 ^ 32 \<le> nat offset + length buf then (s, - 1)
     else case ramfs_grow pol s i (of_nat (nat offset + length buf)) of
            None \<Rightarrow> (s, - 1)
          | Some j \<Rightarrow>
              (s\<lparr>inodes := (inodes s)(n_ptr node \<mapsto>
                   j\<lparr>idata := map_option (\<lambda>d. overwrite d (nat offset) buf) (idata j),
                     isize := max (isize j) (of_nat (nat offset + length buf))\<rparr>)\<rparr>, int (length buf)))"
proof -
  let ?endp = "of_int offset + of_nat (length buf) :: u64"
  have needed: "(ucast ?endp :: u32) = of_nat (nat offset + length buf)" if "nat offset + length buf < 2 ^ 32"
    using write_range(2) [OF assms(3-5) that] that by (intro word_eq_unatI) (simp add: unat_of_nat del: of_nat_add)
  show ?thesis
    using assms(1-3) write_range(1) [OF assms(3-5)] needed
    unfolding ramfs_write_def Let_def deref_def
    by (auto simp: max_def not_less simp del: of_nat_add split: option.split)
qed

lemma write_inode_ok:
  assumes "inode_ok j" "itype j = VFS_FILE" and n: "unat needed = off + length buf" and "needed \<le> icap j"
  defines "j' \<equiv> j\<lparr>idata := map_option (\<lambda>d. overwrite d off buf) (idata j),
      isize := max (isize j) needed\<rparr>"
  shows "inode_ok j'" "length (file_bytes j') = max (length (file_bytes j)) (off + length buf)"
    "take (length buf) (drop off (file_bytes j')) = buf"
    "k < length (file_bytes j) \<Longrightarrow> k < off \<or> off + length buf \<le> k \<Longrightarrow> file_bytes j' ! k = file_bytes j ! k"
proof -
  have m: "unat (max (isize j) needed) = max (unat (isize j)) (off + length buf)"
    using n by (auto simp: max_def word_le_nat_alt)
  have cap: "off + length buf \<le> unat (icap j)" using assms(4) n by (simp add: word_le_nat_alt)
  show ok': "inode_ok j'"
    using assms(1,2,4) cap
    by (auto simp: inode_ok_def j'_def length_overwrite split: option.splits)
  show len: "length (file_bytes j') = max (length (file_bytes j)) (off + length buf)"
    unfolding length_file_bytes [OF ok'] length_file_bytes [OF assms(1)] by (simp add: j'_def m)
  show "take (length buf) (drop off (file_bytes j')) = buf"
  proof (cases "idata j")
    case None
    then show ?thesis using assms(1) cap by (simp add: inode_ok_def)
  next
    case (Some d)
    then have "length d = unat (icap j)" using assms(1) by (simp add: inode_ok_def)
    then show ?thesis using cap Some m
      by (simp add: file_bytes_def j'_def overwrite_def drop_take min_def max_def)
  qed
  show "file_bytes j' ! k = file_bytes j ! k"
    if "k < length (file_bytes j)" "k < off \<or> off + length buf \<le> k"
  proof (cases "idata j")
    case None
    then show ?thesis using that by (simp add: file_bytes_def)
  next
    case (Some d)
    then have d: "length d = unat (icap j)" "k < length d" "k < unat (isize j)"
      using assms(1) that(1) by (auto simp: inode_ok_def file_bytes_def)
    show ?thesis using that(2) d Some cap m
      by (auto simp: file_bytes_def j'_def nth_overwrite)
  qed
qed

text \<open>A write touches one inode and leaves its place in the tree alone.\<close>

lemma ram_ok_update_file:
  assumes "ram_ok s" "inodes s p = Some i" "inode_ok j" "iname j = iname i" "children j = children i"
    "iparent j = iparent i" "inodes s' = (inodes s)(p \<mapsto> j)"
  shows "ram_ok s'"
  unfolding ram_ok_def
proof (intro allI impI)
  have nm: "iname (deref s' c) = iname (deref s c)" for c
    using assms(2,4) by (simp add: deref_def assms(7))
  have up: "\<exists>ci. inodes s' c = Some ci \<and> iparent ci = Some a"
    if "\<exists>ci. inodes s c = Some ci \<and> iparent ci = Some a" for c a
    using that assms(2,6) by (auto simp: assms(7))
  fix a k assume k: "inodes s' a = Some k"
  obtain k' where "inodes s a = Some k'" "children k = children k'" "inode_ok k"
    using k assms(2,3,5) ram_okD(1) [OF assms(1)] by (cases "a = p") (auto simp: assms(7))
  with ram_okD(2,3) [OF assms(1)]
  show "inode_ok k \<and> (\<forall>c \<in> set (children k). \<exists>ci. inodes s' c = Some ci \<and> iparent ci = Some a) \<and>
      distinct (map (\<lambda>c. iname (deref s' c)) (children k))"
    using up by (simp add: nm)
qed

lemma ramfs_write_effect:
  assumes ok: "ram_ok s" and pol: "good_policy pol"
    and i: "inodes s (n_ptr node) = Some i" "itype i = VFS_FILE"
    and off: "0 \<le> offset" "offset < 2 ^ 63" and buf: "length buf < 2 ^ 64"
    and w: "ramfs_write pol node buf offset s = (s', r)" "0 \<le> r"
  obtains j where "r = int (length buf)" "ram_ok s'" "inodes s' = (inodes s)(n_ptr node \<mapsto> j)" "inode_ok j"
    "itype j = VFS_FILE" "iname j = iname i" "children j = children i" "length (file_bytes j) = max (length (file_bytes i)) (nat offset + length buf)"
    "take (length buf) (drop (nat offset) (file_bytes j)) = buf"
    "\<And>k. k < length (file_bytes i) \<Longrightarrow> k < nat offset \<or> nat offset + length buf \<le> k \<Longrightarrow>
       file_bytes j ! k = file_bytes i ! k"
proof -
  define needed :: u32 where "needed = of_nat (nat offset + length buf)"
  obtain g where g: "ramfs_grow pol s i needed = Some g" and lt: "nat offset + length buf < 2 ^ 32"
    and r: "r = int (length buf)"
    and s': "s' = s\<lparr>inodes := (inodes s)(n_ptr node \<mapsto>
        g\<lparr>idata := map_option (\<lambda>d. overwrite d (nat offset) buf) (idata g), isize := max (isize g) needed\<rparr>)\<rparr>"
    using w ramfs_write_shape [OF i off buf, of pol] unfolding needed_def
    by (auto split: if_splits option.splits)
  have n: "unat needed = nat offset + length buf"
    using lt by (simp add: needed_def unat_of_nat del: of_nat_add)
  note oki = ram_okD(1) [OF ok i(1)]
  note gk = grow_keeps [OF oki pol g]
  note wk = write_inode_ok [OF gk(1) _ n gk(2)]
  have ft: "itype g = VFS_FILE" using gk(6) i(2) by simp
  define j where "j = g\<lparr>idata := map_option (\<lambda>d. overwrite d (nat offset) buf) (idata g),
      isize := max (isize g) needed\<rparr>"
  note jk = wk [OF ft, folded j_def]
  have s'': "inodes s' = (inodes s)(n_ptr node \<mapsto> j)" by (simp add: s' j_def)
  have jt: "iname j = iname i" "children j = children i" "iparent j = iparent i" "itype j = VFS_FILE"
    using gk ft by (simp_all add: j_def)
  have ok': "ram_ok s'" by (rule ram_ok_update_file [OF ok i(1) jk(1) jt(1-3) s''])
  show thesis by (rule that [OF r ok' s'' jk(1) jt(4,1,2) jk(2) [unfolded gk(4)] jk(3) jk(4) [unfolded gk(4)]])
qed

lemma ramfs_read_bytes:
  assumes "inodes s (n_ptr node) = Some i" "inode_ok i" "itype i = VFS_FILE" "0 \<le> offset"
  shows "ramfs_read node sz offset s =
    (s, int (length (take (unat sz) (drop (nat offset) (file_bytes i)))), take (unat sz) (drop (nat offset) (file_bytes i)))"
proof (cases "uint (isize i) \<le> offset")
  case True
  then have "unat (isize i) \<le> nat offset" using assms(4) by (simp add: le_nat_iff)
  then show ?thesis
    using True assms length_file_bytes [OF assms(2)] by (simp add: ramfs_read_def deref_def)
next
  case False
  define avail :: u64 where "avail = ucast (isize i) - of_int offset"
  have lt: "nat offset < unat (isize i)" using False assms(4) by (simp add: nat_less_iff)
  have "(of_int offset :: u64) = of_nat (nat offset)" using assms(4) by simp
  then have "unat (of_int offset :: u64) = nat offset"
    using lt unsigned_less [of "isize i", where 'a = nat]
    by (simp only: unat_of_nat) simp
  then have av: "unat avail = unat (isize i) - nat offset"
    unfolding avail_def using lt by (subst unat_minus_no_wrap) (simp_all add: unat_ucast_u32_u64)
  define m where "m = (if avail < sz then avail else sz)"
  have n: "unat m = min (unat sz) (unat (isize i) - nat offset)"
    using av by (auto simp: word_less_nat_alt m_def)
  obtain d where d: "idata i = Some d" using assms(2) lt by (cases "idata i") (auto simp: inode_ok_def)
  have "take (min (unat sz) (unat (isize i) - nat offset)) (drop (nat offset) d) =
      take (unat sz) (drop (nat offset) (file_bytes i))"
    by (simp add: file_bytes_def d drop_take min.commute)
  moreover have "uint m = int (min (unat sz) (unat (isize i) - nat offset))"
    unfolding n [symmetric] by simp
  moreover have "length (take (unat sz) (drop (nat offset) (file_bytes i))) =
      min (unat sz) (unat (isize i) - nat offset)"
    using length_file_bytes [OF assms(2)] by simp
  ultimately show ?thesis
    using assms(1,3,4) False n d
    by (simp add: ramfs_read_def Let_def deref_def flip: avail_def m_def)
qed

section \<open>Files through paths\<close>

text \<open>Two states with the same tree of directories answer the same lookups, up to the size that
  is copied into the node.\<close>

definition same_tree :: "ramfs \<Rightarrow> ramfs \<Rightarrow> bool" where
  "same_tree s s' \<longleftrightarrow> (\<forall>a. map_option (\<lambda>i. (iname i, itype i, children i)) (inodes s' a) =
     map_option (\<lambda>i. (iname i, itype i, children i)) (inodes s a))"

abbreviation (input) ram_files :: "ram_policy \<Rightarrow> ram_node \<Rightarrow> (ramfs, ram_node) vfs_ops option" where
  "ram_files pol \<equiv> (\<lambda>_. Some (ramfs_ops pol))"

lemma ramfs_ops_select [simp]:
  "op_read (ramfs_ops pol) = Some ramfs_read" "op_write (ramfs_ops pol) = Some (ramfs_write pol)"
  "op_finddir (ramfs_ops pol) = Some (ramfs_finddir pol)"
  by (simp_all add: ramfs_ops_def)

lemma same_tree_deref:
  assumes "same_tree s s'"
  shows "iname (deref s' a) = iname (deref s a)" "itype (deref s' a) = itype (deref s a)"
    "children (deref s' a) = children (deref s a)"
  using assms unfolding same_tree_def deref_def
  by (cases "inodes s a"; cases "inodes s' a"; auto dest!: spec [of _ a])+

lemma ramfs_finddir_cases:
  assumes "\<forall>s. new_node pol s"
  shows "ramfs_finddir pol n c s =
    (s, if itype (deref s (n_ptr n)) \<noteq> VFS_DIR then None
        else map_option (\<lambda>a. \<lparr>n_name = take 63 (iname (deref s a)), n_type = itype (deref s a),
               n_size = isize (deref s a), n_inode = inode_num (deref s a), n_ptr = a\<rparr>)
               (find_child s c (children (deref s (n_ptr n)))))"
  using assms by (auto simp: ramfs_finddir_def Let_def inode_to_vfs_node_def split: option.split)

lemma lookup_same_tree:
  assumes "same_tree s s'" "\<forall>s. new_node pol s" "n_ptr n' = n_ptr n"
  shows "map_option n_ptr (snd (lookup_all (ram_files pol) n' cs s')) =
    map_option n_ptr (snd (lookup_all (ram_files pol) n cs s))"
  using assms(3)
proof (induction cs arbitrary: n n')
  case (Cons c cs)
  note nd = same_tree_deref [OF assms(1)]
  have fc: "find_child s' c ds = find_child s c ds" for ds by (rule find_child_cong) (rule nd(1))
  show ?case
  proof (cases "length c < 64 \<and> itype (deref s (n_ptr n)) = VFS_DIR \<and> find_child s c (children (deref s (n_ptr n))) \<noteq> None")
    case True
    then obtain a where "find_child s c (children (deref s (n_ptr n))) = Some a" by blast
    with True show ?thesis
      by (simp add: ramfs_finddir_cases [OF assms(2)] Cons.prems nd fc Cons.IH)
  next
    case False
    then show ?thesis by (auto simp: ramfs_finddir_cases [OF assms(2)] Cons.prems nd fc)
  qed
qed simp

lemma lookup_exists:
  assumes "ram_ok s" "n_ptr n \<in> dom (inodes s)" "lookup_all (ram_files pol) n cs s = (s', r)"
  shows "s' = s \<and> (\<forall>m. r = Some m \<longrightarrow> n_ptr m \<in> dom (inodes s))"
  using assms(2,3)
proof (induction cs arbitrary: n)
  case (Cons c cs)
  obtain i where i: "inodes s (n_ptr n) = Some i" using Cons.prems(1) by blast
  show ?case
  proof (cases "snd (ramfs_finddir pol n c s)")
    case None
    then show ?thesis
      using Cons.prems(2) by (auto simp: ramfs_finddir_def Let_def split: if_splits)
  next
    case (Some m)
    then have "n_ptr m \<in> set (children i)"
      by (auto simp: ramfs_finddir_def Let_def inode_to_vfs_node_def deref_def i
          split: if_splits option.splits dest: find_child_Some)
    then have "n_ptr m \<in> dom (inodes s)" using ram_okD(2) [OF assms(1) i] by blast
    moreover have "ramfs_finddir pol n c s = (s, Some m)"
      using Some by (auto simp: ramfs_finddir_def Let_def split: if_splits)
    ultimately show ?thesis using Cons.IH Cons.prems(2) by (auto split: if_splits)
  qed
qed auto

lemma vfs_resolve_lookup:
  assumes "CHR 0x00 \<notin> set path"
  obtains (none) "\<And>s. vfs_resolve ops_of ms path s = (s, None)"
  | (walk) m cs where "m \<in> set ms" "in_use m" "\<And>s. vfs_resolve ops_of ms path s = lookup_all ops_of (mnt_root m) cs s"
proof (cases "find_mount_loop path ms None 0")
  case (Pair b l)
  show thesis
  proof (cases b)
    case None
    show thesis by (rule none) (simp add: vfs_resolve_walk [OF assms] Pair None)
  next
    case (Some m)
    have "m \<in> set ms" "in_use m" using find_mount_loop_best [OF Pair] Some by (auto simp: mount_matches_under)
    then show thesis by (rule walk) (simp add: vfs_resolve_walk [OF assms] Pair Some)
  qed
qed

definition roots_exist :: "(ram_node, 'd) mounts \<Rightarrow> ramfs \<Rightarrow> bool" where
  "roots_exist ms s \<longleftrightarrow> (\<forall>m \<in> set ms. in_use m \<longrightarrow> n_ptr (mnt_root m) \<in> dom (inodes s))"

lemma ram_resolve:
  assumes "ram_ok s" "roots_exist ms s" "CHR 0x00 \<notin> set path" "vfs_resolve (ram_files pol) ms path s = (s', r)"
  shows "s' = s \<and> (\<forall>n. r = Some n \<longrightarrow> n_ptr n \<in> dom (inodes s))"
proof (rule vfs_resolve_lookup [OF assms(3), of "ram_files pol" ms])
  fix m cs assume "m \<in> set ms" "in_use m"
    and w: "\<And>s. vfs_resolve (ram_files pol) ms path s = lookup_all (ram_files pol) (mnt_root m) cs s"
  then have "n_ptr (mnt_root m) \<in> dom (inodes s)" using assms(2) unfolding roots_exist_def by blast
  from lookup_exists [OF assms(1) this] show ?thesis using assms(4) unfolding w .
qed (use assms(4) in simp)

lemma ram_resolve_same_tree:
  assumes "same_tree s s'" "\<forall>s. new_node pol s" "CHR 0x00 \<notin> set path"
  shows "map_option n_ptr (snd (vfs_resolve (ram_files pol) ms path s')) =
    map_option n_ptr (snd (vfs_resolve (ram_files pol) ms path s))"
proof (rule vfs_resolve_lookup [OF assms(3), of "ram_files pol" ms])
  fix m cs
  assume w: "\<And>s. vfs_resolve (ram_files pol) ms path s = lookup_all (ram_files pol) (mnt_root m) cs s"
  show ?thesis unfolding w by (rule lookup_same_tree [OF assms(1,2) refl])
qed simp

lemma ramfs_read_cong:
  "n_ptr n' = n_ptr n \<Longrightarrow> inodes s' (n_ptr n) = inodes s (n_ptr n) \<Longrightarrow>
   snd (ramfs_read n' sz off s') = snd (ramfs_read n sz off s)"
  by (simp add: ramfs_read_def Let_def deref_def)

lemma same_tree_dom: "same_tree s s' \<Longrightarrow> a \<in> dom (inodes s') \<longleftrightarrow> a \<in> dom (inodes s)"
  unfolding same_tree_def by (drule spec [of _ a]) (cases "inodes s a"; cases "inodes s' a"; auto)

lemma same_tree_roots: "same_tree s s' \<Longrightarrow> roots_exist ms s \<Longrightarrow> roots_exist ms s'"
  unfolding roots_exist_def using same_tree_dom by blast

text \<open>A read through a path, once its object is known.\<close>

lemma vfs_read_ram:
  assumes "ram_ok s" "roots_exist ms s" "CHR 0x00 \<notin> set path"
  shows "vfs_read (ram_files pol) ms path sz off s =
    (case snd (vfs_resolve (ram_files pol) ms path s) of
       None \<Rightarrow> (s, - 1, [])
     | Some n \<Rightarrow> (s, snd (ramfs_read n sz off s)))"
proof (cases "vfs_resolve (ram_files pol) ms path s")
  case (Pair s1 r)
  have "s1 = s" using ram_resolve [OF assms Pair] by blast
  moreover have "fst (ramfs_read n sz off s) = s" for n by (simp add: ramfs_read_def Let_def)
  then have "ramfs_read n sz off s = (s, snd (ramfs_read n sz off s))" for n by (metis prod.collapse)
  ultimately show ?thesis using Pair by (auto simp: vfs_read_def with_node_def split: option.split)
qed

text \<open>C19: Writing through a path and reading back.  A write through a path that resolves into a
  ramfs and does not fail writes the whole buffer and keeps the invariant of the tree.  A read of
  the same path, offset and length then returns exactly the bytes written, and every path that
  resolves to another object reads what it read before.  The hypotheses: \<open>kmalloc\<close> returns fresh
  memory and does not run out while a path is walked, the mounted roots exist, the offset is a
  non-negative \<open>off_t\<close> and the length a \<open>size_t\<close>.\<close>

theorem vfs_ramfs_write_read:
  assumes pol: "good_policy pol" "\<forall>s. new_node pol s" and ok: "ram_ok s" and ro: "roots_exist ms s"
    and path: "CHR 0x00 \<notin> set path" and off: "0 \<le> offset" "offset < 2 ^ 63" and buf: "length buf < 2 ^ 64"
    and w: "vfs_write (ram_files pol) ms path buf offset s = (s', r)" "0 \<le> r"
  shows "r = int (length buf) \<and> ram_ok s' \<and>
    vfs_read (ram_files pol) ms path (of_nat (length buf)) offset s' = (s', int (length buf), buf) \<and>
    (\<forall>q sz o'. CHR 0x00 \<notin> set q \<and>
       map_option n_ptr (snd (vfs_resolve (ram_files pol) ms q s)) \<noteq>
         map_option n_ptr (snd (vfs_resolve (ram_files pol) ms path s)) \<longrightarrow>
       snd (vfs_read (ram_files pol) ms q sz o' s') = snd (vfs_read (ram_files pol) ms q sz o' s))"
proof -
  obtain s1 n where n: "vfs_resolve (ram_files pol) ms path s = (s1, Some n)"
    using w by (cases "vfs_resolve (ram_files pol) ms path s")
      (auto simp: vfs_write_def with_node_def split: option.splits)
  then have s1: "s1 = s" and "n_ptr n \<in> dom (inodes s)" using ram_resolve [OF ok ro path n] by blast+
  then obtain i where i: "inodes s (n_ptr n) = Some i" by blast
  have w': "ramfs_write pol n buf offset s = (s', r)" using w(1) n s1 by (simp add: vfs_write_def with_node_def)
  then have ft: "itype i = VFS_FILE" using w(2) i by (auto simp: ramfs_write_def deref_def split: if_splits)
  obtain j where r: "r = int (length buf)" and ok': "ram_ok s'" and s': "inodes s' = (inodes s)(n_ptr n \<mapsto> j)"
    and j: "inode_ok j" "itype j = VFS_FILE" "iname j = iname i" "children j = children i"
    and bytes: "take (length buf) (drop (nat offset) (file_bytes j)) = buf"
    by (rule ramfs_write_effect [OF ok pol(1) i ft off buf w' w(2)])
  have tree: "same_tree s s'" using i ft j by (simp add: same_tree_def s')
  note ro' = same_tree_roots [OF tree ro]
  note same = ram_resolve_same_tree [OF tree pol(2)]
  obtain n' where n': "snd (vfs_resolve (ram_files pol) ms path s') = Some n'" "n_ptr n' = n_ptr n"
    using same [OF path, of ms] n by auto
  have "ramfs_read n' (of_nat (length buf)) offset s' = (s', int (length buf), buf)"
    using ramfs_read_bytes [of s' n' j offset "of_nat (length buf)"] s' n'(2) j off(1) bytes buf
    by (simp del: length_take)
  then have rd: "vfs_read (ram_files pol) ms path (of_nat (length buf)) offset s' = (s', int (length buf), buf)"
    by (simp add: vfs_read_ram [OF ok' ro' path] n')
  have other: "snd (vfs_read (ram_files pol) ms q sz o' s') = snd (vfs_read (ram_files pol) ms q sz o' s)"
    if q: "CHR 0x00 \<notin> set q" "map_option n_ptr (snd (vfs_resolve (ram_files pol) ms q s)) \<noteq>
         map_option n_ptr (snd (vfs_resolve (ram_files pol) ms path s))" for q sz o'
  proof (cases "snd (vfs_resolve (ram_files pol) ms q s)")
    case None
    then show ?thesis using same [OF q(1), of ms]
      by (simp add: vfs_read_ram [OF ok' ro' q(1)] vfs_read_ram [OF ok ro q(1)])
  next
    case (Some k)
    then obtain k' where k': "snd (vfs_resolve (ram_files pol) ms q s') = Some k'" "n_ptr k' = n_ptr k"
      using same [OF q(1), of ms] by auto
    have "n_ptr k \<noteq> n_ptr n" using q(2) Some n by simp
    then have "inodes s' (n_ptr k) = inodes s (n_ptr k)" by (simp add: s')
    from ramfs_read_cong [OF k'(2) this] show ?thesis using Some k'(1)
      by (simp add: vfs_read_ram [OF ok' ro' q(1)] vfs_read_ram [OF ok ro q(1)])
  qed
  show ?thesis using r ok' rd other by blast
qed

text \<open>A tree with one file, and a \<open>kmalloc\<close> with room for two more inodes.\<close>

definition demo_file :: ramfs_inode where
  "demo_file = \<lparr>iname = ''a'', itype = VFS_FILE, inode_num = 2, idata = Some [1, 2, 3, 4], isize = 3, icap = 4,
     children = [], iparent = Some 0\<rparr>"

definition demo_root :: ramfs_inode where
  "demo_root = \<lparr>iname = ''/'', itype = VFS_DIR, inode_num = 1, idata = None, isize = 0, icap = 0,
     children = [1], iparent = None\<rparr>"

definition demo_ram :: ramfs where
  "demo_ram = \<lparr>inodes = [0 \<mapsto> demo_root, 1 \<mapsto> demo_file], next_inode = 3\<rparr>"

definition demo_policy :: ram_policy where
  "demo_policy = \<lparr>new_inode = (\<lambda>s. if inodes s 2 = None then Some 2 else if inodes s 3 = None then Some 3 else None),
     new_node = (\<lambda>_. True), new_data = (\<lambda>_ n. Some (replicate (unat n) 0))\<rparr>"

definition demo_node :: ram_node where
  "demo_node = \<lparr>n_name = ''/'', n_type = VFS_DIR, n_size = 0, n_inode = 1, n_ptr = 0\<rparr>"

definition demo_mounts :: "(ram_node, unit) mounts" where
  "demo_mounts = [\<lparr>mount_point = ''/'', mnt_root = demo_node, mnt_data = (), in_use = True\<rparr>]"

lemmas demo_defs = demo_file_def demo_root_def demo_ram_def demo_policy_def demo_node_def demo_mounts_def

lemma demo_ok: "ram_ok demo_ram" "good_policy demo_policy" "\<forall>s. new_node demo_policy s"
  "roots_exist demo_mounts demo_ram" "ram_is_dir demo_ram demo_node"
  by (auto simp: demo_defs ram_ok_def inode_ok_def good_policy_def roots_exist_def ram_is_dir_def
      split: if_splits)

theorem vfs_ramfs_write_read_witness:
  "vfs_read (ram_files demo_policy) demo_mounts ''/a'' 2 1
     (fst (vfs_write (ram_files demo_policy) demo_mounts ''/a'' [8, 9] 1 demo_ram)) =
   (fst (vfs_write (ram_files demo_policy) demo_mounts ''/a'' [8, 9] 1 demo_ram), 2, [8, 9])"
proof -
  have "vfs_resolve (ram_files demo_policy) demo_mounts ''/a'' demo_ram =
      (demo_ram, Some \<lparr>n_name = ''a'', n_type = 1, n_size = 3, n_inode = 2, n_ptr = 1\<rparr>)"
    by (simp add: vfs_resolve_walk demo_defs components_def mount_matches_def ramfs_finddir_cases
        deref_def char_at_def Let_def)
  then have "snd (vfs_write (ram_files demo_policy) demo_mounts ''/a'' [8, 9] 1 demo_ram) = 2"
    by (simp add: vfs_write_def with_node_def ramfs_write_def Let_def deref_def demo_ram_def demo_file_def
        ramfs_grow_def)
  then have "vfs_write (ram_files demo_policy) demo_mounts ''/a'' [8, 9] 1 demo_ram =
      (fst (vfs_write (ram_files demo_policy) demo_mounts ''/a'' [8, 9] 1 demo_ram), 2)"
    by (metis prod.collapse)
  from vfs_ramfs_write_read [OF demo_ok(2,3,1,4) _ _ _ _ this] show ?thesis by simp
qed

text \<open>The inode made by \<open>create\<close> is empty, so it can be unlinked at once.\<close>

lemma unlink_new:
  assumes "ram_ok s" "good_policy pol" "ram_is_dir s d" "length name < 64"
    "ramfs_create pol d name type s = (s', 0)"
  shows "snd (ramfs_unlink d name s') = 0"
proof -
  obtain p i c where p: "n_ptr d = p" "inodes s p = Some i" "itype i = VFS_DIR"
    and absent: "find_child s name (children i) = None" and cp: "c \<noteq> p"
    and s': "inodes s' = (inodes s)(c \<mapsto> \<lparr>iname = take 63 name, itype = type, inode_num = next_inode s,
        idata = None, isize = 0, icap = 0, children = [], iparent = Some p\<rparr>,
        p \<mapsto> i\<lparr>children := children i @ [c]\<rparr>)"
    and not_child: "\<And>b j. inodes s b = Some j \<Longrightarrow> c \<notin> set (children j)"
    and nm: "\<And>x. x \<noteq> c \<Longrightarrow> iname (deref s' x) = iname (deref s x)" and nmc: "iname (deref s' c) = name"
    by (rule create_facts [OF assms]) blast
  have "find_child s' name (children i) = None"
    unfolding absent [symmetric] by (rule find_child_cong) (use not_child [OF p(2)] nm in metis)
  then have fc: "find_child s' name (children i @ [c]) = Some c" by (simp add: find_child_append nmc)
  have dp: "deref s' p = i\<lparr>children := children i @ [c]\<rparr>" by (simp add: deref_def s')
  have dc: "children (deref s' c) = []" using cp by (simp add: deref_def s')
  show ?thesis by (simp add: ramfs_unlink_def Let_def p dp dc fc)
qed

text \<open>C24: Directories.  Creating an entry with a name of at most 63 characters succeeds only when the
  name is absent; it keeps the invariant of the tree and adds exactly this entry.  Creating the name
  again fails, unlinking it succeeds and restores every directory as it was.  A call that fails
  changes nothing.\<close>

theorem ramfs_directory_contract:
  assumes pol: "good_policy pol" and ok: "ram_ok s" and d: "ram_is_dir s d" and c: "valid_name c"
    and cr: "ramfs_create pol d c t s = (s', rc)"
  shows "if rc = 0
    then ram_ok s' \<and> ram_entry s (n_ptr d) c = None \<and> ram_entry s' (n_ptr d) c \<noteq> None \<and>
      (\<forall>i c'. (i, c') \<noteq> (n_ptr d, c) \<longrightarrow> ram_entry s' i c' = ram_entry s i c') \<and>
      snd (ramfs_create pol d c t' s') \<noteq> 0 \<and>
      snd (ramfs_unlink d c s') = 0 \<and> ram_ok (fst (ramfs_unlink d c s')) \<and>
      (\<forall>i c'. ram_entry (fst (ramfs_unlink d c s')) i c' = ram_entry s i c')
    else s' = s"
proof (cases "rc = 0")
  case True
  have okp: "good_policy pol \<and> ram_ok s" using pol ok by blast
  note cr0 = cr [unfolded True]
  note made = ram.create_ok [OF okp d c cr0] and entries = ram.create_entry [OF okp d c cr0]
    and twice = ram.create_twice [OF okp d c cr0]
  have c64: "length c < 64" using c by (simp add: valid_name_def)
  have un: "ramfs_unlink d c s' = (fst (ramfs_unlink d c s'), 0)"
    using unlink_new [OF ok pol d c64 cr0] by (metis prod.collapse)
  note gone = ram.unlink_create [OF okp d c cr0 un]
  have "ram_ok (fst (ramfs_unlink d c s'))" using ram.unlink_ok [OF _ _ un] made by blast
  with True made entries twice gone unlink_new [OF ok pol d c64 cr0] show ?thesis by simp
next
  case False
  then show ?thesis using create_fail [OF cr] by simp
qed

theorem ramfs_directory_contract_witness:
  "ram_entry (fst (ramfs_create demo_policy demo_node ''b'' VFS_FILE demo_ram)) 0 ''a'' = Some 1 \<and>
   snd (ramfs_create demo_policy demo_node ''b'' VFS_FILE
     (fst (ramfs_create demo_policy demo_node ''b'' VFS_FILE demo_ram))) \<noteq> 0"
proof -
  have rc: "snd (ramfs_create demo_policy demo_node ''b'' VFS_FILE demo_ram) = 0"
    by (simp add: ramfs_create_def ramfs_alloc_inode_def demo_defs deref_def)
  have "valid_name ''b''" "ram_entry demo_ram 0 ''a'' = Some 1"
    by (simp_all add: valid_name_def ram_entry_def demo_defs deref_def)
  with ramfs_directory_contract [OF demo_ok(2,1,5) _ prod.collapse [symmetric],
      where c = "''b''" and t = VFS_FILE and t' = VFS_FILE] rc
  show ?thesis by (simp add: demo_node_def)
qed



end
