(* ===== verification/Machine.thy ===== *)
theory Machine
  imports Kernel_Prelude
begin

text \<open>
  What the process layer shares of the machine: the saved registers an interrupt leaves on the
  kernel stack (\<open>registers_t\<close> of \<open>src/kernel/isr.h\<close>), and 64-bit loads and stores on byte memory,
  little-endian as on x86-64.  The lemmas show that a load returns what the last store to its
  address wrote and that stores to disjoint words do not disturb each other.
\<close>

section \<open>Memory words\<close>

type_synonym bytes = "u64 \<Rightarrow> u8"

definition store64 :: "u64 \<Rightarrow> u64 \<Rightarrow> bytes \<Rightarrow> bytes" where
  "store64 a v m = (\<lambda>x. let k = unat (x - a) in if k < 8 then ucast (drop_bit (8 * k) v) else m x)"

definition load64 :: "bytes \<Rightarrow> u64 \<Rightarrow> u64" where
  "load64 m a = foldr (\<lambda>k w. w OR push_bit (8 * k) (ucast (m (a + of_nat k)))) [0..<8] 0"

definition apart :: "u64 \<Rightarrow> u64 \<Rightarrow> bool" where
  "apart a b \<longleftrightarrow> 8 \<le> unat (a - b) \<and> 8 \<le> unat (b - a)"

lemma foldr_or_bytes:
  "bit (foldr (\<lambda>k w. w OR push_bit (8 * k) (ucast (f k :: u8))) ks (0 :: u64)) n \<longleftrightarrow>
    (\<exists>k \<in> set ks. n < 64 \<and> 8 * k \<le> n \<and> bit (f k) (n - 8 * k))"
  by (induction ks) (auto simp: bit_or_iff bit_push_bit_iff bit_ucast_iff dest: bit_imp_le_length)

lemma bit_load64:
  assumes "n < 64"
  shows "bit (load64 m a) n \<longleftrightarrow> bit (m (a + of_nat (n div 8))) (n mod 8)"
proof -
  have "bit (load64 m a) n \<longleftrightarrow> (\<exists>k. 8 * k \<le> n \<and> bit (m (a + of_nat k)) (n - 8 * k))"
    unfolding load64_def foldr_or_bytes using assms by auto
  also have "\<dots> \<longleftrightarrow> bit (m (a + of_nat (n div 8))) (n mod 8)"
  proof
    assume "\<exists>k. 8 * k \<le> n \<and> bit (m (a + of_nat k)) (n - 8 * k)"
    then obtain k where k: "8 * k \<le> n" "bit (m (a + of_nat k)) (n - 8 * k)" by blast
    define r where "r = n - 8 * k"
    have "n = r + 8 * k" "r < 8" using k by (auto simp: r_def dest: bit_imp_le_length)
    then have "n div 8 = k" "n mod 8 = n - 8 * k" by simp_all
    then show "bit (m (a + of_nat (n div 8))) (n mod 8)" using k(2) by simp
  next
    assume "bit (m (a + of_nat (n div 8))) (n mod 8)"
    moreover have "8 * (n div 8) \<le> n" "n - 8 * (n div 8) = n mod 8"
      using assms by (simp_all add: minus_mult_div_eq_mod)
    ultimately show "\<exists>k. 8 * k \<le> n \<and> bit (m (a + of_nat k)) (n - 8 * k)" by metis
  qed
  finally show ?thesis .
qed

lemma load_store_same [simp]: "load64 (store64 a v m) a = v"
proof (rule bit_word_eqI)
  fix n assume "n < LENGTH(64)"
  then have n: "n < 64" by simp
  then have k: "unat (of_nat (n div 8) :: u64) = n div 8" "n div 8 < 8" by auto
  show "bit (load64 (store64 a v m) a) n \<longleftrightarrow> bit v n"
    unfolding bit_load64 [OF n] using k n
    by (simp add: store64_def bit_ucast_iff bit_drop_bit_eq del: of_nat_div)
qed

lemma load_store_other [simp]:
  assumes "apart a b"
  shows "load64 (store64 a v m) b = load64 m b"
proof -
  have "store64 a v m (b + of_nat k) = m (b + of_nat k)" if "k < 8" for k
  proof -
    define d where "d = b - a"
    have d: "8 \<le> unat d" "8 \<le> unat (- d)" using assms by (auto simp: apart_def d_def)
    have dk: "b + of_nat k - a = d + of_nat k" by (simp add: d_def)
    have "(unat d + unat (- d)) mod 2 ^ 64 = 0"
      using unat_word_ariths(1) [of d "- d"] by simp
    then obtain q where q: "unat d + unat (- d) = 2 ^ 64 * q" by (auto simp: mod_eq_0_iff_dvd)
    have "unat d < 2 ^ 64" "unat (- d) < 2 ^ 64"
      using unsigned_less [of d, where 'a = nat] unsigned_less [of "- d", where 'a = nat] by simp_all
    then have "q = 1" using q d by auto
    then have lim: "unat d + 8 \<le> 2 ^ 64" using q d(2) by simp
    have "unat (d + of_nat k) = unat d + k"
      using lim that by (subst unat_plus_no_wrap) (simp_all)
    then show ?thesis using d(1) by (simp add: store64_def dk Let_def)
  qed
  then show ?thesis by (intro bit_word_eqI) (simp add: bit_load64 del: of_nat_div)
qed

section \<open>Saved registers\<close>

record registers_t =
  rax :: u64
  rbx :: u64
  rcx :: u64
  rdx :: u64
  rsi :: u64
  rdi :: u64
  rbp :: u64
  r8 :: u64
  r9 :: u64
  r10 :: u64
  r11 :: u64
  r12 :: u64
  r13 :: u64
  r14 :: u64
  r15 :: u64
  int_no :: u64
  err_code :: u64
  rip :: u64
  cs :: u64
  rflags :: u64
  rsp :: u64
  ss :: u64

text \<open>The structure as the 22 words it occupies, the first field at the lowest address.\<close>

definition regs_words :: "registers_t \<Rightarrow> u64 list" where
  "regs_words r = [rax r, rbx r, rcx r, rdx r, rsi r, rdi r, rbp r, r8 r, r9 r, r10 r, r11 r, r12 r,
     r13 r, r14 r, r15 r, int_no r, err_code r, rip r, cs r, rflags r, rsp r, ss r]"

definition words_regs :: "u64 list \<Rightarrow> registers_t" where
  "words_regs w = \<lparr>rax = w ! 0, rbx = w ! 1, rcx = w ! 2, rdx = w ! 3, rsi = w ! 4, rdi = w ! 5,
     rbp = w ! 6, r8 = w ! 7, r9 = w ! 8, r10 = w ! 9, r11 = w ! 10, r12 = w ! 11, r13 = w ! 12,
     r14 = w ! 13, r15 = w ! 14, int_no = w ! 15, err_code = w ! 16, rip = w ! 17, cs = w ! 18,
     rflags = w ! 19, rsp = w ! 20, ss = w ! 21\<rparr>"

abbreviation (input) REGS_SIZE :: u64 where "REGS_SIZE \<equiv> 176"

fun store_words :: "u64 \<Rightarrow> u64 list \<Rightarrow> bytes \<Rightarrow> bytes" where
  "store_words a [] m = m"
| "store_words a (w # ws) m = store_words (a + 8) ws (store64 a w m)"

definition load_words :: "bytes \<Rightarrow> u64 \<Rightarrow> nat \<Rightarrow> u64 list" where
  "load_words m a n = map (\<lambda>i. load64 m (a + 8 * of_nat i)) [0..<n]"

definition store_regs :: "u64 \<Rightarrow> registers_t \<Rightarrow> bytes \<Rightarrow> bytes" where
  "store_regs a r = store_words a (regs_words r)"

definition load_regs :: "bytes \<Rightarrow> u64 \<Rightarrow> registers_t" where
  "load_regs m a = words_regs (load_words m a 22)"

text \<open>\<open>*(--sp) = v\<close>\<close>

definition push64 :: "u64 \<Rightarrow> u64 \<times> bytes \<Rightarrow> u64 \<times> bytes" where
  "push64 v = (\<lambda>(sp, m). (sp - 8, store64 (sp - 8) v m))"

lemma push64_pair: "push64 v (sp, m) = (sp - 8, store64 (sp - 8) v m)"
  by (simp add: push64_def)

lemma length_regs_words [simp]: "length (regs_words r) = 22"
  by (simp add: regs_words_def)

lemma words_regs_words [simp]: "words_regs (regs_words r) = r"
  by (simp add: words_regs_def regs_words_def)

lemma apart_words:
  assumes "i < j" "8 * j + 8 \<le> 2 ^ 64"
  shows "apart (a + 8 * of_nat i) (a + 8 * of_nat j)" "apart (a + 8 * of_nat j) (a + 8 * of_nat i)"
proof -
  define k where "k = j - i"
  have k: "0 < k" "8 * k + 8 \<le> 2 ^ 64" "j = i + k" using assms by (auto simp: k_def)
  define d :: u64 where "d = 8 * of_nat k"
  have un: "unat d = 8 * k"
    unfolding d_def using k(2) unat_of_nat_u64 [of "8 * k"] by simp
  have "unat (- d) = 2 ^ 64 - 8 * k"
  proof -
    have "(unat d + unat (- d)) mod 2 ^ 64 = 0" using unat_word_ariths(1) [of d "- d"] by simp
    then obtain q where q: "unat d + unat (- d) = 2 ^ 64 * q" by (auto simp: mod_eq_0_iff_dvd)
    moreover have "unat d < 2 ^ 64" "unat (- d) < 2 ^ 64"
      using unsigned_less [of d, where 'a = nat] unsigned_less [of "- d", where 'a = nat] by simp_all
    ultimately have "q = 1" using un k(1) by auto
    then show ?thesis using q un by simp
  qed
  moreover have "a + 8 * of_nat j - (a + 8 * of_nat i) = d" "a + 8 * of_nat i - (a + 8 * of_nat j) = - d"
    by (simp_all add: k(3) d_def algebra_simps)
  ultimately show "apart (a + 8 * of_nat i) (a + 8 * of_nat j)" "apart (a + 8 * of_nat j) (a + 8 * of_nat i)"
    using un k by (auto simp: apart_def)
qed

lemma store_words_outside:
  assumes "\<forall>i < length ws. apart (a + 8 * of_nat i) b"
  shows "load64 (store_words a ws m) b = load64 m b"
  using assms
proof (induction ws arbitrary: a m)
  case (Cons w ws)
  have "apart a b" using Cons.prems by force
  moreover have "apart (a + 8 + 8 * of_nat i) b" if "i < length ws" for i
    using Cons.prems [rule_format, of "Suc i"] that by (simp add: algebra_simps)
  ultimately show ?case using Cons.IH by simp
qed simp

lemma store_words_load:
  assumes "8 * length ws \<le> 2 ^ 64" "i < length ws"
  shows "load64 (store_words a ws m) (a + 8 * of_nat i) = ws ! i"
  using assms
proof (induction ws arbitrary: a m i)
  case (Cons w ws)
  show ?case
  proof (cases i)
    case 0
    have "apart (a + 8 + 8 * of_nat k) a" if "k < length ws" for k
      using apart_words(2) [of 0 "Suc k" a] Cons.prems(1) that by (simp add: algebra_simps)
    then show ?thesis using 0 by (simp add: store_words_outside)
  next
    case (Suc k)
    then show ?thesis using Cons.IH [of k "a + 8"] Cons.prems by (simp add: algebra_simps)
  qed
qed simp

lemma load_store_words: "8 * length ws \<le> 2 ^ 64 \<Longrightarrow> load_words (store_words a ws m) a (length ws) = ws"
  by (rule nth_equalityI) (simp_all add: load_words_def store_words_load)

lemma load_store_regs [simp]: "load_regs (store_regs a r m) a = r"
  using load_store_words [of "regs_words r" a m] by (simp add: load_regs_def store_regs_def)

text \<open>Pushing a list of words stores it, last word first, below the stack pointer.\<close>

lemma fold_push_words:
  "fold push64 ws (sp, m) = (sp - 8 * of_nat (length ws), snd (fold push64 ws (sp, m)))"
proof (induction ws arbitrary: sp m)
  case (Cons w ws)
  show ?case using Cons.IH [of "sp - 8"] by (simp add: push64_pair algebra_simps)
qed simp

lemma push_outside:
  assumes "\<forall>i < length ws. apart (sp - 8 * of_nat (Suc i)) b"
  shows "load64 (snd (fold push64 ws (sp, m))) b = load64 m b"
  using assms
proof (induction ws arbitrary: sp m)
  case (Cons w ws)
  have "apart (sp - 8) b" using Cons.prems by force
  moreover have "apart (sp - 8 - 8 * of_nat (Suc i)) b" if "i < length ws" for i
    using Cons.prems [rule_format, of "Suc i"] that by (simp add: algebra_simps)
  ultimately show ?case using Cons.IH [of "sp - 8"] by (simp add: push64_pair)
qed simp

lemma push_load:
  assumes "8 * length ws < 2 ^ 64" "i < length ws"
  shows "load64 (snd (fold push64 ws (sp, m))) (sp - 8 * of_nat (Suc i)) = ws ! i"
  using assms
proof (induction ws arbitrary: sp m i)
  case (Cons w ws)
  show ?case
  proof (cases i)
    case 0
    have "apart (sp - 8 - 8 * of_nat (Suc k)) (sp - 8)" if "k < length ws" for k
      using apart_words(1) [of 0 "Suc k" "sp - 8 - 8 * of_nat (Suc k)"] Cons.prems(1) that
      by (simp add: algebra_simps)
    then have "load64 (snd (fold push64 ws (sp - 8, store64 (sp - 8) w m))) (sp - 8) = w"
      by (subst push_outside) auto
    then show ?thesis using 0 by (simp add: push64_pair)
  next
    case (Suc k)
    then show ?thesis using Cons.IH [of k "sp - 8"] Cons.prems by (simp add: push64_pair algebra_simps)
  qed
qed simp

lemma push_words_load:
  assumes "8 * length ws < 2 ^ 64"
  shows "load_words (snd (fold push64 (rev ws) (sp, m))) (sp - 8 * of_nat (length ws)) (length ws) = ws"
proof (rule nth_equalityI)
  fix i assume "i < length (load_words (snd (fold push64 (rev ws) (sp, m)))
      (sp - 8 * of_nat (length ws)) (length ws))"
  then have i: "i < length ws" by (simp add: load_words_def)
  define j where "j = length ws - Suc i"
  have j: "j < length ws" "length ws = Suc j + i" using i by (auto simp: j_def)
  have pos: "sp - 8 * of_nat (length ws) + 8 * of_nat i = sp - 8 * of_nat (Suc j)"
    unfolding j(2) by (simp add: algebra_simps)
  have "rev ws ! j = ws ! i" using i j by (simp add: rev_nth)
  then show "load_words (snd (fold push64 (rev ws) (sp, m))) (sp - 8 * of_nat (length ws)) (length ws) ! i =
      ws ! i"
    using push_load [of "rev ws" j sp m] assms i j(1)
    by (simp only: load_words_def length_rev nth_map_upt) (simp add: pos del: of_nat_Suc)
qed (simp add: load_words_def)

lemma push_regs:
  "fold push64 (rev (regs_words r)) (sp, m) =
     (sp - REGS_SIZE, snd (fold push64 (rev (regs_words r)) (sp, m)))"
  "load_regs (snd (fold push64 (rev (regs_words r)) (sp, m))) (sp - REGS_SIZE) = r"
proof -
  show "fold push64 (rev (regs_words r)) (sp, m) =
      (sp - REGS_SIZE, snd (fold push64 (rev (regs_words r)) (sp, m)))"
    using fold_push_words [of "rev (regs_words r)" sp m] by simp
  show "load_regs (snd (fold push64 (rev (regs_words r)) (sp, m))) (sp - REGS_SIZE) = r"
    using push_words_load [of "regs_words r" sp m] by (simp add: load_regs_def)
qed

end
