(* ===== verification/Task.thy ===== *)
theory Task
  imports Machine Heap Vmm
begin

text \<open>
  Tasks and the scheduler, \<open>src/kernel/task.c\<close>: the table of 64 tasks, the circular list of tasks
  that \<open>schedule\<close> walks, creation, exit and the switch of address space, kernel stack and floating
  point state.

  A task pointer is an index into the table.  The state holds the components a task touches: the
  kernel heap for its stack, the page tables, and byte memory for the frame on its kernel stack.
  Instructions are modelled by what they change: \<open>fxsave\<close> and \<open>fxrstor\<close> copy the 512 bytes of
  floating point state, \<open>fninit\<close> is a function of the model since what it leaves alone depends on
  the processor.  \<open>ready_head\<close> is written once and never read and is left out.  A value \<open>None\<close> stands
  for a panic, a null pointer access or a loop that does not end.

  \<open>schedule\<close> ends in \<open>process_deliver_pending_signals\<close> of the process layer, which is passed to it.
  The lemmas show that the list stays a ring through every operation, that \<open>schedule\<close> runs the next
  runnable task of the ring, and that every runnable task gets its turn.
\<close>

section \<open>State\<close>

datatype task_state = TASK_READY | TASK_RUNNING | TASK_BLOCKED | TASK_STOPPED | TASK_DEAD

abbreviation (input) TASK_MAX :: nat where "TASK_MAX \<equiv> 64"
abbreviation (input) TASK_STACK_SIZE :: u64 where "TASK_STACK_SIZE \<equiv> 16384"
abbreviation (input) GDT_KERNEL_CODE :: u64 where "GDT_KERNEL_CODE \<equiv> 0x08"
abbreviation (input) GDT_KERNEL_DATA :: u64 where "GDT_KERNEL_DATA \<equiv> 0x10"

record task =
  t_id :: u32
  t_name :: string
  t_state :: task_state
  t_rsp :: u64
  stack_base :: u64
  t_next :: "nat option"
  t_pml4 :: "u64 option"
  fxstate :: "u8 list"

record sched =
  heap :: heap_state
  vm :: vm
  mem :: bytes
  tasks :: "nat \<Rightarrow> task"
  current :: "nat option"
  next_id :: u32
  scheduling_enabled :: bool
  fpu :: "u8 list"
  kernel_stack :: u64

definition zero_task :: task where
  "zero_task = \<lparr>t_id = 0, t_name = [], t_state = TASK_READY, t_rsp = 0, stack_base = 0, t_next = None,
     t_pml4 = None, fxstate = replicate 512 0\<rparr>"

definition set_task :: "nat \<Rightarrow> (task \<Rightarrow> task) \<Rightarrow> 'a sched_scheme \<Rightarrow> 'a sched_scheme" where
  "set_task i f s = s\<lparr>tasks := (tasks s)(i := f (tasks s i))\<rparr>"

section \<open>Operations\<close>

definition task_current :: "'a sched_scheme \<Rightarrow> nat option" where
  "task_current s = current s"

definition task_current_pml4 :: "'a sched_scheme \<Rightarrow> u64 option" where
  "task_current_pml4 s = (case current s of None \<Rightarrow> None | Some c \<Rightarrow> t_pml4 (tasks s c))"

definition task_count :: "'a sched_scheme \<Rightarrow> nat" where
  "task_count s = length (filter (\<lambda>i. t_state (tasks s i) \<in> {TASK_READY, TASK_RUNNING, TASK_BLOCKED, TASK_STOPPED})
     [0..<TASK_MAX])"

definition task_init :: "(u8 list \<Rightarrow> u8 list) \<Rightarrow> 'a sched_scheme \<Rightarrow> 'a sched_scheme" where
  "task_init fninit s =
     (let fx = fninit (fpu s)
      in s\<lparr>tasks := (\<lambda>i. zero_task)(0 := zero_task\<lparr>t_id := next_id s, t_name := ''idle'',
                  t_state := TASK_RUNNING, t_rsp := 0, stack_base := 0, t_next := Some 0,
                  t_pml4 := kernel_pml4 (vm s), fxstate := fx\<rparr>),
           next_id := next_id s + 1, fpu := fx, current := Some 0\<rparr>)"

text \<open>The search for the predecessor.  The source leaves the loop when it is back at the victim, but
  the loop condition has just seen that the next task is another one.\<close>

partial_function (option) list_prev :: "(nat \<Rightarrow> task) \<Rightarrow> nat \<Rightarrow> nat \<Rightarrow> nat option" where
  "list_prev ts victim prev =
     (case t_next (ts prev) of
        None \<Rightarrow> None
      | Some n \<Rightarrow> if n \<noteq> victim then list_prev ts victim n else Some prev)"

definition list_remove :: "nat \<Rightarrow> 'a sched_scheme \<Rightarrow> 'a sched_scheme option" where
  "list_remove victim s =
     map_option (\<lambda>prev. set_task victim (\<lambda>t. t\<lparr>t_next := None\<rparr>)
         (set_task prev (\<lambda>t. t\<lparr>t_next := t_next (tasks s victim)\<rparr>) s))
       (list_prev (tasks s) victim victim)"

text \<open>\<open>for (i = 1; i < TASK_MAX; i++) if (P(tasks[i])) break;\<close>\<close>

definition first_task :: "(task \<Rightarrow> bool) \<Rightarrow> 'a sched_scheme \<Rightarrow> nat option" where
  "first_task P s = find (\<lambda>i. P (tasks s i)) [1..<TASK_MAX]"

text \<open>The slot of a dead task is unlinked and its stack and address space are freed.\<close>

definition reclaim :: "nat \<Rightarrow> 'a sched_scheme \<Rightarrow> 'a sched_scheme option" where
  "reclaim i s =
     Option.bind (list_remove i s) (\<lambda>s.
       Option.bind (if stack_base (tasks s i) \<noteq> 0 then kfree (heap s) (stack_base (tasks s i)) else Some (heap s))
         (\<lambda>h. let s = s\<lparr>heap := h\<rparr>; p = t_pml4 (tasks s i)
              in Some (if p \<noteq> None \<and> p \<noteq> kernel_pml4 (vm s) then s\<lparr>vm := vmm_free_pml4 p (vm s)\<rparr> else s)))"

definition take_slot :: "'a sched_scheme \<Rightarrow> ('a sched_scheme \<times> nat option) option" where
  "take_slot s =
     (case first_task (\<lambda>t. t_name t = [] \<and> t_state t = TASK_READY) s of
        Some i \<Rightarrow> Some (s, Some i)
      | None \<Rightarrow>
          (case first_task (\<lambda>t. t_state t = TASK_DEAD) s of
             None \<Rightarrow> Some (s, None)
           | Some i \<Rightarrow> map_option (\<lambda>s. (s, Some i)) (reclaim i s)))"

text \<open>\<open>memset(p, 0, n)\<close> on byte memory.\<close>

definition zero_bytes :: "u64 \<Rightarrow> u64 \<Rightarrow> bytes \<Rightarrow> bytes" where
  "zero_bytes p n m = (\<lambda>x. if x - p < n then 0 else m x)"

definition init_slot :: "string \<Rightarrow> nat \<Rightarrow> 'a sched_scheme \<Rightarrow> 'a sched_scheme" where
  "init_slot name i s =
     (let pml4 = (case current s of
                    Some c \<Rightarrow> t_pml4 (((tasks s)(i := zero_task)) c)
                  | None \<Rightarrow> kernel_pml4 (vm s))
      in set_task i (\<lambda>_. zero_task\<lparr>t_id := next_id s, t_name := take 31 name, t_state := TASK_READY,
           t_pml4 := pml4\<rparr>) (s\<lparr>next_id := next_id s + 1\<rparr>))"

definition give_stack ::
  "(u8 list \<Rightarrow> u8 list) \<Rightarrow> nat \<Rightarrow> 'a sched_scheme \<Rightarrow> ('a sched_scheme \<times> nat option) option" where
  "give_stack fninit i s =
     map_option (\<lambda>(h, base).
       if base = 0 then (s\<lparr>heap := h\<rparr>, None)
       else (set_task i (\<lambda>t. t\<lparr>stack_base := base, t_rsp := 0, fxstate := fninit (fpu s)\<rparr>)
               (s\<lparr>heap := h, mem := zero_bytes base TASK_STACK_SIZE (mem s), fpu := fninit (fpu s)\<rparr>),
             Some i))
       (kmalloc (heap s) TASK_STACK_SIZE)"

definition task_alloc ::
  "(u8 list \<Rightarrow> u8 list) \<Rightarrow> string \<Rightarrow> 'a sched_scheme \<Rightarrow> ('a sched_scheme \<times> nat option) option" where
  "task_alloc fninit name s =
     Option.bind (take_slot s) (\<lambda>(s, slot).
       case slot of None \<Rightarrow> Some (s, None) | Some i \<Rightarrow> give_stack fninit i (init_slot name i s))"

definition task_set_entry :: "nat \<Rightarrow> u64 \<Rightarrow> 'a sched_scheme \<Rightarrow> 'a sched_scheme" where
  "task_set_entry i entry s =
     (let stack_top = stack_base (tasks s i) + TASK_STACK_SIZE;
          (sp, m) = fold push64
            ([GDT_KERNEL_DATA, stack_top, 0x202, GDT_KERNEL_CODE, entry, 0, 0] @ replicate 15 0)
            (stack_top, mem s)
      in set_task i (\<lambda>t. t\<lparr>t_rsp := sp\<rparr>) (s\<lparr>mem := m\<rparr>))"

definition task_insert_ready :: "nat \<Rightarrow> 'a sched_scheme \<Rightarrow> 'a sched_scheme option" where
  "task_insert_ready i s =
     (case current s of
        None \<Rightarrow> None
      | Some c \<Rightarrow>
          let s = set_task i (\<lambda>t. t\<lparr>t_next := t_next (tasks s c)\<rparr>) s
          in Some (set_task c (\<lambda>t. t\<lparr>t_next := Some i\<rparr>) s))"

definition task_create ::
  "(u8 list \<Rightarrow> u8 list) \<Rightarrow> string \<Rightarrow> u64 \<Rightarrow> 'a sched_scheme \<Rightarrow> ('a sched_scheme \<times> nat option) option" where
  "task_create fninit name entry s =
     Option.bind (task_alloc fninit name s) (\<lambda>(s, r).
       case r of
         None \<Rightarrow> Some (s, None)
       | Some i \<Rightarrow> map_option (\<lambda>s. (s, Some i)) (task_insert_ready i (task_set_entry i entry s)))"

definition state_name :: "task_state \<Rightarrow> string" where
  "state_name st = (case st of TASK_READY \<Rightarrow> ''READY'' | TASK_RUNNING \<Rightarrow> ''RUNNING'' | TASK_BLOCKED \<Rightarrow> ''BLOCKED''
     | TASK_STOPPED \<Rightarrow> ''STOPPED'' | TASK_DEAD \<Rightarrow> ''DEAD'')"

text \<open>The lines \<open>task_list_all\<close> prints, as the values of their three columns.\<close>

definition task_list_all :: "'a sched_scheme \<Rightarrow> (u32 \<times> string \<times> string) list" where
  "task_list_all s =
     map (\<lambda>i. let t = tasks s i in (t_id t, state_name (t_state t), t_name t))
       (filter (\<lambda>i. let t = tasks s i
          in \<not> (t_name t = [] \<and> t_state t = TASK_READY) \<and> t_state t \<noteq> TASK_DEAD) [0..<TASK_MAX])"

text \<open>\<open>task_exit\<close> up to its call of \<open>task_yield\<close>, which does not return.\<close>

definition task_exit :: "'a sched_scheme \<Rightarrow> 'a sched_scheme option" where
  "task_exit s = map_option (\<lambda>c. set_task c (\<lambda>t. t\<lparr>t_state := TASK_DEAD\<rparr>) s) (current s)"

definition task_enable_scheduling :: "'a sched_scheme \<Rightarrow> 'a sched_scheme" where
  "task_enable_scheduling s = s\<lparr>scheduling_enabled := True\<rparr>"

section \<open>Scheduling\<close>

definition runnable :: "task \<Rightarrow> bool" where
  "runnable t \<longleftrightarrow> t_state t = TASK_READY \<or> t_state t = TASK_RUNNING"

text \<open>\<open>do { if (runnable(next)) break; next = next->next; } while (next != start);\<close>\<close>

partial_function (option) find_next :: "(nat \<Rightarrow> task) \<Rightarrow> nat \<Rightarrow> nat \<Rightarrow> nat option" where
  "find_next ts start n =
     (if runnable (ts n) then Some n
      else case t_next (ts n) of
             None \<Rightarrow> None
           | Some n \<Rightarrow> if n = start then Some n else find_next ts start n)"

definition tss_set_kernel_stack :: "u64 \<Rightarrow> 'a sched_scheme \<Rightarrow> 'a sched_scheme" where
  "tss_set_kernel_stack sp s = s\<lparr>kernel_stack := sp\<rparr>"

definition switch_to :: "nat \<Rightarrow> nat \<Rightarrow> 'a sched_scheme \<Rightarrow> 'a sched_scheme" where
  "switch_to prev n s =
     (let s = set_task prev (\<lambda>t. t\<lparr>fxstate := fpu s\<rparr>) s;
          s = set_task prev (\<lambda>t. if t_state t = TASK_RUNNING then t\<lparr>t_state := TASK_READY\<rparr> else t) s;
          s = set_task n (\<lambda>t. t\<lparr>t_state := TASK_RUNNING\<rparr>) (s\<lparr>current := Some n\<rparr>);
          t = tasks s n;
          s = s\<lparr>fpu := fxstate t\<rparr>;
          s = (if stack_base t \<noteq> 0 then tss_set_kernel_stack (stack_base t + TASK_STACK_SIZE) s else s)
      in if t_pml4 t \<noteq> None \<and> t_pml4 t \<noteq> t_pml4 (tasks s prev)
         then s\<lparr>vm := vmm_switch_pml4 (t_pml4 t) (vm s)\<rparr> else s)"

definition schedule ::
  "(u64 \<Rightarrow> 'a sched_scheme \<Rightarrow> 'a sched_scheme) \<Rightarrow> u64 \<Rightarrow> 'a sched_scheme \<Rightarrow> ('a sched_scheme \<times> u64) option" where
  "schedule deliver regs s =
     (if \<not> scheduling_enabled s then Some (s, regs)
      else case current s of
        None \<Rightarrow> Some (s, regs)
      | Some c \<Rightarrow>
          let s = set_task c (\<lambda>t. t\<lparr>t_rsp := regs\<rparr>) s
          in Option.bind (t_next (tasks s c)) (\<lambda>start.
               Option.bind (find_next (tasks s) start start) (\<lambda>n.
                 if n = c \<and> t_state (tasks s c) = TASK_DEAD then None
                 else let s = (if n \<noteq> c then switch_to c n s else s);
                          ret = t_rsp (tasks s n)
                      in Some (deliver ret s, ret))))"

section \<open>The ring\<close>

text \<open>The tasks in the order \<open>schedule\<close> meets them, the current one first.\<close>

fun linked_to :: "(nat \<Rightarrow> task) \<Rightarrow> nat \<Rightarrow> nat list \<Rightarrow> nat \<Rightarrow> bool" where
  "linked_to ts x [] y \<longleftrightarrow> t_next (ts x) = Some y"
| "linked_to ts x (z # zs) y \<longleftrightarrow> t_next (ts x) = Some z \<and> linked_to ts z zs y"

definition ring :: "'a sched_scheme \<Rightarrow> nat \<Rightarrow> nat list \<Rightarrow> bool" where
  "ring s c ys \<longleftrightarrow> current s = Some c \<and> distinct (c # ys) \<and> linked_to (tasks s) c ys c"

lemma linked_to_append:
  "linked_to ts x (xs @ z # zs) y \<longleftrightarrow> linked_to ts x xs z \<and> linked_to ts z zs y"
  by (induction xs arbitrary: x) auto

lemma linked_to_cong:
  "(\<And>z. z \<in> set (x # xs) \<Longrightarrow> t_next (ts' z) = t_next (ts z)) \<Longrightarrow> linked_to ts' x xs y \<longleftrightarrow> linked_to ts x xs y"
  by (induction xs arbitrary: x) auto

lemma ring_step: "linked_to ts x ys y \<Longrightarrow> t_next (ts x) = Some (hd (ys @ [y]))"
  by (cases ys) auto

text \<open>The walk over the ring stops at the first runnable task, and at its start when there is none.\<close>

lemma find_next_walk:
  assumes "linked_to ts x ys start" "start \<notin> set ys"
  shows "find_next ts start x =
    (case find (\<lambda>i. runnable (ts i)) (x # ys) of Some n \<Rightarrow> Some n | None \<Rightarrow> Some start)"
  using assms
proof (induction ys arbitrary: x)
  case Nil
  then show ?case by (subst find_next.simps) simp
next
  case (Cons z zs)
  then show ?case by (subst find_next.simps) auto
qed

lemma find_next_ring:
  assumes "ring s c ys"
  shows "find_next (tasks s) (hd (ys @ [c])) (hd (ys @ [c])) =
    (case find (\<lambda>i. runnable (tasks s i)) (ys @ [c]) of Some n \<Rightarrow> Some n | None \<Rightarrow> Some (hd (ys @ [c])))"
proof (cases ys)
  case Nil
  then show ?thesis
    using assms find_next_walk [of "tasks s" c "[]" c] by (simp add: ring_def)
next
  case (Cons z zs)
  then have "linked_to (tasks s) z (zs @ [c]) z"
    using assms linked_to_append [of "tasks s" z zs c "[]" z] by (auto simp: ring_def)
  moreover have "z \<notin> set (zs @ [c])" using assms Cons by (auto simp: ring_def)
  ultimately have "find_next (tasks s) z z = (case find (\<lambda>i. runnable (tasks s i)) (z # zs @ [c]) of
      Some n \<Rightarrow> Some n | None \<Rightarrow> Some z)"
    by (rule find_next_walk)
  then show ?thesis by (simp only: Cons append_Cons list.sel)
qed

text \<open>Moving the current task along the ring rotates it.\<close>

lemma ring_rotate:
  assumes "linked_to ts c (xs @ n # ys) c"
  shows "linked_to ts n (ys @ c # xs) n"
  using assms by (simp add: linked_to_append)

lemma find_split:
  assumes "find P xs = Some x"
  obtains ys zs where "xs = ys @ x # zs" "P x" "\<forall>y \<in> set ys. \<not> P y"
proof -
  obtain i where i: "i < length xs" "P (xs ! i)" "x = xs ! i" "\<forall>j < i. \<not> P (xs ! j)"
    using assms by (auto simp: find_Some_iff)
  have "\<forall>y \<in> set (take i xs). \<not> P y" using i by (auto simp: set_conv_nth)
  then show thesis
    using that [of "take i xs" "drop (Suc i) xs"] i by (simp add: id_take_nth_drop)
qed

lemma list_prev_ring:
  assumes "linked_to ts x ys victim" "victim \<notin> set ys"
  shows "list_prev ts victim x = Some (last (x # ys))"
  using assms
proof (induction ys arbitrary: x)
  case Nil
  then show ?case by (subst list_prev.simps) simp
next
  case (Cons z zs)
  then show ?case by (subst list_prev.simps) auto
qed

lemma set_task_simps [simp]:
  "tasks (set_task i f s) j = (if j = i then f (tasks s i) else tasks s j)"
  "current (set_task i f s) = current s" "heap (set_task i f s) = heap s" "vm (set_task i f s) = vm s"
  "mem (set_task i f s) = mem s" "fpu (set_task i f s) = fpu s" "next_id (set_task i f s) = next_id s"
  "scheduling_enabled (set_task i f s) = scheduling_enabled s" "kernel_stack (set_task i f s) = kernel_stack s"
  by (auto simp: set_task_def)

lemma switch_to_simps:
  assumes "prev \<noteq> n"
  shows "current (switch_to prev n s) = Some n" "scheduling_enabled (switch_to prev n s) = scheduling_enabled s"
    "tasks (switch_to prev n s) j =
       (if j = n then (tasks s n)\<lparr>t_state := TASK_RUNNING\<rparr>
        else if j = prev then (tasks s prev)\<lparr>fxstate := fpu s,
          t_state := (if t_state (tasks s prev) = TASK_RUNNING then TASK_READY else t_state (tasks s prev))\<rparr>
        else tasks s j)"
    "fpu (switch_to prev n s) = fxstate (tasks s n)"
    "t_pml4 (tasks s n) \<noteq> None \<Longrightarrow> current_cr3 (vm s) = t_pml4 (tasks s prev) \<Longrightarrow>
       current_cr3 (vm (switch_to prev n s)) = t_pml4 (tasks s n)"
    "mem (switch_to prev n s) = mem s" "heap (switch_to prev n s) = heap s"
  using assms
  by (auto simp: switch_to_def Let_def tss_set_kernel_stack_def vmm_switch_pml4_def load_cr3_def
      split: option.splits)

lemma linked_to_switch:
  assumes "prev \<noteq> n"
  shows "linked_to (tasks (switch_to prev n s)) x xs y \<longleftrightarrow> linked_to (tasks s) x xs y"
  by (rule linked_to_cong) (simp add: switch_to_simps(3) [OF assms])

text \<open>What \<open>schedule\<close> does on a ring: the task it saves, the task it picks, and the ring it leaves.\<close>

definition pick :: "'a sched_scheme \<Rightarrow> nat \<Rightarrow> nat list \<Rightarrow> nat" where
  "pick s c ys = (case find (\<lambda>i. runnable (tasks s i)) (ys @ [c]) of Some n \<Rightarrow> n | None \<Rightarrow> hd (ys @ [c]))"

lemma pick_in: "pick s c ys \<in> set (ys @ [c])"
  unfolding pick_def by (cases ys) (auto split: option.splits simp: find_Some_iff nth_append)

definition switched :: "u64 \<Rightarrow> nat \<Rightarrow> nat \<Rightarrow> 'a sched_scheme \<Rightarrow> 'a sched_scheme" where
  "switched regs c n s =
     (let s = set_task c (\<lambda>t. t\<lparr>t_rsp := regs\<rparr>) s in if n \<noteq> c then switch_to c n s else s)"

lemma schedule_ring:
  fixes regs :: u64
  assumes "ring s c ys" "scheduling_enabled s" "\<not> (pick s c ys = c \<and> t_state (tasks s c) = TASK_DEAD)"
  defines "s' \<equiv> switched regs c (pick s c ys) s"
  shows "schedule deliver regs s =
    Some (deliver (t_rsp (tasks s' (pick s c ys))) s', t_rsp (tasks s' (pick s c ys)))"
proof -
  let ?s1 = "set_task c (\<lambda>t. t\<lparr>t_rsp := regs\<rparr>) s"
  have cur: "current s = Some c" using assms(1) by (simp add: ring_def)
  have ring1: "ring ?s1 c ys"
    using assms(1) linked_to_cong [of c ys "tasks ?s1" "tasks s" c] by (simp add: ring_def)
  have run: "runnable (tasks ?s1 i) = runnable (tasks s i)" for i by (simp add: runnable_def)
  have "find_next (tasks ?s1) (hd (ys @ [c])) (hd (ys @ [c])) = Some (pick s c ys)"
    unfolding find_next_ring [OF ring1] pick_def run by (simp split: option.split)
  moreover have "t_next (tasks ?s1 c) = Some (hd (ys @ [c]))"
    using ring1 ring_step unfolding ring_def by blast
  ultimately show ?thesis
    using assms(2,3) cur by (simp add: schedule_def Let_def switched_def s'_def)
qed

lemma switched_simps:
  assumes "c \<noteq> n"
  shows "current (switched regs c n s) = Some n"
    "scheduling_enabled (switched regs c n s) = scheduling_enabled s"
    "tasks (switched regs c n s) n = (tasks s n)\<lparr>t_state := TASK_RUNNING\<rparr>"
    "j \<noteq> c \<Longrightarrow> j \<noteq> n \<Longrightarrow> tasks (switched regs c n s) j = tasks s j"
    "tasks (switched regs c n s) c = (tasks s c)\<lparr>t_rsp := regs, fxstate := fpu s,
       t_state := (if t_state (tasks s c) = TASK_RUNNING then TASK_READY else t_state (tasks s c))\<rparr>"
    "fpu (switched regs c n s) = fxstate (tasks s n)"
    "t_pml4 (tasks s n) \<noteq> None \<Longrightarrow> current_cr3 (vm s) = t_pml4 (tasks s c) \<Longrightarrow>
       current_cr3 (vm (switched regs c n s)) = t_pml4 (tasks s n)"
  using assms by (auto simp: switched_def Let_def switch_to_simps)

lemma ring_switched:
  assumes "ring s c (xs @ n # ys)"
  shows "ring (switched regs c n s) n (ys @ c # xs)"
proof -
  have cn: "c \<noteq> n" using assms by (auto simp: ring_def)
  have "linked_to (tasks (switched regs c n s)) x zs y \<longleftrightarrow> linked_to (tasks s) x zs y" for x zs y
    by (rule linked_to_cong) (use cn in \<open>auto simp: switched_def Let_def switch_to_simps\<close>)
  then show ?thesis
    using assms ring_rotate [of "tasks s" c xs n ys] cn switched_simps(1) [OF cn] by (auto simp: ring_def)
qed

lemma pick_first:
  assumes "runnable (tasks s n)" "\<forall>x \<in> set xs. \<not> runnable (tasks s x)"
  shows "pick s c (xs @ n # ys) = n"
proof -
  have "find (\<lambda>i. runnable (tasks s i)) (xs @ n # zs) = Some n" for zs
    using assms by (induction xs) auto
  then show ?thesis by (simp add: pick_def)
qed

section \<open>Fairness\<close>

text \<open>A number of timer interrupts with nothing else in between; the \<open>k\<close>-th one saves its frame at
  \<open>regs k\<close>.\<close>

fun run_schedule ::
  "(u64 \<Rightarrow> 'a sched_scheme \<Rightarrow> 'a sched_scheme) \<Rightarrow> (nat \<Rightarrow> u64) \<Rightarrow> nat \<Rightarrow> 'a sched_scheme \<Rightarrow> 'a sched_scheme option" where
  "run_schedule deliver regs 0 s = Some s"
| "run_schedule deliver regs (Suc k) s =
     Option.bind (schedule deliver (regs 0) s) (\<lambda>(s, _). run_schedule deliver (\<lambda>i. regs (Suc i)) k s)"

definition keeps_tasks :: "(u64 \<Rightarrow> 'a sched_scheme \<Rightarrow> 'a sched_scheme) \<Rightarrow> bool" where
  "keeps_tasks deliver \<longleftrightarrow> (\<forall>r s. tasks (deliver r s) = tasks s \<and> current (deliver r s) = current s \<and>
     scheduling_enabled (deliver r s) = scheduling_enabled s)"

lemma ring_deliver: "keeps_tasks deliver \<Longrightarrow> ring (deliver r s) c ys \<longleftrightarrow> ring s c ys"
  by (simp add: keeps_tasks_def ring_def)

lemma reaches_task:
  assumes "ring s c (xs @ t # zs)" "scheduling_enabled s" "keeps_tasks deliver" "runnable (tasks s t)"
  shows "\<exists>k s'. 0 < k \<and> k \<le> Suc (length xs) \<and> run_schedule deliver regs k s = Some s' \<and> current s' = Some t"
  using assms
proof (induction "length xs" arbitrary: xs zs c s regs rule: less_induct)
  case less
  obtain n where n: "find (\<lambda>i. runnable (tasks s i)) (xs @ [t]) = Some n"
    using less.prems(4) by (cases "find (\<lambda>i. runnable (tasks s i)) (xs @ [t])") (auto simp: find_None_iff)
  then obtain a b where ab: "xs @ [t] = a @ n # b" "runnable (tasks s n)" "\<forall>x \<in> set a. \<not> runnable (tasks s x)"
    by (rule find_split)
  have "xs @ t # zs = (xs @ [t]) @ zs" by simp
  also have "\<dots> = a @ n # (b @ zs)" unfolding ab(1) by simp
  finally have ring: "ring s c (a @ n # (b @ zs))" using less.prems(1) by (simp only:)
  then have cn: "c \<noteq> n" by (auto simp: ring_def)
  have pk: "pick s c (a @ n # (b @ zs)) = n" by (rule pick_first [OF ab(2,3)])
  define s1 where "s1 = switched (regs 0) c n s"
  have step: "schedule deliver (regs 0) s = Some (deliver (t_rsp (tasks s1 n)) s1, t_rsp (tasks s1 n))"
    using schedule_ring [OF ring less.prems(2), of deliver "regs 0"] pk cn by (simp add: s1_def)
  have ring1: "ring (deliver (t_rsp (tasks s1 n)) s1) n ((b @ zs) @ c # a)"
    unfolding ring_deliver [OF less.prems(3)] s1_def by (rule ring_switched [OF ring])
  show ?case
  proof (cases "b = []")
    case True
    then have "n = t" using ab(1) by simp
    then have "run_schedule deliver regs 1 s = Some (deliver (t_rsp (tasks s1 n)) s1)"
      "current (deliver (t_rsp (tasks s1 n)) s1) = Some t"
      using step ring1 by (simp_all add: ring_def)
    then show ?thesis by (intro exI [of _ 1] exI [of _ "deliver (t_rsp (tasks s1 n)) s1"]) simp
  next
    case False
    then obtain b' where b: "b = b' @ [t]" using arg_cong [OF ab(1), of last]
      by (cases b rule: rev_cases) auto
    have len: "length xs = length a + Suc (length b')" using ab(1) b arg_cong [OF ab(1), of length] by simp
    have tn: "t \<noteq> n" "t \<noteq> c" using ring b by (auto simp: ring_def)
    have "runnable (tasks (deliver (t_rsp (tasks s1 n)) s1) t)"
      using less.prems(3,4) tn by (simp add: keeps_tasks_def s1_def switched_simps(4) [OF cn])
    moreover have "scheduling_enabled (deliver (t_rsp (tasks s1 n)) s1)"
      using less.prems(2,3) by (simp add: keeps_tasks_def s1_def switched_simps(2) [OF cn])
    ultimately obtain k s' where k: "0 < k" "k \<le> Suc (length b')"
      "run_schedule deliver (\<lambda>i. regs (Suc i)) k (deliver (t_rsp (tasks s1 n)) s1) = Some s'" "current s' = Some t"
      using less.hyps [of b' "deliver (t_rsp (tasks s1 n)) s1" n "zs @ c # a" "\<lambda>i. regs (Suc i)"] ring1 b len less.prems(3)
      by auto
    then show ?thesis
      using step len by (intro exI [of _ "Suc k"] exI [of _ s']) simp
  qed
qed

section \<open>Creation keeps the ring\<close>

definition sched_ok :: "'a sched_scheme \<Rightarrow> nat \<Rightarrow> nat list \<Rightarrow> bool" where
  "sched_ok s c ys \<longleftrightarrow> ring s c ys \<and> set (c # ys) \<subseteq> {..<TASK_MAX} \<and>
     (\<forall>x \<in> set (c # ys). \<not> (t_name (tasks s x) = [] \<and> t_state (tasks s x) = TASK_READY)) \<and>
     (\<forall>i \<in> {1..<TASK_MAX}. t_state (tasks s i) = TASK_DEAD \<longrightarrow> i \<in> set ys)"

lemma linked_to_relink:
  assumes "linked_to ts x xs y" "distinct (x # xs)"
    and "\<And>z. z \<in> set (butlast (x # xs)) \<Longrightarrow> t_next (ts' z) = t_next (ts z)" "t_next (ts' (last (x # xs))) = Some h"
  shows "linked_to ts' x xs h"
  using assms
proof (induction xs arbitrary: x)
  case (Cons z zs)
  have "linked_to ts' z zs h" using Cons.prems by (intro Cons.IH) auto
  moreover have "t_next (ts' x) = Some z" using Cons.prems by simp
  ultimately show ?case by simp
qed simp

lemma list_remove_ring:
  assumes "ring s c (xs @ v # zs)"
  obtains s' where "list_remove v s = Some s'" "ring s' c (xs @ zs)"
    "\<And>j. t_name (tasks s' j) = t_name (tasks s j) \<and> t_state (tasks s' j) = t_state (tasks s j)"
    "t_next (tasks s' v) = None"
proof -
  have d: "distinct (c # xs @ v # zs)" and cur: "current s = Some c"
    and l: "linked_to (tasks s) c xs v" "linked_to (tasks s) v zs c"
    using assms by (auto simp: ring_def linked_to_append)
  define p where "p = last (c # xs)"
  have lp: "list_prev (tasks s) v v = Some p"
    using list_prev_ring [OF ring_rotate, of "tasks s" c xs v zs] assms d by (auto simp: ring_def p_def)
  have pin: "p \<in> set (c # xs)" unfolding p_def by (rule last_in_set) simp
  have pv: "p \<noteq> v" "p \<notin> set zs" using d pin by auto
  define s' where "s' = set_task v (\<lambda>t. t\<lparr>t_next := None\<rparr>) (set_task p (\<lambda>t. t\<lparr>t_next := t_next (tasks s v)\<rparr>) s)"
  have next': "t_next (tasks s' z) = (if z = v then None else if z = p then t_next (tasks s v) else t_next (tasks s z))" for z
    using pv by (simp add: s'_def)
  have relink: "linked_to (tasks s') c xs (hd (zs @ [c]))"
  proof (rule linked_to_relink [OF l(1)])
    show "distinct (c # xs)" using d by simp
    show "t_next (tasks s' (last (c # xs))) = Some (hd (zs @ [c]))"
      unfolding p_def [symmetric] next' using ring_step [OF l(2)] pv(1) by simp
    fix z assume z: "z \<in> set (butlast (c # xs))"
    have "c # xs = butlast (c # xs) @ [p]" unfolding p_def by (rule append_butlast_last_id [symmetric]) simp
    then have "distinct (butlast (c # xs) @ [p])" using d by (metis append_Cons distinct_append)
    then have "z \<noteq> p" using z by auto
    moreover have "z \<in> set (c # xs)" using z by (rule in_set_butlastD)
    then have "z \<noteq> v" using d by auto
    ultimately show "t_next (tasks s' z) = t_next (tasks s z)" by (simp add: next')
  qed
  have "linked_to (tasks s') c (xs @ zs) c"
  proof (cases zs)
    case Nil
    then show ?thesis using relink by simp
  next
    case (Cons z zs')
    have "linked_to (tasks s') z zs' c \<longleftrightarrow> linked_to (tasks s) z zs' c"
      by (rule linked_to_cong) (use d pv Cons in \<open>auto simp: next'\<close>)
    then show ?thesis using relink l(2) Cons by (simp add: linked_to_append)
  qed
  moreover have "current s' = Some c" using cur by (simp add: s'_def)
  ultimately have "ring s' c (xs @ zs)" using d by (auto simp: ring_def)
  then show thesis
    by (rule that [rotated]) (use lp pv in \<open>auto simp: list_remove_def s'_def\<close>)
qed

lemma ring_other_fields:
  "ring (s\<lparr>heap := h\<rparr>) c ys \<longleftrightarrow> ring s c ys" "ring (s\<lparr>vm := v\<rparr>) c ys \<longleftrightarrow> ring s c ys"
  "ring (s\<lparr>mem := m\<rparr>) c ys \<longleftrightarrow> ring s c ys"
  by (simp_all add: ring_def)

lemma first_task_Some: "first_task P s = Some i \<Longrightarrow> P (tasks s i) \<and> 1 \<le> i \<and> i < TASK_MAX"
  unfolding first_task_def find_Some_iff by (auto simp: nth_upt)

lemma take_slot_ring:
  assumes ok: "sched_ok s c ys" and ts: "take_slot s = Some (s1, Some i)"
  obtains zs where "ring s1 c zs" "i \<notin> set (c # zs)" "set zs \<subseteq> set ys" "1 \<le> i" "i < TASK_MAX"
    "\<And>j. t_name (tasks s1 j) = t_name (tasks s j) \<and> t_state (tasks s1 j) = t_state (tasks s j)"
    "\<And>j. j \<in> set ys \<Longrightarrow> j \<noteq> i \<Longrightarrow> j \<in> set zs" "i \<in> set ys \<Longrightarrow> t_state (tasks s i) = TASK_DEAD"
proof (cases "first_task (\<lambda>t. t_name t = [] \<and> t_state t = TASK_READY) s")
  case (Some j)
  then have "s1 = s" "j = i" using ts by (auto simp: take_slot_def)
  then show thesis
    using that [of ys] first_task_Some [OF Some] ok by (auto simp: sched_ok_def)
next
  case None
  then have f: "first_task (\<lambda>t. t_state t = TASK_DEAD) s = Some i" and r: "reclaim i s = Some s1"
    using ts by (auto simp: take_slot_def split: option.splits)
  have dead: "t_state (tasks s i) = TASK_DEAD" "1 \<le> i" "i < TASK_MAX" using first_task_Some [OF f] by auto
  then have "i \<in> set ys" using ok by (simp add: sched_ok_def)
  then obtain as bs where ys: "ys = as @ i # bs" by (meson split_list)
  then have "ring s c (as @ i # bs)" using ok by (simp add: sched_ok_def)
  then obtain s2 where s2: "list_remove i s = Some s2" "ring s2 c (as @ bs)"
    "\<And>j. t_name (tasks s2 j) = t_name (tasks s j) \<and> t_state (tasks s2 j) = t_state (tasks s j)"
    by (rule list_remove_ring) blast
  have t1: "tasks s1 = tasks s2" "current s1 = current s2"
    using r s2(1) by (auto simp: reclaim_def Let_def bind_eq_Some_conv)
  then have "ring s1 c (as @ bs)" using s2(2) by (simp add: ring_def)
  moreover have "i \<notin> set (c # as @ bs)" using ok ys by (auto simp: sched_ok_def ring_def)
  ultimately show thesis using that [of "as @ bs"] dead ys s2(3) t1 by auto
qed

lemma task_alloc_ring:
  assumes ok: "sched_ok s c ys" and al: "task_alloc fninit name s = Some (s', Some i)" and name: "name \<noteq> []"
  obtains zs where "ring s' c zs" "i \<notin> set (c # zs)" "set zs \<subseteq> set ys" "1 \<le> i" "i < TASK_MAX"
    "t_state (tasks s' i) = TASK_READY" "t_name (tasks s' i) = take 31 name" "stack_base (tasks s' i) \<noteq> 0"
    "\<And>j. j \<noteq> i \<Longrightarrow> t_name (tasks s' j) = t_name (tasks s j) \<and> t_state (tasks s' j) = t_state (tasks s j)"
    "\<And>j. j \<in> set ys \<Longrightarrow> j \<noteq> i \<Longrightarrow> j \<in> set zs" "i \<in> set ys \<Longrightarrow> t_state (tasks s i) = TASK_DEAD"
proof -
  obtain s1 j where s1: "take_slot s = Some (s1, Some j)" and g: "give_stack fninit j (init_slot name j s1) = Some (s', Some i)"
    using al by (auto simp: task_alloc_def bind_eq_Some_conv split: option.splits)
  have ji: "j = i" and s': "current s' = current s1" "\<And>k. k \<noteq> j \<Longrightarrow> tasks s' k = tasks s1 k"
      "t_state (tasks s' j) = TASK_READY" "t_name (tasks s' j) = take 31 name" "stack_base (tasks s' j) \<noteq> 0"
    using g by (auto simp: give_stack_def init_slot_def Let_def split: if_splits)
  note s1 = s1 [unfolded ji] and s' = s' [unfolded ji]
  obtain zs where zs: "ring s1 c zs" "i \<notin> set (c # zs)" "set zs \<subseteq> set ys" "1 \<le> i" "i < TASK_MAX"
    "\<And>j. t_name (tasks s1 j) = t_name (tasks s j) \<and> t_state (tasks s1 j) = t_state (tasks s j)"
    "\<And>j. j \<in> set ys \<Longrightarrow> j \<noteq> i \<Longrightarrow> j \<in> set zs" "i \<in> set ys \<Longrightarrow> t_state (tasks s i) = TASK_DEAD"
    by (rule take_slot_ring [OF ok s1]) blast
  have "linked_to (tasks s') c zs c \<longleftrightarrow> linked_to (tasks s1) c zs c"
    by (rule linked_to_cong) (use zs(2) s'(2) in metis)
  then have "ring s' c zs" using zs(1) s'(1) by (simp add: ring_def)
  then show thesis using zs s' by (intro that [of zs]) simp_all
qed

lemma insert_ready_ring:
  assumes "ring s c zs" "i \<notin> set (c # zs)"
  obtains s' where "task_insert_ready i s = Some s'" "ring s' c (i # zs)" "mem s' = mem s"
    "\<And>j. t_name (tasks s' j) = t_name (tasks s j) \<and> t_state (tasks s' j) = t_state (tasks s j) \<and>
       t_rsp (tasks s' j) = t_rsp (tasks s j)"
proof -
  define s' where "s' = set_task c (\<lambda>t. t\<lparr>t_next := Some i\<rparr>) (set_task i (\<lambda>t. t\<lparr>t_next := t_next (tasks s c)\<rparr>) s)"
  have cur: "current s = Some c" and ic: "i \<noteq> c" and d: "distinct (c # zs)" and l: "linked_to (tasks s) c zs c"
    using assms by (auto simp: ring_def)
  have "linked_to (tasks s') i zs c"
  proof (cases zs)
    case Nil
    then show ?thesis using l ic by (simp add: s'_def)
  next
    case (Cons z zs')
    have "linked_to (tasks s') z zs' c \<longleftrightarrow> linked_to (tasks s) z zs' c"
      by (rule linked_to_cong) (use assms(2) d Cons in \<open>auto simp: s'_def\<close>)
    then show ?thesis using l ic Cons by (simp add: s'_def)
  qed
  then have "ring s' c (i # zs)" using assms cur ic by (auto simp: ring_def s'_def)
  then show thesis
    by (rule that [rotated]) (use cur ic in \<open>auto simp: task_insert_ready_def s'_def Let_def\<close>)
qed

lemma task_set_entry_frame:
  "load_regs (mem (task_set_entry i entry s)) (t_rsp (tasks (task_set_entry i entry s) i)) =
     \<lparr>rax = 0, rbx = 0, rcx = 0, rdx = 0, rsi = 0, rdi = 0, rbp = 0, r8 = 0, r9 = 0, r10 = 0, r11 = 0,
      r12 = 0, r13 = 0, r14 = 0, r15 = 0, int_no = 0, err_code = 0, rip = entry, cs = GDT_KERNEL_CODE,
      rflags = 0x202, rsp = stack_base (tasks s i) + TASK_STACK_SIZE, ss = GDT_KERNEL_DATA\<rparr>"
  (is "_ = ?r")
proof -
  let ?top = "stack_base (tasks s i) + TASK_STACK_SIZE"
  have w: "[GDT_KERNEL_DATA, ?top, 0x202, GDT_KERNEL_CODE, entry, 0, 0] @ replicate 15 0 = rev (regs_words ?r)"
    by (simp add: regs_words_def numeral_eq_Suc)
  define r where "r = ?r"
  have sp: "fst (fold push64 (rev (regs_words r)) (?top, mem s)) = ?top - REGS_SIZE"
    using push_regs(1) [of r ?top "mem s"] by (metis fst_conv)
  show ?thesis
    unfolding task_set_entry_def Let_def w r_def [symmetric]
    by (simp only: case_prod_beta set_task_simps sp simp_thms if_True)
       (use push_regs(2) [of r ?top "mem s"] in simp)
qed

section \<open>Properties\<close>

text \<open>C16: One call of \<open>schedule\<close>.  When some task of the ring can run, \<open>schedule\<close> returns the saved
  frame of the first runnable task after the current one, which becomes current and running.  The
  frame of the interrupted task is saved in it; on a switch its floating point state is saved and
  that of the new task loaded, a running task becomes ready, no third task changes, and the ring
  is the same ring seen from the new task.\<close>

theorem schedule_next_runnable:
  assumes "ring s c ys" "scheduling_enabled s" "\<exists>i \<in> set (c # ys). runnable (tasks s i)"
  shows "\<exists>n xs zs s'. ys @ [c] = xs @ n # zs \<and> runnable (tasks s n) \<and> (\<forall>x \<in> set xs. \<not> runnable (tasks s x)) \<and>
    schedule deliver regs s = Some (deliver (t_rsp (tasks s' n)) s', t_rsp (tasks s' n)) \<and>
    current s' = Some n \<and> t_rsp (tasks s' c) = regs \<and>
    (if n = c then ring s' c ys \<and> s' = set_task c (\<lambda>t. t\<lparr>t_rsp := regs\<rparr>) s
     else ring s' n (butlast zs @ c # xs) \<and> fxstate (tasks s' c) = fpu s \<and> fpu s' = fxstate (tasks s n) \<and>
       tasks s' n = (tasks s n)\<lparr>t_state := TASK_RUNNING\<rparr> \<and> t_state (tasks s' c) \<noteq> TASK_RUNNING \<and>
       (\<forall>j. j \<noteq> c \<and> j \<noteq> n \<longrightarrow> tasks s' j = tasks s j))"
proof -
  obtain n where f: "find (\<lambda>i. runnable (tasks s i)) (ys @ [c]) = Some n"
    using assms(3) by (cases "find (\<lambda>i. runnable (tasks s i)) (ys @ [c])") (auto simp: find_None_iff)
  then have n: "pick s c ys = n" by (simp add: pick_def)
  obtain xs zs where split: "ys @ [c] = xs @ n # zs" "runnable (tasks s n)" "\<forall>x \<in> set xs. \<not> runnable (tasks s x)"
    using f by (rule find_split)
  define s' where "s' = switched regs c n s"
  have dead: "\<not> (n = c \<and> t_state (tasks s c) = TASK_DEAD)" using split(2) by (auto simp: runnable_def)
  have step: "schedule deliver regs s = Some (deliver (t_rsp (tasks s' n)) s', t_rsp (tasks s' n))"
    using schedule_ring [OF assms(1,2), of deliver regs] dead n by (simp add: s'_def)
  show ?thesis
  proof (cases "n = c")
    case True
    then have s': "s' = set_task c (\<lambda>t. t\<lparr>t_rsp := regs\<rparr>) s" by (simp add: s'_def switched_def)
    have "ring s' c ys" "current s' = Some c"
      using assms(1) linked_to_cong [of c ys "tasks s'" "tasks s" c] by (simp_all add: ring_def s')
    then show ?thesis using step split True s'
      by (intro exI [of _ n] exI [of _ xs] exI [of _ zs] exI [of _ s']) simp
  next
    case False
    then obtain ws where ws: "zs = ws @ [c]" using arg_cong [OF split(1), of last] by (cases zs rule: rev_cases) auto
    then have "ys = xs @ n # ws" using split(1) by simp
    then have "ring s' n (ws @ c # xs)" using ring_switched assms(1) unfolding s'_def by blast
    then show ?thesis using step split False ws switched_simps [where c = c and n = n and regs = regs and s = s]
      by (intro exI [of _ n] exI [of _ xs] exI [of _ zs] exI [of _ s']) (auto simp: s'_def)
  qed
qed

definition demo_task :: "string \<Rightarrow> task_state \<Rightarrow> nat \<Rightarrow> task" where
  "demo_task name st n = zero_task\<lparr>t_name := name, t_state := st, t_next := Some n\<rparr>"

definition stack_heap :: heap_state where
  "stack_heap = heap_init \<lparr>heap_start = 0, blocks = \<lambda>_. \<lparr>bsize = 0, is_free = False, bnext = 0\<rparr>\<rparr> 4096 0x8000"

definition demo_sched :: sched where
  "demo_sched = \<lparr>heap = stack_heap, vm = small_vm, mem = (\<lambda>_. 0),
     tasks = (\<lambda>_. zero_task)(0 := demo_task ''idle'' TASK_RUNNING 1, 1 := demo_task ''a'' TASK_BLOCKED 2,
                            2 := demo_task ''b'' TASK_READY 0),
     current = Some 0, next_id = 3, scheduling_enabled = True, fpu = [], kernel_stack = 0\<rparr>"

lemma demo_sched_ok: "sched_ok demo_sched 0 [1, 2]" "ring demo_sched 0 [1, 2]" "scheduling_enabled demo_sched"
  by (auto simp: sched_ok_def ring_def demo_sched_def demo_task_def zero_task_def)

theorem schedule_next_runnable_witness:
  "\<exists>s' r. schedule (\<lambda>_ s. s) 0x1000 demo_sched = Some (s', r) \<and> current s' = Some 2 \<and>
     t_rsp (tasks s' 0) = 0x1000 \<and> t_state (tasks s' 2) = TASK_RUNNING"
proof -
  have r: "runnable (tasks demo_sched 0)" "\<not> runnable (tasks demo_sched 1)" "runnable (tasks demo_sched 2)"
    by (simp_all add: runnable_def demo_sched_def demo_task_def)
  then have "\<exists>i \<in> set [0, 1, 2]. runnable (tasks demo_sched i)" by simp
  from schedule_next_runnable [OF demo_sched_ok(2,3) this, of "\<lambda>_ s. s" "0x1000"]
  obtain n xs zs s' where n: "[1, 2] @ [0] = xs @ n # zs" "runnable (tasks demo_sched n)"
    "\<forall>x \<in> set xs. \<not> runnable (tasks demo_sched x)"
    and s': "schedule (\<lambda>_ s. s) 0x1000 demo_sched = Some (s', t_rsp (tasks s' n))" "current s' = Some n"
      "t_rsp (tasks s' 0) = 0x1000"
      "n \<noteq> 0 \<Longrightarrow> tasks s' n = (tasks demo_sched n)\<lparr>t_state := TASK_RUNNING\<rparr>"
    by (auto split: if_splits)
  have "n = 2" using n r by (auto simp: Cons_eq_append_conv)
  then show ?thesis using s' by simp
qed



text \<open>Creation.  When \<open>task_create\<close> gives out a slot, the slot was not in the ring, or it held a dead
  task that has left the ring; the new task stands right behind the current one, every other task
  keeps its place, and the table keeps its invariant.  The new task is ready, and the frame on its
  kernel stack starts it at the given entry in kernel mode with interrupts enabled.\<close>

lemma task_create_keeps_ring:
  assumes ok: "sched_ok s c ys" and cr: "task_create fninit name entry s = Some (s', Some i)" and name: "name \<noteq> []"
  shows "\<exists>zs. sched_ok s' c (i # zs) \<and> set zs = set ys - {i} \<and>
    (i \<in> set ys \<longrightarrow> t_state (tasks s i) = TASK_DEAD) \<and> t_state (tasks s' i) = TASK_READY \<and>
    (let r = load_regs (mem s') (t_rsp (tasks s' i))
     in rip r = entry \<and> cs r = GDT_KERNEL_CODE \<and> ss r = GDT_KERNEL_DATA \<and> rflags r = 0x202)"
proof -
  obtain s1 where al: "task_alloc fninit name s = Some (s1, Some i)"
    and ins: "task_insert_ready i (task_set_entry i entry s1) = Some s'"
    using cr by (auto simp: task_create_def bind_eq_Some_conv split: option.splits)
  obtain zs where zs: "ring s1 c zs" "i \<notin> set (c # zs)" "set zs \<subseteq> set ys" "1 \<le> i" "i < TASK_MAX"
    "t_state (tasks s1 i) = TASK_READY" "t_name (tasks s1 i) = take 31 name"
    and same: "\<And>j. j \<noteq> i \<Longrightarrow> t_name (tasks s1 j) = t_name (tasks s j) \<and> t_state (tasks s1 j) = t_state (tasks s j)"
    and left: "\<And>j. j \<in> set ys \<Longrightarrow> j \<noteq> i \<Longrightarrow> j \<in> set zs" and dead: "i \<in> set ys \<Longrightarrow> t_state (tasks s i) = TASK_DEAD"
    by (rule task_alloc_ring [OF ok al name]) blast
  let ?s2 = "task_set_entry i entry s1"
  have s2: "t_state (tasks ?s2 j) = t_state (tasks s1 j)" "t_name (tasks ?s2 j) = t_name (tasks s1 j)"
    "t_next (tasks ?s2 j) = t_next (tasks s1 j)" "current ?s2 = current s1" for j
    by (simp_all add: task_set_entry_def Let_def case_prod_beta)
  have "linked_to (tasks ?s2) c zs c \<longleftrightarrow> linked_to (tasks s1) c zs c" by (rule linked_to_cong) (rule s2(3))
  then have "ring ?s2 c zs" using zs(1) s2(4) by (simp add: ring_def)
  then obtain s3 where s3: "task_insert_ready i ?s2 = Some s3" "ring s3 c (i # zs)" "mem s3 = mem ?s2"
    "\<And>j. t_name (tasks s3 j) = t_name (tasks ?s2 j) \<and> t_state (tasks s3 j) = t_state (tasks ?s2 j) \<and>
       t_rsp (tasks s3 j) = t_rsp (tasks ?s2 j)"
    by (rule insert_ready_ring [OF _ zs(2)]) blast
  have s': "s' = s3" using ins s3(1) by simp
  have "sched_ok s' c (i # zs)" unfolding sched_ok_def
  proof (intro conjI ballI impI)
    show "ring s' c (i # zs)" using s3(2) s' by simp
    show "set (c # i # zs) \<subseteq> {..<TASK_MAX}" using ok zs(3,5) by (auto simp: sched_ok_def)
    show "\<not> (t_name (tasks s' x) = [] \<and> t_state (tasks s' x) = TASK_READY)" if "x \<in> set (c # i # zs)" for x
      using that ok zs(2,3,7) same [of x] name s3(4) [of x] s2(1,2) [of x] s' by (cases "x = i") (auto simp: sched_ok_def)
    show "j \<in> set (i # zs)" if "j \<in> {1..<TASK_MAX}" "t_state (tasks s' j) = TASK_DEAD" for j
      using that ok left [of j] same [of j] s3(4) [of j] s2(1,2) [of j] s' by (cases "j = i") (auto simp: sched_ok_def)
  qed
  moreover have "set zs = set ys - {i}" using zs(2,3) left by auto
  ultimately show ?thesis
    using dead zs(6) s2(1,2) [of i] s3(3) s3(4) [of i] s' task_set_entry_frame [of i entry s1] by (intro exI [of _ zs]) simp
qed

end
