(* ===== verification/Elf.thy ===== *)
theory Elf
  imports Machine Vmm "HOL-Library.Monad_Syntax"
begin

text \<open>
  The ELF64 loader, \<open>src/kernel/elf.c\<close>: validation of the header, the program headers, loading of
  the segments into an address space, and the search for the interpreter and the program headers'
  address.

  An image is a list of bytes; \<open>size\<close> is its length.  Every read of the image goes through \<open>bytes_at\<close>,
  which is \<open>None\<close> outside the image, so that a value \<open>None\<close> of an operation is exactly a read
  out of bounds.  Independently of that, mapping a page may panic for lack of page table frames;
  this is the value \<open>Panic\<close> of \<open>outcome\<close>.  Physical memory is written through the direct map at
  \<open>KERNEL_HHDM_BASE\<close>.

  The lemmas show that no image makes the loader read outside it or map a page outside the user
  half, and that loading keeps the invariant of the page tables.
\<close>

section \<open>Images\<close>

type_synonym image = "u8 list"

definition bytes_at :: "image \<Rightarrow> nat \<Rightarrow> nat \<Rightarrow> u8 list option" where
  "bytes_at img off n = (if off + n \<le> length img then Some (take n (drop off img)) else None)"

text \<open>Little-endian fields of a structure.\<close>

definition le_nat :: "u8 list \<Rightarrow> nat" where
  "le_nat bs = foldr (\<lambda>b n. unat b + 256 * n) bs 0"

definition field :: "u8 list \<Rightarrow> nat \<Rightarrow> nat \<Rightarrow> 'a::len word" where
  "field bs off n = of_nat (le_nat (take n (drop off bs)))"

record elf64_ehdr_t =
  e_ident_magic :: u32
  e_ident_class :: u8
  e_ident_data :: u8
  e_type :: u16
  e_machine :: u16
  e_entry :: u64
  e_phoff :: u64
  e_phentsize :: u16
  e_phnum :: u16

record elf64_phdr_t =
  p_type :: u32
  p_offset :: u64
  p_vaddr :: u64
  p_filesz :: u64
  p_memsz :: u64

abbreviation (input) EHDR_SIZE :: nat where "EHDR_SIZE \<equiv> 64"
abbreviation (input) PHDR_SIZE :: nat where "PHDR_SIZE \<equiv> 56"
abbreviation (input) ELF_MAGIC :: u32 where "ELF_MAGIC \<equiv> 0x464C457F"
abbreviation (input) PT_LOAD :: u32 where "PT_LOAD \<equiv> 1"
abbreviation (input) PT_INTERP :: u32 where "PT_INTERP \<equiv> 3"
abbreviation (input) USER_VA_MIN :: u64 where "USER_VA_MIN \<equiv> 0x10000"
abbreviation (input) USER_VA_MAX :: u64 where "USER_VA_MAX \<equiv> 0x7FFFFFFFFFFF"
abbreviation (input) KERNEL_HHDM_BASE :: u64 where "KERNEL_HHDM_BASE \<equiv> 0xFFFF800000000000"

definition ehdr_of :: "u8 list \<Rightarrow> elf64_ehdr_t" where
  "ehdr_of bs = \<lparr>e_ident_magic = field bs 0 4, e_ident_class = field bs 4 1, e_ident_data = field bs 5 1,
     e_type = field bs 16 2, e_machine = field bs 18 2, e_entry = field bs 24 8, e_phoff = field bs 32 8,
     e_phentsize = field bs 54 2, e_phnum = field bs 56 2\<rparr>"

definition phdr_of :: "u8 list \<Rightarrow> elf64_phdr_t" where
  "phdr_of bs = \<lparr>p_type = field bs 0 4, p_offset = field bs 8 8, p_vaddr = field bs 16 8,
     p_filesz = field bs 32 8, p_memsz = field bs 40 8\<rparr>"

definition read_ehdr :: "image \<Rightarrow> elf64_ehdr_t option" where
  "read_ehdr img = map_option ehdr_of (bytes_at img 0 EHDR_SIZE)"

text \<open>\<open>bytes + e_phoff + i * e_phentsize\<close>\<close>

definition read_phdr :: "image \<Rightarrow> elf64_ehdr_t \<Rightarrow> nat \<Rightarrow> elf64_phdr_t option" where
  "read_phdr img eh i =
     map_option phdr_of (bytes_at img (unat (e_phoff eh + of_nat i * ucast (e_phentsize eh))) PHDR_SIZE)"

definition image_size :: "image \<Rightarrow> u64" where
  "image_size img = of_nat (length img)"

section \<open>Validation\<close>

definition elf_validate :: "image \<Rightarrow> int option" where
  "elf_validate img =
     (if image_size img < 64 then Some (- 1)
      else do {
        eh \<leftarrow> read_ehdr img;
        Some (if e_ident_magic eh \<noteq> ELF_MAGIC then - 1
              else if e_ident_class eh \<noteq> 2 then - 1
              else if e_ident_data eh \<noteq> 1 then - 1
              else if e_type eh \<noteq> 2 \<and> e_type eh \<noteq> 3 then - 1
              else if e_machine eh \<noteq> 62 then - 1
              else if e_phoff eh = 0 \<or> e_phnum eh = 0 then - 1
              else if e_phentsize eh < 56 then - 1
              else let ph_end = e_phoff eh + ucast (e_phnum eh) * ucast (e_phentsize eh)
                   in if ph_end < e_phoff eh then - 1
                      else if image_size img < ph_end then - 1
                      else 0)
      })"

section \<open>Writing into an address space\<close>

definition poke :: "u64 \<Rightarrow> u8 list \<Rightarrow> bytes \<Rightarrow> bytes" where
  "poke a bs m = (\<lambda>x. let k = unat (x - a) in if k < length bs then bs ! k else m x)"

definition page_chunk :: "u64 \<Rightarrow> nat \<Rightarrow> nat" where
  "page_chunk vaddr n = min (4096 - unat (vaddr - (vaddr AND NOT 0xFFF))) n"

lemma page_offset: "unat (vaddr - (vaddr AND NOT 0xFFF) :: u64) = unat vaddr mod 4096"
proof -
  have m: "(0xFFF :: u64) = mask 12" by (simp add: mask_eq_exp_minus_1)
  have "unat (vaddr AND NOT 0xFFF) = unat vaddr div 4096 * 4096"
    unfolding m unat_and_not_mask by simp
  moreover have "unat (vaddr AND NOT 0xFFF) \<le> unat vaddr"
    using calculation by simp
  ultimately show ?thesis by (subst unat_minus_no_wrap) (simp_all add: minus_div_mult_eq_mod)
qed

lemma page_chunk_pos: "0 < n \<Longrightarrow> 0 < page_chunk vaddr n"
  unfolding page_chunk_def page_offset by simp

function write_into_pml4 :: "vm \<Rightarrow> u64 \<Rightarrow> u64 \<Rightarrow> u8 list \<Rightarrow> bytes \<Rightarrow> bytes" where
  "write_into_pml4 v pml4 vaddr src m =
     (if src = [] then m
      else let page = vaddr AND NOT 0xFFF;
               off = vaddr - page;
               chunk = page_chunk vaddr (length src);
               phys = vmm_get_physical_in v pml4 page
           in if phys = 0 then m
              else write_into_pml4 v pml4 (vaddr + of_nat chunk) (drop chunk src)
                     (poke (phys + off + KERNEL_HHDM_BASE) (take chunk src) m))"
  by pat_completeness auto
termination
  by (relation "measure (\<lambda>(_, _, _, src, _). length src)") (auto simp: page_chunk_pos)

function zero_into_pml4 :: "vm \<Rightarrow> u64 \<Rightarrow> u64 \<Rightarrow> nat \<Rightarrow> bytes \<Rightarrow> bytes" where
  "zero_into_pml4 v pml4 vaddr n m =
     (if n = 0 then m
      else let page = vaddr AND NOT 0xFFF;
               off = vaddr - page;
               chunk = page_chunk vaddr n;
               phys = vmm_get_physical_in v pml4 page
           in if phys = 0 then m
              else zero_into_pml4 v pml4 (vaddr + of_nat chunk) (n - chunk)
                     (poke (phys + off + KERNEL_HHDM_BASE) (replicate chunk 0) m))"
  by pat_completeness auto
termination
  by (relation "measure (\<lambda>(_, _, _, n, _). n)") (auto simp: page_chunk_pos)

declare write_into_pml4.simps [simp del] zero_into_pml4.simps [simp del]

section \<open>Loading\<close>

datatype 'a outcome = Panic | Done 'a

text \<open>A fresh zeroed frame mapped at \<open>a\<close>; \<open>False\<close> when there is no frame.\<close>

definition map_fresh_page :: "u64 \<Rightarrow> u64 \<Rightarrow> vm \<times> bytes \<Rightarrow> (vm \<times> bytes \<times> bool) outcome" where
  "map_fresh_page pml4 a = (\<lambda>(v, m).
     (let (f, frame) = pmm_alloc_frame (frames v); v = v\<lparr>frames := f\<rparr>
      in if frame = 0 then Done (v, m, False)
         else let m = poke (frame + KERNEL_HHDM_BASE) (replicate 4096 0) m
              in case vmm_map_in v pml4 a frame (VMM_FLAG_WRITE OR VMM_FLAG_USER) of
                   None \<Rightarrow> Panic
                 | Some v \<Rightarrow> Done (v, m, True)))"

fun load_pages :: "u64 \<Rightarrow> u64 list \<Rightarrow> vm \<times> bytes \<Rightarrow> (vm \<times> bytes \<times> bool) outcome" where
  "load_pages pml4 [] (v, m) = Done (v, m, True)"
| "load_pages pml4 (a # as) (v, m) =
     (if vmm_get_physical_in v pml4 a \<noteq> 0 then load_pages pml4 as (v, m)
      else case map_fresh_page pml4 a (v, m) of
             Panic \<Rightarrow> Panic
           | Done (v, m, False) \<Rightarrow> Done (v, m, False)
           | Done (v, m, True) \<Rightarrow> load_pages pml4 as (v, m))"

text \<open>\<open>for (a = vstart; a < vend; a += PAGE_SIZE)\<close>; the bounds checked before it keep \<open>vend\<close> below
  \<open>2^47 + 4096\<close>, so \<open>a\<close> does not wrap around.\<close>

definition page_list :: "u64 \<Rightarrow> u64 \<Rightarrow> u64 list" where
  "page_list vstart vend =
     map (\<lambda>k. vstart + 4096 * of_nat k) [0..<(unat vend - unat vstart + 4095) div 4096]"

definition load_segment ::
  "image \<Rightarrow> elf64_ehdr_t \<Rightarrow> u64 \<Rightarrow> u64 \<Rightarrow> nat \<Rightarrow> vm \<times> bytes \<Rightarrow> (vm \<times> bytes \<times> bool) outcome option" where
  "load_segment img eh pml4 load_base i = (\<lambda>(v, m). do {
     ph \<leftarrow> read_phdr img eh i;
     let fail = Some (Done (v, m, False));
     if p_type ph \<noteq> PT_LOAD \<or> p_memsz ph = 0 then Some (Done (v, m, True))
     else if p_offset ph + p_filesz ph < p_offset ph then fail
     else if image_size img < p_offset ph + p_filesz ph then fail
     else if p_memsz ph < p_filesz ph then fail
     else do {
       let vaddr = p_vaddr ph + load_base;
       if vaddr < p_vaddr ph then fail
       else if vaddr < USER_VA_MIN then fail
       else if vaddr + p_memsz ph < vaddr then fail
       else if USER_VA_MAX < vaddr + p_memsz ph then fail
       else do {
         let vstart = vaddr AND NOT 0xFFF;
         let vend = (vaddr + p_memsz ph + 0xFFF) AND NOT 0xFFF;
         case load_pages pml4 (page_list vstart vend) (v, m) of
           Panic \<Rightarrow> Some Panic
         | Done (v, m, False) \<Rightarrow> Some (Done (v, m, False))
         | Done (v, m, True) \<Rightarrow> do {
             src \<leftarrow> bytes_at img (unat (p_offset ph)) (unat (p_filesz ph));
             let m = write_into_pml4 v pml4 vaddr src m;
             let m = (if p_filesz ph < p_memsz ph
                      then zero_into_pml4 v pml4 (vaddr + p_filesz ph) (unat (p_memsz ph - p_filesz ph)) m
                      else m);
             Some (Done (v, m, True))
           }
       }
     }
   })"

fun load_segments ::
  "image \<Rightarrow> elf64_ehdr_t \<Rightarrow> u64 \<Rightarrow> u64 \<Rightarrow> nat list \<Rightarrow> vm \<times> bytes \<Rightarrow> (vm \<times> bytes \<times> bool) outcome option" where
  "load_segments img eh pml4 load_base [] (v, m) = Some (Done (v, m, True))"
| "load_segments img eh pml4 load_base (i # is) (v, m) = do {
     r \<leftarrow> load_segment img eh pml4 load_base i (v, m);
     case r of
       Panic \<Rightarrow> Some Panic
     | Done (v, m, False) \<Rightarrow> Some (Done (v, m, False))
     | Done (v, m, True) \<Rightarrow> load_segments img eh pml4 load_base is (v, m)
   }"

definition elf_load_at ::
  "image \<Rightarrow> u64 option \<Rightarrow> u64 \<Rightarrow> vm \<times> bytes \<Rightarrow> (vm \<times> bytes \<times> u64) outcome option" where
  "elf_load_at img pml4 load_base = (\<lambda>(v, m).
     case pml4 of
       None \<Rightarrow> Some (Done (v, m, 0))
     | Some p \<Rightarrow> do {
         rc \<leftarrow> elf_validate img;
         if rc \<noteq> 0 then Some (Done (v, m, 0))
         else do {
           eh \<leftarrow> read_ehdr img;
           r \<leftarrow> load_segments img eh p load_base [0..<unat (e_phnum eh)] (v, m);
           Some (case r of
                   Panic \<Rightarrow> Panic
                 | Done (v, m, ok) \<Rightarrow> Done (v, m, if ok then e_entry eh + load_base else 0))
         }
       })"

definition elf_load :: "image \<Rightarrow> u64 option \<Rightarrow> vm \<times> bytes \<Rightarrow> (vm \<times> bytes \<times> u64) outcome option" where
  "elf_load img pml4 = elf_load_at img pml4 0"

text \<open>\<open>while (n > 0 && out[n - 1] == 0) n--;\<close>\<close>

definition strip_nul :: "u8 list \<Rightarrow> u8 list" where
  "strip_nul bs = rev (dropWhile (\<lambda>b. b = 0) (rev bs))"

text \<open>The bytes written to \<open>out\<close>, up to the terminator the source appends, and the result.\<close>

fun find_interp :: "image \<Rightarrow> elf64_ehdr_t \<Rightarrow> u32 \<Rightarrow> nat list \<Rightarrow> (u8 list \<times> int) option" where
  "find_interp img eh cap [] = Some ([], 0)"
| "find_interp img eh cap (i # is) = do {
     ph \<leftarrow> read_phdr img eh i;
     if p_type ph \<noteq> PT_INTERP then find_interp img eh cap is
     else if p_offset ph + p_filesz ph < p_offset ph then Some ([], 0)
     else if image_size img < p_offset ph + p_filesz ph then Some ([], 0)
     else if p_filesz ph = 0 then Some ([], 0)
     else do {
       let n = (if ucast cap \<le> p_filesz ph then ucast cap - 1 else p_filesz ph);
       bs \<leftarrow> bytes_at img (unat (p_offset ph)) (unat n);
       let out = strip_nul bs;
       Some (out, if out \<noteq> [] then 1 else 0)
     }
   }"

definition elf_find_interp :: "image \<Rightarrow> u32 \<Rightarrow> (u8 list \<times> int) option" where
  "elf_find_interp img cap =
     (if cap = 0 then Some ([], 0)
      else do {
        rc \<leftarrow> elf_validate img;
        if rc \<noteq> 0 then Some ([], 0)
        else do { eh \<leftarrow> read_ehdr img; find_interp img eh cap [0..<unat (e_phnum eh)] }
      })"

fun phdr_vaddr :: "image \<Rightarrow> elf64_ehdr_t \<Rightarrow> nat list \<Rightarrow> u64 option" where
  "phdr_vaddr img eh [] = Some 0"
| "phdr_vaddr img eh (i # is) = do {
     ph \<leftarrow> read_phdr img eh i;
     if p_type ph \<noteq> PT_LOAD then phdr_vaddr img eh is
     else if p_offset ph \<le> e_phoff eh \<and> e_phoff eh < p_offset ph + p_filesz ph
     then Some (p_vaddr ph + (e_phoff eh - p_offset ph))
     else phdr_vaddr img eh is
   }"

definition elf_phdr_vaddr :: "image \<Rightarrow> u64 option" where
  "elf_phdr_vaddr img = do {
     rc \<leftarrow> elf_validate img;
     if rc \<noteq> 0 then Some 0
     else do { eh \<leftarrow> read_ehdr img; phdr_vaddr img eh [0..<unat (e_phnum eh)] }
   }"

section \<open>Reads stay inside the image\<close>

lemma unat_ucast_u16_u64: "unat (ucast (x :: u16) :: u64) = unat x"
  using unsigned_less [of x, where 'a = nat] by (simp add: unsigned_ucast_eq take_bit_nat_eq_self)

lemma unat_image_size: "length img < 2 ^ 64 \<Longrightarrow> unat (image_size img) = length img"
  by (simp add: image_size_def)

lemma elf_validate_total:
  assumes "length img < 2 ^ 64"
  shows "elf_validate img \<noteq> None" "elf_validate img = Some 0 \<Longrightarrow> read_ehdr img \<noteq> None"
proof -
  have "64 \<le> length img" if "\<not> image_size img < 64"
    using that unat_image_size [OF assms] by (simp add: word_less_nat_alt)
  then show "elf_validate img \<noteq> None" "elf_validate img = Some 0 \<Longrightarrow> read_ehdr img \<noteq> None"
    by (auto simp: elf_validate_def read_ehdr_def bytes_at_def Let_def split: if_splits)
qed

lemma elf_validate_table:
  assumes len: "length img < 2 ^ 64" and ok: "elf_validate img = Some 0" and eh: "read_ehdr img = Some eh"
  shows "56 \<le> unat (e_phentsize eh)"
    "unat (e_phoff eh) + unat (e_phnum eh) * unat (e_phentsize eh) \<le> length img"
proof -
  define ph_end :: u64 where "ph_end = e_phoff eh + ucast (e_phnum eh) * ucast (e_phentsize eh)"
  have c: "\<not> e_phentsize eh < 56" "\<not> ph_end < e_phoff eh" "\<not> image_size img < ph_end"
    using ok eh by (auto simp: elf_validate_def Let_def ph_end_def split: if_splits)
  show "56 \<le> unat (e_phentsize eh)" using c(1) by (simp add: word_less_nat_alt)
  have "unat (e_phnum eh) < 2 ^ 16" "unat (e_phentsize eh) < 2 ^ 16"
    using unsigned_less [of "e_phnum eh", where 'a = nat] unsigned_less [of "e_phentsize eh", where 'a = nat]
    by simp_all
  then have b: "unat (e_phnum eh) * unat (e_phentsize eh) < 2 ^ 32"
    using mult_strict_mono [of "unat (e_phnum eh)" "2 ^ 16" "unat (e_phentsize eh)" "2 ^ 16"] by simp
  then have prod: "unat (ucast (e_phnum eh) * ucast (e_phentsize eh) :: u64) = unat (e_phnum eh) * unat (e_phentsize eh)"
    by (simp add: unat_word_ariths(2) unat_ucast_u16_u64)
  have "unat ph_end = (unat (e_phoff eh) + unat (e_phnum eh) * unat (e_phentsize eh)) mod 2 ^ 64"
    unfolding ph_end_def by (simp only: unat_word_ariths(1) prod) simp
  moreover have "unat (e_phoff eh) < 2 ^ 64" using unsigned_less [of "e_phoff eh", where 'a = nat] by simp
  ultimately have "unat ph_end = unat (e_phoff eh) + unat (e_phnum eh) * unat (e_phentsize eh)"
    using c(2) b by (cases "unat (e_phoff eh) + unat (e_phnum eh) * unat (e_phentsize eh) < 2 ^ 64")
      (auto simp: word_less_nat_alt le_mod_geq)
  then show "unat (e_phoff eh) + unat (e_phnum eh) * unat (e_phentsize eh) \<le> length img"
    using c(3) unat_image_size [OF len] by (simp add: word_less_nat_alt)
qed

lemma read_phdr_total:
  assumes len: "length img < 2 ^ 64" and ok: "elf_validate img = Some 0" and eh: "read_ehdr img = Some eh"
    and i: "i < unat (e_phnum eh)"
  shows "read_phdr img eh i \<noteq> None"
proof -
  note t = elf_validate_table [OF len ok eh]
  let ?e = "unat (e_phentsize eh)"
  have "unat (e_phoff eh) + (i + 1) * ?e \<le> unat (e_phoff eh) + unat (e_phnum eh) * ?e"
    using i by (intro add_left_mono mult_right_mono) simp_all
  then have fits: "unat (e_phoff eh) + i * ?e + 56 \<le> length img" using t by (simp add: algebra_simps)
  have i64: "unat (of_nat i :: u64) = i"
    using i unsigned_less [of "e_phnum eh", where 'a = nat] by (intro unat_of_nat_u64) simp
  have m: "unat (of_nat i * ucast (e_phentsize eh) :: u64) = i * ?e"
    using fits len by (simp add: unat_word_ariths(2) i64 unat_ucast_u16_u64)
  have "unat (e_phoff eh + of_nat i * ucast (e_phentsize eh) :: u64) = unat (e_phoff eh) + i * ?e"
    using fits len by (subst unat_plus_no_wrap) (simp_all add: m)
  then show ?thesis using fits by (simp add: read_phdr_def bytes_at_def)
qed

text \<open>The check \<open>p_offset + p_filesz\<close> against the image, with its wrap-around.\<close>

lemma segment_inside:
  fixes off n :: u64
  assumes "length img < 2 ^ 64" "\<not> off + n < off" "\<not> image_size img < off + n"
  shows "unat off + unat n \<le> length img"
proof -
  have "unat (off + n) = (unat off + unat n) mod 2 ^ 64" by (simp add: unat_word_ariths(1))
  moreover have "unat off < 2 ^ 64" "unat n < 2 ^ 64"
    using unsigned_less [of off, where 'a = nat] unsigned_less [of n, where 'a = nat] by simp_all
  ultimately have "unat (off + n) = unat off + unat n"
    using assms(2) by (cases "unat off + unat n < 2 ^ 64") (auto simp: word_less_nat_alt le_mod_geq)
  then show ?thesis using assms(1,3) unat_image_size by (simp add: word_less_nat_alt)
qed

lemma load_segment_total:
  assumes "length img < 2 ^ 64" "elf_validate img = Some 0" "read_ehdr img = Some eh" "i < unat (e_phnum eh)"
  shows "load_segment img eh pml4 base i vm_mem \<noteq> None"
proof -
  obtain v m where vm: "vm_mem = (v, m)" by fastforce
  obtain ph where ph: "read_phdr img eh i = Some ph" using read_phdr_total [OF assms] by blast
  have "bytes_at img (unat (p_offset ph)) (unat (p_filesz ph)) \<noteq> None"
    if "\<not> p_offset ph + p_filesz ph < p_offset ph" "\<not> image_size img < p_offset ph + p_filesz ph"
    using segment_inside [OF assms(1) that] by (simp add: bytes_at_def)
  then show ?thesis
    by (auto simp: load_segment_def vm ph Let_def split: outcome.split prod.split bool.split)
qed

lemma load_segments_total:
  assumes "length img < 2 ^ 64" "elf_validate img = Some 0" "read_ehdr img = Some eh"
    and "\<forall>i \<in> set is. i < unat (e_phnum eh)"
  shows "load_segments img eh pml4 base is vm_mem \<noteq> None"
  using assms(4)
proof (induction "is" arbitrary: vm_mem)
  case Nil
  then show ?case by (cases vm_mem) simp
next
  case (Cons i "is")
  obtain v m where vm: "vm_mem = (v, m)" by fastforce
  obtain r where "load_segment img eh pml4 base i (v, m) = Some r"
    using load_segment_total [OF assms(1-3), of i pml4 base "(v, m)"] Cons.prems by auto
  then show ?case using Cons by (auto simp: vm split: outcome.split prod.split bool.split)
qed

lemma find_interp_total:
  assumes "length img < 2 ^ 64" "elf_validate img = Some 0" "read_ehdr img = Some eh"
    and "\<forall>i \<in> set is. i < unat (e_phnum eh)" and cap: "cap \<noteq> 0"
  shows "find_interp img eh cap is \<noteq> None"
  using assms(4)
proof (induction "is")
  case (Cons i "is")
  obtain ph where ph: "read_phdr img eh i = Some ph"
    using read_phdr_total [OF assms(1-3), of i] Cons.prems by auto
  define n :: u64 where "n = (if ucast cap \<le> p_filesz ph then ucast cap - 1 else p_filesz ph)"
  have "bytes_at img (unat (p_offset ph)) (unat n) \<noteq> None"
    if c: "\<not> p_offset ph + p_filesz ph < p_offset ph" "\<not> image_size img < p_offset ph + p_filesz ph"
      and pos: "p_filesz ph \<noteq> 0"
  proof -
    have "0 < unat cap" using cap by (simp add: unat_gt_0)
    then have "unat (ucast cap - 1 :: u64) = unat cap - 1"
      by (subst unat_minus_no_wrap) (simp_all add: unat_ucast_u32_u64)
    then have "unat n \<le> unat (p_filesz ph)"
      by (auto simp: n_def word_le_nat_alt unat_ucast_u32_u64)
    then show ?thesis using segment_inside [OF assms(1) c] by (simp add: bytes_at_def)
  qed
  then show ?case using Cons by (auto simp: ph Let_def n_def [symmetric])
qed simp

lemma phdr_vaddr_total:
  assumes "length img < 2 ^ 64" "elf_validate img = Some 0" "read_ehdr img = Some eh"
    and "\<forall>i \<in> set is. i < unat (e_phnum eh)"
  shows "phdr_vaddr img eh is \<noteq> None"
  using assms(4)
proof (induction "is")
  case (Cons i "is")
  then obtain ph where "read_phdr img eh i = Some ph"
    using read_phdr_total [OF assms(1-3), of i] by auto
  then show ?case using Cons by simp
qed simp

lemma elf_load_total:
  assumes "length img < 2 ^ 64"
  shows "elf_load_at img pml4 base vm_mem \<noteq> None" "elf_find_interp img cap \<noteq> None" "elf_phdr_vaddr img \<noteq> None"
proof -
  obtain v m where vm: "vm_mem = (v, m)" by fastforce
  obtain rc where rc: "elf_validate img = Some rc" using elf_validate_total(1) [OF assms] by blast
  have eh: "\<exists>eh. read_ehdr img = Some eh" if "rc = 0" using elf_validate_total(2) [OF assms] rc that by auto
  have "load_segments img eh p base [0..<unat (e_phnum eh)] (v, m) \<noteq> None"
    if "rc = 0" "read_ehdr img = Some eh" for eh p
    using load_segments_total [OF assms _ that(2)] rc that(1) by simp
  then show "elf_load_at img pml4 base vm_mem \<noteq> None"
    using rc eh by (cases "rc = 0") (auto simp: elf_load_at_def vm bind_eq_Some_conv split: option.split)
  have "find_interp img eh cap [0..<unat (e_phnum eh)] \<noteq> None"
    if "rc = 0" "read_ehdr img = Some eh" "cap \<noteq> 0" for eh
    using find_interp_total [OF assms _ that(2) _ that(3)] rc that(1) by simp
  then show "elf_find_interp img cap \<noteq> None"
    using rc eh by (cases "rc = 0") (auto simp: elf_find_interp_def)
  have "phdr_vaddr img eh [0..<unat (e_phnum eh)] \<noteq> None" if "rc = 0" "read_ehdr img = Some eh" for eh
    using phdr_vaddr_total [OF assms _ that(2)] rc that(1) by simp
  then show "elf_phdr_vaddr img \<noteq> None"
    using rc eh by (cases "rc = 0") (auto simp: elf_phdr_vaddr_def)
qed

section \<open>What loading leaves alone\<close>

text \<open>The page tables of the address spaces \<open>R\<close> keep their invariant, the kernel half of each is
  unchanged, and only the address space \<open>p\<close> gets new translations.\<close>

definition only_extends :: "u64 set \<Rightarrow> u64 \<Rightarrow> vm \<Rightarrow> vm \<Rightarrow> bool" where
  "only_extends R p v v' \<longleftrightarrow> vm_ok R v' \<and> (\<forall>r \<in> R. \<forall>i \<ge> 256. tables v' r i = tables v r i) \<and>
     (\<forall>r \<in> R. \<forall>va. r \<noteq> p \<and> user_va va \<longrightarrow> vmm_get_physical_in v' r va = vmm_get_physical_in v r va)"

lemma only_extends_refl: "vm_ok R v \<Longrightarrow> only_extends R p v v"
  by (simp add: only_extends_def)

lemma only_extends_trans: "only_extends R p u v \<Longrightarrow> only_extends R p v w \<Longrightarrow> only_extends R p u w"
  unfolding only_extends_def by simp

lemma only_extends_ok: "only_extends R p u v \<Longrightarrow> vm_ok R v"
  by (simp add: only_extends_def)

lemma alloc_frame_vm_ok:
  assumes "vm_ok R v"
  shows "vm_ok R (v\<lparr>frames := fst (pmm_alloc_frame (frames v))\<rparr>)"
proof -
  note ok = vm_okD(1) [OF assms]
  have fr: "free_frames (fst (pmm_alloc_frame (frames v))) \<subseteq> free_frames (frames v)"
    using frames.alloc_empty [OF ok] frames.alloc_free [OF ok] by (cases "free_frames (frames v) = {}") auto
  have "owned_frame (fst (pmm_alloc_frame (frames v))) a" if "owned_frame (frames v) a" for a
    using that fr frames.alloc_limit [OF ok] unfolding owned_frame_def by auto
  then show ?thesis
    using assms frames.alloc_ok [OF ok] fr unfolding vm_ok_def by auto
qed

lemma map_fresh_page_extends:
  assumes "vm_ok R v" "p \<in> R" "user_va a" "map_fresh_page p a (v, m) = Done (v', m', ok)"
  shows "only_extends R p v v'"
proof -
  define v1 where "v1 = v\<lparr>frames := fst (pmm_alloc_frame (frames v))\<rparr>"
  define frame where "frame = snd (pmm_alloc_frame (frames v))"
  have v1: "vm_ok R v1" unfolding v1_def by (rule alloc_frame_vm_ok [OF assms(1)])
  have tv: "tables v1 = tables v" by (simp add: v1_def)
  have get: "vmm_get_physical_in v1 r va = vmm_get_physical_in v r va" for r va
    unfolding vmm_get_physical_in_def walk_lookup_def tv ..
  have base: "only_extends R p v v1"
    using v1 unfolding only_extends_def get by (simp add: tv)
  have r: "(if frame = 0 then Done (v1, m, False)
      else case vmm_map_in v1 p a frame (VMM_FLAG_WRITE OR VMM_FLAG_USER) of
             None \<Rightarrow> Panic
           | Some v \<Rightarrow> Done (v, poke (frame + KERNEL_HHDM_BASE) (replicate 4096 0) m, True)) = Done (v', m', ok)"
    using assms(4) by (simp add: map_fresh_page_def Let_def case_prod_beta v1_def frame_def split: if_splits option.splits)
  show ?thesis
  proof (cases "frame = 0")
    case True
    then show ?thesis using r base by simp
  next
    case False
    then have mp: "vmm_map_in v1 p a frame (VMM_FLAG_WRITE OR VMM_FLAG_USER) = Some v'"
      using r by (auto split: option.splits)
    have "vmm_get_physical_in v' r va = vmm_get_physical_in v1 r va" if "r \<in> R" "r \<noteq> p" "user_va va" for r va
      using space.map_entry [OF v1 assms(2,3) mp that(1,3)] that
      by (simp add: get_physical_entry [OF space.map_ok [OF v1 assms(2,3) mp] that(1,3)]
          get_physical_entry [OF v1 that(1,3)] space_entry_def)
    then have "only_extends R p v1 v'"
      using space.map_ok [OF v1 assms(2,3) mp] map_in_entries(3) [OF v1 assms(2,3) mp] by (simp add: only_extends_def)
    then show ?thesis by (rule only_extends_trans [OF base])
  qed
qed

lemma load_pages_extends:
  assumes "vm_ok R v" "p \<in> R" "\<forall>a \<in> set as. user_va a" "load_pages p as (v, m) = Done (v', m', ok)"
  shows "only_extends R p v v'"
  using assms
proof (induction as arbitrary: v m)
  case Nil
  then show ?case by (simp add: only_extends_refl)
next
  case (Cons a as)
  show ?case
  proof (cases "vmm_get_physical_in v p a = 0")
    case False
    then show ?thesis using Cons by simp
  next
    case True
    obtain v1 m1 b where f: "map_fresh_page p a (v, m) = Done (v1, m1, b)"
      using Cons.prems(4) True by (auto split: outcome.splits)
    have x: "only_extends R p v v1" using map_fresh_page_extends [OF Cons.prems(1,2) _ f] Cons.prems(3) by simp
    show ?thesis
    proof (cases b)
      case True
      then have "load_pages p as (v1, m1) = Done (v', m', ok)"
        using Cons.prems(4) f \<open>vmm_get_physical_in v p a = 0\<close> by simp
      then have "only_extends R p v1 v'"
        using Cons.IH [OF only_extends_ok [OF x] Cons.prems(2)] Cons.prems(3) by simp
      then show ?thesis by (rule only_extends_trans [OF x])
    next
      case False
      then show ?thesis using Cons.prems(4) f \<open>vmm_get_physical_in v p a = 0\<close> x by simp
    qed
  qed
qed

lemma user_vaI:
  assumes "unat a < 2 ^ 47"
  shows "user_va a"
proof -
  have "unat (drop_bit 39 a AND 0x1FF) \<le> unat (drop_bit 39 a)"
    using word_and_le2 [of "drop_bit 39 a" "0x1FF"] by (simp add: word_le_nat_alt)
  also have "\<dots> = unat a div 2 ^ 39" 
    using unsigned_less [of a, where 'a = nat] unfolding unsigned_drop_bit_eq
    by (simp add: drop_bit_eq_div take_bit_nat_eq_self)
  also have "\<dots> < 256" using assms by (simp add: less_mult_imp_div_less)
  finally show ?thesis by (simp add: user_va_def pml4_idx_def)
qed

lemma unat_round_down: "unat (x AND NOT 0xFFF :: u64) = unat x div 4096 * 4096"
proof -
  have m: "(0xFFF :: u64) = mask 12" by (simp add: mask_eq_exp_minus_1)
  show ?thesis unfolding m unat_and_not_mask by simp
qed

text \<open>The pages of a segment that passed the checks lie in the user half.\<close>

lemma segment_pages_user:
  fixes vaddr memsz :: u64
  assumes "\<not> vaddr + memsz < vaddr" "\<not> USER_VA_MAX < vaddr + memsz"
  shows "\<forall>a \<in> set (page_list (vaddr AND NOT 0xFFF) ((vaddr + memsz + 0xFFF) AND NOT 0xFFF)). user_va a"
proof
  let ?s = "vaddr AND NOT 0xFFF" and ?e = "(vaddr + memsz + 0xFFF) AND NOT 0xFFF"
  have top: "unat (vaddr + memsz) < 2 ^ 47" using assms(2) by (simp add: word_less_nat_alt)
  have le: "unat vaddr \<le> unat (vaddr + memsz)" using assms(1) by (simp add: word_less_nat_alt)
  have "unat (vaddr + memsz + 0xFFF) = unat (vaddr + memsz) + 4095"
    using top by (subst unat_plus_no_wrap) simp_all
  then have e: "unat ?e = (unat (vaddr + memsz) + 4095) div 4096 * 4096" by (simp only: unat_round_down)
  have s: "unat ?s = unat vaddr div 4096 * 4096" by (rule unat_round_down)
  define q where "q = (unat (vaddr + memsz) + 4095) div 4096 - unat vaddr div 4096"
  have "unat ?e - unat ?s = q * 4096" unfolding e s q_def by (simp add: diff_mult_distrib)
  then have n: "(unat ?e - unat ?s + 4095) div 4096 = q" by simp
  fix a assume "a \<in> set (page_list ?s ?e)"
  then obtain k where k: "k < q" "a = ?s + 4096 * of_nat k" unfolding page_list_def n by auto
  have q: "unat vaddr div 4096 + q \<le> (unat (vaddr + memsz) + 4095) div 4096"
    unfolding q_def using le by (simp add: div_le_mono)
  have "(unat (vaddr + memsz) + 4095) div 4096 \<le> 2 ^ 35" using top by simp
  then have lim: "unat vaddr div 4096 + k < 2 ^ 35" using q k(1) by simp
  define vs where "vs = ?s"
  have vs: "unat vs = unat vaddr div 4096 * 4096" unfolding vs_def by (rule s)
  have "unat (4096 * of_nat k :: u64) = 4096 * k"
    using unat_of_nat_u64 [of "4096 * k"] lim by simp
  then have "unat a = (unat vaddr div 4096 + k) * 4096"
    unfolding k(2) vs_def [symmetric] using lim vs by (subst unat_plus_no_wrap) simp_all
  then show "user_va a" using lim by (intro user_vaI) simp
qed

lemma load_segment_extends:
  assumes "vm_ok R v" "p \<in> R" "load_segment img eh p base i (v, m) = Some (Done (v', m', ok))"
  shows "only_extends R p v v'"
proof -
  obtain ph where ph: "read_phdr img eh i = Some ph"
    using assms(3) by (auto simp: load_segment_def bind_eq_Some_conv)
  let ?vaddr = "p_vaddr ph + base"
  let ?ps = "page_list (?vaddr AND NOT 0xFFF) ((?vaddr + p_memsz ph + 0xFFF) AND NOT 0xFFF)"
  have "v' = v \<or> (\<not> ?vaddr + p_memsz ph < ?vaddr \<and> \<not> USER_VA_MAX < ?vaddr + p_memsz ph \<and>
      (\<exists>m1 b. load_pages p ?ps (v, m) = Done (v', m1, b)))"
    using assms(3) unfolding load_segment_def ph Let_def
    by (auto simp: bind_eq_Some_conv split: if_splits outcome.splits prod.splits bool.splits)
  then show ?thesis
  proof
    assume "v' = v"
    then show ?thesis using only_extends_refl [OF assms(1)] by simp
  next
    assume "\<not> ?vaddr + p_memsz ph < ?vaddr \<and> \<not> USER_VA_MAX < ?vaddr + p_memsz ph \<and>
      (\<exists>m1 b. load_pages p ?ps (v, m) = Done (v', m1, b))"
    then obtain m1 b where c: "\<not> ?vaddr + p_memsz ph < ?vaddr" "\<not> USER_VA_MAX < ?vaddr + p_memsz ph"
      "load_pages p ?ps (v, m) = Done (v', m1, b)" by blast
    show ?thesis by (rule load_pages_extends [OF assms(1,2) segment_pages_user [OF c(1,2)] c(3)])
  qed
qed

lemma load_segments_extends:
  assumes "vm_ok R v" "p \<in> R" "load_segments img eh p base is (v, m) = Some (Done (v', m', ok))"
  shows "only_extends R p v v'"
  using assms(1,3)
proof (induction "is" arbitrary: v m)
  case Nil
  then show ?case by (simp add: only_extends_refl)
next
  case (Cons i "is")
  obtain v1 m1 b where s: "load_segment img eh p base i (v, m) = Some (Done (v1, m1, b))"
    and r: "if b then load_segments img eh p base is (v1, m1) = Some (Done (v', m', ok)) else v' = v1"
  proof (cases "load_segment img eh p base i (v, m)")
    case (Some r)
    then show thesis using that Cons.prems(2) by (cases r) (auto split: bool.splits)
  qed (use Cons.prems(2) in simp)
  have x: "only_extends R p v v1" by (rule load_segment_extends [OF Cons.prems(1) assms(2) s])
  show ?case
  proof (cases b)
    case True
    then show ?thesis using Cons.IH [OF only_extends_ok [OF x]] r only_extends_trans [OF x] by simp
  qed (use r x in simp)
qed

section \<open>Properties\<close>


text \<open>An image with a header and one program header that claims more file bytes than there are.\<close>

definition short_image :: image where
  "short_image = [127, 69, 76, 70, 2, 1, 1, 0, 0, 0, 0, 0, 0, 0, 0, 0, 2, 0, 62, 0, 1, 0, 0, 0,
     0, 16, 64, 0, 0, 0, 0, 0, 64, 0, 0, 0, 0, 0, 0, 0, 0, 0, 0, 0, 0, 0, 0, 0,
     0, 0, 0, 0, 64, 0, 56, 0, 1, 0, 0, 0, 0, 0, 0, 0, 1, 0, 0, 0, 5, 0, 0, 0,
     0, 16, 0, 0, 0, 0, 0, 0, 0, 16, 64, 0, 0, 0, 0, 0, 0, 0, 0, 0, 0, 0, 0, 0,
     0, 1, 0, 0, 0, 0, 0, 0, 0, 1, 0, 0, 0, 0, 0, 0, 0, 0, 0, 0, 0, 0, 0, 0]"


end
