(* ===== verification/Console.thy ===== *)
theory Console
  imports Kernel_Prelude
begin

text \<open>
  The terminal: the VGA text screen (\<open>src/drivers/vga.c\<close>), the serial line
  (\<open>src/drivers/serial.c\<close>), the keyboard (\<open>src/drivers/keyboard.c\<close>), the console that joins them with
  its line discipline and its escape sequences (\<open>src/drivers/console.c\<close>), and the mouse
  (\<open>src/drivers/mouse.c\<close>).

  The screen is a function from the index into the framebuffer to its entries; the index is not
  bounded, as in the code.  An \<open>int\<close> of the source is an integer that \<open>int32\<close> wraps around where the
  source computes with values a program controls.  Ports are modelled by what they carry: the
  bytes sent over the serial line and the cursor position sent to the screen.  Waiting for input
  is \<open>None\<close>.  The interrupt handlers return the signal they send to the foreground group, if any;
  the mode 13h graphics and font routines only program the chip and are not modelled.

  The lemmas show that the input rings are queues of at most 255 bytes, that the cursor stays on
  the screen and the framebuffer is written inside the screen only as long as no escape sequence
  carries a huge parameter, and that such a parameter breaks it.
\<close>

section \<open>Integers\<close>

definition int32 :: "int \<Rightarrow> int" where
  "int32 x = (x + 2 ^ 31) mod 2 ^ 32 - 2 ^ 31"

lemma int32_id: "- (2 ^ 31) \<le> x \<Longrightarrow> x < 2 ^ 31 \<Longrightarrow> int32 x = x"
  by (simp add: int32_def)

abbreviation (input) VGA_WIDTH :: int where "VGA_WIDTH \<equiv> 80"
abbreviation (input) VGA_HEIGHT :: int where "VGA_HEIGHT \<equiv> 25"

section \<open>Screen\<close>

record vga =
  vga_buffer :: "int \<Rightarrow> u16"
  vga_row :: int
  vga_col :: int
  vga_color_attr :: u8
  hw_cursor :: u16

text \<open>The character is a signed \<open>char\<close>: it is sign-extended before the colour is added.\<close>

definition vga_entry :: "u8 \<Rightarrow> u8 \<Rightarrow> u16" where
  "vga_entry c color = scast c OR push_bit 8 (ucast color)"

definition vga_make_color :: "u8 \<Rightarrow> u8 \<Rightarrow> u8" where
  "vga_make_color fg bg = fg OR push_bit 4 bg"

definition vga_update_cursor :: "'a vga_scheme \<Rightarrow> 'a vga_scheme" where
  "vga_update_cursor s = s\<lparr>hw_cursor := of_int (vga_row s * VGA_WIDTH + vga_col s)\<rparr>"

definition vga_put :: "int \<Rightarrow> u16 \<Rightarrow> 'a vga_scheme \<Rightarrow> 'a vga_scheme" where
  "vga_put i e s = s\<lparr>vga_buffer := (vga_buffer s)(i := e)\<rparr>"

definition vga_blank :: "'a vga_scheme \<Rightarrow> u16" where
  "vga_blank s = vga_entry 0x20 (vga_color_attr s)"

definition vga_scroll :: "'a vga_scheme \<Rightarrow> 'a vga_scheme" where
  "vga_scroll s =
     (if vga_row s < VGA_HEIGHT then s
      else let buf = vga_buffer s
           in s\<lparr>vga_buffer := (\<lambda>i. if 0 \<le> i \<and> i < VGA_WIDTH * (VGA_HEIGHT - 1) then buf (i + VGA_WIDTH)
                                  else if VGA_WIDTH * (VGA_HEIGHT - 1) \<le> i \<and> i < VGA_WIDTH * VGA_HEIGHT
                                  then vga_blank s else buf i),
                vga_row := VGA_HEIGHT - 1\<rparr>)"

definition vga_clear :: "'a vga_scheme \<Rightarrow> 'a vga_scheme" where
  "vga_clear s =
     vga_update_cursor (s\<lparr>vga_buffer := (\<lambda>i. if 0 \<le> i \<and> i < VGA_WIDTH * VGA_HEIGHT then vga_blank s else vga_buffer s i),
       vga_row := 0, vga_col := 0\<rparr>)"

definition vga_get_cursor :: "'a vga_scheme \<Rightarrow> int \<times> int" where
  "vga_get_cursor s = (vga_row s, vga_col s)"

definition vga_putchar_at :: "u8 \<Rightarrow> int \<Rightarrow> int \<Rightarrow> 'a vga_scheme \<Rightarrow> 'a vga_scheme" where
  "vga_putchar_at c row col s =
     (if 0 \<le> row \<and> row < VGA_HEIGHT \<and> 0 \<le> col \<and> col < VGA_WIDTH
      then vga_put (row * VGA_WIDTH + col) (vga_entry c (vga_color_attr s)) s else s)"

definition vga_set_color :: "u8 \<Rightarrow> u8 \<Rightarrow> 'a vga_scheme \<Rightarrow> 'a vga_scheme" where
  "vga_set_color fg bg s = s\<lparr>vga_color_attr := vga_make_color fg bg\<rparr>"

definition vga_set_cursor :: "int \<Rightarrow> int \<Rightarrow> 'a vga_scheme \<Rightarrow> 'a vga_scheme" where
  "vga_set_cursor row col s = vga_update_cursor (s\<lparr>vga_row := row, vga_col := col\<rparr>)"

definition wrap_line :: "'a vga_scheme \<Rightarrow> 'a vga_scheme" where
  "wrap_line s = (if VGA_WIDTH \<le> vga_col s then s\<lparr>vga_col := 0, vga_row := int32 (vga_row s + 1)\<rparr> else s)"

definition vga_putchar :: "u8 \<Rightarrow> 'a vga_scheme \<Rightarrow> 'a vga_scheme" where
  "vga_putchar c s =
     vga_update_cursor (vga_scroll
       (if c = 0x0A then s\<lparr>vga_col := 0, vga_row := int32 (vga_row s + 1)\<rparr>
        else if c = 0x09 then wrap_line (s\<lparr>vga_col := 8 * ((vga_col s + 8) div 8)\<rparr>)
        else if c = 0x0D then s\<lparr>vga_col := 0\<rparr>
        else if c = 0x08
        then (if 0 < vga_col s then s\<lparr>vga_col := vga_col s - 1\<rparr>
              else if 0 < vga_row s then s\<lparr>vga_row := vga_row s - 1, vga_col := VGA_WIDTH - 1\<rparr> else s)
        else if c < 0x20 \<or> c = 0x7F then s
        else let s = vga_put (int32 (vga_row s * VGA_WIDTH + vga_col s)) (vga_entry c (vga_color_attr s)) s
             in wrap_line (s\<lparr>vga_col := vga_col s + 1\<rparr>)))"

definition vga_puts :: "u8 list \<Rightarrow> 'a vga_scheme \<Rightarrow> 'a vga_scheme" where
  "vga_puts = fold vga_putchar"

definition vga_backspace :: "'a vga_scheme \<Rightarrow> 'a vga_scheme" where
  "vga_backspace s =
     (let s = (if 0 < vga_col s then s\<lparr>vga_col := vga_col s - 1\<rparr>
               else if 0 < vga_row s then s\<lparr>vga_row := vga_row s - 1, vga_col := VGA_WIDTH - 1\<rparr> else s)
      in vga_update_cursor (vga_put (int32 (vga_row s * VGA_WIDTH + vga_col s)) (vga_blank s) s))"

section \<open>Input rings\<close>

text \<open>The keyboard and the serial line have the same ring of 256 bytes.\<close>

record input_ring =
  ring_buf :: "nat \<Rightarrow> u8"
  read_idx :: nat
  write_idx :: nat

definition enqueue :: "u8 \<Rightarrow> input_ring \<Rightarrow> input_ring" where
  "enqueue c r =
     (let next = (write_idx r + 1) mod 256
      in if next \<noteq> read_idx r then r\<lparr>ring_buf := (ring_buf r)(write_idx r := c), write_idx := next\<rparr> else r)"

definition has_input :: "input_ring \<Rightarrow> bool" where
  "has_input r \<longleftrightarrow> read_idx r \<noteq> write_idx r"

definition dequeue :: "input_ring \<Rightarrow> input_ring \<times> u8" where
  "dequeue r = (r\<lparr>read_idx := (read_idx r + 1) mod 256\<rparr>, ring_buf r (read_idx r))"

section \<open>Terminal state\<close>

datatype ansi_state = ANSI_NORMAL | ANSI_ESC | ANSI_BRACKET

record tty = vga +
  ansi :: ansi_state
  ansi_params :: "int list"
  ansi_param_count :: nat
  ansi_cur_param :: int
  saved_row :: int
  saved_col :: int
  line_len :: u32
  last_input_src :: int
  serial_out :: "u8 list"
  serial_ring :: input_ring
  serial_raw_mode :: bool
  win_rows :: u16
  win_cols :: u16
  esc_state :: nat
  csi_mod :: u16
  csi_arg_idx :: u8
  csi_arg :: u16
  kbd_ring :: input_ring
  shift_held :: bool
  caps_on :: bool
  extended :: bool

section \<open>Serial line\<close>

abbreviation (input) KEY_UP :: u8 where "KEY_UP \<equiv> 0x81"
abbreviation (input) KEY_DOWN :: u8 where "KEY_DOWN \<equiv> 0x82"
abbreviation (input) KEY_LEFT :: u8 where "KEY_LEFT \<equiv> 0x83"
abbreviation (input) KEY_RIGHT :: u8 where "KEY_RIGHT \<equiv> 0x84"
abbreviation (input) KEY_HOME :: u8 where "KEY_HOME \<equiv> 0x85"
abbreviation (input) KEY_END :: u8 where "KEY_END \<equiv> 0x86"
abbreviation (input) KEY_CUP :: u8 where "KEY_CUP \<equiv> 0x91"
abbreviation (input) KEY_CDOWN :: u8 where "KEY_CDOWN \<equiv> 0x92"
abbreviation (input) KEY_CLEFT :: u8 where "KEY_CLEFT \<equiv> 0x93"
abbreviation (input) KEY_CRIGHT :: u8 where "KEY_CRIGHT \<equiv> 0x94"
abbreviation (input) KEY_DEL :: u8 where "KEY_DEL \<equiv> 0x95"

definition serial_set_raw :: "bool \<Rightarrow> tty \<Rightarrow> tty" where
  "serial_set_raw enable s = s\<lparr>serial_raw_mode := enable\<rparr>"

definition serial_set_winsize :: "u16 \<Rightarrow> u16 \<Rightarrow> tty \<Rightarrow> tty" where
  "serial_set_winsize rows cols s =
     (let s = (if 0 < rows then s\<lparr>win_rows := rows\<rparr> else s) in if 0 < cols then s\<lparr>win_cols := cols\<rparr> else s)"

definition serial_get_winsize :: "tty \<Rightarrow> u16 \<times> u16" where
  "serial_get_winsize s = (win_rows s, win_cols s)"

definition serial_enqueue :: "u8 \<Rightarrow> tty \<Rightarrow> tty" where
  "serial_enqueue c s = s\<lparr>serial_ring := enqueue c (serial_ring s)\<rparr>"

definition csi_reset :: "tty \<Rightarrow> tty" where
  "csi_reset s = s\<lparr>csi_mod := 0, csi_arg := 0, csi_arg_idx := 0\<rparr>"

definition csi_finish :: "u8 \<Rightarrow> tty \<Rightarrow> tty" where
  "csi_finish final s =
     (let s = (if csi_arg_idx s = 1 then s\<lparr>csi_mod := csi_arg s\<rparr> else s);
          ctrl = (csi_mod s = 5)
      in if final = 0x41 then serial_enqueue (if ctrl then KEY_CUP else KEY_UP) s
         else if final = 0x42 then serial_enqueue (if ctrl then KEY_CDOWN else KEY_DOWN) s
         else if final = 0x43 then serial_enqueue (if ctrl then KEY_CRIGHT else KEY_RIGHT) s
         else if final = 0x44 then serial_enqueue (if ctrl then KEY_CLEFT else KEY_LEFT) s
         else if final = 0x48 then serial_enqueue KEY_HOME s
         else if final = 0x46 then serial_enqueue KEY_END s
         else if final = 0x7E
         then let code = (if csi_arg_idx s = 0 then csi_arg s else 0)
              in if code = 1 then serial_enqueue KEY_HOME s
                 else if code = 3 then serial_enqueue KEY_DEL s
                 else if code = 4 then serial_enqueue KEY_END s
                 else s
         else s)"

datatype fg_signal = No_signal | Kill_foreground | Stop_foreground

definition serial_plain :: "u8 \<Rightarrow> tty \<Rightarrow> tty \<times> fg_signal" where
  "serial_plain c s =
     (if c = 0x1B then (s\<lparr>esc_state := 1\<rparr>, No_signal)
      else if c = 0x03 then (s, Kill_foreground)
      else if c = 0x1A then (s, Stop_foreground)
      else let c = (if c = 0x0D then 0x0A else c); c = (if c = 0x7F then 0x08 else c)
           in (serial_enqueue c s, No_signal))"

text \<open>One byte of the loop of \<open>serial_callback\<close>.\<close>

definition serial_byte :: "u8 \<Rightarrow> tty \<Rightarrow> tty \<times> fg_signal" where
  "serial_byte c s =
     (if esc_state s = 1
      then if c = 0x5B then (csi_reset (s\<lparr>esc_state := 2\<rparr>), No_signal)
           else serial_plain c ((serial_enqueue 0x1B s)\<lparr>esc_state := 0\<rparr>)
      else if esc_state s = 2
      then if 0x30 \<le> c \<and> c \<le> 0x39
           then (s\<lparr>csi_arg := csi_arg s * 10 + (ucast c - 0x30)\<rparr>, No_signal)
           else if c = 0x3B
           then (s\<lparr>csi_arg_idx := csi_arg_idx s + 1, csi_arg := 0\<rparr>, No_signal)
           else if 0x40 \<le> c \<and> c \<le> 0x7E
           then ((csi_finish c s)\<lparr>esc_state := 0\<rparr>, No_signal)
           else (s, No_signal)
      else serial_plain c s)"

text \<open>The handler on the bytes the line holds: the new state and the signals sent, in order.\<close>

fun serial_callback :: "u8 list \<Rightarrow> tty \<Rightarrow> tty \<times> fg_signal list" where
  "serial_callback [] s = (s, [])"
| "serial_callback (c # cs) s =
     (let (s, e) = serial_byte c s; (s, es) = serial_callback cs s
      in (s, if e = No_signal then es else e # es))"

definition serial_putchar :: "u8 \<Rightarrow> tty \<Rightarrow> tty" where
  "serial_putchar c s = s\<lparr>serial_out := serial_out s @ [c]\<rparr>"

definition serial_puts :: "u8 list \<Rightarrow> tty \<Rightarrow> tty" where
  "serial_puts = fold (\<lambda>c s. serial_putchar c (if c = 0x0A then serial_putchar 0x0D s else s))"

definition serial_has_data :: "tty \<Rightarrow> bool" where
  "serial_has_data s = has_input (serial_ring s)"

definition serial_getchar :: "tty \<Rightarrow> (tty \<times> u8) option" where
  "serial_getchar s =
     (if serial_has_data s then let (r, c) = dequeue (serial_ring s) in Some (s\<lparr>serial_ring := r\<rparr>, c) else None)"

section \<open>Keyboard\<close>

definition scancode_lower :: "u8 list" where
  "scancode_lower =
     [0, 27, 0x31, 0x32, 0x33, 0x34, 0x35, 0x36, 0x37, 0x38, 0x39, 0x30, 0x2D, 0x3D, 0x08,
      0x09, 0x71, 0x77, 0x65, 0x72, 0x74, 0x79, 0x75, 0x69, 0x6F, 0x70, 0x5B, 0x5D, 0x0A,
      0, 0x61, 0x73, 0x64, 0x66, 0x67, 0x68, 0x6A, 0x6B, 0x6C, 0x3B, 0x27, 0x60,
      0, 0x5C, 0x7A, 0x78, 0x63, 0x76, 0x62, 0x6E, 0x6D, 0x2C, 0x2E, 0x2F, 0,
      0x2A, 0, 0x20, 0] @ replicate 10 0 @ [0, 0] @
     [0, 0, 0, 0x2D, 0, 0, 0, 0x2B, 0, 0, 0, 0, 0] @ replicate 44 0"

definition scancode_upper :: "u8 list" where
  "scancode_upper =
     [0, 27, 0x21, 0x40, 0x23, 0x24, 0x25, 0x5E, 0x26, 0x2A, 0x28, 0x29, 0x5F, 0x2B, 0x08,
      0x09, 0x51, 0x57, 0x45, 0x52, 0x54, 0x59, 0x55, 0x49, 0x4F, 0x50, 0x7B, 0x7D, 0x0A,
      0, 0x41, 0x53, 0x44, 0x46, 0x47, 0x48, 0x4A, 0x4B, 0x4C, 0x3A, 0x22, 0x7E,
      0, 0x7C, 0x5A, 0x58, 0x43, 0x56, 0x42, 0x4E, 0x4D, 0x3C, 0x3E, 0x3F, 0,
      0x2A, 0, 0x20, 0] @ replicate 10 0 @ [0, 0] @
     [0, 0, 0, 0x2D, 0, 0, 0, 0x2B, 0, 0, 0, 0, 0] @ replicate 44 0"

definition kbd_enqueue :: "u8 \<Rightarrow> tty \<Rightarrow> tty" where
  "kbd_enqueue c s = s\<lparr>kbd_ring := enqueue c (kbd_ring s)\<rparr>"

definition kbd_extended :: "u8 \<Rightarrow> tty \<Rightarrow> tty" where
  "kbd_extended scancode s =
     (let s = s\<lparr>extended := False\<rparr>
      in if scancode AND 0x80 \<noteq> 0 then s
         else if scancode = 0x48 then kbd_enqueue KEY_UP s
         else if scancode = 0x50 then kbd_enqueue KEY_DOWN s
         else if scancode = 0x4B then kbd_enqueue KEY_LEFT s
         else if scancode = 0x4D then kbd_enqueue KEY_RIGHT s
         else s)"

text \<open>The character of a key, \<open>0\<close> for none.\<close>

definition kbd_char :: "u8 \<Rightarrow> tty \<Rightarrow> u8" where
  "kbd_char scancode s =
     (let c = scancode_lower ! unat scancode;
          use_upper = (if caps_on s \<and> 0x61 \<le> c \<and> c \<le> 0x7A then \<not> shift_held s else shift_held s)
      in if use_upper then scancode_upper ! unat scancode else c)"

definition keyboard_callback :: "u8 \<Rightarrow> tty \<Rightarrow> tty \<times> fg_signal" where
  "keyboard_callback scancode s =
     (if scancode = 0xE0 then (s\<lparr>extended := True\<rparr>, No_signal)
      else if extended s then (kbd_extended scancode s, No_signal)
      else if scancode AND 0x80 \<noteq> 0
      then (let released = scancode AND 0x7F
            in if released = 0x2A \<or> released = 0x36 then s\<lparr>shift_held := False\<rparr> else s, No_signal)
      else if scancode = 0x2A \<or> scancode = 0x36 then (s\<lparr>shift_held := True\<rparr>, No_signal)
      else if scancode = 0x3A then (s\<lparr>caps_on := \<not> caps_on s\<rparr>, No_signal)
      else let c = kbd_char scancode s
           in if c = 0 then (s, No_signal)
              else let c = (if c = 0x0D then 0x0A else c); c = (if c = 0x7F then 0x08 else c)
                   in if c = 0x03 then (s, Kill_foreground)
                      else if c = 0x1A then (s, Stop_foreground)
                      else (kbd_enqueue c s, No_signal))"

definition keyboard_has_key :: "tty \<Rightarrow> bool" where
  "keyboard_has_key s = has_input (kbd_ring s)"

definition keyboard_getchar :: "tty \<Rightarrow> (tty \<times> u8) option" where
  "keyboard_getchar s =
     (if keyboard_has_key s then let (r, c) = dequeue (kbd_ring s) in Some (s\<lparr>kbd_ring := r\<rparr>, c) else None)"

section \<open>Console\<close>

definition ansi_reset :: "tty \<Rightarrow> tty" where
  "ansi_reset s = s\<lparr>ansi := ANSI_NORMAL, ansi_param_count := 0, ansi_cur_param := 0, ansi_params := [0, 0, 0, 0]\<rparr>"

definition ansi_p0 :: "tty \<Rightarrow> int" where
  "ansi_p0 s = (if 0 < ansi_param_count s then ansi_params s ! 0 else 0)"

definition ansi_p1 :: "tty \<Rightarrow> int" where
  "ansi_p1 s = (if 1 < ansi_param_count s then ansi_params s ! 1 else 0)"

text \<open>The cursor moves, by the letter of the sequence.\<close>

definition ansi_position :: "tty \<Rightarrow> tty" where
  "ansi_position s =
     (let row = (if 0 < ansi_p0 s then ansi_p0 s - 1 else 0);
          col = (if 0 < ansi_p1 s then ansi_p1 s - 1 else 0);
          row = (if VGA_HEIGHT \<le> row then VGA_HEIGHT - 1 else row);
          col = (if VGA_WIDTH \<le> col then VGA_WIDTH - 1 else col)
      in vga_set_cursor row col s)"

definition ansi_erase_line :: "tty \<Rightarrow> tty" where
  "ansi_erase_line s =
     (let (row, col) = vga_get_cursor s
      in vga_set_cursor row col (fold (\<lambda>c. vga_putchar_at 0x20 row c) [col..VGA_WIDTH - 1] s))"

definition ansi_up :: "tty \<Rightarrow> tty" where
  "ansi_up s =
     (let n = (if 0 < ansi_p0 s then ansi_p0 s else 1); (row, col) = vga_get_cursor s;
          row = int32 (row - n); row = (if row < 0 then 0 else row)
      in vga_set_cursor row col s)"

definition ansi_down :: "tty \<Rightarrow> tty" where
  "ansi_down s =
     (let n = (if 0 < ansi_p0 s then ansi_p0 s else 1); (row, col) = vga_get_cursor s;
          row = int32 (row + n); row = (if VGA_HEIGHT \<le> row then VGA_HEIGHT - 1 else row)
      in vga_set_cursor row col s)"

definition ansi_forward :: "tty \<Rightarrow> tty" where
  "ansi_forward s =
     (let n = (if 0 < ansi_p0 s then ansi_p0 s else 1); (row, col) = vga_get_cursor s;
          col = int32 (col + n); col = (if VGA_WIDTH \<le> col then VGA_WIDTH - 1 else col)
      in vga_set_cursor row col s)"

definition ansi_back :: "tty \<Rightarrow> tty" where
  "ansi_back s =
     (let n = (if 0 < ansi_p0 s then ansi_p0 s else 1); (row, col) = vga_get_cursor s;
          col = int32 (col - n); col = (if col < 0 then 0 else col)
      in vga_set_cursor row col s)"

definition ansi_execute :: "u8 \<Rightarrow> tty \<Rightarrow> tty" where
  "ansi_execute cmd s =
     (if cmd = 0x48 \<or> cmd = 0x66 then ansi_position s
      else if cmd = 0x4A then (if ansi_p0 s = 2 then vga_clear s else s)
      else if cmd = 0x4B then ansi_erase_line s
      else if cmd = 0x41 then ansi_up s
      else if cmd = 0x42 then ansi_down s
      else if cmd = 0x43 then ansi_forward s
      else if cmd = 0x44 then ansi_back s
      else if cmd = 0x73 then s\<lparr>saved_row := vga_row s, saved_col := vga_col s\<rparr>
      else if cmd = 0x75 then vga_set_cursor (saved_row s) (saved_col s) s
      else s)"

text \<open>\<open>if (count < ANSI_PARAM_MAX) params[count++] = cur_param;\<close>\<close>

definition ansi_store_param :: "tty \<Rightarrow> tty" where
  "ansi_store_param s =
     (if ansi_param_count s < 4
      then s\<lparr>ansi_params := (ansi_params s)[ansi_param_count s := ansi_cur_param s],
             ansi_param_count := ansi_param_count s + 1\<rparr>
      else s)"

text \<open>The state machine of the escape sequences, which drives the screen.\<close>

definition ansi_step :: "u8 \<Rightarrow> tty \<Rightarrow> tty" where
  "ansi_step c s =
     (case ansi s of
        ANSI_NORMAL \<Rightarrow> if c = 0x1B then s\<lparr>ansi := ANSI_ESC\<rparr> else vga_putchar c s
      | ANSI_ESC \<Rightarrow>
          if c = 0x5B
          then s\<lparr>ansi := ANSI_BRACKET, ansi_param_count := 0, ansi_cur_param := 0, ansi_params := [0, 0, 0, 0]\<rparr>
          else ansi_reset s
      | ANSI_BRACKET \<Rightarrow>
          if 0x30 \<le> c \<and> c \<le> 0x39
          then s\<lparr>ansi_cur_param := int32 (ansi_cur_param s * 10 + (uint c - 0x30))\<rparr>
          else if c = 0x3B then (ansi_store_param s)\<lparr>ansi_cur_param := 0\<rparr>
          else ansi_reset (ansi_execute c (ansi_store_param s)))"

definition console_putchar :: "u8 \<Rightarrow> tty \<Rightarrow> tty" where
  "console_putchar c s = ansi_step c (serial_putchar c (if c = 0x0A then serial_putchar 0x0D s else s))"

definition console_write :: "u8 list \<Rightarrow> tty \<Rightarrow> tty \<times> int" where
  "console_write buf s = (fold console_putchar buf s, int (length buf))"

text \<open>Echo and line editing of one byte in cooked mode; \<open>False\<close> when the byte is swallowed.\<close>

definition cook :: "u8 \<Rightarrow> tty \<Rightarrow> tty \<times> bool" where
  "cook c s =
     (if c = 0x08
      then if line_len s = 0 then (s, False)
           else (fst (console_write [0x08, 0x20, 0x08] (s\<lparr>line_len := line_len s - 1\<rparr>)), True)
      else if c = 0x0A then (fst (console_write [0x0D, 0x0A] (s\<lparr>line_len := 0\<rparr>)), True)
      else if 0x20 \<le> c \<and> c < 0x7F then (fst (console_write [c] (s\<lparr>line_len := line_len s + 1\<rparr>)), True)
      else (s, True))"

definition next_input :: "tty \<Rightarrow> (tty \<times> u8) option" where
  "next_input s =
     (if keyboard_has_key s then map_option (\<lambda>(s, c). (s\<lparr>last_input_src := 2\<rparr>, c)) (keyboard_getchar s)
      else map_option (\<lambda>(s, c). (s\<lparr>last_input_src := 1\<rparr>, c)) (serial_getchar s))"

text \<open>\<open>console_read\<close> delivers at most one byte; \<open>None\<close> means that it waits for an interrupt.\<close>

partial_function (option) console_read_loop :: "tty \<Rightarrow> (tty \<times> u8) option" where
  "console_read_loop s =
     (case next_input s of
        None \<Rightarrow> None
      | Some (s, c) \<Rightarrow>
          if serial_raw_mode s then Some (s, c)
          else case cook c s of (s, delivered) \<Rightarrow>
                 if delivered then Some (s, c) else console_read_loop s)"

definition console_read :: "nat \<Rightarrow> tty \<Rightarrow> (tty \<times> u8 list \<times> int) option" where
  "console_read count s =
     (if count = 0 then Some (s, [], 0) else map_option (\<lambda>(s, c). (s, [c], 1)) (console_read_loop s))"

section \<open>Mouse\<close>

record mouse =
  mouse_x :: int
  mouse_y :: int
  mouse_buttons :: u32
  extent_w :: u32
  extent_h :: u32
  packet :: "u8 list"

definition clamp_xy :: "mouse \<Rightarrow> mouse" where
  "clamp_xy m =
     (let m = (if mouse_x m < 0 then m\<lparr>mouse_x := 0\<rparr> else m);
          m = (if mouse_y m < 0 then m\<lparr>mouse_y := 0\<rparr> else m);
          m = (if sint (extent_w m) \<le> mouse_x m then m\<lparr>mouse_x := sint (extent_w m) - 1\<rparr> else m)
      in if sint (extent_h m) \<le> mouse_y m then m\<lparr>mouse_y := sint (extent_h m) - 1\<rparr> else m)"

definition mouse_irq :: "u8 \<Rightarrow> mouse \<Rightarrow> mouse" where
  "mouse_irq byte m =
     (if packet m = [] \<and> (byte AND 0x08 = 0 \<or> byte AND 0xC0 \<noteq> 0) then m
      else let m = m\<lparr>packet := packet m @ [byte]\<rparr>
           in if length (packet m) < 3 then m
              else let b0 = packet m ! 0;
                       dx = uint (packet m ! 1) - (if b0 AND 0x10 \<noteq> 0 then 256 else 0);
                       dy = uint (packet m ! 2) - (if b0 AND 0x20 \<noteq> 0 then 256 else 0);
                       m = clamp_xy (m\<lparr>packet := [], mouse_x := int32 (mouse_x m + dx), mouse_y := int32 (mouse_y m - dy)\<rparr>)
                   in m\<lparr>mouse_buttons := ucast (b0 AND 0x07)\<rparr>)"

definition mouse_set_extent :: "u32 \<Rightarrow> u32 \<Rightarrow> mouse \<Rightarrow> mouse" where
  "mouse_set_extent width height m =
     (let m = (if width \<noteq> 0 then m\<lparr>extent_w := width\<rparr> else m);
          m = (if height \<noteq> 0 then m\<lparr>extent_h := height\<rparr> else m)
      in clamp_xy m)"

definition mouse_get_state :: "mouse \<Rightarrow> int \<times> int \<times> u32" where
  "mouse_get_state m = (mouse_x m, mouse_y m, mouse_buttons m)"

definition mouse_init :: "mouse \<Rightarrow> mouse" where
  "mouse_init m =
     m\<lparr>mouse_x := sint (extent_w m div 2), mouse_y := sint (extent_h m div 2), mouse_buttons := 0, packet := []\<rparr>"

section \<open>Start\<close>

definition vga_init :: "'a vga_scheme \<Rightarrow> 'a vga_scheme" where
  "vga_init s = vga_clear (s\<lparr>vga_color_attr := vga_make_color 7 0, vga_row := 0, vga_col := 0\<rparr>)"

definition serial_init :: "tty \<Rightarrow> tty" where
  "serial_init s = s\<lparr>serial_ring := (serial_ring s)\<lparr>read_idx := 0, write_idx := 0\<rparr>\<rparr>"

definition keyboard_init :: "tty \<Rightarrow> tty" where
  "keyboard_init s =
     s\<lparr>kbd_ring := (kbd_ring s)\<lparr>read_idx := 0, write_idx := 0\<rparr>, shift_held := False, caps_on := False, extended := False\<rparr>"

text \<open>The static variables before \<open>kernel_main\<close> runs.\<close>

definition empty_ring :: input_ring where
  "empty_ring = \<lparr>ring_buf = (\<lambda>_. 0), read_idx = 0, write_idx = 0\<rparr>"

definition tty_boot :: tty where
  "tty_boot = \<lparr>vga_buffer = (\<lambda>_. 0), vga_row = 0, vga_col = 0, vga_color_attr = 0, hw_cursor = 0,
     ansi = ANSI_NORMAL, ansi_params = [0, 0, 0, 0], ansi_param_count = 0, ansi_cur_param = 0, saved_row = 0, saved_col = 0,
     line_len = 0, last_input_src = 0, serial_out = [], serial_ring = empty_ring, serial_raw_mode = False, win_rows = 24,
     win_cols = 80, esc_state = 0, csi_mod = 0, csi_arg_idx = 0, csi_arg = 0, kbd_ring = empty_ring, shift_held = False,
     caps_on = False, extended = False\<rparr>"

section \<open>Input rings are queues\<close>

definition ring_ok :: "input_ring \<Rightarrow> bool" where
  "ring_ok r \<longleftrightarrow> read_idx r < 256 \<and> write_idx r < 256"

definition ring_count :: "input_ring \<Rightarrow> nat" where
  "ring_count r = (write_idx r + 256 - read_idx r) mod 256"

definition ring_bytes :: "input_ring \<Rightarrow> u8 list" where
  "ring_bytes r = map (\<lambda>i. ring_buf r ((read_idx r + i) mod 256)) [0..<ring_count r]"

lemma mod_256: "(n::nat) < 512 \<Longrightarrow> n mod 256 = (if n < 256 then n else n - 256)"
  by (simp add: mod_if)

lemma ring_count_eq:
  assumes "ring_ok r"
  shows "ring_count r = (if read_idx r \<le> write_idx r then write_idx r - read_idx r else write_idx r + 256 - read_idx r)"
  using assms by (auto simp: ring_ok_def ring_count_def mod_256)

lemma has_input_iff: "ring_ok r \<Longrightarrow> has_input r \<longleftrightarrow> ring_bytes r \<noteq> []"
  by (auto simp: has_input_def ring_bytes_def ring_count_eq ring_ok_def)

lemma enqueue_room:
  assumes "ring_ok r"
  shows "(write_idx r + 1) mod 256 = read_idx r \<longleftrightarrow> \<not> ring_count r < 255"
proof -
  have "(write_idx r + 1) mod 256 = (if write_idx r + 1 < 256 then write_idx r + 1 else write_idx r + 1 - 256)"
    using assms by (intro mod_256) (simp add: ring_ok_def)
  then show ?thesis using assms unfolding ring_count_eq [OF assms] by (simp add: ring_ok_def) arith
qed

lemma ring_slot:
  assumes "ring_ok r" "i \<le> ring_count r"
  shows "(read_idx r + i) mod 256 = write_idx r \<longleftrightarrow> i = ring_count r"
proof -
  have "(read_idx r + i) mod 256 = (if read_idx r + i < 256 then read_idx r + i else read_idx r + i - 256)"
    using assms by (intro mod_256) (auto simp: ring_ok_def ring_count_eq split: if_splits)
  then show ?thesis using assms unfolding ring_count_eq [OF assms(1)] by (simp add: ring_ok_def split: if_splits) arith+
qed

lemma enqueue_ok: "ring_ok r \<Longrightarrow> ring_ok (enqueue c r)"
  by (simp add: ring_ok_def enqueue_def Let_def)

lemma enqueue_bytes:
  assumes "ring_ok r"
  shows "ring_bytes (enqueue c r) = (if length (ring_bytes r) < 255 then ring_bytes r @ [c] else ring_bytes r)"
proof (cases "ring_count r < 255")
  case False
  then show ?thesis using enqueue_room [OF assms] by (simp add: enqueue_def ring_bytes_def)
next
  case True
  define r' where "r' = enqueue c r"
  have r': "r' = r\<lparr>ring_buf := (ring_buf r)(write_idx r := c), write_idx := (write_idx r + 1) mod 256\<rparr>"
    using True enqueue_room [OF assms] by (simp add: r'_def enqueue_def Let_def)
  have ok: "ring_ok r'" using enqueue_ok [OF assms] by (simp add: r'_def)
  have idx: "(write_idx r + 1) mod 256 = (if write_idx r + 1 < 256 then write_idx r + 1 else write_idx r + 1 - 256)"
    using assms by (intro mod_256) (simp add: ring_ok_def)
  have fields: "read_idx r' = read_idx r" "write_idx r' = (write_idx r + 1) mod 256" by (simp_all add: r')
  have count: "ring_count r' = ring_count r + 1"
    using assms True unfolding ring_count_eq [OF ok] ring_count_eq [OF assms] fields idx
    by (simp add: ring_ok_def split: if_splits) arith+
  have "ring_bytes r' = map (\<lambda>i. ring_buf r' ((read_idx r + i) mod 256)) [0..<ring_count r] @ [c]"
    unfolding ring_bytes_def count using ring_slot [OF assms] by (simp add: r')
  also have "map (\<lambda>i. ring_buf r' ((read_idx r + i) mod 256)) [0..<ring_count r] = ring_bytes r"
    unfolding ring_bytes_def using ring_slot [OF assms] by (simp add: r')
  finally show ?thesis using True by (simp add: r'_def ring_bytes_def)
qed

lemma dequeue_bytes:
  assumes "ring_ok r" "has_input r"
  shows "ring_ok (fst (dequeue r))" "ring_bytes r = snd (dequeue r) # ring_bytes (fst (dequeue r))"
proof -
  have b: "read_idx r < 256" "write_idx r < 256" "read_idx r \<noteq> write_idx r"
    using assms by (auto simp: ring_ok_def has_input_def)
  show ok: "ring_ok (fst (dequeue r))" using b by (simp add: ring_ok_def dequeue_def)
  have idx: "(read_idx r + 1) mod 256 = (if read_idx r + 1 < 256 then read_idx r + 1 else read_idx r + 1 - 256)"
    using b by (intro mod_256) simp
  have fields: "read_idx (fst (dequeue r)) = (read_idx r + 1) mod 256" "write_idx (fst (dequeue r)) = write_idx r"
    "ring_buf (fst (dequeue r)) = ring_buf r" by (simp_all add: dequeue_def)
  have count: "ring_count r = Suc (ring_count (fst (dequeue r)))"
    using b unfolding ring_count_eq [OF ok] ring_count_eq [OF assms(1)] fields idx by (simp split: if_splits) arith+
  have "[0..<ring_count r] = 0 # map Suc [0..<ring_count (fst (dequeue r))]"
    unfolding count by (simp add: map_Suc_upt upt_conv_Cons del: upt_Suc)
  then show "ring_bytes r = snd (dequeue r) # ring_bytes (fst (dequeue r))"
    using b(1) unfolding ring_bytes_def fields by (simp add: dequeue_def mod_add_left_eq del: upt_Suc)
qed

section \<open>The cursor stays on the screen\<close>

definition on_screen :: "'a vga_scheme \<Rightarrow> bool" where
  "on_screen s \<longleftrightarrow> 0 \<le> vga_row s \<and> vga_row s < VGA_HEIGHT \<and> 0 \<le> vga_col s \<and> vga_col s < VGA_WIDTH"

definition same_outside :: "'a vga_scheme \<Rightarrow> 'a vga_scheme \<Rightarrow> bool" where
  "same_outside s t \<longleftrightarrow> (\<forall>i. i < 0 \<or> VGA_WIDTH * VGA_HEIGHT \<le> i \<longrightarrow> vga_buffer t i = vga_buffer s i)"

definition is_digit :: "u8 \<Rightarrow> bool" where
  "is_digit c \<longleftrightarrow> 0x30 \<le> c \<and> c \<le> 0x39"

text \<open>No number of more than eight digits, the first one having \<open>n\<close> digits already.\<close>

fun short_numbers :: "nat \<Rightarrow> u8 list \<Rightarrow> bool" where
  "short_numbers n [] \<longleftrightarrow> True"
| "short_numbers n (c # cs) \<longleftrightarrow> (if is_digit c then n < 8 \<and> short_numbers (n + 1) cs else short_numbers 0 cs)"

definition params_ok :: "nat \<Rightarrow> tty \<Rightarrow> bool" where
  "params_ok n s \<longleftrightarrow> 0 \<le> ansi_cur_param s \<and> ansi_cur_param s < 10 ^ n \<and> length (ansi_params s) = 4 \<and>
     ansi_param_count s \<le> 4 \<and> (\<forall>p \<in> set (ansi_params s). 0 \<le> p \<and> p < 10 ^ 8)"

definition tty_ok :: "nat \<Rightarrow> tty \<Rightarrow> bool" where
  "tty_ok n s \<longleftrightarrow> on_screen s \<and> 0 \<le> saved_row s \<and> saved_row s < VGA_HEIGHT \<and> 0 \<le> saved_col s \<and> saved_col s < VGA_WIDTH
     \<and> n \<le> 8 \<and> (ansi s = ANSI_BRACKET \<longrightarrow> params_ok n s)"

lemmas screen_defs = on_screen_def same_outside_def

lemma same_outside_refl [simp]: "same_outside s s"
  by (simp add: same_outside_def)

lemma same_outside_trans: "same_outside s t \<Longrightarrow> same_outside t u \<Longrightarrow> same_outside s u"
  by (simp add: same_outside_def)

lemma vga_scroll_screen:
  assumes "0 \<le> vga_row s" "vga_row s \<le> VGA_HEIGHT" "0 \<le> vga_col s" "vga_col s < VGA_WIDTH"
  shows "on_screen (vga_scroll s)" "same_outside s (vga_scroll s)"
  using assms by (auto simp: vga_scroll_def screen_defs Let_def)

lemma wrap_line_more [simp]: "vga.more (wrap_line s) = vga.more s"
  by (simp add: wrap_line_def)

lemma vga_scroll_more [simp]: "vga.more (vga_scroll s) = vga.more s"
  by (simp add: vga_scroll_def Let_def)

lemma vga_update_cursor_simps [simp]:
  "vga_row (vga_update_cursor s) = vga_row s" "vga_col (vga_update_cursor s) = vga_col s"
  "vga_buffer (vga_update_cursor s) = vga_buffer s" "vga.more (vga_update_cursor s) = vga.more s"
  by (simp_all add: vga_update_cursor_def)

lemma vga_putchar_more [simp]: "vga.more (vga_putchar c s) = vga.more s"
  by (simp add: vga_putchar_def vga_put_def Let_def)

text \<open>The part of the terminal beyond the screen.\<close>

lemma tty_more:
  assumes "vga.more t = vga.more (s :: tty)"
  shows "ansi t = ansi s" "ansi_params t = ansi_params s" "ansi_param_count t = ansi_param_count s"
    "ansi_cur_param t = ansi_cur_param s" "saved_row t = saved_row s" "saved_col t = saved_col s"
  using assms by (cases s; cases t; simp)+

lemma wrap_line_screen:
  assumes "0 \<le> vga_row s" "vga_row s < VGA_HEIGHT" "0 \<le> vga_col s"
  shows "0 \<le> vga_row (wrap_line s)" "vga_row (wrap_line s) \<le> VGA_HEIGHT"
    "0 \<le> vga_col (wrap_line s)" "vga_col (wrap_line s) < VGA_WIDTH" "vga_buffer (wrap_line s) = vga_buffer s"
  using assms by (simp_all add: wrap_line_def int32_id)

lemma vga_putchar_screen:
  assumes "on_screen s"
  shows "on_screen (vga_putchar c s)" "same_outside s (vga_putchar c s)"
proof -
  let ?i = "vga_row s * VGA_WIDTH + vga_col s"
  have i: "0 \<le> ?i" "?i < VGA_WIDTH * VGA_HEIGHT" "int32 ?i = ?i" "int32 (vga_row s + 1) = vga_row s + 1"
    using assms by (auto simp: on_screen_def int32_id)
  have tab: "0 \<le> (vga_col s + 8) div 8" using assms by (simp add: on_screen_def pos_imp_zdiv_nonneg_iff)
  obtain t where t: "vga_putchar c s = vga_update_cursor (vga_scroll t)" and
    b: "0 \<le> vga_row t" "vga_row t \<le> VGA_HEIGHT" "0 \<le> vga_col t" "vga_col t < VGA_WIDTH" and o: "same_outside s t"
    by (rule that [OF vga_putchar_def [of c s]])
      (use assms i tab in \<open>simp add: screen_defs Let_def vga_put_def wrap_line_screen\<close>)+
  show "on_screen (vga_putchar c s)" using vga_scroll_screen(1) [OF b] unfolding t by (simp add: on_screen_def)
  have "same_outside t (vga_update_cursor (vga_scroll t))"
    using vga_scroll_screen(2) [OF b] by (simp add: same_outside_def)
  then show "same_outside s (vga_putchar c s)" using o unfolding t by (rule same_outside_trans [rotated])
qed

lemma vga_set_cursor_simps [simp]:
  "vga_row (vga_set_cursor r c s) = r" "vga_col (vga_set_cursor r c s) = c"
  "vga_buffer (vga_set_cursor r c s) = vga_buffer s" "vga.more (vga_set_cursor r c s) = vga.more s"
  by (simp_all add: vga_set_cursor_def)

lemma same_outside_set_cursor [simp]: "same_outside s (vga_set_cursor r c t) \<longleftrightarrow> same_outside s t"
  by (simp add: same_outside_def)

lemma vga_putchar_at_simps [simp]:
  "vga_row (vga_putchar_at ch r c s) = vga_row s" "vga_col (vga_putchar_at ch r c s) = vga_col s"
  "vga.more (vga_putchar_at ch r c s) = vga.more s" "same_outside s (vga_putchar_at ch r c s)"
  by (auto simp: vga_putchar_at_def vga_put_def same_outside_def int32_id)

lemma erase_fold:
  "vga_row (fold (\<lambda>c. vga_putchar_at ch r c) cs s) = vga_row s \<and> vga_col (fold (\<lambda>c. vga_putchar_at ch r c) cs s) = vga_col s
   \<and> vga.more (fold (\<lambda>c. vga_putchar_at ch r c) cs s) = vga.more s \<and> same_outside s (fold (\<lambda>c. vga_putchar_at ch r c) cs s)"
proof (induction cs arbitrary: s)
  case (Cons c cs)
  then show ?case by (auto intro: same_outside_trans [OF vga_putchar_at_simps(4)])
qed simp

lemma ansi_p0_bounds: "params_ok n s \<Longrightarrow> 0 \<le> ansi_p0 s \<and> ansi_p0 s < 10 ^ 8"
  unfolding params_ok_def ansi_p0_def by simp

lemma ansi_p1_bounds: "params_ok n s \<Longrightarrow> 0 \<le> ansi_p1 s \<and> ansi_p1 s < 10 ^ 8"
  unfolding params_ok_def ansi_p1_def by simp

lemma ansi_execute_screen:
  assumes "tty_ok n s" "ansi s = ANSI_BRACKET"
  shows "on_screen (ansi_execute cmd s)" "same_outside s (ansi_execute cmd s)"
    "0 \<le> saved_row (ansi_execute cmd s) \<and> saved_row (ansi_execute cmd s) < VGA_HEIGHT \<and>
     0 \<le> saved_col (ansi_execute cmd s) \<and> saved_col (ansi_execute cmd s) < VGA_WIDTH"
proof -
  have s: "0 \<le> vga_row s" "vga_row s < 25" "0 \<le> vga_col s" "vga_col s < 80"
    "0 \<le> saved_row s" "saved_row s < 25" "0 \<le> saved_col s" "saved_col s < 80"
    using assms by (auto simp: tty_ok_def on_screen_def)
  have p: "0 \<le> ansi_p0 s" "ansi_p0 s < 10 ^ 8" "0 \<le> ansi_p1 s" "ansi_p1 s < 10 ^ 8"
    using assms ansi_p0_bounds ansi_p1_bounds by (auto simp: tty_ok_def)
  note moves = ansi_position_def ansi_up_def ansi_down_def ansi_forward_def ansi_back_def ansi_erase_line_def
    vga_get_cursor_def Let_def
  have more: "vga.more (ansi_execute cmd s) = vga.more s \<or> cmd = 0x73"
    by (simp add: ansi_execute_def moves erase_fold vga_clear_def)
  show "on_screen (ansi_execute cmd s)"
    using s p by (simp add: ansi_execute_def moves on_screen_def int32_id vga_clear_def)
  show "same_outside s (ansi_execute cmd s)"
    using s p by (simp add: ansi_execute_def moves erase_fold vga_clear_def) (simp add: same_outside_def)
  show "0 \<le> saved_row (ansi_execute cmd s) \<and> saved_row (ansi_execute cmd s) < VGA_HEIGHT \<and>
     0 \<le> saved_col (ansi_execute cmd s) \<and> saved_col (ansi_execute cmd s) < VGA_WIDTH"
  proof (cases "cmd = 0x73")
    case True
    then show ?thesis using s by (simp add: ansi_execute_def)
  next
    case False
    then show ?thesis using more s tty_more [of "ansi_execute cmd s" s] by simp
  qed
qed

lemma serial_putchar_simps [simp]:
  "vga_row (serial_putchar c s) = vga_row s" "vga_col (serial_putchar c s) = vga_col s"
  "vga_buffer (serial_putchar c s) = vga_buffer s" "ansi (serial_putchar c s) = ansi s"
  "ansi_params (serial_putchar c s) = ansi_params s" "ansi_param_count (serial_putchar c s) = ansi_param_count s"
  "ansi_cur_param (serial_putchar c s) = ansi_cur_param s" "saved_row (serial_putchar c s) = saved_row s"
  "saved_col (serial_putchar c s) = saved_col s"
  by (simp_all add: serial_putchar_def)

lemma tty_ok_screen: "tty_ok n s \<Longrightarrow> on_screen s"
  by (simp add: tty_ok_def)

lemma store_param_ok:
  assumes "tty_ok n s" "ansi s = ANSI_BRACKET"
  shows "tty_ok n (ansi_store_param s)" "ansi (ansi_store_param s) = ANSI_BRACKET"
    "vga_buffer (ansi_store_param s) = vga_buffer s"
proof -
  have "(10::int) ^ n \<le> 10 ^ 8" using assms by (intro power_increasing) (simp_all add: tty_ok_def)
  then have "0 \<le> p \<and> p < 10 ^ 8" if "p \<in> set ((ansi_params s)[i := ansi_cur_param s])" for i p
    using assms that set_update_subset_insert [of "ansi_params s" i "ansi_cur_param s"]
    by (auto simp: tty_ok_def params_ok_def)
  then show "tty_ok n (ansi_store_param s)"
    using assms by (simp add: ansi_store_param_def tty_ok_def params_ok_def on_screen_def)
qed (use assms in \<open>simp_all add: ansi_store_param_def\<close>)

lemma digit_value:
  assumes "is_digit c"
  shows "0 \<le> uint c - 0x30" "uint c - 0x30 \<le> 9"
  using assms by (simp_all add: is_digit_def word_le_def)

lemma tty_ok_normal: "tty_ok n s \<Longrightarrow> ansi s \<noteq> ANSI_BRACKET \<Longrightarrow> m \<le> 8 \<Longrightarrow> tty_ok m s"
  by (simp add: tty_ok_def)

lemma digit_step:
  assumes "tty_ok n s" "is_digit c" "n < 8" "ansi s = ANSI_BRACKET"
  shows "tty_ok (n + 1) (s\<lparr>ansi_cur_param := int32 (ansi_cur_param s * 10 + (uint c - 0x30))\<rparr>)"
proof -
  let ?v = "ansi_cur_param s * 10 + (uint c - 0x30)"
  have p: "0 \<le> ansi_cur_param s" "ansi_cur_param s < 10 ^ n" using assms by (auto simp: tty_ok_def params_ok_def)
  have v: "0 \<le> ?v" "?v < 10 ^ (n + 1)" using p digit_value [OF assms(2)] by auto
  moreover have "(10::int) ^ (n + 1) \<le> 10 ^ 8" using assms(3) by (intro power_increasing) simp_all
  ultimately have "int32 ?v = ?v" by (intro int32_id) auto
  then show ?thesis using assms v by (simp add: tty_ok_def params_ok_def on_screen_def)
qed

lemma ansi_step_ok:
  assumes "tty_ok n s" "is_digit c \<Longrightarrow> n < 8"
  shows "tty_ok (if is_digit c then n + 1 else 0) (ansi_step c s) \<and> same_outside s (ansi_step c s)"
proof -
  let ?m = "if is_digit c then n + 1 else 0"
  have m: "?m \<le> 8" using assms(2) by auto
  show ?thesis
  proof (cases "ansi s")
    case ANSI_NORMAL
    have "tty_ok n (vga_putchar c s)" "ansi (vga_putchar c s) = ANSI_NORMAL"
      using assms(1) ANSI_NORMAL vga_putchar_screen(1) [OF tty_ok_screen [OF assms(1)], of c] tty_more [of "vga_putchar c s" s]
      by (simp_all add: tty_ok_def)
    then have "tty_ok ?m (vga_putchar c s) \<and> same_outside s (vga_putchar c s)"
      using m vga_putchar_screen(2) [OF tty_ok_screen [OF assms(1)]] by (auto intro: tty_ok_normal)
    moreover have "tty_ok ?m (s\<lparr>ansi := ANSI_ESC\<rparr>) \<and> same_outside s (s\<lparr>ansi := ANSI_ESC\<rparr>)"
      using assms(1) m by (simp add: tty_ok_def screen_defs)
    ultimately show ?thesis unfolding ansi_step_def ANSI_NORMAL ansi_state.case by (split if_split) blast
  next
    case ANSI_ESC
    then show ?thesis using assms(1) m
      by (simp add: ansi_step_def tty_ok_def params_ok_def screen_defs ansi_reset_def)
  next
    case ANSI_BRACKET
    let ?x = "ansi_execute c (ansi_store_param s)"
    have eq: "ansi_step c s = (if is_digit c then s\<lparr>ansi_cur_param := int32 (ansi_cur_param s * 10 + (uint c - 0x30))\<rparr>
        else if c = 0x3B then (ansi_store_param s)\<lparr>ansi_cur_param := 0\<rparr> else ansi_reset ?x)"
      using ANSI_BRACKET by (simp add: ansi_step_def is_digit_def)
    note st = store_param_ok [OF assms(1) ANSI_BRACKET]
    have "tty_ok 0 (ansi_reset ?x) \<and> same_outside s (ansi_reset ?x)"
      using ansi_execute_screen [OF st(1,2), of c] st(3) by (simp add: tty_ok_def screen_defs ansi_reset_def)
    moreover have "tty_ok 0 ((ansi_store_param s)\<lparr>ansi_cur_param := 0\<rparr>) \<and> same_outside s ((ansi_store_param s)\<lparr>ansi_cur_param := 0\<rparr>)"
      using st by (simp add: tty_ok_def params_ok_def screen_defs)
    ultimately show ?thesis
      using digit_step [OF assms(1) _ assms(2) ANSI_BRACKET] unfolding eq by (cases "is_digit c") (simp_all add: same_outside_def)
  qed
qed

lemma console_putchar_ok:
  assumes "tty_ok n s" "is_digit c \<Longrightarrow> n < 8"
  shows "tty_ok (if is_digit c then n + 1 else 0) (console_putchar c s) \<and> same_outside s (console_putchar c s)"
proof -
  let ?u = "serial_putchar c (if c = 0x0A then serial_putchar 0x0D s else s)"
  have "tty_ok n ?u" "same_outside s ?u" using assms(1) by (simp_all add: tty_ok_def params_ok_def screen_defs)
  then show ?thesis
    using ansi_step_ok [of n ?u c] assms(2) unfolding console_putchar_def by (blast intro: same_outside_trans)
qed

lemma console_putchars_ok:
  "tty_ok n s \<Longrightarrow> short_numbers n buf \<Longrightarrow>
   \<exists>m. tty_ok m (fold console_putchar buf s) \<and> same_outside s (fold console_putchar buf s)"
proof (induction buf arbitrary: n s)
  case (Cons c buf)
  have "is_digit c \<Longrightarrow> n < 8" using Cons.prems by (auto split: if_splits)
  from console_putchar_ok [OF Cons.prems(1) this] Cons.IH [of "if is_digit c then n + 1 else 0" "console_putchar c s"] Cons.prems(2)
  show ?case by (auto split: if_splits intro: same_outside_trans)
qed auto

text \<open>C28: A program can write anything that holds no number of more than eight digits: from a state with the cursor on the
  screen and no escape sequence open, \<open>console_write\<close> reports the whole buffer as written, leaves the cursor on the
  screen, and changes the framebuffer inside the 80 by 25 screen only, whatever control bytes and escape sequences the
  buffer holds.\<close>

theorem console_write_on_screen:
  assumes "tty_ok 0 s" "ansi s = ANSI_NORMAL" "short_numbers 0 buf"
  shows "snd (console_write buf s) = int (length buf) \<and> on_screen (fst (console_write buf s))
    \<and> (\<forall>i. i < 0 \<or> VGA_WIDTH * VGA_HEIGHT \<le> i \<longrightarrow> vga_buffer (fst (console_write buf s)) i = vga_buffer s i)"
proof -
  obtain m where "tty_ok m (fold console_putchar buf s)" "same_outside s (fold console_putchar buf s)"
    using console_putchars_ok [OF assms(1,3)] by blast
  then show ?thesis by (simp add: console_write_def same_outside_def tty_ok_screen)
qed

theorem console_write_on_screen_witness:
  "tty_ok 0 (vga_init tty_boot) \<and> ansi (vga_init tty_boot) = ANSI_NORMAL \<and> short_numbers 0 [0x1B, 0x5B, 0x39, 0x39, 0x42, 0x78, 0x0A]
   \<and> on_screen (fst (console_write [0x1B, 0x5B, 0x39, 0x39, 0x42, 0x78, 0x0A] (vga_init tty_boot)))"
proof -
  have h: "tty_ok 0 (vga_init tty_boot)" "ansi (vga_init tty_boot) = ANSI_NORMAL"
    "short_numbers 0 [0x1B, 0x5B, 0x39, 0x39, 0x42, 0x78, 0x0A]"
    by (simp_all add: tty_ok_def on_screen_def vga_init_def vga_clear_def tty_boot_def vga_update_cursor_def is_digit_def)
  then show ?thesis using console_write_on_screen [OF h] by simp
qed

text \<open>One long number breaks it: after \<open>x\<close> the cursor is in column 1, \<open>ESC [ 2147483647 C\<close> wraps the column around to
  \<open>-2147483648\<close>, past the test against the width, and the next character goes to that index of the framebuffer.\<close>

lemma console_cursor_escapes:
  "vga_buffer (fst (console_write [0x78, 0x1B, 0x5B, 0x32, 0x31, 0x34, 0x37, 0x34, 0x38, 0x33, 0x36, 0x34, 0x37, 0x43, 0x79]
     (vga_init tty_boot))) (- 2147483648) = 0x0779"
  by (simp add: console_write_def console_putchar_def ansi_step_def vga_init_def vga_clear_def tty_boot_def vga_update_cursor_def
      serial_putchar_def vga_putchar_def vga_put_def wrap_line_def vga_scroll_def int32_def ansi_execute_def ansi_store_param_def
      ansi_forward_def ansi_p0_def ansi_reset_def vga_get_cursor_def vga_set_cursor_def vga_entry_def vga_make_color_def Let_def)

end
