(* ===== verification/Paths.thy ===== *)
theory Paths
  imports Vfs
begin

text \<open>
  The paths of a process, \<open>canon_into\<close> and \<open>process_resolve_path\<close> of \<open>src/kernel/process.c\<close>: a path is
  taken relative to the working directory, cleaned of \<open>.\<close>, \<open>..\<close> and repeated slashes, and put
  below the root of the process.

  Paths are strings without the terminator; \<open>None\<close> is the return value -1, and a buffer is the string
  written into it.  The lemmas show that the result is the root followed by the normal form of the path,
  in which no component leads upwards: no path leaves the root.
\<close>

section \<open>Canonical paths\<close>

abbreviation (input) dot :: string where "dot \<equiv> ''.''"
abbreviation (input) dotdot :: string where "dotdot \<equiv> ''..''"

text \<open>The start of the buffer \<open>tmp\<close>: a slash, or the working directory with a slash behind it.\<close>

definition canon_base :: "string \<Rightarrow> string \<Rightarrow> string" where
  "canon_base path cwd =
     (if char_at path 0 = slash then [slash]
      else let tmp = take (VFS_MAX_PATH - 1) cwd;
               tmp = (if tmp = [] then [slash] else tmp)
           in if last tmp \<noteq> slash \<and> length tmp < VFS_MAX_PATH - 1 then tmp @ [slash] else tmp)"

definition canon_tmp :: "string \<Rightarrow> string \<Rightarrow> string option" where
  "canon_tmp path cwd =
     (let tmp = canon_base path cwd @ (if char_at path 0 = slash then tl path else path)
      in if VFS_MAX_PATH - 1 < length tmp then None else Some tmp)"

text \<open>\<open>while (oi > 1 && out[oi - 1] != '/') oi--;\<close> after the trailing slash is dropped.\<close>

function drop_segment :: "string \<Rightarrow> string" where
  "drop_segment out = (if 1 < length out \<and> last out \<noteq> slash then drop_segment (butlast out) else out)"
  by pat_completeness auto
termination by (relation "measure length") auto

declare drop_segment.simps [simp del]

definition walk_back :: "string \<Rightarrow> string" where
  "walk_back out = (if 1 < length out then drop_segment (butlast out) else out)"

function canon_loop :: "nat \<Rightarrow> string \<Rightarrow> string \<Rightarrow> string option" where
  "canon_loop cap tmp out =
     (if tmp = [] then Some out
      else if hd tmp = slash then canon_loop cap (tl tmp) out
      else let seg = takeWhile (\<lambda>c. c \<noteq> slash) tmp; rest = dropWhile (\<lambda>c. c \<noteq> slash) tmp
           in if seg = dot then canon_loop cap rest out
              else if seg = dotdot then canon_loop cap rest (walk_back out)
              else if cap \<le> length out + length seg + 1 then None
              else canon_loop cap rest (out @ seg @ [slash]))"
  by pat_completeness auto
termination
proof (relation "measure (\<lambda>(_, tmp, _). length tmp)")
  have "length (dropWhile (\<lambda>c. c \<noteq> slash) tmp) < length tmp" if "tmp \<noteq> []" "hd tmp \<noteq> slash" for tmp :: string
    using that by (cases tmp) (auto simp: le_imp_less_Suc length_dropWhile_le)
  then show "\<And>cap tmp out seg rest. tmp \<noteq> [] \<Longrightarrow> hd tmp \<noteq> slash \<Longrightarrow> seg = takeWhile (\<lambda>c. c \<noteq> slash) tmp \<Longrightarrow>
      rest = dropWhile (\<lambda>c. c \<noteq> slash) tmp \<Longrightarrow> seg = dot \<Longrightarrow>
      ((cap, rest, out), cap, tmp, out) \<in> measure (\<lambda>(_, tmp, _). length tmp)"
    "\<And>cap tmp out seg rest. tmp \<noteq> [] \<Longrightarrow> hd tmp \<noteq> slash \<Longrightarrow> seg = takeWhile (\<lambda>c. c \<noteq> slash) tmp \<Longrightarrow>
      rest = dropWhile (\<lambda>c. c \<noteq> slash) tmp \<Longrightarrow> seg \<noteq> dot \<Longrightarrow> seg = dotdot \<Longrightarrow>
      ((cap, rest, walk_back out), cap, tmp, out) \<in> measure (\<lambda>(_, tmp, _). length tmp)"
    "\<And>cap tmp out seg rest. tmp \<noteq> [] \<Longrightarrow> hd tmp \<noteq> slash \<Longrightarrow> seg = takeWhile (\<lambda>c. c \<noteq> slash) tmp \<Longrightarrow>
      rest = dropWhile (\<lambda>c. c \<noteq> slash) tmp \<Longrightarrow> seg \<noteq> dot \<Longrightarrow> seg \<noteq> dotdot \<Longrightarrow> \<not> cap \<le> length out + length seg + 1 \<Longrightarrow>
      ((cap, rest, out @ seg @ [slash]), cap, tmp, out) \<in> measure (\<lambda>(_, tmp, _). length tmp)"
    by auto
qed auto

declare canon_loop.simps [simp del]

definition canon_into :: "string \<Rightarrow> string \<Rightarrow> nat \<Rightarrow> string option" where
  "canon_into path cwd cap =
     Option.bind (canon_tmp path cwd) (\<lambda>tmp.
       map_option (\<lambda>out. if 1 < length out \<and> last out = slash then butlast out else out)
         (canon_loop cap (if char_at tmp 0 = slash then tl tmp else tmp) [slash]))"

text \<open>\<open>process_resolve_path\<close> for a process with the given working directory and root.\<close>

definition resolve_path :: "string \<Rightarrow> string \<Rightarrow> string \<Rightarrow> nat \<Rightarrow> string option" where
  "resolve_path cwd root path cap =
     (let cwd = (if cwd = [] then [slash] else cwd); root = (if root = [] then [slash] else root)
      in map_option (\<lambda>loc.
           if root = [slash] then take (cap - 1) loc
           else let out = take (cap - 1) root;
                    out = (if out \<noteq> [] \<and> last out = slash then butlast out else out)
                in out @ take (cap - 1 - length out) loc)
         (canon_into path cwd VFS_MAX_PATH))"

section \<open>The normal form\<close>

text \<open>The components that remain, the deepest one first.\<close>

fun enter :: "string \<Rightarrow> string list \<Rightarrow> string list" where
  "enter c cs = (if c = dot then cs else if c = dotdot then tl cs else c # cs)"

definition normal :: "string list \<Rightarrow> string list" where
  "normal cs = rev (fold enter cs [])"

definition absolute :: "string list \<Rightarrow> string" where
  "absolute cs = (if cs = [] then [slash] else concat (map (\<lambda>c. slash # c) cs))"

definition clean :: "string \<Rightarrow> bool" where
  "clean c \<longleftrightarrow> c \<noteq> [] \<and> c \<noteq> dot \<and> c \<noteq> dotdot \<and> slash \<notin> set c"

text \<open>The buffer \<open>out\<close> between two rounds of the loop.\<close>

definition opened :: "string list \<Rightarrow> string" where
  "opened cs = slash # concat (map (\<lambda>c. c @ [slash]) cs)"

lemma opened_snoc: "opened (cs @ [c]) = opened cs @ c @ [slash]"
  by (simp add: opened_def)

lemma opened_last: "last (opened cs) = slash"
  by (cases cs rule: rev_cases) (simp_all add: opened_def)

lemma opened_not_Nil [simp]: "opened cs \<noteq> []"
  by (simp add: opened_def)

lemma drop_segment_name: "slash \<notin> set c \<Longrightarrow> drop_segment (opened cs @ c) = opened cs"
proof (induction c rule: rev_induct)
  case Nil
  then show ?case using opened_last by (subst drop_segment.simps) simp
next
  case (snoc x c)
  moreover have "x \<noteq> slash" using snoc.prems by auto
  then have "drop_segment ((opened cs @ c) @ [x]) = drop_segment (opened cs @ c)"
    by (subst drop_segment.simps) (simp add: Suc_lessI butlast_append)
  ultimately show ?case by simp
qed

lemma walk_back_opened: "\<forall>c \<in> set cs. clean c \<Longrightarrow> walk_back (opened cs) = opened (butlast cs)"
proof (cases cs rule: rev_cases)
  case Nil
  then show ?thesis by (simp add: walk_back_def opened_def)
next
  case (snoc ds d)
  assume "\<forall>c \<in> set cs. clean c"
  then have "slash \<notin> set d" using snoc by (simp add: clean_def)
  moreover have "butlast (opened cs) = opened ds @ d" unfolding snoc opened_snoc by (simp add: butlast_append)
  ultimately show ?thesis using snoc by (simp add: walk_back_def drop_segment_name opened_snoc)
qed

lemma butlast_opened: "(if 1 < length (opened cs) \<and> last (opened cs) = slash then butlast (opened cs) else opened cs) = absolute cs"
proof (cases cs rule: rev_cases)
  case Nil
  then show ?thesis by (simp add: opened_def absolute_def)
next
  case (snoc ds d)
  have shift: "slash # concat (map (\<lambda>c. c @ [slash]) xs) = concat (map (\<lambda>c. slash # c) xs) @ [slash]" for xs :: "string list"
    by (induction xs) auto
  have "opened cs = absolute cs @ [slash]" unfolding opened_def shift absolute_def using snoc by simp
  moreover have "absolute cs \<noteq> []" by (simp add: absolute_def snoc)
  ultimately show ?thesis by simp
qed

lemma canon_loop_normal:
  assumes "\<forall>c \<in> set st. clean c" "canon_loop cap tmp (opened (rev st)) = Some out"
  shows "out = opened (rev (fold enter (components tmp) st)) \<and> (\<forall>c \<in> set (fold enter (components tmp) st). clean c)"
  using assms
proof (induction "length tmp" arbitrary: tmp st rule: less_induct)
  case less
  show ?case
  proof (cases tmp)
    case Nil
    then show ?thesis using less.prems by (simp add: canon_loop.simps)
  next
    case (Cons c cs)
    show ?thesis
    proof (cases "c = slash")
      case True
      then show ?thesis using less.hyps [of cs st] less.prems Cons
        by (simp add: components_slash canon_loop.simps [of cap "slash # cs"])
    next
      case False
      define seg rest where "seg = takeWhile (\<lambda>c. c \<noteq> slash) tmp" and "rest = dropWhile (\<lambda>c. c \<noteq> slash) tmp"
      have short: "length rest < length tmp"
        using False Cons by (simp add: rest_def le_imp_less_Suc length_dropWhile_le)
      have seg: "seg \<noteq> []" "slash \<notin> set seg" using False Cons by (auto simp: seg_def dest: set_takeWhileD)
      have "components (drop 1 rest) = components rest"
      proof (cases "rest = []")
        case False
        then have "hd rest = slash" using hd_dropWhile [of "\<lambda>c. c \<noteq> slash" tmp] by (simp add: rest_def)
        then show ?thesis using False components_slash [of "tl rest"] by (cases rest) simp_all
      qed simp
      then have comps: "components tmp = seg # components rest"
        using components_step [of tmp] seg by (simp add: first_component_def after_component_def seg_def rest_def)
      have eq: "canon_loop cap tmp (opened (rev st)) =
          (if seg = dot then canon_loop cap rest (opened (rev st))
           else if seg = dotdot then canon_loop cap rest (opened (rev (tl st)))
           else if cap \<le> length (opened (rev st)) + length seg + 1 then None
           else canon_loop cap rest (opened (rev (seg # st))))"
        using False Cons less.prems(1) walk_back_opened [of "rev st"] opened_snoc [of "rev st" seg]
        by (subst canon_loop.simps) (simp add: seg_def rest_def Let_def butlast_rev)
      let ?st = "enter seg st"
      have "\<forall>c \<in> set ?st. clean c" using less.prems(1) seg list.set_sel(2) [of st] by (cases st) (auto simp: clean_def)
      moreover have "canon_loop cap rest (opened (rev ?st)) = Some out"
        using less.prems(2) unfolding eq by (auto split: if_splits)
      ultimately show ?thesis using less.hyps [OF short, of ?st] unfolding comps fold_simps by blast
    qed
  qed
qed

text \<open>A short path always fits: the buffer never outgrows what has been read.\<close>

lemma walk_back_length: "length (walk_back out) \<le> length out"
proof -
  have "length (drop_segment xs) \<le> length xs" for xs
  proof (induction xs rule: drop_segment.induct)
    case (1 out)
    then show ?case by (subst drop_segment.simps) auto
  qed
  from this [of "butlast out"] show ?thesis by (auto simp: walk_back_def)
qed

lemma canon_loop_fits:
  assumes "tmp = [] \<or> length out + length tmp + (if hd tmp = slash then 0 else 1) < cap"
  shows "canon_loop cap tmp out \<noteq> None"
  using assms
proof (induction cap tmp out rule: canon_loop.induct)
  case (1 cap tmp out)
  let ?seg = "takeWhile (\<lambda>c. c \<noteq> slash) tmp" and ?rest = "dropWhile (\<lambda>c. c \<noteq> slash) tmp"
  have len: "length ?seg + length ?rest = length tmp"
    using takeWhile_dropWhile_id [of "\<lambda>c. c \<noteq> slash" tmp] length_append by metis
  show ?case
  proof (cases "tmp = [] \<or> hd tmp = slash")
    case True
    then show ?thesis using 1(1,5) by (subst canon_loop.simps) (cases tmp; auto)
  next
    case False
    have rest: "?rest = [] \<or> hd ?rest = slash" using hd_dropWhile [of "\<lambda>c. c \<noteq> slash" tmp] by blast
    note ih = 1(2-4) [OF _ _ refl refl]
    have "canon_loop cap ?rest out \<noteq> None" if "?seg = dot" using ih(1) that False 1(5) len rest by auto
    moreover have "canon_loop cap ?rest (walk_back out) \<noteq> None" if "?seg = dotdot"
      using ih(2) that False 1(5) len rest walk_back_length [of out] by auto
    moreover have "\<not> cap \<le> length out + length ?seg + 1" using False 1(5) len by simp
    moreover have "canon_loop cap ?rest (out @ ?seg @ [slash]) \<noteq> None" if "?seg \<noteq> dot" "?seg \<noteq> dotdot"
      using ih(3) that False 1(5) len rest by auto
    ultimately show ?thesis using False by (subst canon_loop.simps) (simp add: Let_def)
  qed
qed

lemma components_split: "components (xs @ slash # ys) = components xs @ components ys"
proof -
  have "split_slash (xs @ slash # ys) = split_slash xs @ split_slash ys" by (induction xs) auto
  then show ?thesis by (simp add: components_def)
qed

lemma canon_tmp_components:
  assumes "length cwd < VFS_MAX_PATH" "canon_tmp path cwd = Some tmp"
  shows "components tmp = (if char_at path 0 = slash then [] else components cwd) @ components path"
proof (cases "char_at path 0 = slash")
  case True
  then obtain p where p: "path = slash # p" by (cases path) (auto simp: char_at_def split: if_splits)
  then have "tmp = path" using assms(2) True by (auto simp: canon_tmp_def canon_base_def split: if_splits)
  then show ?thesis using True by simp
next
  case False
  define w where "w = (if cwd = [] then [slash] else cwd)"
  have w: "w \<noteq> []" "components w = components cwd" "length w < 256" using assms(1) by (auto simp: w_def components_def)
  have base: "canon_base path cwd = (if last w \<noteq> slash \<and> length w < 255 then w @ [slash] else w)"
    using False assms(1) by (simp add: canon_base_def w_def Let_def)
  have tmp: "tmp = canon_base path cwd @ path" "length tmp \<le> 255"
    using assms(2) False by (auto simp: canon_tmp_def Let_def split: if_splits)
  consider "last w \<noteq> slash" "length w < 255" | "last w = slash" | "last w \<noteq> slash" "length w = 255"
    using w(3) by linarith
  then have "components tmp = components w @ components path"
  proof cases
    case 1
    then show ?thesis using tmp base components_split [of w path] by simp
  next
    case 2
    then obtain v where v: "w = v @ [slash]" using w(1) append_butlast_last_id by metis
    then show ?thesis using tmp base 2 components_split [of v path] components_split [of v "[]"] by simp
  next
    case 3
    then show ?thesis using tmp base by simp
  qed
  then show ?thesis using False w(2) by simp
qed

text \<open>The canonical path is the normal form of the components.\<close>

definition path_components :: "string \<Rightarrow> string \<Rightarrow> string list" where
  "path_components cwd path = normal ((if char_at path 0 = slash then [] else components cwd) @ components path)"

lemma canon_into_normal:
  assumes "length cwd < VFS_MAX_PATH" "canon_into path cwd cap = Some out"
  shows "out = absolute (path_components cwd path)" "\<forall>c \<in> set (path_components cwd path). clean c"
proof -
  obtain tmp raw where t: "canon_tmp path cwd = Some tmp"
    "canon_loop cap (if char_at tmp 0 = slash then tl tmp else tmp) (opened (rev [])) = Some raw"
    "out = (if 1 < length raw \<and> last raw = slash then butlast raw else raw)"
    using assms(2) by (auto simp: canon_into_def bind_eq_Some_conv opened_def)
  have "components (if char_at tmp 0 = slash then tl tmp else tmp) = components tmp"
    by (cases tmp) (simp_all add: char_at_def components_slash)
  then have r: "raw = opened (path_components cwd path) \<and> (\<forall>c \<in> set (path_components cwd path). clean c)"
    using canon_loop_normal [OF _ t(2)] canon_tmp_components [OF assms(1) t(1)]
    by (simp add: path_components_def normal_def)
  show "out = absolute (path_components cwd path)" unfolding t(3) r [THEN conjunct1] by (rule butlast_opened)
  show "\<forall>c \<in> set (path_components cwd path). clean c" using r by blast
qed

lemma canon_into_fits:
  assumes "length (if char_at path 0 = slash then path else cwd @ slash # path) + 2 < VFS_MAX_PATH"
  shows "canon_into path cwd VFS_MAX_PATH \<noteq> None"
proof -
  define tmp where "tmp = canon_base path cwd @ (if char_at path 0 = slash then tl path else path)"
  have "length tmp \<le> length (if char_at path 0 = slash then path else cwd @ slash # path)"
    by (auto simp: tmp_def canon_base_def Let_def char_at_def split: if_splits)
  then have len: "length tmp \<le> 253" using assms by linarith
  then have t: "canon_tmp path cwd = Some tmp" by (simp add: canon_tmp_def tmp_def Let_def)
  have fits: "canon_loop VFS_MAX_PATH xs [slash] \<noteq> None" if "length xs \<le> 253" for xs
    using that by (intro canon_loop_fits) simp
  have "canon_loop VFS_MAX_PATH (if char_at tmp 0 = slash then tl tmp else tmp) [slash] \<noteq> None"
    using len by (intro fits) auto
  then show ?thesis unfolding canon_into_def t by simp
qed

definition chroot_prefix :: "string \<Rightarrow> string" where
  "chroot_prefix root = (if last root = slash then butlast root else root)"

lemma components_absolute: "\<forall>c \<in> set cs. clean c \<Longrightarrow> components (p @ absolute cs) = components p @ cs"
proof (induction cs arbitrary: p)
  case Nil
  show ?case using components_split [of p "[]"] by (simp add: absolute_def)
next
  case (Cons c cs)
  have "first_component c = c" using Cons.prems by (auto simp: clean_def first_component_def takeWhile_eq_all_conv)
  then have c: "components c = [c]" using Cons.prems components_step [of c] by (simp add: clean_def after_component_Nil)
  show ?case
  proof (cases cs)
    case Nil
    then show ?thesis using components_split [of p c] c by (simp add: absolute_def)
  next
    case (Cons d ds)
    then have "absolute (c # cs) = slash # c @ absolute cs" by (simp add: absolute_def)
    then show ?thesis using components_split [of p "c @ absolute cs"] Cons.IH [of c] Cons.prems c by simp
  qed
qed

lemma components_chroot_prefix: "root \<noteq> [] \<Longrightarrow> components (chroot_prefix root) = components root"
  using components_split [of "butlast root" "[]"] append_butlast_last_id [of root]
  by (cases "last root = slash") (simp_all add: chroot_prefix_def)

lemma resolve_path_out:
  assumes "root \<noteq> []" "length root < cap" "resolve_path cwd root path cap = Some out"
  shows "\<exists>loc. canon_into path (if cwd = [] then [slash] else cwd) VFS_MAX_PATH = Some loc \<and> out = take (cap - 1) (chroot_prefix root @ loc)"
  using assms by (auto simp: resolve_path_def chroot_prefix_def Let_def split: if_splits)

text \<open>C9: A path cannot leave the root of its process.  Whatever the path holds, the result of \<open>process_resolve_path\<close> is the
  root followed by the normal form of the path, taken relative to the working directory unless it starts with a slash;
  no component of the normal form is empty, \<open>.\<close> or \<open>..\<close>.  So the components of the result are those of the root and
  then those of the normal form, unless the result is longer than the buffer, where it is cut.  A path that is short
  enough for the kernel's buffer always has a result.\<close>

theorem resolve_path_confined:
  assumes "cwd \<noteq> []" "length cwd < VFS_MAX_PATH" "root \<noteq> []" "length root < cap"
  shows "(\<forall>out. resolve_path cwd root path cap = Some out \<longrightarrow>
      (\<forall>c \<in> set (path_components cwd path). c \<noteq> [] \<and> c \<noteq> dot \<and> c \<noteq> dotdot \<and> slash \<notin> set c) \<and>
      out = take (cap - 1) (chroot_prefix root @ absolute (path_components cwd path)) \<and>
      (length (chroot_prefix root @ absolute (path_components cwd path)) < cap \<longrightarrow>
         components out = components root @ path_components cwd path)) \<and>
    (length (if char_at path 0 = slash then path else cwd @ slash # path) + 2 < VFS_MAX_PATH \<longrightarrow>
      resolve_path cwd root path cap \<noteq> None)"
proof (intro conjI allI impI)
  fix out assume r: "resolve_path cwd root path cap = Some out"
  obtain loc where loc: "canon_into path cwd VFS_MAX_PATH = Some loc" "out = take (cap - 1) (chroot_prefix root @ loc)"
    using resolve_path_out [OF assms(3,4) r] assms(1) by auto
  note n = canon_into_normal [OF assms(2) loc(1)]
  show "\<forall>c \<in> set (path_components cwd path). c \<noteq> [] \<and> c \<noteq> dot \<and> c \<noteq> dotdot \<and> slash \<notin> set c"
    using n(2) by (simp add: clean_def)
  show out: "out = take (cap - 1) (chroot_prefix root @ absolute (path_components cwd path))" using loc(2) n(1) by simp
  show "components out = components root @ path_components cwd path"
    if "length (chroot_prefix root @ absolute (path_components cwd path)) < cap"
    using that out components_absolute [OF n(2)] components_chroot_prefix [OF assms(3)] by simp
next
  assume "length (if char_at path 0 = slash then path else cwd @ slash # path) + 2 < VFS_MAX_PATH"
  from canon_into_fits [OF this] show "resolve_path cwd root path cap \<noteq> None" using assms(1) by (simp add: resolve_path_def)
qed

theorem resolve_path_confined_witness:
  "resolve_path ''/home'' ''/jail'' ''../..//x'' 256 = Some ''/jail/x'' \<and>
   components ''/jail/x'' = components ''/jail'' @ path_components ''/home'' ''../..//x''"
proof -
  have c: "components ''../..//x'' = [''..'', ''..'', ''x'']"
    "components ''/home'' = [''home'']" by (simp_all add: components_def)
  have p: "path_components ''/home'' ''../..//x'' = [''x'']"
    by (simp add: path_components_def char_at_def c normal_def)
  obtain out where out: "resolve_path ''/home'' ''/jail'' ''../..//x'' 256 = Some out"
    using resolve_path_confined [of "''/home''" "''/jail''" 256 "''../..//x''"] by (auto simp: char_at_def)
  then show ?thesis
    using resolve_path_confined [of "''/home''" "''/jail''" 256 "''../..//x''"] p
    by (auto simp: chroot_prefix_def absolute_def)
qed

end
