(* ===== verification/Process.thy ===== *)
theory Process
  imports Task Elf Pipe Console Paths
begin

text \<open>
  The process layer, \<open>src/kernel/process.c\<close> without the loading of programs: the table of 64
  processes, process groups and the foreground group, file descriptors, exit and \<open>waitpid\<close>,
  signals and alarms, and the timer interrupt of \<open>src/kernel/timer.c\<close>.

  A pointer to a process is an index into the table.  The state extends the scheduler's by the table,
  the pipes, the mount table, the state of the file systems and the terminal; the file systems'
  operations are the parameter \<open>ops_of\<close>, as in the virtual file system.  The buffers \<open>spawn_argc\<close>,
  \<open>spawn_argv_off\<close> and \<open>spawn_argv_buf\<close> hold nothing between two calls and are left out.  A value
  \<open>None\<close> is an access to freed or missing memory; an operation that has to wait stops with \<open>Yield\<close>.

  The lemmas show that no sequence of operations on file descriptors frees a pipe that a descriptor
  refers to, that a signal handler gets the lowest pending signal and that returning from
  it restores the interrupted registers, and what a parent learns from \<open>waitpid\<close>.
\<close>

section \<open>State\<close>

abbreviation (input) PROCESS_MAX :: nat where "PROCESS_MAX \<equiv> 64"
abbreviation (input) FD_MAX :: nat where "FD_MAX \<equiv> 16"
abbreviation (input) NSIG :: int where "NSIG \<equiv> 32"
abbreviation (input) SIG_INT :: int where "SIG_INT \<equiv> 2"
abbreviation (input) SIG_KILL :: int where "SIG_KILL \<equiv> 9"
abbreviation (input) SIG_ALRM :: int where "SIG_ALRM \<equiv> 14"
abbreviation (input) SIG_TERM :: int where "SIG_TERM \<equiv> 15"
abbreviation (input) SIG_CONT :: int where "SIG_CONT \<equiv> 18"
abbreviation (input) SIG_STOP :: int where "SIG_STOP \<equiv> 19"
abbreviation (input) O_CREAT :: u32 where "O_CREAT \<equiv> 0x40"
abbreviation (input) O_TRUNC :: u32 where "O_TRUNC \<equiv> 0x200"
abbreviation (input) O_APPEND :: u32 where "O_APPEND \<equiv> 0x400"

datatype fd_type = FD_NONE | FD_CONSOLE | FD_FILE | FD_PIPE_READ | FD_PIPE_WRITE

record fd_entry =
  fd_type :: fd_type
  fd_path :: string
  fd_offset :: u64
  fd_flags :: u32
  fd_pipe_ptr :: "nat option"

record process =
  pid :: u32
  parent_pid :: u32
  pgid :: u32
  p_name :: string
  p_task :: "nat option"
  fds :: "fd_entry list"
  exit_code :: int
  alive :: bool
  reaped :: bool
  stopped_reported :: bool
  root :: string
  cwd :: string
  sig_handlers :: "nat \<Rightarrow> u64"
  sig_pending :: u32
  sig_delivering :: bool
  sig_saved_regs :: registers_t
  alarm_ticks :: u32
  utime_ticks :: u64
  stime_ticks :: u64
  cutime_ticks :: u64
  cstime_ticks :: u64
  start_ticks :: u64
  spawn_entry :: u64
  spawn_rsp :: u64

record ('n, 'd, 's) kern = sched +
  processes :: "nat \<Rightarrow> process"
  next_pid :: u32
  foreground_pgid :: u32
  pipes :: pipes
  spawning :: "nat option"
  tick_count :: u64
  mount_table :: "('n, 'd) mounts"
  fsys :: 's
  terminal :: tty

definition no_fd :: fd_entry where
  "no_fd = \<lparr>fd_type = FD_NONE, fd_path = [], fd_offset = 0, fd_flags = 0, fd_pipe_ptr = None\<rparr>"

definition zero_process :: process where
  "zero_process = \<lparr>pid = 0, parent_pid = 0, pgid = 0, p_name = [], p_task = None, fds = replicate FD_MAX no_fd,
     exit_code = 0, alive = False, reaped = False, stopped_reported = False, root = [], cwd = [], sig_handlers = (\<lambda>_. 0),
     sig_pending = 0, sig_delivering = False, sig_saved_regs = words_regs (replicate 22 0), alarm_ticks = 0,
     utime_ticks = 0, stime_ticks = 0, cutime_ticks = 0, cstime_ticks = 0, start_ticks = 0, spawn_entry = 0, spawn_rsp = 0\<rparr>"

definition set_process :: "nat \<Rightarrow> (process \<Rightarrow> process) \<Rightarrow> ('n, 'd, 's) kern \<Rightarrow> ('n, 'd, 's) kern" where
  "set_process i f s = s\<lparr>processes := (processes s)(i := f (processes s i))\<rparr>"

text \<open>\<open>if (p->task && P(p->task->state)) p->task->state = st;\<close>\<close>

definition set_task_state ::
  "process \<Rightarrow> (task_state \<Rightarrow> bool) \<Rightarrow> task_state \<Rightarrow> ('n, 'd, 's) kern \<Rightarrow> ('n, 'd, 's) kern" where
  "set_task_state p P st s =
     (case p_task p of
        None \<Rightarrow> s
      | Some t \<Rightarrow> if P (t_state (tasks s t)) then set_task t (\<lambda>x. x\<lparr>t_state := st\<rparr>) s else s)"

section \<open>Table\<close>

definition process_init :: "('n, 'd, 's) kern \<Rightarrow> ('n, 'd, 's) kern" where
  "process_init s = s\<lparr>processes := (\<lambda>_. zero_process)\<rparr>"

definition process_get_foreground :: "('n, 'd, 's) kern \<Rightarrow> u32" where
  "process_get_foreground s = foreground_pgid s"

definition process_set_foreground :: "u32 \<Rightarrow> ('n, 'd, 's) kern \<Rightarrow> ('n, 'd, 's) kern" where
  "process_set_foreground g s = s\<lparr>foreground_pgid := g\<rparr>"

text \<open>\<open>for (i = 0; i < PROCESS_MAX; i++) if (P(processes[i])) ...\<close>\<close>

definition first_process :: "(process \<Rightarrow> bool) \<Rightarrow> ('n, 'd, 's) kern \<Rightarrow> nat option" where
  "first_process P s = find (\<lambda>i. P (processes s i)) [0..<PROCESS_MAX]"

definition process_current :: "('n, 'd, 's) kern \<Rightarrow> nat option" where
  "process_current s =
     (case task_current s of
        None \<Rightarrow> None
      | Some t \<Rightarrow> first_process (\<lambda>p. alive p \<and> p_task p = Some t) s)"

definition process_get :: "u32 \<Rightarrow> ('n, 'd, 's) kern \<Rightarrow> nat option" where
  "process_get n s = first_process (\<lambda>p. alive p \<and> pid p = n) s"

definition process_setpgid :: "u32 \<Rightarrow> u32 \<Rightarrow> ('n, 'd, 's) kern \<Rightarrow> ('n, 'd, 's) kern \<times> int" where
  "process_setpgid n g s =
     (case (if n \<noteq> 0 then process_get n s else process_current s) of
        None \<Rightarrow> (s, - 1)
      | Some i \<Rightarrow> (set_process i (\<lambda>p. p\<lparr>pgid := if g = 0 then pid p else g\<rparr>) s, 0))"

definition process_getpgid :: "u32 \<Rightarrow> ('n, 'd, 's) kern \<Rightarrow> u32" where
  "process_getpgid n s =
     (case (if n \<noteq> 0 then process_get n s else process_current s) of
        None \<Rightarrow> 0
      | Some i \<Rightarrow> pgid (processes s i))"

text \<open>The slots of dead processes whose status was fetched are cleared first.\<close>

definition reap_slots :: "('n, 'd, 's) kern \<Rightarrow> ('n, 'd, 's) kern" where
  "reap_slots s = s\<lparr>processes := (\<lambda>i. let p = processes s i
     in if i < PROCESS_MAX \<and> \<not> alive p \<and> reaped p then zero_process else p)\<rparr>"

definition new_process :: "string \<Rightarrow> u32 \<Rightarrow> u64 \<Rightarrow> process" where
  "new_process name n now = zero_process\<lparr>pid := n, p_name := take 31 name, alive := True,
     fds := replicate 3 (no_fd\<lparr>fd_type := FD_CONSOLE\<rparr>) @ replicate 13 no_fd, root := [slash], cwd := [slash], pgid := n,
     start_ticks := now\<rparr>"

definition process_alloc :: "string \<Rightarrow> ('n, 'd, 's) kern \<Rightarrow> ('n, 'd, 's) kern \<times> nat option" where
  "process_alloc name s =
     (let s = reap_slots s
      in case first_process (\<lambda>p. \<not> alive p \<and> pid p = 0) s of
           None \<Rightarrow> (s, None)
         | Some i \<Rightarrow> (set_process i (\<lambda>_. new_process name (next_pid s) (tick_count s)) (s\<lparr>next_pid := next_pid s + 1\<rparr>), Some i))"

definition process_resolve_path :: "string \<Rightarrow> nat \<Rightarrow> ('n, 'd, 's) kern \<Rightarrow> string option" where
  "process_resolve_path path cap s =
     (case process_current s of
        None \<Rightarrow> resolve_path [slash] [slash] path cap
      | Some i \<Rightarrow> resolve_path (cwd (processes s i)) (root (processes s i)) path cap)"

section \<open>Sending signals\<close>

text \<open>What \<open>signal_group\<close> and \<open>process_kill\<close> do to one process.\<close>

definition signal_one :: "int \<Rightarrow> nat \<Rightarrow> ('n, 'd, 's) kern \<Rightarrow> ('n, 'd, 's) kern" where
  "signal_one signo i s =
     (let p = processes s i
      in if signo = SIG_KILL
         then set_task_state p (\<lambda>_. True) TASK_DEAD (set_process i (\<lambda>p. p\<lparr>alive := False\<rparr>) s)
         else if signo = SIG_STOP
         then set_process i (\<lambda>p. p\<lparr>stopped_reported := False\<rparr>) (set_task_state p (\<lambda>_. True) TASK_STOPPED s)
         else if signo = SIG_CONT
         then set_process i (\<lambda>p. p\<lparr>stopped_reported := False\<rparr>)
                (set_task_state p (\<lambda>st. st = TASK_STOPPED) TASK_READY s)
         else set_task_state p (\<lambda>st. st = TASK_BLOCKED) TASK_READY
                (set_process i (\<lambda>p. p\<lparr>sig_pending := sig_pending p OR push_bit (nat signo) 1\<rparr>) s))"

definition signal_group :: "u32 \<Rightarrow> int \<Rightarrow> ('n, 'd, 's) kern \<Rightarrow> ('n, 'd, 's) kern" where
  "signal_group g signo s =
     (if g = 0 then s
      else fold (\<lambda>i s. let p = processes s i
                       in if \<not> alive p \<or> pgid p \<noteq> g \<or> pid p = 0 then s else signal_one signo i s)
             [0..<PROCESS_MAX] s)"

definition process_kill_foreground :: "('n, 'd, 's) kern \<Rightarrow> ('n, 'd, 's) kern" where
  "process_kill_foreground s = signal_group (foreground_pgid s) SIG_INT s"

definition process_stop_foreground :: "('n, 'd, 's) kern \<Rightarrow> ('n, 'd, 's) kern" where
  "process_stop_foreground s = signal_group (foreground_pgid s) SIG_STOP s"

definition process_kill :: "int \<Rightarrow> int \<Rightarrow> ('n, 'd, 's) kern \<Rightarrow> ('n, 'd, 's) kern \<times> int" where
  "process_kill n signo s =
     (if signo \<le> 0 \<or> NSIG \<le> signo then (s, - 1)
      else if n < 0 then (signal_group (of_int (- n)) signo s, 0)
      else case process_get (of_int n) s of
             None \<Rightarrow> (s, - 1)
           | Some i \<Rightarrow> (signal_one signo i s, 0))"

definition process_signal :: "int \<Rightarrow> u64 \<Rightarrow> ('n, 'd, 's) kern \<Rightarrow> ('n, 'd, 's) kern \<times> int" where
  "process_signal signo handler s =
     (if signo \<le> 0 \<or> NSIG \<le> signo then (s, - 1)
      else if signo = SIG_KILL \<or> signo = SIG_STOP then (s, - 1)
      else case process_current s of
             None \<Rightarrow> (s, - 1)
           | Some i \<Rightarrow> (set_process i (\<lambda>p. p\<lparr>sig_handlers := (sig_handlers p)(nat signo := handler)\<rparr>) s,
                        sint (sig_handlers (processes s i) (nat signo))))"

section \<open>Alarms and the timer\<close>

definition process_set_alarm :: "u32 \<Rightarrow> ('n, 'd, 's) kern \<Rightarrow> ('n, 'd, 's) kern \<times> u32" where
  "process_set_alarm secs s =
     (case process_current s of
        None \<Rightarrow> (s, 0)
      | Some i \<Rightarrow> (set_process i (\<lambda>p. p\<lparr>alarm_ticks := secs * 100\<rparr>) s, (alarm_ticks (processes s i) + 99) div 100))"

definition tick_alarm :: "nat \<Rightarrow> ('n, 'd, 's) kern \<Rightarrow> ('n, 'd, 's) kern" where
  "tick_alarm i s =
     (let p = processes s i
      in if \<not> alive p \<or> \<not> 0 < alarm_ticks p then s
         else let s = set_process i (\<lambda>p. p\<lparr>alarm_ticks := alarm_ticks p - 1\<rparr>) s
              in if alarm_ticks p - 1 = 0
                 then set_task_state p (\<lambda>st. st = TASK_BLOCKED) TASK_READY
                        (set_process i (\<lambda>p. p\<lparr>sig_pending := sig_pending p OR push_bit (nat SIG_ALRM) 1\<rparr>) s)
                 else s)"

definition process_tick_alarms :: "('n, 'd, 's) kern \<Rightarrow> ('n, 'd, 's) kern" where
  "process_tick_alarms s = fold tick_alarm [0..<PROCESS_MAX] s"

definition timer_get_ticks :: "('n, 'd, 's) kern \<Rightarrow> u64" where
  "timer_get_ticks s = tick_count s"

section \<open>Delivery\<close>

text \<open>The word is stored through the direct map; \<open>None\<close> is the failure that leaves memory alone.\<close>

definition user_push_u64 :: "u64 \<Rightarrow> u64 \<Rightarrow> ('n, 'd, 's) kern \<Rightarrow> (('n, 'd, 's) kern \<times> u64) option" where
  "user_push_u64 sp val s =
     Option.bind (process_current s) (\<lambda>i.
       Option.bind (p_task (processes s i)) (\<lambda>t.
         Option.bind (t_pml4 (tasks s t)) (\<lambda>pml4.
           let sp = sp - 8; page = sp AND NOT 0xFFF; phys = vmm_get_physical_in (vm s) pml4 page
           in if phys = 0 then None
              else Some (s\<lparr>mem := store64 (phys + KERNEL_HHDM_BASE + (sp - page)) val (mem s)\<rparr>, sp))))"

text \<open>The lowest pending signal.\<close>

definition lowest_signal :: "u32 \<Rightarrow> nat option" where
  "lowest_signal w = find (\<lambda>i. bit w i) [1..<32]"

definition run_handler :: "u64 \<Rightarrow> nat \<Rightarrow> nat \<Rightarrow> u64 \<Rightarrow> ('n, 'd, 's) kern \<Rightarrow> ('n, 'd, 's) kern" where
  "run_handler regs i signo h s =
     (let r = load_regs (mem s) regs;
          s = set_process i (\<lambda>p. p\<lparr>sig_saved_regs := r, sig_delivering := True\<rparr>) s
      in case user_push_u64 (rsp r) 0 s of
           None \<Rightarrow> set_process i (\<lambda>p. p\<lparr>sig_delivering := False\<rparr>) s
         | Some (s, user_rsp) \<Rightarrow>
             s\<lparr>mem := store_regs regs ((load_regs (mem s) regs)\<lparr>rsp := user_rsp, rip := h, rdi := of_nat signo\<rparr>) (mem s)\<rparr>)"

definition default_action :: "nat \<Rightarrow> nat \<Rightarrow> ('n, 'd, 's) kern \<Rightarrow> ('n, 'd, 's) kern" where
  "default_action i signo s =
     (if int signo = SIG_INT \<or> int signo = SIG_ALRM \<or> int signo = SIG_TERM
      then set_task_state (processes s i) (\<lambda>_. True) TASK_DEAD
             (set_process i (\<lambda>p. p\<lparr>exit_code := 128 + int signo, alive := False\<rparr>) s)
      else s)"

definition process_deliver_pending_signals :: "u64 \<Rightarrow> ('n, 'd, 's) kern \<Rightarrow> ('n, 'd, 's) kern" where
  "process_deliver_pending_signals regs s =
     (if regs = 0 then s
      else if cs (load_regs (mem s) regs) AND 3 \<noteq> 3 then s
      else case process_current s of
        None \<Rightarrow> s
      | Some i \<Rightarrow>
          let p = processes s i
          in if sig_delivering p then s
             else if sig_pending p = 0 then s
             else case lowest_signal (sig_pending p) of
               None \<Rightarrow> s
             | Some signo \<Rightarrow>
                 let s = set_process i (\<lambda>p. p\<lparr>sig_pending := sig_pending p AND NOT (push_bit signo 1)\<rparr>) s;
                     h = sig_handlers p signo
                 in if h = 0 then default_action i signo s
                    else if h = 1 then s
                    else run_handler regs i signo h s)"

definition process_sigreturn :: "u64 \<Rightarrow> ('n, 'd, 's) kern \<Rightarrow> ('n, 'd, 's) kern" where
  "process_sigreturn regs s =
     (case process_current s of
        None \<Rightarrow> s
      | Some i \<Rightarrow>
          if \<not> sig_delivering (processes s i) then s
          else set_process i (\<lambda>p. p\<lparr>sig_delivering := False\<rparr>)
                 (s\<lparr>mem := store_regs regs (sig_saved_regs (processes s i)) (mem s)\<rparr>))"

text \<open>The timer interrupt, with the scheduler.\<close>

definition charge_tick :: "u64 \<Rightarrow> ('n, 'd, 's) kern \<Rightarrow> ('n, 'd, 's) kern" where
  "charge_tick regs s =
     (case process_current s of
        None \<Rightarrow> s
      | Some i \<Rightarrow> set_process i (\<lambda>p. if cs (load_regs (mem s) regs) AND 3 = 3
                                  then p\<lparr>utime_ticks := utime_ticks p + 1\<rparr>
                                  else p\<lparr>stime_ticks := stime_ticks p + 1\<rparr>) s)"

definition timer_callback :: "u64 \<Rightarrow> ('n, 'd, 's) kern \<Rightarrow> (('n, 'd, 's) kern \<times> u64) option" where
  "timer_callback regs s =
     schedule process_deliver_pending_signals regs
       (process_tick_alarms (charge_tick regs (s\<lparr>tick_count := tick_count s + 1\<rparr>)))"

section \<open>File descriptors\<close>

text \<open>The entry at \<open>fd\<close> of process \<open>i\<close>.\<close>

definition fd_at :: "('n, 'd, 's) kern \<Rightarrow> nat \<Rightarrow> nat \<Rightarrow> fd_entry" where
  "fd_at s i fd = fds (processes s i) ! fd"

definition set_fd :: "nat \<Rightarrow> nat \<Rightarrow> (fd_entry \<Rightarrow> fd_entry) \<Rightarrow> ('n, 'd, 's) kern \<Rightarrow> ('n, 'd, 's) kern" where
  "set_fd i fd f s = set_process i (\<lambda>p. p\<lparr>fds := (fds p)[fd := f (fds p ! fd)]\<rparr>) s"

text \<open>\<open>pipe_close_reader\<close> and \<open>pipe_close_writer\<close> with the \<open>kfree\<close> of a pipe that has lost its last end.\<close>

definition close_end :: "(nat option \<Rightarrow> pipes \<Rightarrow> pipes) \<Rightarrow> nat option \<Rightarrow> ('n, 'd, 's) kern \<Rightarrow> ('n, 'd, 's) kern option" where
  "close_end close p s =
     (case p of
        None \<Rightarrow> Some s
      | Some a \<Rightarrow>
          if pipes s a = None then None
          else let s' = s\<lparr>pipes := close p (pipes s)\<rparr>
               in if pipes s' a = None then map_option (\<lambda>h. s'\<lparr>heap := h\<rparr>) (kfree (heap s) (of_nat a)) else Some s')"

definition fd_drop_ref :: "nat \<Rightarrow> nat \<Rightarrow> ('n, 'd, 's) kern \<Rightarrow> ('n, 'd, 's) kern option" where
  "fd_drop_ref i fd s =
     (let e = fd_at s i fd
      in map_option (set_fd i fd (\<lambda>_. no_fd))
           (if fd_type e = FD_PIPE_READ then close_end pipe_close_reader (fd_pipe_ptr e) s
            else if fd_type e = FD_PIPE_WRITE then close_end pipe_close_writer (fd_pipe_ptr e) s
            else Some s))"

text \<open>A fresh reference to the pipe of an entry.\<close>

definition fd_add_ref :: "fd_entry \<Rightarrow> ('n, 'd, 's) kern \<Rightarrow> ('n, 'd, 's) kern option" where
  "fd_add_ref e s =
     (case fd_pipe_ptr e of
        None \<Rightarrow> Some s
      | Some a \<Rightarrow>
          if fd_type e = FD_PIPE_READ
          then (if pipes s a = None then None else Some (s\<lparr>pipes := pipe_add_reader (Some a) (pipes s)\<rparr>))
          else if fd_type e = FD_PIPE_WRITE
          then (if pipes s a = None then None else Some (s\<lparr>pipes := pipe_add_writer (Some a) (pipes s)\<rparr>))
          else Some s)"

definition free_fds :: "fd_entry list \<Rightarrow> nat list" where
  "free_fds es = filter (\<lambda>i. fd_type (es ! i) = FD_NONE) [3..<FD_MAX]"

definition fd_close :: "int \<Rightarrow> ('n, 'd, 's) kern \<Rightarrow> (('n, 'd, 's) kern \<times> int) option" where
  "fd_close fd s =
     (case process_current s of
        None \<Rightarrow> Some (s, - 1)
      | Some i \<Rightarrow>
          if fd < 0 \<or> int FD_MAX \<le> fd then Some (s, - 1)
          else if fd_type (fd_at s i (nat fd)) = FD_NONE then Some (s, - 1)
          else if fd_type (fd_at s i (nat fd)) = FD_CONSOLE then Some (s, 0)
          else map_option (\<lambda>s. (s, 0)) (fd_drop_ref i (nat fd) s))"

abbreviation (input) PIPE_T_SIZE :: u64 where "PIPE_T_SIZE \<equiv> 4116"

definition fd_pipe :: "('n, 'd, 's) kern \<Rightarrow> (('n, 'd, 's) kern \<times> int \<times> nat list) option" where
  "fd_pipe s =
     (case process_current s of
        None \<Rightarrow> Some (s, - 1, [])
      | Some i \<Rightarrow>
          (case free_fds (fds (processes s i)) of
             rfd # wfd # _ \<Rightarrow>
               map_option (\<lambda>(h, p).
                 let s = s\<lparr>heap := h\<rparr>;
                     (ps, a) = pipe_create (if p = 0 then None else Some (unat p)) (pipes s)
                 in case a of
                      None \<Rightarrow> (s, - 1, [])
                    | Some a \<Rightarrow>
                        let s = s\<lparr>pipes := pipe_add_writer (Some a) (pipe_add_reader (Some a) ps)\<rparr>;
                            s = set_fd i rfd (\<lambda>e. e\<lparr>fd_type := FD_PIPE_READ, fd_pipe_ptr := Some a\<rparr>) s;
                            s = set_fd i wfd (\<lambda>e. e\<lparr>fd_type := FD_PIPE_WRITE, fd_pipe_ptr := Some a\<rparr>) s
                        in (s, 0, [rfd, wfd]))
                 (kmalloc (heap s) PIPE_T_SIZE)
           | _ \<Rightarrow> Some (s, - 1, [])))"

definition fd_dup2 :: "int \<Rightarrow> int \<Rightarrow> ('n, 'd, 's) kern \<Rightarrow> (('n, 'd, 's) kern \<times> int) option" where
  "fd_dup2 oldfd newfd s =
     (case process_current s of
        None \<Rightarrow> Some (s, - 1)
      | Some i \<Rightarrow>
          if oldfd < 0 \<or> int FD_MAX \<le> oldfd then Some (s, - 1)
          else if newfd < 0 \<or> int FD_MAX \<le> newfd then Some (s, - 1)
          else if fd_type (fd_at s i (nat oldfd)) = FD_NONE then Some (s, - 1)
          else if oldfd = newfd then Some (s, newfd)
          else Option.bind
            (if fd_type (fd_at s i (nat newfd)) \<in> {FD_FILE, FD_PIPE_READ, FD_PIPE_WRITE}
             then fd_drop_ref i (nat newfd) s else Some s)
            (\<lambda>s. let s = set_fd i (nat newfd) (\<lambda>_. fd_at s i (nat oldfd)) s
                  in map_option (\<lambda>s. (s, newfd)) (fd_add_ref (fd_at s i (nat newfd)) s)))"

definition with_fsys :: "('s \<Rightarrow> 's \<times> 'r) \<Rightarrow> ('n, 'd, 's) kern \<Rightarrow> ('n, 'd, 's) kern \<times> 'r" where
  "with_fsys f s = (let (fs, r) = f (fsys s) in (s\<lparr>fsys := fs\<rparr>, r))"

text \<open>Create the file and fetch its status.\<close>

definition create_file ::
  "('n \<Rightarrow> ('s, 'n) vfs_ops option) \<Rightarrow> string \<Rightarrow> ('n, 'd, 's) kern \<Rightarrow> ('n, 'd, 's) kern \<times> vfs_stat_t option" where
  "create_file ops_of path s =
     (let (s, rc) = with_fsys (vfs_create ops_of (mount_table s) path VFS_FILE) s
      in if rc \<noteq> 0 then (s, None)
         else let (s, rc, st) = with_fsys (vfs_stat ops_of (mount_table s) path) s
              in (s, if rc \<noteq> 0 then None else Some st))"

definition fd_open ::
  "('n \<Rightarrow> ('s, 'n) vfs_ops option) \<Rightarrow> string \<Rightarrow> u32 \<Rightarrow> ('n, 'd, 's) kern \<Rightarrow> ('n, 'd, 's) kern \<times> int" where
  "fd_open ops_of path flags s =
     (case process_current s of
        None \<Rightarrow> (s, - 1)
      | Some i \<Rightarrow>
          let (s, rc, st) = with_fsys (vfs_stat ops_of (mount_table s) path) s;
              (s, st) =
                (if rc \<noteq> 0
                 then (if flags AND O_CREAT = 0 then (s, None) else create_file ops_of path s)
                 else if flags AND O_TRUNC \<noteq> 0
                 then create_file ops_of path (fst (with_fsys (vfs_unlink ops_of (mount_table s) path) s))
                 else (s, Some st))
          in case st of
               None \<Rightarrow> (s, - 1)
             | Some st \<Rightarrow>
                 (case free_fds (fds (processes s i)) of
                    [] \<Rightarrow> (s, - 1)
                  | fd # _ \<Rightarrow>
                      (set_fd i fd (\<lambda>e. e\<lparr>fd_type := FD_FILE, fd_path := take (VFS_MAX_PATH - 1) path,
                         fd_offset := (if flags AND O_APPEND \<noteq> 0 then ucast (st_size st) else 0), fd_flags := flags\<rparr>) s,
                       int fd)))"

text \<open>Bytes of the terminal up to the end of a line; \<open>Yield\<close> when the next byte is not there yet.\<close>

fun read_line :: "nat \<Rightarrow> u8 list \<Rightarrow> tty \<Rightarrow> tty \<times> attempt" where
  "read_line 0 out t = (t, Return (int (length out)) out)"
| "read_line (Suc n) out t =
     (case console_read 1 t of
        None \<Rightarrow> (t, Yield (length out))
      | Some (t, bs, r) \<Rightarrow>
          if r \<noteq> 1 then (t, Return (int (length out)) out)
          else if hd bs = 0x0A then (t, Return (int (length out) + 1) (out @ [hd bs]))
          else read_line n (out @ [hd bs]) t)"

definition advance :: "nat \<Rightarrow> nat \<Rightarrow> int \<Rightarrow> ('n, 'd, 's) kern \<Rightarrow> ('n, 'd, 's) kern" where
  "advance i fd r s = (if 0 < r then set_fd i fd (\<lambda>e. e\<lparr>fd_offset := fd_offset e + of_int r\<rparr>) s else s)"

definition fd_read ::
  "('n \<Rightarrow> ('s, 'n) vfs_ops option) \<Rightarrow> int \<Rightarrow> u64 \<Rightarrow> ('n, 'd, 's) kern \<Rightarrow> (('n, 'd, 's) kern \<times> attempt) option" where
  "fd_read ops_of fd n s =
     (case process_current s of
        None \<Rightarrow> Some (s, Return (- 1) [])
      | Some i \<Rightarrow>
          if fd < 0 \<or> int FD_MAX \<le> fd then Some (s, Return (- 1) [])
          else let e = fd_at s i (nat fd)
               in case fd_type e of
                    FD_CONSOLE \<Rightarrow> let (t, r) = read_line (unat n) [] (terminal s) in Some (s\<lparr>terminal := t\<rparr>, r)
                  | FD_FILE \<Rightarrow>
                      let (s, r, bs) = with_fsys (vfs_read ops_of (mount_table s) (fd_path e) n (sint (fd_offset e))) s
                      in Some (advance i (nat fd) r s, Return r bs)
                  | FD_PIPE_READ \<Rightarrow> map_option (\<lambda>(r, ps). (s\<lparr>pipes := ps\<rparr>, r)) (pipe_read (pipes s) (fd_pipe_ptr e) n)
                  | _ \<Rightarrow> Some (s, Return (- 1) []))"

definition fd_write ::
  "('n \<Rightarrow> ('s, 'n) vfs_ops option) \<Rightarrow> int \<Rightarrow> u8 list \<Rightarrow> ('n, 'd, 's) kern \<Rightarrow> (('n, 'd, 's) kern \<times> attempt) option" where
  "fd_write ops_of fd buf s =
     (case process_current s of
        None \<Rightarrow> Some (s, Return (- 1) [])
      | Some i \<Rightarrow>
          if fd < 0 \<or> int FD_MAX \<le> fd then Some (s, Return (- 1) [])
          else let e = fd_at s i (nat fd)
               in case fd_type e of
                    FD_CONSOLE \<Rightarrow> let (t, r) = console_write buf (terminal s) in Some (s\<lparr>terminal := t\<rparr>, Return r [])
                  | FD_FILE \<Rightarrow>
                      let (s, r) = with_fsys (vfs_write ops_of (mount_table s) (fd_path e) buf (sint (fd_offset e))) s
                      in Some (advance i (nat fd) r s, Return r [])
                  | FD_PIPE_WRITE \<Rightarrow> map_option (\<lambda>(r, ps). (s\<lparr>pipes := ps\<rparr>, r)) (pipe_write (pipes s) (fd_pipe_ptr e) buf)
                  | _ \<Rightarrow> Some (s, Return (- 1) []))"

definition fd_lseek ::
  "('n \<Rightarrow> ('s, 'n) vfs_ops option) \<Rightarrow> int \<Rightarrow> int \<Rightarrow> int \<Rightarrow> ('n, 'd, 's) kern \<Rightarrow> ('n, 'd, 's) kern \<times> int" where
  "fd_lseek ops_of fd off whence s =
     (case process_current s of
        None \<Rightarrow> (s, - 1)
      | Some i \<Rightarrow>
          if fd < 0 \<or> int FD_MAX \<le> fd then (s, - 1)
          else let e = fd_at s i (nat fd); 
                   seek = (\<lambda>new_off s. (set_fd i (nat fd) (\<lambda>e. e\<lparr>fd_offset := new_off\<rparr>) s, sint new_off))
               in if fd_type e \<noteq> FD_FILE then (s, - 1)
                  else if whence = 0 then seek (of_int off) s
                  else if whence = 1 then seek (fd_offset e + of_int off) s
                  else if whence = 2
                  then let (s, rc, st) = with_fsys (vfs_stat ops_of (mount_table s) (fd_path e)) s
                       in if rc \<noteq> 0 then (s, - 1) else seek (ucast (st_size st) + of_int off) s
                  else (s, - 1))"

section \<open>Exit and wait\<close>

text \<open>One round of the loop of \<open>process_waitpid\<close>: the status and the result, or \<open>Yield\<close>, after which the loop starts again.
  Like \<open>attempt\<close>, with the status in place of the bytes.\<close>

datatype wait_result = Waited int "int option" | Wait_again

definition process_waitpid :: "u32 \<Rightarrow> ('n, 'd, 's) kern \<Rightarrow> ('n, 'd, 's) kern \<times> wait_result" where
  "process_waitpid n s =
     (case first_process (\<lambda>p. pid p = n) s of
        None \<Rightarrow> (s, Waited (- 1) None)
      | Some i \<Rightarrow>
          let p = processes s i
          in if \<not> alive p
             then let s = (case process_current s of
                             None \<Rightarrow> s
                           | Some c \<Rightarrow> set_process c (\<lambda>q. q\<lparr>cutime_ticks := cutime_ticks q + (utime_ticks p + cutime_ticks p),
                                 cstime_ticks := cstime_ticks q + (stime_ticks p + cstime_ticks p)\<rparr>) s)
                  in (set_process i (\<lambda>p. p\<lparr>reaped := True\<rparr>) s, Waited (sint n) (Some (exit_code p)))
             else if (case p_task p of None \<Rightarrow> False | Some t \<Rightarrow> t_state (tasks s t) = TASK_STOPPED) \<and> \<not> stopped_reported p
             then (set_process i (\<lambda>p. p\<lparr>stopped_reported := True\<rparr>) s, Waited (sint n) (Some (0x100 + SIG_STOP)))
             else (s, Wait_again))"

fun drop_pipes :: "nat \<Rightarrow> nat list \<Rightarrow> ('n, 'd, 's) kern \<Rightarrow> ('n, 'd, 's) kern option" where
  "drop_pipes i [] s = Some s"
| "drop_pipes i (fd # rest) s =
     Option.bind (if fd_type (fd_at s i fd) \<in> {FD_PIPE_READ, FD_PIPE_WRITE} then fd_drop_ref i fd s else Some s)
       (drop_pipes i rest)"

definition reap_children :: "u32 \<Rightarrow> ('n, 'd, 's) kern \<Rightarrow> ('n, 'd, 's) kern" where
  "reap_children n s = s\<lparr>processes := (\<lambda>j. let c = processes s j
     in if j < PROCESS_MAX \<and> parent_pid c = n \<and> \<not> alive c \<and> \<not> reaped c then c\<lparr>reaped := True\<rparr> else c)\<rparr>"

text \<open>\<open>process_exit\<close> up to its call of \<open>task_yield\<close>, which does not return.\<close>

definition process_exit :: "int \<Rightarrow> ('n, 'd, 's) kern \<Rightarrow> ('n, 'd, 's) kern option" where
  "process_exit code s =
     (case process_current s of
        None \<Rightarrow> Some s
      | Some i \<Rightarrow>
          map_option (\<lambda>s.
            let s = set_process i (\<lambda>p. p\<lparr>exit_code := code, alive := False\<rparr>) s;
                s = reap_children (pid (processes s i)) s;
                s = (if first_process (\<lambda>q. pid q = parent_pid (processes s i) \<and> alive q) s = None
                     then set_process i (\<lambda>p. p\<lparr>reaped := True\<rparr>) s else s)
            in set_task_state (processes s i) (\<lambda>_. True) TASK_DEAD s)
            (drop_pipes i [0..<FD_MAX] s))"

section \<open>Listing\<close>

definition live_slots :: "('n, 'd, 's) kern \<Rightarrow> nat list" where
  "live_slots s = filter (\<lambda>i. alive (processes s i)) [0..<PROCESS_MAX]"

definition process_list_all :: "('n, 'd, 's) kern \<Rightarrow> (u32 \<times> u32 \<times> string) list" where
  "process_list_all s = map (\<lambda>i. let p = processes s i in (pid p, parent_pid p, p_name p)) (live_slots s)"

record proc_info =
  pi_pid :: u32
  pi_parent_pid :: u32
  pi_pgid :: u32
  pi_state :: u32
  pi_alive :: u32
  pi_name :: string
  pi_root :: string

definition state_number :: "task_state \<Rightarrow> u32" where
  "state_number st = (case st of TASK_READY \<Rightarrow> 0 | TASK_RUNNING \<Rightarrow> 1 | TASK_BLOCKED \<Rightarrow> 2 | TASK_STOPPED \<Rightarrow> 3 | TASK_DEAD \<Rightarrow> 4)"

definition process_info_at :: "u32 \<Rightarrow> ('n, 'd, 's) kern \<Rightarrow> proc_info option" where
  "process_info_at idx s =
     (let live = live_slots s
      in if unat idx < length live
         then let p = processes s (live ! unat idx)
              in Some \<lparr>pi_pid = pid p, pi_parent_pid = parent_pid p, pi_pgid = pgid p,
                   pi_state = (case p_task p of None \<Rightarrow> 4 | Some t \<Rightarrow> state_number (t_state (tasks s t))),
                   pi_alive = (if alive p then 1 else 0), pi_name = p_name p, pi_root = root p\<rparr>
         else None)"

section \<open>Descriptors inherited by a child\<close>

text \<open>The part of \<open>process_fork\<close> that copies the table of descriptors.\<close>

fun inherit_fds :: "nat \<Rightarrow> nat \<Rightarrow> nat list \<Rightarrow> ('n, 'd, 's) kern \<Rightarrow> ('n, 'd, 's) kern option" where
  "inherit_fds parent child [] s = Some s"
| "inherit_fds parent child (fd # rest) s =
     (let s = set_fd child fd (\<lambda>_. fd_at s parent fd) s
      in Option.bind (fd_add_ref (fd_at s child fd) s) (inherit_fds parent child rest))"

section \<open>References to pipes\<close>

text \<open>How many descriptors of all processes are ends of the pipe at \<open>a\<close>.\<close>

definition uses :: "fd_type \<Rightarrow> nat \<Rightarrow> fd_entry \<Rightarrow> bool" where
  "uses ty a e \<longleftrightarrow> fd_type e = ty \<and> fd_pipe_ptr e = Some a"

definition refs :: "fd_type \<Rightarrow> nat \<Rightarrow> ('n, 'd, 's) kern \<Rightarrow> nat" where
  "refs ty a s = (\<Sum>i<PROCESS_MAX. length (filter (uses ty a) (fds (processes s i))))"

text \<open>A descriptor of a pipe has a pipe, the pipe is there, lives in the heap, and counts at least the descriptors that
  refer to it.  (It may count more: a process that is killed keeps its ends open.)\<close>

definition pipe_counts_ok :: "('n, 'd, 's) kern \<Rightarrow> nat \<Rightarrow> pipe \<Rightarrow> bool" where
  "pipe_counts_ok s a p \<longleftrightarrow> a < 2 ^ 64 \<and> (\<exists>m. (a, m) \<in> heap_live (heap s)) \<and>
     refs FD_PIPE_READ a s \<le> unat (readers p) \<and> refs FD_PIPE_WRITE a s \<le> unat (writers p)"

definition pipes_ok :: "('n, 'd, 's) kern \<Rightarrow> bool" where
  "pipes_ok s \<longleftrightarrow> heap_ok (heap s) \<and> (\<forall>i < PROCESS_MAX. length (fds (processes s i)) = FD_MAX) \<and>
     (\<forall>a. pipes s a = None \<longrightarrow> refs FD_PIPE_READ a s = 0 \<and> refs FD_PIPE_WRITE a s = 0) \<and>
     (\<forall>a p. pipes s a = Some p \<longrightarrow> pipe_counts_ok s a p)"

text \<open>No count wraps around in the next \<open>n\<close> additions.\<close>

definition few_ends :: "nat \<Rightarrow> ('n, 'd, 's) kern \<Rightarrow> bool" where
  "few_ends n s \<longleftrightarrow> (\<forall>a p. pipes s a = Some p \<longrightarrow> unat (readers p) + n < 2 ^ 32 \<and> unat (writers p) + n < 2 ^ 32)"

lemma set_process_simps [simp]:
  "processes (set_process i f s) j = (if j = i then f (processes s i) else processes s j)"
  "pipes (set_process i f s) = pipes s" "heap (set_process i f s) = heap s" "current (set_process i f s) = current s"
  "tasks (set_process i f s) = tasks s" "mem (set_process i f s) = mem s" "vm (set_process i f s) = vm s"
  "fsys (set_process i f s) = fsys s" "mount_table (set_process i f s) = mount_table s" "terminal (set_process i f s) = terminal s"
  "next_pid (set_process i f s) = next_pid s" "tick_count (set_process i f s) = tick_count s"
  "spawning (set_process i f s) = spawning s"
  by (simp_all add: set_process_def)

lemma set_task_kern [simp]:
  "processes (set_task t f s) = processes s" "pipes (set_task t f s) = pipes s" "fsys (set_task t f s) = fsys s"
  "mount_table (set_task t f s) = mount_table s" "terminal (set_task t f s) = terminal s"
  by (simp_all add: set_task_def)

lemma set_task_state_simps [simp]:
  "processes (set_task_state p P st s) = processes s" "pipes (set_task_state p P st s) = pipes s"
  "heap (set_task_state p P st s) = heap s" "mem (set_task_state p P st s) = mem s" "current (set_task_state p P st s) = current s"
  "vm (set_task_state p P st s) = vm s"
  by (simp_all add: set_task_state_def split: option.split)

lemma first_process_lt: "first_process P s = Some i \<Longrightarrow> i < PROCESS_MAX \<and> P (processes s i)"
  by (auto simp: first_process_def find_Some_iff)

lemma process_current_lt: "process_current s = Some i \<Longrightarrow> i < PROCESS_MAX"
  by (auto simp: process_current_def dest: first_process_lt split: option.splits)

lemma filter_update:
  "k < length xs \<Longrightarrow>
   length (filter Q (xs[k := x])) + of_bool (Q (xs ! k)) = length (filter Q xs) + of_bool (Q x)"
proof (induction xs arbitrary: k)
  case (Cons y xs)
  show ?case
  proof (cases k)
    case 0
    then show ?thesis by simp
  next
    case (Suc j)
    then show ?thesis using Cons by (cases "Q y") simp_all
  qed
qed simp

lemma refs_process:
  assumes "i < PROCESS_MAX"
  shows "refs ty a (set_process i f s) + length (filter (uses ty a) (fds (processes s i))) =
    refs ty a s + length (filter (uses ty a) (fds (f (processes s i))))"
proof -
  have split: "(\<Sum>j<PROCESS_MAX. g j) = g i + (\<Sum>j \<in> {..<PROCESS_MAX} - {i}. g j)" for g :: "nat \<Rightarrow> nat"
    using assms by (intro sum.remove) auto
  have "(\<Sum>j \<in> {..<PROCESS_MAX} - {i}. length (filter (uses ty a) (fds (processes (set_process i f s) j)))) =
      (\<Sum>j \<in> {..<PROCESS_MAX} - {i}. length (filter (uses ty a) (fds (processes s j))))"
    by (intro sum.cong) auto
  then show ?thesis unfolding refs_def split by simp
qed

lemma refs_set_fd:
  assumes "i < PROCESS_MAX" "length (fds (processes s i)) = FD_MAX" "fd < FD_MAX"
  shows "refs ty a (set_fd i fd f s) + of_bool (uses ty a (fd_at s i fd)) = refs ty a s + of_bool (uses ty a (f (fd_at s i fd)))"
  using refs_process [OF assms(1), of ty a "\<lambda>p. p\<lparr>fds := (fds p)[fd := f (fds p ! fd)]\<rparr>" s]
    filter_update [of fd "fds (processes s i)" "uses ty a" "f (fds (processes s i) ! fd)"] assms(2,3)
  by (simp add: set_fd_def fd_at_def)

lemma set_fd_simps [simp]:
  "pipes (set_fd i fd f s) = pipes s" "heap (set_fd i fd f s) = heap s" "fsys (set_fd i fd f s) = fsys s"
  "mount_table (set_fd i fd f s) = mount_table s" "length (fds (processes (set_fd i fd f s) j)) = length (fds (processes s j))"
  by (simp_all add: set_fd_def)

text \<open>The invariant depends on the tables of descriptors, the pipes and the heap only, and holds for fewer references.\<close>

lemma pipes_ok_mono:
  assumes "pipes_ok s" "heap t = heap s" "pipes t = pipes s" "\<And>i. i < PROCESS_MAX \<Longrightarrow> length (fds (processes t i)) = FD_MAX"
    and "\<And>ty a. ty = FD_PIPE_READ \<or> ty = FD_PIPE_WRITE \<Longrightarrow> refs ty a t \<le> refs ty a s"
  shows "pipes_ok t"
proof -
  have r: "refs FD_PIPE_READ a t \<le> refs FD_PIPE_READ a s" "refs FD_PIPE_WRITE a t \<le> refs FD_PIPE_WRITE a s" for a
    using assms(5) by auto
  have "pipe_counts_ok t a p" if "pipes t a = Some p" for a p
  proof -
    have "pipe_counts_ok s a p" using assms(1,3) that by (simp add: pipes_ok_def)
    then show ?thesis using r [of a] assms(2) by (auto simp: pipe_counts_ok_def)
  qed
  moreover have "refs FD_PIPE_READ a t = 0 \<and> refs FD_PIPE_WRITE a t = 0" if "pipes t a = None" for a
  proof -
    have "refs FD_PIPE_READ a s = 0 \<and> refs FD_PIPE_WRITE a s = 0" using assms(1,3) that by (simp add: pipes_ok_def)
    then show ?thesis using r [of a] by simp
  qed
  ultimately show ?thesis using assms(1,2,4) by (simp add: pipes_ok_def)
qed

lemma pipes_ok_frame:
  assumes "pipes_ok s" "heap t = heap s" "pipes t = pipes s" "\<And>i. fds (processes t i) = fds (processes s i)"
  shows "pipes_ok t"
  by (rule pipes_ok_mono [OF assms(1-3)]) (use assms(1,4) in \<open>simp_all add: pipes_ok_def refs_def\<close>)

lemma refs_update [simp]:
  "refs ty a (s\<lparr>pipes := ps\<rparr>) = refs ty a s" "refs ty a (s\<lparr>heap := h\<rparr>) = refs ty a s"
  "refs ty a (s\<lparr>fsys := x\<rparr>) = refs ty a s" "refs ty a (s\<lparr>terminal := t\<rparr>) = refs ty a s"
  by (simp_all add: refs_def)

lemma set_fd_commute [simp]:
  "(set_fd i fd f s)\<lparr>pipes := ps\<rparr> = set_fd i fd f (s\<lparr>pipes := ps\<rparr>)"
  "(set_fd i fd f s)\<lparr>heap := h\<rparr> = set_fd i fd f (s\<lparr>heap := h\<rparr>)"
  by (simp_all add: set_fd_def set_process_def)

lemma pipes_okD:
  assumes "pipes_ok s"
  shows "heap_ok (heap s)" "i < PROCESS_MAX \<Longrightarrow> length (fds (processes s i)) = FD_MAX"
    "pipes s a = Some p \<Longrightarrow> pipe_counts_ok s a p"
    "refs FD_PIPE_READ a s \<noteq> 0 \<or> refs FD_PIPE_WRITE a s \<noteq> 0 \<Longrightarrow> pipes s a \<noteq> None"
    "pipes s a = None \<Longrightarrow> refs FD_PIPE_READ a s = 0" "pipes s a = None \<Longrightarrow> refs FD_PIPE_WRITE a s = 0"
  using assms by (auto simp: pipes_ok_def)

text \<open>Clearing a descriptor takes away its own reference and no other.\<close>

lemma refs_clear:
  assumes "pipes_ok s" "i < PROCESS_MAX" "fd < FD_MAX"
  shows "refs ty a (set_fd i fd (\<lambda>_. no_fd) s) + of_bool (uses ty a (fd_at s i fd)) = refs ty a s"
  using refs_set_fd [OF assms(2) pipes_okD(2) [OF assms(1,2)] assms(3), of ty a "\<lambda>_. no_fd"] by (simp add: uses_def no_fd_def)

lemma clear_fd_ok:
  assumes "pipes_ok s" "i < PROCESS_MAX" "fd < FD_MAX"
  shows "pipes_ok (set_fd i fd (\<lambda>_. no_fd) s)"
proof (rule pipes_ok_mono [OF assms(1)])
  show "refs ty a (set_fd i fd (\<lambda>_. no_fd) s) \<le> refs ty a s" for ty a
    using refs_clear [OF assms, of ty a] by simp
qed (use pipes_okD(2) [OF assms(1)] in simp_all)

text \<open>Taking one end off a pipe: \<open>q\<close> is the pipe with the smaller count.\<close>

lemma close_end_ok:
  fixes s :: "('n, 'd, 's) kern"
  assumes ok: "pipes_ok s" and fd: "i < PROCESS_MAX" "fd < FD_MAX" and p: "pipes s a = Some p"
    and close: "close (Some a) (pipes s) = (pipes s)(a := pipe_maybe_free q)"
    and q: "refs FD_PIPE_READ a (set_fd i fd (\<lambda>_. no_fd) s) \<le> unat (readers q)"
      "refs FD_PIPE_WRITE a (set_fd i fd (\<lambda>_. no_fd) s) \<le> unat (writers q)"
  shows "\<exists>h. map_option (set_fd i fd (\<lambda>_. no_fd)) (close_end close (Some a) s) =
      Some (set_fd i fd (\<lambda>_. no_fd) (s\<lparr>pipes := (pipes s)(a := pipe_maybe_free q), heap := h\<rparr>)) \<and>
    pipes_ok (set_fd i fd (\<lambda>_. no_fd) (s\<lparr>pipes := (pipes s)(a := pipe_maybe_free q), heap := h\<rparr>))"
proof -
  let ?t = "set_fd i fd (\<lambda>_. no_fd) s"
  have same_heap: "s\<lparr>heap := heap s, pipes := ps\<rparr> = s\<lparr>pipes := ps\<rparr>" "s\<lparr>pipes := ps, heap := heap s\<rparr> = s\<lparr>pipes := ps\<rparr>" for ps
    by (cases s; simp)+
  have t: "pipes_ok ?t" by (rule clear_fd_ok [OF ok fd])
  have pa: "pipe_counts_ok s a p" by (rule pipes_okD(3) [OF ok p])
  then obtain m where m: "a < 2 ^ 64" "(a, m) \<in> heap_live (heap s)" by (auto simp: pipe_counts_ok_def)
  show ?thesis
  proof (cases "pipe_maybe_free q")
    case (Some q')
    then have "q' = q" by (simp add: pipe_maybe_free_def split: if_splits)
    have "pipe_counts_ok (?t\<lparr>pipes := (pipes s)(a \<mapsto> q)\<rparr>) b r" if "((pipes s)(a \<mapsto> q)) b = Some r" for b r
    proof (cases "b = a")
      case True
      then show ?thesis using that q m by (auto simp: pipe_counts_ok_def simp del: set_fd_commute)
    next
      case False
      then show ?thesis using that pipes_okD(3) [OF t, of b r] by (simp add: pipe_counts_ok_def del: set_fd_commute)
    qed
    then have "pipes_ok (?t\<lparr>pipes := (pipes s)(a \<mapsto> q)\<rparr>)"
      using t by (simp add: pipes_ok_def del: set_fd_commute)
    then show ?thesis using Some \<open>q' = q\<close> p
      by (intro exI [of _ "heap s"]) (simp add: close_end_def close Let_def same_heap)
  next
    case None
    then have zero: "refs FD_PIPE_READ a ?t = 0" "refs FD_PIPE_WRITE a ?t = 0"
      using q by (auto simp: pipe_maybe_free_def split: if_splits)
    have u: "unat (of_nat a :: u64) = a" using m(1) by (rule unat_of_nat_u64)
    then obtain h where h: "kfree (heap s) (of_nat a) = Some h" "heap_ok h" "heap_live h = heap_live (heap s) - {(a, m)}"
      using kheap.free_returns [OF pipes_okD(1) [OF ok], of "of_nat a" m] m(2) by auto
    have "pipe_counts_ok (?t\<lparr>pipes := (pipes s)(a := None), heap := h\<rparr>) b r" if "((pipes s)(a := None)) b = Some r" for b r
    proof -
      have b: "b \<noteq> a" "pipes s b = Some r" using that by (auto split: if_splits)
      then show ?thesis using pipes_okD(3) [OF t, of b r] h(3) by (auto simp: pipe_counts_ok_def simp del: set_fd_commute)
    qed
    then have "pipes_ok (?t\<lparr>pipes := (pipes s)(a := None), heap := h\<rparr>)"
      using t h(2) zero by (simp add: pipes_ok_def del: set_fd_commute)
    then show ?thesis using None p h(1)
      by (intro exI [of _ h]) (simp add: close_end_def close Let_def same_heap)
  qed
qed

lemma few_endsD:
  assumes "few_ends n s" "pipes s a = Some p"
  shows "unat (readers p) + n < 2 ^ 32" "unat (writers p) + n < 2 ^ 32"
  using assms by (auto simp: few_ends_def)

lemma few_ends_less:
  assumes "few_ends n s" "m \<le> n" "pipes t = pipes s"
  shows "few_ends m t"
  unfolding few_ends_def using few_endsD [OF assms(1)] assms(2,3) by fastforce

lemma few_ends_shrink:
  assumes "few_ends n s" "pipes s a = Some p" "unat (readers q) \<le> unat (readers p)" "unat (writers q) \<le> unat (writers p)"
    and "pipes t = (pipes s)(a := pipe_maybe_free q)"
  shows "few_ends n t"
  using assms by (fastforce simp: few_ends_def pipe_maybe_free_def split: if_splits)

lemma unat_dec: "0 < unat (x :: u32) \<Longrightarrow> unat (x - 1) = unat x - 1"
  by (rule unat_minus_one) auto

text \<open>\<open>q\<close> is the pipe \<open>p\<close> with the end of descriptor \<open>fd\<close> taken off.\<close>

lemma drop_counted_ok:
  fixes s :: "('n, 'd, 's) kern"
  assumes ok: "pipes_ok s" and fd: "i < PROCESS_MAX" "fd < FD_MAX" and p: "pipes s a = Some p"
    and drop: "fd_drop_ref i fd s = map_option (set_fd i fd (\<lambda>_. no_fd)) (close_end close (Some a) s)"
    and close: "close (Some a) (pipes s) = (pipes s)(a := pipe_maybe_free q)"
    and q: "unat (readers q) = unat (readers p) - of_bool (uses FD_PIPE_READ a (fd_at s i fd))"
      "unat (writers q) = unat (writers p) - of_bool (uses FD_PIPE_WRITE a (fd_at s i fd))"
  shows "\<exists>ps h. let t = set_fd i fd (\<lambda>_. no_fd) (s\<lparr>pipes := ps, heap := h\<rparr>)
    in fd_drop_ref i fd s = Some t \<and> pipes_ok t \<and> (\<forall>n. few_ends n s \<longrightarrow> few_ends n t)"
proof -
  have c: "refs FD_PIPE_READ a s \<le> unat (readers p)" "refs FD_PIPE_WRITE a s \<le> unat (writers p)"
    using pipes_okD(3) [OF ok p] by (auto simp: pipe_counts_ok_def)
  have "refs FD_PIPE_READ a (set_fd i fd (\<lambda>_. no_fd) s) \<le> unat (readers q)"
    "refs FD_PIPE_WRITE a (set_fd i fd (\<lambda>_. no_fd) s) \<le> unat (writers q)"
    using c q refs_clear [OF ok fd, of FD_PIPE_READ a] refs_clear [OF ok fd, of FD_PIPE_WRITE a] by linarith+
  from close_end_ok [where close = close and q = q, OF ok fd p close this] obtain h where h: "fd_drop_ref i fd s =
      Some (set_fd i fd (\<lambda>_. no_fd) (s\<lparr>pipes := (pipes s)(a := pipe_maybe_free q), heap := h\<rparr>))"
    "pipes_ok (set_fd i fd (\<lambda>_. no_fd) (s\<lparr>pipes := (pipes s)(a := pipe_maybe_free q), heap := h\<rparr>))"
    using drop by auto
  have "few_ends n (set_fd i fd (\<lambda>_. no_fd) (s\<lparr>pipes := (pipes s)(a := pipe_maybe_free q), heap := h\<rparr>))" if "few_ends n s" for n
    by (rule few_ends_shrink [OF that p]) (simp_all add: q)
  with h show ?thesis unfolding Let_def by blast
qed

lemma fd_drop_ref_ok:
  fixes s :: "('n, 'd, 's) kern"
  assumes ok: "pipes_ok s" and fd: "i < PROCESS_MAX" "fd < FD_MAX"
  shows "\<exists>ps h. let t = set_fd i fd (\<lambda>_. no_fd) (s\<lparr>pipes := ps, heap := h\<rparr>)
    in fd_drop_ref i fd s = Some t \<and> pipes_ok t \<and> (\<forall>n. few_ends n s \<longrightarrow> few_ends n t)"
proof -
  let ?e = "fd_at s i fd"
  have counted: "\<exists>p. pipes s a = Some p \<and> (ty = FD_PIPE_READ \<longrightarrow> 0 < unat (readers p)) \<and> (ty = FD_PIPE_WRITE \<longrightarrow> 0 < unat (writers p))"
    if "uses ty a ?e" "ty = FD_PIPE_READ \<or> ty = FD_PIPE_WRITE" for ty a
  proof -
    note u = that
    have r: "0 < refs ty a s" using refs_clear [OF ok fd, of ty a] u(1) by simp
    then obtain p where p: "pipes s a = Some p" using pipes_okD(4) [OF ok, of a] u(2) by auto
    then show ?thesis using pipes_okD(3) [OF ok p] r by (auto simp: pipe_counts_ok_def)
  qed
  consider a where "fd_type ?e = FD_PIPE_READ" "fd_pipe_ptr ?e = Some a" | a where "fd_type ?e = FD_PIPE_WRITE" "fd_pipe_ptr ?e = Some a"
    | "fd_type ?e \<noteq> FD_PIPE_READ \<and> fd_type ?e \<noteq> FD_PIPE_WRITE \<or> fd_pipe_ptr ?e = None" by blast
  then show ?thesis
  proof cases
    case (1 a)
    then obtain p where p: "pipes s a = Some p" "0 < unat (readers p)"
      using counted [of FD_PIPE_READ a] by (auto simp: uses_def)
    show ?thesis
      by (rule drop_counted_ok [OF ok fd p(1), of pipe_close_reader "p\<lparr>readers := readers p - 1\<rparr>"])
        (use 1 p in \<open>simp_all add: fd_drop_ref_def Let_def pipe_close_reader_def uses_def unat_dec word_less_nat_alt\<close>)
  next
    case (2 a)
    then obtain p where p: "pipes s a = Some p" "0 < unat (writers p)"
      using counted [of FD_PIPE_WRITE a] by (auto simp: uses_def)
    show ?thesis
      by (rule drop_counted_ok [OF ok fd p(1), of pipe_close_writer "p\<lparr>writers := writers p - 1\<rparr>"])
        (use 2 p in \<open>simp_all add: fd_drop_ref_def Let_def pipe_close_writer_def uses_def unat_dec word_less_nat_alt\<close>)
  next
    case 3
    then have "fd_drop_ref i fd s = Some (set_fd i fd (\<lambda>_. no_fd) s)" by (auto simp: fd_drop_ref_def Let_def close_end_def)
    moreover have "s\<lparr>pipes := pipes s, heap := heap s\<rparr> = s" by (cases s) simp
    ultimately show ?thesis using clear_fd_ok [OF ok fd]
      by (intro exI [of _ "pipes s"] exI [of _ "heap s"]) (simp add: few_ends_def)
  qed
qed

text \<open>A descriptor that is in use somewhere is copied into a slot that is no end of a pipe.\<close>

lemma unat_inc: "unat (x :: u32) + 1 < 2 ^ 32 \<Longrightarrow> unat (x + 1) = unat x + 1"
  by (simp add: unat_plus_no_wrap)

lemma refs_used:
  assumes "pipes_ok s" "j < PROCESS_MAX" "k < FD_MAX" "uses ty a (fd_at s j k)"
  shows "0 < refs ty a s"
  using refs_clear [OF assms(1-3), of ty a] assms(4) by simp

lemma add_end_ok:
  fixes s :: "('n, 'd, 's) kern"
  assumes ok: "pipes_ok s" and fd: "i < PROCESS_MAX" "fd < FD_MAX"
    and free: "fd_type (fd_at s i fd) \<notin> {FD_PIPE_READ, FD_PIPE_WRITE}"
    and p: "pipes s a = Some p" and e: "fd_pipe_ptr e = Some a" and few: "few_ends (Suc n) s"
    and q: "unat (readers q) = unat (readers p) + of_bool (fd_type e = FD_PIPE_READ)"
      "unat (writers q) = unat (writers p) + of_bool (fd_type e = FD_PIPE_WRITE)"
  shows "pipes_ok (set_fd i fd (\<lambda>_. e) (s\<lparr>pipes := (pipes s)(a \<mapsto> q)\<rparr>)) \<and>
    few_ends n (set_fd i fd (\<lambda>_. e) (s\<lparr>pipes := (pipes s)(a \<mapsto> q)\<rparr>))"
proof -
  let ?t = "set_fd i fd (\<lambda>_. e) (s\<lparr>pipes := (pipes s)(a \<mapsto> q)\<rparr>)"
  have r: "refs ty b ?t = refs ty b s + of_bool (uses ty b e)" if "ty = FD_PIPE_READ \<or> ty = FD_PIPE_WRITE" for ty b
    using refs_set_fd [of i "s\<lparr>pipes := (pipes s)(a \<mapsto> q)\<rparr>" fd ty b "\<lambda>_. e"] fd pipes_okD(2) [OF ok fd(1)] free that
    by (auto simp: uses_def fd_at_def)
  have u: "uses ty b e \<Longrightarrow> b = a" for ty b using e by (simp add: uses_def)
  have "pipe_counts_ok ?t b x" if "((pipes s)(a \<mapsto> q)) b = Some x" for b x
  proof (cases "b = a")
    case True
    then show ?thesis using that q pipes_okD(3) [OF ok p] r [of FD_PIPE_READ a] r [of FD_PIPE_WRITE a] e
      by (auto simp: pipe_counts_ok_def uses_def)
  next
    case False
    then show ?thesis using that pipes_okD(3) [OF ok, of b x] r [of FD_PIPE_READ b] r [of FD_PIPE_WRITE b] u
      by (auto simp: pipe_counts_ok_def)
  qed
  moreover have "refs FD_PIPE_READ b ?t = 0 \<and> refs FD_PIPE_WRITE b ?t = 0" if "((pipes s)(a \<mapsto> q)) b = None" for b
    using that pipes_okD(5,6) [OF ok, of b] r [of FD_PIPE_READ b] r [of FD_PIPE_WRITE b] u by (auto split: if_splits)
  ultimately have "pipes_ok ?t" using pipes_okD(1,2) [OF ok] by (simp add: pipes_ok_def)
  moreover have "unat (readers x) + n < 2 ^ 32 \<and> unat (writers x) + n < 2 ^ 32" if "((pipes s)(a \<mapsto> q)) b = Some x" for b x
  proof -
    have ab: "of_bool (fd_type e = FD_PIPE_READ) \<le> (1 :: nat)" "of_bool (fd_type e = FD_PIPE_WRITE) \<le> (1 :: nat)" by simp_all
    show ?thesis
    proof (cases "b = a")
      case True
      then have "x = q" using that by simp
      show ?thesis unfolding \<open>x = q\<close> using few_endsD [OF few p] q ab by (intro conjI) linarith+
    next
      case False
      then have "pipes s b = Some x" using that by simp
      from few_endsD [OF few this] show ?thesis by (intro conjI) linarith+
    qed
  qed
  then have "few_ends n ?t" by (simp add: few_ends_def)
  ultimately show ?thesis by blast
qed

lemma copy_fd_ok:
  fixes s :: "('n, 'd, 's) kern"
  assumes ok: "pipes_ok s" and fd: "i < PROCESS_MAX" "fd < FD_MAX"
    and free: "fd_type (fd_at s i fd) \<notin> {FD_PIPE_READ, FD_PIPE_WRITE}"
    and e: "j < PROCESS_MAX" "k < FD_MAX" "e = fd_at s j k" and few: "few_ends (Suc n) s"
  shows "\<exists>ps. let t = set_fd i fd (\<lambda>_. e) (s\<lparr>pipes := ps\<rparr>)
    in fd_add_ref e (set_fd i fd (\<lambda>_. e) s) = Some t \<and> pipes_ok t \<and> few_ends n t"
proof (cases "fd_type e \<in> {FD_PIPE_READ, FD_PIPE_WRITE} \<and> fd_pipe_ptr e \<noteq> None")
  case True
  then obtain a where a: "fd_pipe_ptr e = Some a" by auto
  have "0 < refs (fd_type e) a s" using refs_used [OF ok e(1,2), of "fd_type e" a] a e(3) by (simp add: uses_def)
  then obtain p where p: "pipes s a = Some p" using pipes_okD(4) [OF ok, of a] True by auto
  have lim: "unat (readers p) + 1 < 2 ^ 32" "unat (writers p) + 1 < 2 ^ 32" using few_endsD [OF few p] by auto
  let ?q = "if fd_type e = FD_PIPE_READ then p\<lparr>readers := readers p + 1\<rparr> else p\<lparr>writers := writers p + 1\<rparr>"
  have "fd_add_ref e (set_fd i fd (\<lambda>_. e) s) = Some (set_fd i fd (\<lambda>_. e) (s\<lparr>pipes := (pipes s)(a \<mapsto> ?q)\<rparr>))"
    using True a p by (auto simp: fd_add_ref_def pipe_add_reader_def pipe_add_writer_def)
  moreover have "unat (readers ?q) = unat (readers p) + of_bool (fd_type e = FD_PIPE_READ)"
    "unat (writers ?q) = unat (writers p) + of_bool (fd_type e = FD_PIPE_WRITE)"
    using lim True by (auto simp: unat_inc)
  ultimately show ?thesis using add_end_ok [OF ok fd free p a few] unfolding Let_def by blast
next
  case False
  have "s\<lparr>pipes := pipes s\<rparr> = s" by (cases s) simp
  moreover have "fd_add_ref e (set_fd i fd (\<lambda>_. e) s) = Some (set_fd i fd (\<lambda>_. e) s)"
    using False by (auto simp: fd_add_ref_def split: option.split)
  moreover have "pipes_ok (set_fd i fd (\<lambda>_. e) s)"
  proof (rule pipes_ok_mono [OF ok])
    show "refs ty b (set_fd i fd (\<lambda>_. e) s) \<le> refs ty b s" if "ty = FD_PIPE_READ \<or> ty = FD_PIPE_WRITE" for ty b
      using refs_set_fd [OF fd(1) pipes_okD(2) [OF ok fd(1)] fd(2), of ty b "\<lambda>_. e"] that False by (auto simp: uses_def)
  qed (use pipes_okD(2) [OF ok] in simp_all)
  moreover have "few_ends n (set_fd i fd (\<lambda>_. e) s)" by (rule few_ends_less [OF few]) simp_all
  ultimately show ?thesis by (intro exI [of _ "pipes s"]) simp
qed

section \<open>Every operation keeps the references right\<close>

lemma fd_close_ok:
  assumes "pipes_ok s"
  shows "\<exists>t r. fd_close fd s = Some (t, r) \<and> pipes_ok t"
proof (cases "process_current s")
  case (Some i)
  show ?thesis
  proof (cases "fd < 0 \<or> int FD_MAX \<le> fd")
    case False
    then have "nat fd < FD_MAX" by linarith
    from fd_drop_ref_ok [OF assms process_current_lt [OF Some] this] show ?thesis using False assms Some
      by (auto simp: fd_close_def Let_def)
  qed (use Some assms in \<open>auto simp: fd_close_def\<close>)
qed (use assms in \<open>simp add: fd_close_def\<close>)

lemma fd_at_set_fd:
  assumes "length (fds (processes s i)) = FD_MAX" "fd < FD_MAX"
  shows "fd_at (set_fd i fd f s) i k = (if k = fd then f (fd_at s i fd) else fd_at s i k)"
  using assms by (simp add: fd_at_def set_fd_def nth_list_update)

lemma fd_at_other [simp]: "j \<noteq> i \<Longrightarrow> fd_at (set_fd i fd f s) j k = fd_at s j k"
  by (simp add: fd_at_def set_fd_def)

lemma fd_at_update [simp]: "fd_at (s\<lparr>pipes := ps\<rparr>) i k = fd_at s i k" "fd_at (s\<lparr>heap := h\<rparr>) i k = fd_at s i k"
  by (simp_all add: fd_at_def)

lemma fd_dup2_ok:
  fixes s :: "('n, 'd, 's) kern"
  assumes ok: "pipes_ok s" and few: "few_ends 1 s"
  shows "\<exists>t r. fd_dup2 oldfd newfd s = Some (t, r) \<and> pipes_ok t"
proof -
  have body: "\<exists>t r. Option.bind
            (if fd_type (fd_at s i n) \<in> {FD_FILE, FD_PIPE_READ, FD_PIPE_WRITE} then fd_drop_ref i n s else Some s)
            (\<lambda>s. let s = set_fd i n (\<lambda>_. fd_at s i k) s in map_option (\<lambda>s. (s, newfd)) (fd_add_ref (fd_at s i n) s)) = Some (t, r) \<and> pipes_ok t"
    if i: "i < PROCESS_MAX" and kn: "k < FD_MAX" "n < FD_MAX" "k \<noteq> n" for i k n
  proof -
    have len: "length (fds (processes s i)) = FD_MAX" using pipes_okD(2) [OF ok i] .
    obtain u where u: "(if fd_type (fd_at s i n) \<in> {FD_FILE, FD_PIPE_READ, FD_PIPE_WRITE} then fd_drop_ref i n s else Some s) = Some u"
      "pipes_ok u" "few_ends 1 u" "fd_type (fd_at u i n) \<notin> {FD_PIPE_READ, FD_PIPE_WRITE}"
    proof (cases "fd_type (fd_at s i n) \<in> {FD_FILE, FD_PIPE_READ, FD_PIPE_WRITE}")
      case True
      then obtain ps h where t: "fd_drop_ref i n s = Some (set_fd i n (\<lambda>_. no_fd) (s\<lparr>pipes := ps, heap := h\<rparr>))"
        "pipes_ok (set_fd i n (\<lambda>_. no_fd) (s\<lparr>pipes := ps, heap := h\<rparr>))"
        "few_ends 1 (set_fd i n (\<lambda>_. no_fd) (s\<lparr>pipes := ps, heap := h\<rparr>))"
        using fd_drop_ref_ok [OF ok i kn(2)] few unfolding Let_def by blast
      have "fd_type (fd_at (set_fd i n (\<lambda>_. no_fd) (s\<lparr>pipes := ps, heap := h\<rparr>)) i n) = FD_NONE"
        using fd_at_set_fd [of "s\<lparr>pipes := ps, heap := h\<rparr>" i n "\<lambda>_. no_fd" n] len kn(2) by (simp add: no_fd_def)
      then show thesis using that [of "set_fd i n (\<lambda>_. no_fd) (s\<lparr>pipes := ps, heap := h\<rparr>)"] t True by simp
    next
      case False
      then show thesis using that [of s] ok few by simp
    qed
    have lu: "length (fds (processes u i)) = FD_MAX" using pipes_okD(2) [OF u(2) i] .
    obtain ps where "fd_add_ref (fd_at u i k) (set_fd i n (\<lambda>_. fd_at u i k) u) = Some (set_fd i n (\<lambda>_. fd_at u i k) (u\<lparr>pipes := ps\<rparr>))"
      "pipes_ok (set_fd i n (\<lambda>_. fd_at u i k) (u\<lparr>pipes := ps\<rparr>))"
      using copy_fd_ok [OF u(2) i kn(2) u(4) i kn(1) refl, of 0] u(3) unfolding Let_def by auto
    then show ?thesis using u(1) fd_at_set_fd [OF lu kn(2)] by (auto simp: Let_def)
  qed
  show ?thesis
  proof (cases "process_current s")
    case (Some i)
    show ?thesis
    proof (cases "oldfd < 0 \<or> int FD_MAX \<le> oldfd \<or> newfd < 0 \<or> int FD_MAX \<le> newfd \<or> oldfd = newfd")
      case False
      then have "nat oldfd < FD_MAX" "nat newfd < FD_MAX" "nat oldfd \<noteq> nat newfd" by linarith+
      from body [OF process_current_lt [OF Some] this] show ?thesis using False ok by (simp add: fd_dup2_def Some)
    qed (use ok in \<open>auto simp: fd_dup2_def Some\<close>)
  qed (use ok in \<open>simp add: fd_dup2_def\<close>)
qed

text \<open>A descriptor that is no end of a pipe becomes one.\<close>

lemma refs_new_end:
  assumes "i < PROCESS_MAX" "length (fds (processes s i)) = FD_MAX" "fd < FD_MAX" "fd_type (fd_at s i fd) = FD_NONE"
  shows "ty = FD_PIPE_READ \<or> ty = FD_PIPE_WRITE \<Longrightarrow>
    refs ty b (set_fd i fd (\<lambda>e. e\<lparr>fd_type := ty', fd_pipe_ptr := Some a\<rparr>) s) = refs ty b s + of_bool (ty = ty' \<and> b = a)"
  using refs_set_fd [OF assms(1-3), of ty b "\<lambda>e. e\<lparr>fd_type := ty', fd_pipe_ptr := Some a\<rparr>"] assms(4) by (auto simp: uses_def)

definition new_pipe_ends :: "nat \<Rightarrow> nat \<Rightarrow> nat \<Rightarrow> nat \<Rightarrow> ('n, 'd, 's) kern \<Rightarrow> ('n, 'd, 's) kern" where
  "new_pipe_ends i rfd wfd a s =
     set_fd i wfd (\<lambda>e. e\<lparr>fd_type := FD_PIPE_WRITE, fd_pipe_ptr := Some a\<rparr>)
       (set_fd i rfd (\<lambda>e. e\<lparr>fd_type := FD_PIPE_READ, fd_pipe_ptr := Some a\<rparr>) s)"

lemma new_pipe_ends_ok:
  fixes s :: "('n, 'd, 's) kern"
  assumes ok: "pipes_ok s" and i: "i < PROCESS_MAX" and fd: "rfd < FD_MAX" "wfd < FD_MAX" "rfd \<noteq> wfd"
    "fd_type (fd_at s i rfd) = FD_NONE" "fd_type (fd_at s i wfd) = FD_NONE"
    and a: "pipes s a = None" "a < 2 ^ 64" and h: "heap_ok h" "heap_live (heap s) \<subseteq> heap_live h" "(a, m) \<in> heap_live h"
    and p: "readers p = 1" "writers p = 1"
  shows "pipes_ok (new_pipe_ends i rfd wfd a (s\<lparr>heap := h, pipes := (pipes s)(a \<mapsto> p)\<rparr>))"
proof -
  let ?s = "s\<lparr>heap := h, pipes := (pipes s)(a \<mapsto> p)\<rparr>" and ?t = "new_pipe_ends i rfd wfd a (s\<lparr>heap := h, pipes := (pipes s)(a \<mapsto> p)\<rparr>)"
  let ?r = "\<lambda>e. e\<lparr>fd_type := FD_PIPE_READ, fd_pipe_ptr := Some a\<rparr>"
  have len: "length (fds (processes s i)) = FD_MAX" using pipes_okD(2) [OF ok i] .
  have w: "fd_type (fd_at (set_fd i rfd ?r ?s) i wfd) = FD_NONE"
    using fd_at_set_fd [of ?s i rfd ?r wfd] len fd by simp
  have r: "refs ty b ?t = refs ty b s + of_bool (b = a)" if "ty = FD_PIPE_READ \<or> ty = FD_PIPE_WRITE" for ty b
    using that len fd(4) w refs_new_end [where s = ?s and ty = ty and b = b and ty' = FD_PIPE_READ and a = a, OF i _ fd(1)]
      refs_new_end [where s = "set_fd i rfd ?r ?s" and ty = ty and b = b and ty' = FD_PIPE_WRITE and a = a, OF i _ fd(2)]
    by (auto simp: new_pipe_ends_def simp del: set_fd_commute)
  have "pipe_counts_ok ?t b x" if "((pipes s)(a \<mapsto> p)) b = Some x" for b x
  proof (cases "b = a")
    case True
    then show ?thesis using that a h(3) p r [of FD_PIPE_READ a] r [of FD_PIPE_WRITE a] pipes_okD(5,6) [OF ok a(1)]
      by (auto simp: pipe_counts_ok_def new_pipe_ends_def simp del: set_fd_commute)
  next
    case False
    then show ?thesis using that h(2) pipes_okD(3) [OF ok, of b x] r [of FD_PIPE_READ b] r [of FD_PIPE_WRITE b]
      by (auto simp: pipe_counts_ok_def new_pipe_ends_def simp del: set_fd_commute)
  qed
  moreover have "refs FD_PIPE_READ b ?t = 0 \<and> refs FD_PIPE_WRITE b ?t = 0" if "((pipes s)(a \<mapsto> p)) b = None" for b
    using that pipes_okD(5,6) [OF ok, of b] r [of FD_PIPE_READ b] r [of FD_PIPE_WRITE b] by (auto split: if_splits)
  ultimately show ?thesis using h(1) pipes_okD(2) [OF ok] unfolding pipes_ok_def
    by (simp add: new_pipe_ends_def del: set_fd_commute)
qed

lemma free_fds_two:
  assumes "free_fds es = rfd # wfd # rest"
  shows "rfd < FD_MAX" "wfd < FD_MAX" "rfd \<noteq> wfd" "fd_type (es ! rfd) = FD_NONE" "fd_type (es ! wfd) = FD_NONE"
proof -
  have "distinct (free_fds es)" unfolding free_fds_def by (rule distinct_filter) (rule distinct_upt)
  then show "rfd \<noteq> wfd" unfolding assms by simp
  have "rfd \<in> set (free_fds es)" "wfd \<in> set (free_fds es)" unfolding assms by simp_all
  then show "rfd < FD_MAX" "wfd < FD_MAX" "fd_type (es ! rfd) = FD_NONE" "fd_type (es ! wfd) = FD_NONE"
    unfolding free_fds_def set_filter set_upt by auto
qed

lemma fd_pipe_ok:
  fixes s :: "('n, 'd, 's) kern"
  assumes ok: "pipes_ok s"
  shows "\<exists>t r fs. fd_pipe s = Some (t, r, fs) \<and> pipes_ok t"
proof (cases "process_current s")
  case (Some i)
  have i: "i < PROCESS_MAX" by (rule process_current_lt [OF Some])
  show ?thesis
  proof (cases "\<exists>rfd wfd rest. free_fds (fds (processes s i)) = rfd # wfd # rest")
    case True
    then obtain rfd wfd rest where f: "free_fds (fds (processes s i)) = rfd # wfd # rest" by blast
    obtain h p where k: "kmalloc (heap s) PIPE_T_SIZE = Some (h, p)" "heap_ok h"
      "if p = 0 then h = heap s else \<exists>m. unat PIPE_T_SIZE \<le> m \<and> heap_live h = insert (unat p, m) (heap_live (heap s)) \<and>
         (\<forall>(y, k) \<in> heap_live (heap s). y + k \<le> unat p \<or> unat p + m \<le> y) \<and> (\<forall>k. (unat p, k) \<notin> heap_live (heap s))"
      using kheap.alloc_returns [OF pipes_okD(1) [OF ok], of PIPE_T_SIZE] by auto
    show ?thesis
    proof (cases "p = 0")
      case True
      then have "h = heap s" using k(3) by simp
      moreover have "s\<lparr>heap := heap s\<rparr> = s" by (cases s) simp
      ultimately show ?thesis using True k(1) ok by (simp add: fd_pipe_def Some f pipe_create_def)
    next
      case False
      then obtain m where m: "heap_live h = insert (unat p, m) (heap_live (heap s))" "\<forall>k. (unat p, k) \<notin> heap_live (heap s)"
        using k(3) by auto
      have new: "pipes s (unat p) = None"
      proof (rule ccontr)
        assume "pipes s (unat p) \<noteq> None"
        then obtain x where "pipes s (unat p) = Some x" by blast
        from pipes_okD(3) [OF ok this] show False using m(2) by (auto simp: pipe_counts_ok_def)
      qed
      have "unat p < 2 ^ 64" using unsigned_less [of p, where 'a = nat] by simp
      with new_pipe_ends_ok [OF ok i free_fds_two(1-3) [OF f] _ _ new _ k(2), of m "zero_pipe\<lparr>readers := 1, writers := 1\<rparr>"]
      have "pipes_ok (new_pipe_ends i rfd wfd (unat p) (s\<lparr>heap := h, pipes := (pipes s)(unat p \<mapsto> zero_pipe\<lparr>readers := 1, writers := 1\<rparr>)\<rparr>))"
        using free_fds_two(4,5) [OF f] m by (auto simp: fd_at_def)
      moreover have "fd_pipe s = Some (new_pipe_ends i rfd wfd (unat p)
          (s\<lparr>heap := h, pipes := (pipes s)(unat p \<mapsto> zero_pipe\<lparr>readers := 1, writers := 1\<rparr>)\<rparr>), 0, [rfd, wfd])"
        using False k(1) by (simp add: fd_pipe_def Some f pipe_create_def pipe_add_reader_def pipe_add_writer_def new_pipe_ends_def zero_pipe_def
            del: set_fd_commute)
      ultimately show ?thesis by blast
    qed
  next
    case False
    then show ?thesis using ok by (auto simp: fd_pipe_def Some split: list.split)
  qed
qed (use ok in \<open>simp add: fd_pipe_def\<close>)

lemma drop_pipes_ok:
  fixes s :: "('n, 'd, 's) kern"
  assumes "pipes_ok s" "i < PROCESS_MAX" "\<forall>fd \<in> set xs. fd < FD_MAX"
  shows "\<exists>t. drop_pipes i xs s = Some t \<and> pipes_ok t"
  using assms
proof (induction xs arbitrary: s)
  case (Cons fd xs)
  obtain u where "(if fd_type (fd_at s i fd) \<in> {FD_PIPE_READ, FD_PIPE_WRITE} then fd_drop_ref i fd s else Some s) = Some u" "pipes_ok u"
    using fd_drop_ref_ok [OF Cons.prems(1,2), of fd] Cons.prems(1,3) unfolding Let_def
    by (cases "fd_type (fd_at s i fd) \<in> {FD_PIPE_READ, FD_PIPE_WRITE}") auto
  then show ?case using Cons.IH [of u] Cons.prems by simp
qed simp

lemma process_exit_ok:
  assumes "pipes_ok s"
  shows "\<exists>t. process_exit code s = Some t \<and> pipes_ok t"
proof (cases "process_current s")
  case (Some i)
  have "\<forall>fd \<in> set [0..<FD_MAX]. fd < FD_MAX" by simp
  then obtain u where u: "drop_pipes i [0..<FD_MAX] s = Some u" "pipes_ok u"
    using drop_pipes_ok [OF assms process_current_lt [OF Some]] by blast
  obtain t where t: "process_exit code s = Some t" unfolding process_exit_def Some option.case u(1) by simp
  have "pipes_ok t"
    by (rule pipes_ok_frame [OF u(2)])
      (use t in \<open>auto simp: process_exit_def Some u(1) Let_def reap_children_def simp del: upt_rec_numeral\<close>)
  then show ?thesis using t by blast
qed (use assms in \<open>simp add: process_exit_def\<close>)

lemma length_filter_zero: "length (filter (uses ty a) (fds zero_process)) = 0" if "ty = FD_PIPE_READ \<or> ty = FD_PIPE_WRITE"
  using that by (auto simp: zero_process_def uses_def no_fd_def)

lemma process_alloc_ok:
  fixes s :: "('n, 'd, 's) kern"
  assumes ok: "pipes_ok s" and t: "process_alloc name s = (t, r)"
  shows "pipes_ok t"
proof -
  have r1: "pipes_ok (reap_slots s)"
  proof (rule pipes_ok_mono [OF ok])
    show "refs ty a (reap_slots s) \<le> refs ty a s" if "ty = FD_PIPE_READ \<or> ty = FD_PIPE_WRITE" for ty a
      unfolding refs_def using length_filter_zero [OF that, of a] by (intro sum_mono) (simp add: reap_slots_def Let_def)
  qed (use pipes_okD(2) [OF ok] in \<open>simp_all add: reap_slots_def Let_def zero_process_def\<close>)
  show ?thesis
  proof (cases "first_process (\<lambda>p. \<not> alive p \<and> pid p = 0) (reap_slots s)")
    case None
    then show ?thesis using t r1 by (simp add: process_alloc_def)
  next
    case (Some i)
    let ?n = "new_process name (next_pid (reap_slots s)) (tick_count (reap_slots s))"
    let ?u = "(reap_slots s)\<lparr>next_pid := next_pid (reap_slots s) + 1\<rparr>"
    have i: "i < PROCESS_MAX" using first_process_lt [OF Some] by blast
    have u: "pipes_ok ?u" by (rule pipes_ok_frame [OF r1]) simp_all
    have new: "length (filter (uses ty a) (fds ?n)) = 0" if "ty = FD_PIPE_READ \<or> ty = FD_PIPE_WRITE" for ty a
      using that by (auto simp: new_process_def uses_def no_fd_def)
    have "t = set_process i (\<lambda>_. ?n) ?u" using t Some by (simp add: process_alloc_def Let_def)
    moreover have "pipes_ok (set_process i (\<lambda>_. ?n) ?u)"
    proof (rule pipes_ok_mono [OF u])
      show "refs ty a (set_process i (\<lambda>_. ?n) ?u) \<le> refs ty a ?u" if "ty = FD_PIPE_READ \<or> ty = FD_PIPE_WRITE" for ty a
        using refs_process [OF i, of ty a "\<lambda>_. ?n" ?u] new [OF that, of a] by simp
    qed (use pipes_okD(2) [OF u] in \<open>simp_all add: new_process_def\<close>)
    ultimately show ?thesis by simp
  qed
qed

lemma inherit_fds_ok:
  fixes s :: "('n, 'd, 's) kern"
  assumes "pipes_ok s" "few_ends (length xs) s" "parent < PROCESS_MAX" "child < PROCESS_MAX" "child \<noteq> parent"
    and "\<forall>fd \<in> set xs. fd < FD_MAX \<and> fd_type (fd_at s child fd) \<notin> {FD_PIPE_READ, FD_PIPE_WRITE}" "distinct xs"
  shows "\<exists>t. inherit_fds parent child xs s = Some t \<and> pipes_ok t"
  using assms
proof (induction xs arbitrary: s)
  case (Cons fd xs)
  let ?e = "fd_at s parent fd"
  have fd: "fd < FD_MAX" "fd_type (fd_at s child fd) \<notin> {FD_PIPE_READ, FD_PIPE_WRITE}" using Cons.prems(6) by auto
  have few: "few_ends (Suc (length xs)) s" using Cons.prems(2) by simp
  have len: "length (fds (processes s child)) = FD_MAX" using pipes_okD(2) [OF Cons.prems(1,4)] .
  obtain ps where ps: "fd_add_ref ?e (set_fd child fd (\<lambda>_. ?e) s) = Some (set_fd child fd (\<lambda>_. ?e) (s\<lparr>pipes := ps\<rparr>))"
    "pipes_ok (set_fd child fd (\<lambda>_. ?e) (s\<lparr>pipes := ps\<rparr>))" "few_ends (length xs) (set_fd child fd (\<lambda>_. ?e) (s\<lparr>pipes := ps\<rparr>))"
    using copy_fd_ok [OF Cons.prems(1,4) fd Cons.prems(3) fd(1) refl few] unfolding Let_def by blast
  let ?t = "set_fd child fd (\<lambda>_. ?e) (s\<lparr>pipes := ps\<rparr>)"
  have at: "fd_at (set_fd child fd (\<lambda>_. ?e) s) child fd = ?e" using fd_at_set_fd [OF len fd(1)] by simp
  have "\<forall>k \<in> set xs. k < FD_MAX \<and> fd_type (fd_at ?t child k) \<notin> {FD_PIPE_READ, FD_PIPE_WRITE}"
  proof
    fix k assume k: "k \<in> set xs"
    then have "k \<noteq> fd" using Cons.prems(7) by auto
    then have "fd_at ?t child k = fd_at s child k"
      using fd_at_set_fd [of "s\<lparr>pipes := ps\<rparr>" child fd "\<lambda>_. ?e" k] len fd(1) by simp
    then show "k < FD_MAX \<and> fd_type (fd_at ?t child k) \<notin> {FD_PIPE_READ, FD_PIPE_WRITE}" using Cons.prems(6) k by simp
  qed
  then have "\<exists>t. inherit_fds parent child xs ?t = Some t \<and> pipes_ok t"
    using Cons.IH [OF ps(2,3)] Cons.prems(3-5,7) by simp
  then show ?case using ps(1) at by (simp add: Let_def)
qed simp

text \<open>Reading and writing leave the counts alone.\<close>

definition same_ends :: "pipe \<Rightarrow> pipe \<Rightarrow> bool" where
  "same_ends p q \<longleftrightarrow> readers q = readers p \<and> writers q = writers p"

lemma read_bytes_ends: "same_ends p (snd (read_bytes n p))"
proof (induction n arbitrary: p)
  case (Suc n)
  show ?case using Suc [of "p\<lparr>read_pos := (read_pos p + 1) mod PIPE_BUF_SIZE\<rparr>"]
    by (simp add: same_ends_def Let_def case_prod_unfold)
qed (simp add: same_ends_def)

lemma write_bytes_ends: "same_ends p (write_bytes bs p)"
  by (induction bs p rule: write_bytes.induct) (simp_all add: same_ends_def)

lemma pipe_write_loop_ends: "same_ends p (snd (pipe_write_loop p src k))"
proof (induction p src k rule: pipe_write_loop.induct)
  case (1 p src k)
  show ?case
  proof (cases "k < length src \<and> pcount p \<noteq> PIPE_BUF_SIZE \<and> readers p \<noteq> 0")
    case True
    let ?chunk = "if length src - k < unat (PIPE_BUF_SIZE - pcount p) then length src - k else unat (PIPE_BUF_SIZE - pcount p)"
    let ?p = "write_bytes (take ?chunk (drop k src)) p"
    have "pipe_write_loop p src k = pipe_write_loop (?p\<lparr>pcount := pcount ?p + of_nat ?chunk\<rparr>) src (k + ?chunk)"
      using True by (subst pipe_write_loop.simps) (simp add: Let_def)
    moreover have "same_ends (?p\<lparr>pcount := pcount ?p + of_nat ?chunk\<rparr>) (snd (pipe_write_loop (?p\<lparr>pcount := pcount ?p + of_nat ?chunk\<rparr>) src (k + ?chunk)))"
      using True by (intro 1) auto
    ultimately show ?thesis using write_bytes_ends [of p "take ?chunk (drop k src)"] by (simp add: same_ends_def)
  next
    case False
    then show ?thesis by (subst pipe_write_loop.simps) (auto simp: same_ends_def word_neq_0_conv)
  qed
qed

lemma read_attempt_ends: "same_ends p (snd (read_attempt p n))"
  using read_bytes_ends [of p "unat (if n < ucast (pcount p) then n else ucast (pcount p))"]
  by (simp add: read_attempt_def same_ends_def Let_def case_prod_unfold)

lemma write_attempt_ends: "same_ends p (snd (write_attempt p src))"
  using pipe_write_loop_ends [of p src 0] by (simp add: write_attempt_def same_ends_def)

lemma transfer_ok:
  assumes "pipes_ok s" "pipes s a = Some p" "same_ends p q"
  shows "pipes_ok (s\<lparr>pipes := (pipes s)(a \<mapsto> q)\<rparr>)"
proof -
  have "pipe_counts_ok (s\<lparr>pipes := (pipes s)(a \<mapsto> q)\<rparr>) b x" if "((pipes s)(a \<mapsto> q)) b = Some x" for b x
    using that assms pipes_okD(3) [OF assms(1), of b] by (cases "b = a") (auto simp: pipe_counts_ok_def same_ends_def)
  then show ?thesis using assms(1) by (simp add: pipes_ok_def)
qed

lemma fd_pipe_present:
  assumes "pipes_ok s" "process_current s = Some i" "\<not> (fd < 0 \<or> int FD_MAX \<le> fd)" "fd_pipe_ptr (fd_at s i (nat fd)) = Some a"
    and "fd_type (fd_at s i (nat fd)) \<in> {FD_PIPE_READ, FD_PIPE_WRITE}"
  shows "\<exists>p. pipes s a = Some p"
proof -
  have "nat fd < FD_MAX" using assms(3) by linarith
  then have "0 < refs (fd_type (fd_at s i (nat fd))) a s"
    using refs_used [OF assms(1) process_current_lt [OF assms(2)]] assms(4) by (simp add: uses_def)
  then show ?thesis using pipes_okD(4) [OF assms(1), of a] assms(5) by auto
qed

lemma with_fsys_simps:
  assumes "with_fsys f s = (t, r)"
  shows "heap t = heap s" "pipes t = pipes s" "processes t = processes s" "mount_table t = mount_table s"
  using assms by (auto simp: with_fsys_def split: prod.splits)

lemma offset_ok:
  assumes "pipes_ok s" "i < PROCESS_MAX" "fd < FD_MAX" "\<And>e. fd_type (f e) = fd_type e \<and> fd_pipe_ptr (f e) = fd_pipe_ptr e"
  shows "pipes_ok (set_fd i fd f s)"
proof (rule pipes_ok_mono [OF assms(1)])
  show "refs ty a (set_fd i fd f s) \<le> refs ty a s" for ty a
    using refs_set_fd [OF assms(2) pipes_okD(2) [OF assms(1,2)] assms(3), of ty a f] assms(4) by (simp add: uses_def)
qed (use pipes_okD(2) [OF assms(1)] in simp_all)

lemma advance_ok: "pipes_ok s \<Longrightarrow> i < PROCESS_MAX \<Longrightarrow> fd < FD_MAX \<Longrightarrow> pipes_ok (advance i fd r s)"
  by (simp add: advance_def offset_ok)

lemma pipe_read_ok:
  assumes "pipes_ok s" "\<And>a. ptr = Some a \<Longrightarrow> \<exists>p. pipes s a = Some p"
  shows "\<exists>r ps. pipe_read (pipes s) ptr n = Some (r, ps) \<and> pipes_ok (s\<lparr>pipes := ps\<rparr>)"
proof (cases ptr)
  case None
  then show ?thesis using assms(1) by (simp add: pipe_read_def)
next
  case (Some a)
  then obtain p where p: "pipes s a = Some p" using assms(2) by blast
  show ?thesis
    using Some p assms(1) transfer_ok [OF assms(1) p read_attempt_ends [of p n]]
    by (simp add: pipe_read_def case_prod_unfold Let_def)
qed

lemma pipe_write_ok:
  assumes "pipes_ok s" "\<And>a. ptr = Some a \<Longrightarrow> \<exists>p. pipes s a = Some p"
  shows "\<exists>r ps. pipe_write (pipes s) ptr src = Some (r, ps) \<and> pipes_ok (s\<lparr>pipes := ps\<rparr>)"
proof (cases ptr)
  case None
  then show ?thesis using assms(1) by (simp add: pipe_write_def)
next
  case (Some a)
  then obtain p where p: "pipes s a = Some p" using assms(2) by blast
  show ?thesis
    using Some p assms(1) transfer_ok [OF assms(1) p write_attempt_ends [of p src]]
    by (simp add: pipe_write_def case_prod_unfold Let_def)
qed

lemma pipes_ok_fsys:
  assumes "pipes_ok s" "with_fsys f s = (t, r)"
  shows "pipes_ok t"
  by (rule pipes_ok_frame [OF assms(1)]) (simp_all add: with_fsys_simps [OF assms(2)])

lemma fd_read_ok:
  fixes s :: "('n, 'd, 's) kern"
  assumes ok: "pipes_ok s"
  shows "\<exists>t r. fd_read ops_of fd n s = Some (t, r) \<and> pipes_ok t"
proof (cases "process_current s = None \<or> fd < 0 \<or> int FD_MAX \<le> fd")
  case True
  then show ?thesis using ok by (auto simp: fd_read_def split: option.split)
next
  case False
  then obtain i where i: "process_current s = Some i" and fd: "\<not> (fd < 0 \<or> int FD_MAX \<le> fd)" by auto
  have k: "i < PROCESS_MAX" "nat fd < FD_MAX" using process_current_lt [OF i] fd by linarith+
  let ?e = "fd_at s i (nat fd)"
  show ?thesis
  proof (cases "fd_type ?e")
    case FD_CONSOLE
    have "pipes_ok (s\<lparr>terminal := t\<rparr>)" for t by (rule pipes_ok_frame [OF ok]) simp_all
    then show ?thesis using i fd FD_CONSOLE by (simp add: fd_read_def Let_def case_prod_unfold)
  next
    case FD_FILE
    obtain t r bs where v: "with_fsys (vfs_read ops_of (mount_table s) (fd_path ?e) n (sint (fd_offset ?e))) s = (t, r, bs)"
      by (metis prod_cases3)
    show ?thesis using i fd FD_FILE v advance_ok [OF pipes_ok_fsys [OF ok v] k] by (simp add: fd_read_def Let_def)
  next
    case FD_PIPE_READ
    have "\<exists>p. pipes s a = Some p" if "fd_pipe_ptr ?e = Some a" for a
      using fd_pipe_present [OF ok i fd that] FD_PIPE_READ by simp
    from pipe_read_ok [where ptr = "fd_pipe_ptr ?e", OF ok this, of n]
    show ?thesis using i fd FD_PIPE_READ by (auto simp: fd_read_def Let_def)
  qed (use i fd ok in \<open>simp_all add: fd_read_def Let_def\<close>)
qed

lemma fd_write_ok:
  fixes s :: "('n, 'd, 's) kern"
  assumes ok: "pipes_ok s"
  shows "\<exists>t r. fd_write ops_of fd buf s = Some (t, r) \<and> pipes_ok t"
proof (cases "process_current s = None \<or> fd < 0 \<or> int FD_MAX \<le> fd")
  case True
  then show ?thesis using ok by (auto simp: fd_write_def split: option.split)
next
  case False
  then obtain i where i: "process_current s = Some i" and fd: "\<not> (fd < 0 \<or> int FD_MAX \<le> fd)" by auto
  have k: "i < PROCESS_MAX" "nat fd < FD_MAX" using process_current_lt [OF i] fd by linarith+
  let ?e = "fd_at s i (nat fd)"
  show ?thesis
  proof (cases "fd_type ?e")
    case FD_CONSOLE
    have "pipes_ok (s\<lparr>terminal := t\<rparr>)" for t by (rule pipes_ok_frame [OF ok]) simp_all
    then show ?thesis using i fd FD_CONSOLE by (simp add: fd_write_def Let_def case_prod_unfold)
  next
    case FD_FILE
    obtain t r where v: "with_fsys (vfs_write ops_of (mount_table s) (fd_path ?e) buf (sint (fd_offset ?e))) s = (t, r)"
      by fastforce
    show ?thesis using i fd FD_FILE v advance_ok [OF pipes_ok_fsys [OF ok v] k] by (simp add: fd_write_def Let_def)
  next
    case FD_PIPE_WRITE
    have "\<exists>p. pipes s a = Some p" if "fd_pipe_ptr ?e = Some a" for a
      using fd_pipe_present [OF ok i fd that] FD_PIPE_WRITE by simp
    from pipe_write_ok [where ptr = "fd_pipe_ptr ?e", OF ok this, of buf]
    show ?thesis using i fd FD_PIPE_WRITE by (auto simp: fd_write_def Let_def)
  qed (use i fd ok in \<open>simp_all add: fd_write_def Let_def\<close>)
qed

lemma create_file_ok:
  assumes "pipes_ok s" "create_file ops_of path s = (t, st)"
  shows "pipes_ok t" "processes t = processes s"
proof -
  obtain u rc where u: "with_fsys (vfs_create ops_of (mount_table s) path VFS_FILE) s = (u, rc)" by fastforce
  obtain v rc' st' where v: "with_fsys (vfs_stat ops_of (mount_table u) path) u = (v, rc', st')" by (metis prod_cases3)
  have "t = u \<or> t = v" using assms(2) u v by (auto simp: create_file_def Let_def split: if_splits)
  then show "pipes_ok t" "processes t = processes s"
    using pipes_ok_fsys [OF assms(1) u] pipes_ok_fsys [OF pipes_ok_fsys [OF assms(1) u] v] with_fsys_simps [OF u] with_fsys_simps [OF v]
    by auto
qed

lemma set_file_ok:
  assumes "pipes_ok s" "i < PROCESS_MAX" "fd < FD_MAX" "\<And>e. fd_type (f e) = FD_FILE"
  shows "pipes_ok (set_fd i fd f s)"
proof (rule pipes_ok_mono [OF assms(1)])
  show "refs ty a (set_fd i fd f s) \<le> refs ty a s" if "ty = FD_PIPE_READ \<or> ty = FD_PIPE_WRITE" for ty a
    using refs_set_fd [OF assms(2) pipes_okD(2) [OF assms(1,2)] assms(3), of ty a f] assms(4) that by (auto simp: uses_def)
qed (use pipes_okD(2) [OF assms(1)] in simp_all)

lemma fd_open_ok:
  fixes s :: "('n, 'd, 's) kern"
  assumes ok: "pipes_ok s"
  shows "pipes_ok (fst (fd_open ops_of path flags s))"
proof (cases "process_current s")
  case (Some i)
  have i: "i < PROCESS_MAX" by (rule process_current_lt [OF Some])
  obtain u rc st where u: "with_fsys (vfs_stat ops_of (mount_table s) path) s = (u, rc, st)" by (metis prod_cases3)
  define w where "w = (if rc \<noteq> 0 then (if flags AND O_CREAT = 0 then (u, None) else create_file ops_of path u)
     else if flags AND O_TRUNC \<noteq> 0 then create_file ops_of path (fst (with_fsys (vfs_unlink ops_of (mount_table u) path) u))
     else (u, Some st))"
  obtain v st' where v: "w = (v, st')" by fastforce
  have uok: "pipes_ok u" by (rule pipes_ok_fsys [OF ok u])
  have "pipes_ok (fst (with_fsys f u))" for f :: "'s \<Rightarrow> 's \<times> int"
    using pipes_ok_fsys [OF uok, of f] by (cases "with_fsys f u") simp
  then have vok: "pipes_ok v"
    using v uok unfolding w_def by (auto split: if_splits dest: create_file_ok(1) [rotated])
  have eq: "fd_open ops_of path flags s =
      (case st' of None \<Rightarrow> (v, - 1)
       | Some st \<Rightarrow> (case free_fds (fds (processes v i)) of [] \<Rightarrow> (v, - 1)
           | fd # _ \<Rightarrow> (set_fd i fd (\<lambda>e. e\<lparr>fd_type := FD_FILE, fd_path := take (VFS_MAX_PATH - 1) path,
                         fd_offset := (if flags AND O_APPEND \<noteq> 0 then ucast (st_size st) else 0), fd_flags := flags\<rparr>) v, int fd)))"
    unfolding fd_open_def Some option.case u Let_def prod.case v [unfolded w_def] ..
  have "set (free_fds es) \<subseteq> {..<FD_MAX}" for es by (auto simp: free_fds_def)
  then have "fd < FD_MAX" if "free_fds es = fd # rest" for es fd rest using that by (metis insert_subset lessThan_iff list.simps(15))
  then show ?thesis unfolding eq using vok i by (auto split: option.split list.split intro!: set_file_ok)
qed (use ok in \<open>simp add: fd_open_def\<close>)

lemma fd_lseek_ok:
  fixes s :: "('n, 'd, 's) kern"
  assumes ok: "pipes_ok s"
  shows "pipes_ok (fst (fd_lseek ops_of fd off whence s))"
proof (cases "process_current s = None \<or> fd < 0 \<or> int FD_MAX \<le> fd")
  case True
  then show ?thesis using ok by (auto simp: fd_lseek_def split: option.split)
next
  case False
  then obtain i where i: "process_current s = Some i" and fd: "\<not> (fd < 0 \<or> int FD_MAX \<le> fd)" by auto
  have k: "i < PROCESS_MAX" "nat fd < FD_MAX" using process_current_lt [OF i] fd by linarith+
  obtain t rc st where v: "with_fsys (vfs_stat ops_of (mount_table s) (fd_path (fd_at s i (nat fd)))) s = (t, rc, st)" by (metis prod_cases3)
  have "pipes_ok (set_fd i (nat fd) (\<lambda>e. e\<lparr>fd_offset := x\<rparr>) u)" if "pipes_ok u" for x and u :: "('n, 'd, 's) kern"
    by (rule offset_ok [OF that k]) simp
  then show ?thesis using i fd v ok pipes_ok_fsys [OF ok v] by (auto simp: fd_lseek_def Let_def)
qed

section \<open>No descriptor loses its pipe\<close>

text \<open>Whatever one system call of any process does to descriptors, and the rest of the kernel to anything else.\<close>

inductive fd_step :: "('n \<Rightarrow> ('s, 'n) vfs_ops option) \<Rightarrow> ('n, 'd, 's) kern \<Rightarrow> ('n, 'd, 's) kern \<Rightarrow> bool"
  for ops_of where
  Open: "fd_step ops_of s (fst (fd_open ops_of path flags s))"
| Close: "fd_close fd s = Some (t, r) \<Longrightarrow> fd_step ops_of s t"
| Pipe: "fd_pipe s = Some (t, r, fs) \<Longrightarrow> fd_step ops_of s t"
| Dup2: "fd_dup2 oldfd newfd s = Some (t, r) \<Longrightarrow> fd_step ops_of s t"
| Read: "fd_read ops_of fd n s = Some (t, a) \<Longrightarrow> fd_step ops_of s t"
| Write: "fd_write ops_of fd buf s = Some (t, a) \<Longrightarrow> fd_step ops_of s t"
| Lseek: "fd_step ops_of s (fst (fd_lseek ops_of fd off whence s))"
| Exit: "process_exit code s = Some t \<Longrightarrow> fd_step ops_of s t"
| Alloc: "fd_step ops_of s (fst (process_alloc name s))"
| Fork: "parent < PROCESS_MAX \<Longrightarrow> child < PROCESS_MAX \<Longrightarrow> child \<noteq> parent \<Longrightarrow>
    \<forall>fd < FD_MAX. fd_type (fd_at s child fd) \<notin> {FD_PIPE_READ, FD_PIPE_WRITE} \<Longrightarrow>
    inherit_fds parent child [0..<FD_MAX] s = Some t \<Longrightarrow> fd_step ops_of s t"
| Kill: "fd_step ops_of s (signal_one signo i s)"
| Deliver: "fd_step ops_of s (process_deliver_pending_signals regs s)"
| Sigreturn: "fd_step ops_of s (process_sigreturn regs s)"
| Other: "pipes t = pipes s \<Longrightarrow> (\<And>i. fds (processes t i) = fds (processes s i)) \<Longrightarrow> heap_ok (heap t) \<Longrightarrow>
    (\<And>a m. pipes s a \<noteq> None \<Longrightarrow> (a, m) \<in> heap_live (heap s) \<Longrightarrow> (a, m) \<in> heap_live (heap t)) \<Longrightarrow> fd_step ops_of s t"

lemma pipes_ok_env:
  assumes "pipes_ok s" "pipes t = pipes s" "\<And>i. fds (processes t i) = fds (processes s i)" "heap_ok (heap t)"
    and "\<And>a m. pipes s a \<noteq> None \<Longrightarrow> (a, m) \<in> heap_live (heap s) \<Longrightarrow> (a, m) \<in> heap_live (heap t)"
  shows "pipes_ok t"
proof -
  have r: "refs ty a t = refs ty a s" for ty a using assms(3) by (simp add: refs_def)
  have "pipe_counts_ok t a p" if "pipes s a = Some p" for a p
    using that pipes_okD(3) [OF assms(1) that] assms(5) [of a] unfolding pipe_counts_ok_def r by blast
  then show ?thesis using assms(1-4) by (simp add: pipes_ok_def r)
qed

lemma signal_one_ok: "pipes_ok s \<Longrightarrow> pipes_ok (signal_one signo i s)"
  by (erule pipes_ok_frame) (simp_all add: signal_one_def Let_def)

definition same_fds :: "('n, 'd, 's) kern \<Rightarrow> ('n, 'd, 's) kern \<Rightarrow> bool" where
  "same_fds s t \<longleftrightarrow> heap t = heap s \<and> pipes t = pipes s \<and> (\<forall>i. fds (processes t i) = fds (processes s i))"

lemma same_fds_ok: "pipes_ok s \<Longrightarrow> same_fds s t \<Longrightarrow> pipes_ok t"
  unfolding same_fds_def by (rule pipes_ok_frame) auto

lemma same_fds_trans: "same_fds s t \<Longrightarrow> same_fds t u \<Longrightarrow> same_fds s u"
  by (simp add: same_fds_def)

lemma same_fds_set_process: "fds (f (processes s i)) = fds (processes s i) \<Longrightarrow> same_fds s (set_process i f s)"
  by (simp add: same_fds_def)

lemma user_push_fds: "user_push_u64 sp v s = Some (t, sp') \<Longrightarrow> same_fds s t"
  by (auto simp: same_fds_def user_push_u64_def Let_def bind_eq_Some_conv split: if_splits)

lemma run_handler_fds: "same_fds s (run_handler regs i signo h s)"
proof -
  let ?u = "set_process i (\<lambda>p. p\<lparr>sig_saved_regs := load_regs (mem s) regs, sig_delivering := True\<rparr>) s"
  have u: "same_fds s ?u" by (rule same_fds_set_process) simp
  show ?thesis
  proof (cases "user_push_u64 (rsp (load_regs (mem s) regs)) 0 ?u")
    case None
    then show ?thesis by (simp add: run_handler_def same_fds_def)
  next
    case (Some x)
    obtain t sp where x: "x = (t, sp)" by (cases x)
    have "same_fds s t" by (rule same_fds_trans [OF u user_push_fds [OF Some [unfolded x]]])
    then show ?thesis using Some x by (simp add: run_handler_def same_fds_def)
  qed
qed

lemma default_action_fds: "same_fds s (default_action i signo s)"
  by (simp add: default_action_def same_fds_def)

lemma deliver_fds: "same_fds s (process_deliver_pending_signals regs s)"
proof -
  have refl: "same_fds s s" by (simp add: same_fds_def)
  have "same_fds s (let s = set_process i (\<lambda>p. p\<lparr>sig_pending := sig_pending p AND NOT (push_bit signo 1)\<rparr>) s; h = sig_handlers p signo
                 in if h = 0 then default_action i signo s else if h = 1 then s else run_handler regs i signo h s)" for i signo and p :: process
  proof -
    have u: "same_fds s (set_process i (\<lambda>p. p\<lparr>sig_pending := sig_pending p AND NOT (push_bit signo 1)\<rparr>) s)"
      by (rule same_fds_set_process) simp
    show ?thesis using u same_fds_trans [OF u default_action_fds] same_fds_trans [OF u run_handler_fds] by (simp add: Let_def)
  qed
  then show ?thesis unfolding process_deliver_pending_signals_def using refl by (simp add: Let_def split: option.split)
qed

lemma sigreturn_fds: "same_fds s (process_sigreturn regs s)"
  by (simp add: process_sigreturn_def same_fds_def split: option.split)

text \<open>One step keeps the invariant.\<close>

lemma fd_step_ok:
  assumes "fd_step ops_of s t" "pipes_ok s" "few_ends FD_MAX s"
  shows "pipes_ok t"
  using assms
proof cases
  case Open
  then show ?thesis using fd_open_ok [OF assms(2)] by simp
next
  case (Close fd r)
  then show ?thesis using fd_close_ok [OF assms(2), of fd] by auto
next
  case (Pipe r fs)
  then show ?thesis using fd_pipe_ok [OF assms(2)] by auto
next
  case (Dup2 oldfd newfd r)
  have "few_ends 1 s" by (rule few_ends_less [OF assms(3)]) simp_all
  then show ?thesis using Dup2 fd_dup2_ok [OF assms(2), of oldfd newfd] by auto
next
  case (Read fd n a)
  then show ?thesis using fd_read_ok [OF assms(2), of ops_of fd n] by auto
next
  case (Write fd buf a)
  then show ?thesis using fd_write_ok [OF assms(2), of ops_of fd buf] by auto
next
  case Lseek
  then show ?thesis using fd_lseek_ok [OF assms(2)] by simp
next
  case (Exit code)
  then show ?thesis using process_exit_ok [OF assms(2), of code] by auto
next
  case (Alloc name)
  then show ?thesis using process_alloc_ok [OF assms(2), of name] by (cases "process_alloc name s") simp
next
  case (Fork parent child)
  have "\<exists>t. inherit_fds parent child [0..<FD_MAX] s = Some t \<and> pipes_ok t"
    by (rule inherit_fds_ok [OF assms(2)]) (use assms(3) Fork in auto)
  then show ?thesis using Fork by auto
next
  case Kill
  then show ?thesis using signal_one_ok [OF assms(2)] by simp
next
  case Deliver
  then show ?thesis using same_fds_ok [OF assms(2) deliver_fds] by simp
next
  case Sigreturn
  then show ?thesis using same_fds_ok [OF assms(2) sigreturn_fds] by simp
next
  case Other
  then show ?thesis using pipes_ok_env [OF assms(2)] by blast
qed

text \<open>C1: No sequence of system calls frees a pipe that a descriptor still refers to.  Starting from a state in which every
  pipe counts at least its descriptors, any interleaving of opening, closing, duplicating, reading, writing and
  inheriting descriptors, of process creation, exit, kill and signals, and of whatever else the kernel does outside
  descriptors and pipes, keeps it so, as long as no count comes close to \<open>2^32\<close>.  In every state reached,
  each operation on descriptors returns: none of them touches a freed pipe, and none frees a pipe twice.\<close>

theorem pipe_references_safe:
  assumes "pipes_ok s" "(\<lambda>s t. few_ends FD_MAX s \<and> fd_step ops_of s t)\<^sup>*\<^sup>* s t"
  shows "pipes_ok t \<and> (few_ends FD_MAX t \<longrightarrow>
    fd_close fd t \<noteq> None \<and> fd_dup2 fd fd' t \<noteq> None \<and> fd_pipe t \<noteq> None \<and> fd_read ops_of fd n t \<noteq> None \<and>
    fd_write ops_of fd buf t \<noteq> None \<and> process_exit code t \<noteq> None)"
proof -
  have ok: "pipes_ok t" using assms(2,1) by (induction rule: rtranclp_induct) (auto intro: fd_step_ok)
  have "few_ends 1 t" if "few_ends FD_MAX t" by (rule few_ends_less [OF that]) simp_all
  then show ?thesis
    using ok fd_close_ok [OF ok, of fd] fd_dup2_ok [OF ok, of fd fd'] fd_pipe_ok [OF ok] fd_read_ok [OF ok, of ops_of fd n]
      fd_write_ok [OF ok, of ops_of fd buf] process_exit_ok [OF ok, of code] by auto
qed

definition demo_kern :: "(nat, unit, unit) kern" where
  "demo_kern = \<lparr>heap = stack_heap, vm = small_vm, mem = (\<lambda>_. 0), tasks = (\<lambda>_. zero_task), current = Some 1, next_id = 2,
     scheduling_enabled = True, fpu = [], kernel_stack = 0,
     processes = (\<lambda>_. zero_process)(0 := (new_process ''init'' 1 0)\<lparr>p_task := Some 1\<rparr>), next_pid = 2, foreground_pgid = 0,
     pipes = Map.empty, spawning = None, tick_count = 0, mount_table = [], fsys = (), terminal = tty_boot\<rparr>"

lemma demo_current: "process_current demo_kern = Some 0"
  by (simp add: process_current_def task_current_def demo_kern_def first_process_def new_process_def upt_conv_Cons)

lemma demo_pipes_ok: "pipes_ok demo_kern" "few_ends n demo_kern"
proof -
  have "heap_inv stack_heap [(0x8000 - 32, True)]" unfolding stack_heap_def using heap_init_inv [of 4096 "0x8000"] by simp
  then have h: "heap_ok (heap demo_kern)" by (auto simp: heap_ok_def demo_kern_def)
  have "length (filter (uses ty a) (fds (processes demo_kern i))) = 0" if "ty = FD_PIPE_READ \<or> ty = FD_PIPE_WRITE" for ty a i
    using that by (auto simp: demo_kern_def zero_process_def new_process_def uses_def no_fd_def)
  then have r: "refs ty a demo_kern = 0" if "ty = FD_PIPE_READ \<or> ty = FD_PIPE_WRITE" for ty a
    using that unfolding refs_def by simp
  have "length (fds (processes demo_kern i)) = FD_MAX" for i by (simp add: demo_kern_def zero_process_def new_process_def)
  then show "pipes_ok demo_kern" unfolding pipes_ok_def using h r by (simp add: demo_kern_def)
  show "few_ends n demo_kern" by (simp add: few_ends_def demo_kern_def)
qed

lemma demo_pipe:
  obtains t where "fd_pipe demo_kern = Some (t, 0, [3, 4])" "pipes t = [4128 \<mapsto> zero_pipe\<lparr>readers := 1, writers := 1\<rparr>]"
proof -
  have "heap_inv stack_heap [(0x8000 - 32, True)]" unfolding stack_heap_def using heap_init_inv [of 4096 "0x8000"] by simp
  moreover have "unat (ALIGN16 4116) = 4128" by (simp add: unat_ALIGN16)
  moreover have "heap_start stack_heap = 4096" by (simp add: stack_heap_def heap_init_def Let_def ALIGN16_def)
  ultimately obtain h where h: "kmalloc stack_heap PIPE_T_SIZE = Some (h, 4128)"
    using kmalloc_refines [of stack_heap _ PIPE_T_SIZE] by fastforce
  have f: "free_fds (fds (processes demo_kern 0)) = 3 # 4 # [5..<16]"
    by (simp add: free_fds_def demo_kern_def new_process_def no_fd_def nth_append)
  have k: "heap demo_kern = stack_heap" "pipes demo_kern = Map.empty" by (simp_all add: demo_kern_def)
  show thesis
    by (rule that, simp add: fd_pipe_def demo_current f k h pipe_create_def del: upt_rec_numeral,
        simp add: k pipe_add_reader_def pipe_add_writer_def zero_pipe_def)
qed

theorem pipe_references_safe_witness:
  "\<exists>t. fd_pipe demo_kern = Some (t, 0, [3, 4]) \<and> pipes_ok t \<and> fd_close 3 t \<noteq> None \<and>
     fd_write (\<lambda>_. None) 4 [1, 2] t \<noteq> None"
proof -
  obtain t where t: "fd_pipe demo_kern = Some (t, 0, [3, 4])" "pipes t = [4128 \<mapsto> zero_pipe\<lparr>readers := 1, writers := 1\<rparr>]"
    by (rule demo_pipe)
  have "fd_step (\<lambda>_. None) demo_kern t" using t(1) by (rule fd_step.Pipe)
  then have st: "(\<lambda>s t. few_ends FD_MAX s \<and> fd_step (\<lambda>_. None) s t)\<^sup>*\<^sup>* demo_kern t"
    using demo_pipes_ok(2) by (intro r_into_rtranclp) simp
  have "few_ends FD_MAX t" using t(2) by (simp add: few_ends_def)
  then have "pipes_ok t" "fd_close 3 t \<noteq> None" "fd_write (\<lambda>_. None) 4 [1, 2] t \<noteq> None"
    using pipe_references_safe [OF demo_pipes_ok(1) st, of 3] pipe_references_safe [OF demo_pipes_ok(1) st, of 4 _ _ "[1, 2]"] by blast+
  then show ?thesis using t(1) by blast
qed

section \<open>Signal handlers\<close>

lemma first_process_cong:
  assumes "\<And>i. P (processes t i) = P (processes s i)"
  shows "first_process P t = first_process P s"
  using assms by (simp add: first_process_def)

lemma process_current_cong:
  assumes "current t = current s" "\<And>i. alive (processes t i) = alive (processes s i) \<and> p_task (processes t i) = p_task (processes s i)"
  shows "process_current t = process_current s"
proof -
  have "first_process (\<lambda>p. alive p \<and> p_task p = Some c) t = first_process (\<lambda>p. alive p \<and> p_task p = Some c) s" for c
    by (rule first_process_cong) (simp add: assms(2))
  then show ?thesis using assms(1) by (simp add: process_current_def task_current_def split: option.split)
qed

lemma lowest_signal_least:
  assumes "lowest_signal w = Some n"
  shows "1 \<le> n" "n < 32" "bit w n" "\<forall>k. 1 \<le> k \<and> k < n \<longrightarrow> \<not> bit w k"
proof -
  obtain j where j: "j < length [1..<32]" "bit w ([1..<32] ! j)" "n = [1..<32] ! j" "\<forall>k < j. \<not> bit w ([1..<32] ! k)"
    using assms unfolding lowest_signal_def find_Some_iff by blast
  have n: "n = 1 + j" "j < 31" using j(1,3) by (simp_all del: upt_rec_numeral)
  then show "1 \<le> n" "n < 32" "bit w n" using j by simp_all
  show "\<forall>k. 1 \<le> k \<and> k < n \<longrightarrow> \<not> bit w k"
  proof (intro allI impI)
    fix k assume k: "1 \<le> k \<and> k < n"
    then have "k - 1 < j" using n by linarith
    moreover have "[1..<32] ! (k - 1) = k" using k n by (simp del: upt_rec_numeral)
    ultimately show "\<not> bit w k" using j(4) by metis
  qed
qed

text \<open>The word below the user's stack pointer, where it lies in the direct map.\<close>

definition stack_slot :: "('n, 'd, 's) kern \<Rightarrow> u64 \<Rightarrow> u64 \<Rightarrow> u64" where
  "stack_slot s pml4 sp = vmm_get_physical_in (vm s) pml4 ((sp - 8) AND NOT 0xFFF) + KERNEL_HHDM_BASE + ((sp - 8) - ((sp - 8) AND NOT 0xFFF))"

lemma user_push_succeeds:
  assumes "process_current s = Some i" "p_task (processes s i) = Some c" "t_pml4 (tasks s c) = Some pml4"
    and "vmm_get_physical_in (vm s) pml4 ((sp - 8) AND NOT 0xFFF) \<noteq> 0"
  shows "user_push_u64 sp v s = Some (s\<lparr>mem := store64 (stack_slot s pml4 sp) v (mem s)\<rparr>, sp - 8)"
  using assms by (simp add: user_push_u64_def stack_slot_def Let_def)

lemma load_regs_store64:
  assumes "\<forall>k < 22. apart a (regs + 8 * of_nat k)"
  shows "load_regs (store64 a v m) regs = load_regs m regs"
proof -
  have "load_words (store64 a v m) regs 22 = load_words m regs 22"
    unfolding load_words_def by (rule map_cong [OF refl]) (use assms in simp)
  then show ?thesis by (simp add: load_regs_def)
qed

text \<open>The state \<open>process_deliver_pending_signals\<close> leaves when it starts a handler.\<close>

definition handler_started :: "nat \<Rightarrow> nat \<Rightarrow> u64 \<Rightarrow> u64 \<Rightarrow> registers_t \<Rightarrow> registers_t \<Rightarrow> ('n, 'd, 's) kern \<Rightarrow> ('n, 'd, 's) kern" where
  "handler_started i signo regs slot r r' s =
     (set_process i (\<lambda>p. p\<lparr>sig_pending := sig_pending p AND NOT (push_bit signo 1), sig_saved_regs := r, sig_delivering := True\<rparr>) s)
       \<lparr>mem := store_regs regs r' (store64 slot 0 (mem s))\<rparr>"

lemma deliver_starts_handler:
  assumes cur: "process_current s = Some i" "p_task (processes s i) = Some c" "t_pml4 (tasks s c) = Some pml4"
    and r: "regs \<noteq> 0" "r = load_regs (mem s) regs" "cs r AND 3 = 3"
    and p: "\<not> sig_delivering (processes s i)" "lowest_signal (sig_pending (processes s i)) = Some signo"
    and h: "h = sig_handlers (processes s i) signo" "h \<noteq> 0" "h \<noteq> 1"
    and stack: "vmm_get_physical_in (vm s) pml4 ((rsp r - 8) AND NOT 0xFFF) \<noteq> 0"
      "\<forall>k < 22. apart (stack_slot s pml4 (rsp r)) (regs + 8 * of_nat k)"
  shows "process_deliver_pending_signals regs s =
    handler_started i signo regs (stack_slot s pml4 (rsp r)) r (r\<lparr>rsp := rsp r - 8, rip := h, rdi := of_nat signo\<rparr>) s"
proof -
  let ?f = "\<lambda>p. p\<lparr>sig_pending := sig_pending p AND NOT (push_bit signo 1)\<rparr>"
  let ?g = "\<lambda>p. p\<lparr>sig_saved_regs := r, sig_delivering := True\<rparr>"
  let ?u = "set_process i ?g (set_process i ?f s)"
  have pend: "sig_pending (processes s i) \<noteq> 0" using lowest_signal_least(3) [OF p(2)] by (metis bit_0_eq bot_apply bot_bool_def)
  have "process_current ?u = Some i" using process_current_cong [of ?u s] cur(1) by simp
  moreover have "stack_slot ?u pml4 (rsp r) = stack_slot s pml4 (rsp r)" by (simp add: stack_slot_def)
  ultimately have push: "user_push_u64 (rsp r) 0 ?u = Some (?u\<lparr>mem := store64 (stack_slot s pml4 (rsp r)) 0 (mem s)\<rparr>, rsp r - 8)"
    using user_push_succeeds [of ?u i c pml4 "rsp r" 0] cur stack(1) by simp
  have regs: "load_regs (store64 (stack_slot s pml4 (rsp r)) 0 (mem s)) regs = r"
    using load_regs_store64 [OF stack(2)] r(2) by simp
  have "run_handler regs i signo h (set_process i ?f s) =
      ?u\<lparr>mem := store_regs regs (r\<lparr>rsp := rsp r - 8, rip := h, rdi := of_nat signo\<rparr>) (store64 (stack_slot s pml4 (rsp r)) 0 (mem s))\<rparr>"
    using push regs r(2) by (simp add: run_handler_def Let_def)
  moreover have "?u\<lparr>mem := m\<rparr> = (set_process i (\<lambda>p. p\<lparr>sig_pending := sig_pending p AND NOT (push_bit signo 1), sig_saved_regs := r, sig_delivering := True\<rparr>) s)\<lparr>mem := m\<rparr>" for m
    by (simp add: set_process_def)
  ultimately show ?thesis
    using cur(1) r p h pend by (simp add: process_deliver_pending_signals_def handler_started_def Let_def)
qed

text \<open>C15: Signal handlers and returning from them.  When a process returns to user mode with a pending signal whose handler it
  has installed, and is not in a handler already, \<open>process_deliver_pending_signals\<close> starts the handler of the lowest
  pending signal: the saved frame has the handler's address and the signal number, the stack pointer one word lower and
  everything else as interrupted, and only that signal is no longer pending.  Until the handler returns no other one
  is started, and whatever the handler did to memory, \<open>process_sigreturn\<close> then restores every register of the interrupted frame.\<close>

theorem signal_handler_roundtrip:
  assumes cur: "process_current s = Some i" "p_task (processes s i) = Some c" "t_pml4 (tasks s c) = Some pml4"
    and r: "regs \<noteq> 0" "r = load_regs (mem s) regs" "cs r AND 3 = 3"
    and p: "\<not> sig_delivering (processes s i)" "lowest_signal (sig_pending (processes s i)) = Some signo"
    and h: "h = sig_handlers (processes s i) signo" "h \<noteq> 0" "h \<noteq> 1"
    and stack: "vmm_get_physical_in (vm s) pml4 ((rsp r - 8) AND NOT 0xFFF) \<noteq> 0"
      "\<forall>k < 22. apart (stack_slot s pml4 (rsp r)) (regs + 8 * of_nat k)"
    and t: "t = process_deliver_pending_signals regs s"
  shows "load_regs (mem t) regs = r\<lparr>rsp := rsp r - 8, rip := h, rdi := of_nat signo\<rparr> \<and>
    (\<forall>k. 1 \<le> k \<and> k < signo \<longrightarrow> \<not> bit (sig_pending (processes s i)) k) \<and>
    sig_pending (processes t i) = unset_bit signo (sig_pending (processes s i)) \<and>
    (\<forall>m regs'. process_deliver_pending_signals regs' (t\<lparr>mem := m\<rparr>) = t\<lparr>mem := m\<rparr> \<and>
       load_regs (mem (process_sigreturn regs' (t\<lparr>mem := m\<rparr>))) regs' = r \<and>
       \<not> sig_delivering (processes (process_sigreturn regs' (t\<lparr>mem := m\<rparr>)) i))"
proof -
  have d: "t = handler_started i signo regs (stack_slot s pml4 (rsp r)) r (r\<lparr>rsp := rsp r - 8, rip := h, rdi := of_nat signo\<rparr>) s"
    unfolding t by (rule deliver_starts_handler [OF cur r p h stack])
  have ti: "sig_delivering (processes t i)" "sig_saved_regs (processes t i) = r"
    "sig_pending (processes t i) = sig_pending (processes s i) AND NOT (push_bit signo 1)"
    "load_regs (mem t) regs = r\<lparr>rsp := rsp r - 8, rip := h, rdi := of_nat signo\<rparr>"
    by (simp_all add: d handler_started_def)
  have cur': "process_current (t\<lparr>mem := m\<rparr>) = Some i" for m
    using process_current_cong [of "t\<lparr>mem := m\<rparr>" s] cur(1) by (simp add: d handler_started_def)
  have "process_deliver_pending_signals regs' (t\<lparr>mem := m\<rparr>) = t\<lparr>mem := m\<rparr>" for regs' m
    using cur' [of m] ti(1) by (simp add: process_deliver_pending_signals_def)
  moreover have "load_regs (mem (process_sigreturn regs' (t\<lparr>mem := m\<rparr>))) regs' = r"
    "\<not> sig_delivering (processes (process_sigreturn regs' (t\<lparr>mem := m\<rparr>)) i)" for regs' m
    using cur' [of m] ti(1,2) by (simp_all add: process_sigreturn_def)
  ultimately show ?thesis using ti(3,4) lowest_signal_least(4) [OF p(2)] by (simp add: unset_bit_eq_and_not)
qed

definition handler_regs :: registers_t where
  "handler_regs = (words_regs (replicate 22 0))\<lparr>cs := 0x2B, rsp := 0x800000, rip := 0x401000\<rparr>"

definition handler_kern :: "(nat, unit, unit) kern" where
  "handler_kern = demo_kern
     \<lparr>tasks := (\<lambda>_. zero_task\<lparr>t_pml4 := Some 0x1000\<rparr>), mem := store_regs 0x9000 handler_regs (\<lambda>_. 0),
      vm := small_vm\<lparr>tables := (\<lambda>t i. if t = 0x1000 then 0x2007 else if t = 0x2000 then 0x3007 else if t = 0x3000 then 0x4007
                                    else 0x5007)\<rparr>,
      processes := (processes demo_kern)(0 := (processes demo_kern 0)\<lparr>sig_pending := 0x4004, sig_handlers := (\<lambda>_. 0x402000)\<rparr>)\<rparr>"

theorem signal_handler_roundtrip_witness:
  "load_regs (mem (process_deliver_pending_signals 0x9000 handler_kern)) 0x9000 =
     handler_regs\<lparr>rsp := 0x7FFFF8, rip := 0x402000, rdi := 2\<rparr> \<and>
   load_regs (mem (process_sigreturn 0x9000 (process_deliver_pending_signals 0x9000 handler_kern))) 0x9000 = handler_regs"
proof -
  have cur: "process_current handler_kern = Some 0"
    using process_current_cong [of handler_kern demo_kern] demo_current by (simp add: handler_kern_def demo_kern_def)
  have regs: "load_regs (mem handler_kern) 0x9000 = handler_regs" by (simp add: handler_kern_def)
  have "[1..<32] = 1 # 2 # [3..<32]" by (simp add: upt_conv_Cons numeral_2_eq_2 numeral_3_eq_3 del: upt_rec_numeral)
  moreover have "\<not> bit (0x4004 :: u32) 1" "bit (0x4004 :: u32) 2" by (simp_all add: bit_iff_odd_drop_bit)
  ultimately have low: "lowest_signal 0x4004 = Some 2" unfolding lowest_signal_def by (simp del: upt_rec_numeral)
  have phys: "vmm_get_physical_in (vm handler_kern) 0x1000 ((rsp handler_regs - 8) AND NOT 0xFFF) = 0x5000"
    by (simp add: handler_regs_def handler_kern_def vmm_get_physical_in_def walk_lookup_def has_def entry_to_table_def PTE_ADDR_MASK_def
        VMM_FLAG_PRESENT_def VMM_FLAG_HUGE_def Let_def)
  have slot: "stack_slot handler_kern 0x1000 (rsp handler_regs) = 0xFFFF800000005FF8"
    unfolding stack_slot_def phys by (simp add: handler_regs_def)
  let ?ks = "[0, 1, 2, 3, 4, 5, 6, 7, 8, 9, 10, 11, 12, 13, 14, 15, 16, 17, 18, 19, 20, 21] :: nat list"
  have "list_all (\<lambda>k. apart 0xFFFF800000005FF8 (0x9000 + 8 * of_nat k)) ?ks" by (simp add: apart_def)
  moreover have "k \<in> set ?ks" if "k < 22" for k using that by (simp; arith)
  ultimately have apart: "\<forall>k < 22. apart (stack_slot handler_kern 0x1000 (rsp handler_regs)) (0x9000 + 8 * of_nat k)"
    unfolding slot list_all_iff by blast
  let ?t = "process_deliver_pending_signals 0x9000 handler_kern"
  have same: "?t\<lparr>mem := mem ?t\<rparr> = ?t" by (cases ?t) simp
  have f: "p_task (processes handler_kern 0) = Some 1" "t_pml4 (tasks handler_kern 1) = Some 0x1000"
    "\<not> sig_delivering (processes handler_kern 0)" "lowest_signal (sig_pending (processes handler_kern 0)) = Some 2"
    "0x402000 = sig_handlers (processes handler_kern 0) 2"
    by (simp_all add: handler_kern_def demo_kern_def new_process_def zero_process_def low)
  have c: "cs handler_regs AND 3 = 3" by (simp add: handler_regs_def)
  have nz: "(0x9000 :: u64) \<noteq> 0" "(0x402000 :: u64) \<noteq> 0" "(0x402000 :: u64) \<noteq> 1"
    "vmm_get_physical_in (vm handler_kern) 0x1000 ((rsp handler_regs - 8) AND NOT 0xFFF) \<noteq> 0" unfolding phys by simp_all
  have "load_regs (mem ?t) 0x9000 = handler_regs\<lparr>rsp := rsp handler_regs - 8, rip := 0x402000, rdi := of_nat 2\<rparr> \<and>
      load_regs (mem (process_sigreturn 0x9000 (?t\<lparr>mem := mem ?t\<rparr>))) 0x9000 = handler_regs"
    using signal_handler_roundtrip [OF cur f(1,2) nz(1) regs [symmetric] c f(3,4,5) nz(2-4) apart refl] by blast
  then show ?thesis unfolding same by (simp add: handler_regs_def)
qed

text \<open>The push does not check that the word stays in its page: for a stack pointer 4 bytes off the page boundary, half of
  the word lands in the next physical frame, whoever owns it.\<close>

lemma store64_zero: "unat k < 8 \<Longrightarrow> store64 a 0 m (a + k) = 0"
  by (simp add: store64_def)

lemma user_push_crosses_page:
  assumes "user_push_u64 sp 0 s = Some (t, sp')" "(sp - 8) - ((sp - 8) AND NOT 0xFFF) = 0xFFC"
  shows "\<exists>phys. mem t (phys + KERNEL_HHDM_BASE + 0x1000) = 0 \<and> mem t (phys + KERNEL_HHDM_BASE + 0x1003) = 0 \<and>
    (\<exists>pml4. phys = vmm_get_physical_in (vm s) pml4 ((sp - 8) AND NOT 0xFFF))"
proof -
  obtain pml4 where t: "t = s\<lparr>mem := store64 (vmm_get_physical_in (vm s) pml4 ((sp - 8) AND NOT 0xFFF) + KERNEL_HHDM_BASE + 0xFFC) 0 (mem s)\<rparr>"
    using assms unfolding user_push_u64_def Let_def by (auto simp: bind_eq_Some_conv split: if_splits)
  define a where "a = vmm_get_physical_in (vm s) pml4 ((sp - 8) AND NOT 0xFFF)"
  have "store64 (a + KERNEL_HHDM_BASE + 0xFFC) 0 (mem s) (a + KERNEL_HHDM_BASE + 0xFFC + 4) = 0"
    "store64 (a + KERNEL_HHDM_BASE + 0xFFC) 0 (mem s) (a + KERNEL_HHDM_BASE + 0xFFC + 7) = 0"
    by (rule store64_zero; simp)+
  then show ?thesis unfolding t a_def [symmetric] by (intro exI [of _ a]) (auto simp: a_def)
qed

section \<open>Exit and wait\<close>

text \<open>Closing descriptors changes descriptors, pipes and the heap only.\<close>

definition fds_only :: "('n, 'd, 's) kern \<Rightarrow> ('n, 'd, 's) kern \<Rightarrow> bool" where
  "fds_only s t \<longleftrightarrow> tasks t = tasks s \<and> current t = current s \<and>
     (\<forall>i. processes t i = (processes s i)\<lparr>fds := fds (processes t i)\<rparr>)"

lemma fds_only_refl: "fds_only s s"
  by (simp add: fds_only_def)

lemma fds_only_trans:
  assumes "fds_only s t" "fds_only t u"
  shows "fds_only s u"
proof -
  have "processes u i = (processes s i)\<lparr>fds := fds (processes u i)\<rparr>" for i
  proof -
    have "processes u i = (processes t i)\<lparr>fds := fds (processes u i)\<rparr>" using assms(2) by (simp add: fds_only_def)
    also have "\<dots> = ((processes s i)\<lparr>fds := fds (processes t i)\<rparr>)\<lparr>fds := fds (processes u i)\<rparr>"
      using assms(1) unfolding fds_only_def by metis
    finally show ?thesis by simp
  qed
  then show ?thesis using assms by (simp add: fds_only_def)
qed

lemma fds_only_set_fd: "fds_only s (set_fd i fd f (s\<lparr>pipes := ps, heap := h\<rparr>))"
  by (simp add: fds_only_def set_fd_def set_process_def)

lemma drop_pipes_only:
  assumes "pipes_ok s" "i < PROCESS_MAX" "\<forall>fd \<in> set xs. fd < FD_MAX" "drop_pipes i xs s = Some t"
  shows "fds_only s t"
  using assms
proof (induction xs arbitrary: s)
  case (Cons fd xs)
  have fd: "fd < FD_MAX" using Cons.prems(3) by simp
  obtain ps h where d: "fd_drop_ref i fd s = Some (set_fd i fd (\<lambda>_. no_fd) (s\<lparr>pipes := ps, heap := h\<rparr>))"
    "pipes_ok (set_fd i fd (\<lambda>_. no_fd) (s\<lparr>pipes := ps, heap := h\<rparr>))"
    using fd_drop_ref_ok [OF Cons.prems(1,2) fd] unfolding Let_def by blast
  show ?case
  proof (cases "fd_type (fd_at s i fd) \<in> {FD_PIPE_READ, FD_PIPE_WRITE}")
    case True
    then have "drop_pipes i xs (set_fd i fd (\<lambda>_. no_fd) (s\<lparr>pipes := ps, heap := h\<rparr>)) = Some t" using Cons.prems(4) d(1) by simp
    from Cons.IH [OF d(2) Cons.prems(2) _ this] Cons.prems(3) show ?thesis
      using fds_only_trans [OF fds_only_set_fd] by auto
  next
    case False
    then show ?thesis using Cons by simp
  qed
qed (simp add: fds_only_refl)

text \<open>The state a process leaves behind when it exits.\<close>

lemma first_process_exists: "first_process P s = None \<longleftrightarrow> (\<forall>i < PROCESS_MAX. \<not> P (processes s i))"
  by (auto simp: first_process_def find_None_iff)

lemma process_exit_state:
  fixes s :: "('n, 'd, 's) kern"
  assumes ok: "pipes_ok s" and cur: "process_current s = Some i" and t: "process_exit code s = Some t"
    and own: "parent_pid (processes s i) \<noteq> pid (processes s i)"
  defines "orphan \<equiv> \<forall>j < PROCESS_MAX. \<not> (pid (processes s j) = parent_pid (processes s i) \<and> alive (processes s j) \<and> j \<noteq> i)"
  shows "processes t i = (processes s i)\<lparr>fds := fds (processes t i), exit_code := code, alive := False,
      reaped := reaped (processes s i) \<or> orphan\<rparr>"
    "j \<noteq> i \<Longrightarrow> processes t j = (processes s j)\<lparr>fds := fds (processes t j), reaped := reaped (processes t j)\<rparr>"
    "current t = current s"
proof -
  have i: "i < PROCESS_MAX" by (rule process_current_lt [OF cur])
  obtain u where u: "drop_pipes i [0..<FD_MAX] s = Some u" and only: "fds_only s u"
    using drop_pipes_ok [OF ok i, of "[0..<FD_MAX]"] drop_pipes_only [OF ok i, of "[0..<FD_MAX]"] by auto
  have pu: "processes u k = (processes s k)\<lparr>fds := fds (processes u k)\<rparr>" for k using only by (simp add: fds_only_def)
  have fu: "pid (processes u k) = pid (processes s k)" "parent_pid (processes u k) = parent_pid (processes s k)"
    "alive (processes u k) = alive (processes s k)" "reaped (processes u k) = reaped (processes s k)" for k
    by (subst pu, simp)+
  define x where "x = set_process i (\<lambda>p. p\<lparr>exit_code := code, alive := False\<rparr>) u"
  define v where "v = reap_children (pid (processes x i)) x"
  have vi: "processes v i = (processes u i)\<lparr>exit_code := code, alive := False\<rparr>"
    using own by (simp add: v_def x_def reap_children_def Let_def fu)
  have vj: "processes v j = (processes u j)\<lparr>reaped := reaped (processes v j)\<rparr>" if "j \<noteq> i" for j
    using that by (simp add: v_def x_def reap_children_def Let_def)
  have vpid: "pid (processes v j) = pid (processes s j)" "alive (processes v j) = (alive (processes s j) \<and> j \<noteq> i)" for j
  proof -
    show "pid (processes v j) = pid (processes s j)" by (cases "j = i") (simp_all add: vi fu, subst vj, simp_all add: fu)
    show "alive (processes v j) = (alive (processes s j) \<and> j \<noteq> i)" by (cases "j = i") (simp_all add: vi, subst vj, simp_all add: fu)
  qed
  have parent: "parent_pid (processes v i) = parent_pid (processes s i)" by (simp add: vi fu)
  have orphan: "first_process (\<lambda>q. pid q = parent_pid (processes v i) \<and> alive q) v = None \<longleftrightarrow> orphan"
    unfolding first_process_exists orphan_def vpid parent by auto
  let ?w = "if orphan then set_process i (\<lambda>p. p\<lparr>reaped := True\<rparr>) v else v"
  have t': "t = set_task_state (processes ?w i) (\<lambda>_. True) TASK_DEAD ?w"
    using t unfolding process_exit_def cur option.case u option.map(2) Let_def x_def [symmetric] v_def [symmetric] orphan option.inject
    by (rule sym)
  have ptp: "processes t = processes ?w" "current t = current s" using only by (simp_all add: t' v_def x_def reap_children_def fds_only_def)
  show "current t = current s" by (rule ptp(2))
  show "processes t i = (processes s i)\<lparr>fds := fds (processes t i), exit_code := code, alive := False, reaped := reaped (processes s i) \<or> orphan\<rparr>"
    unfolding ptp(1) using pu [of i] fu(4) [of i] by (simp add: vi)
  show "processes t j = (processes s j)\<lparr>fds := fds (processes t j), reaped := reaped (processes t j)\<rparr>" if "j \<noteq> i"
  proof -
    have "fds (processes v j) = fds (processes u j)" by (subst vj [OF that]) simp
    then have "processes u j = (processes s j)\<lparr>fds := fds (processes v j)\<rparr>" using pu [of j] by simp
    then have "processes v j = (processes s j)\<lparr>fds := fds (processes v j), reaped := reaped (processes v j)\<rparr>"
      using vj [OF that] by metis
    then show ?thesis unfolding ptp(1) using that by simp
  qed
qed

text \<open>C22: Exit and \<open>waitpid\<close>.  A process that exits while its parent is alive leaves its slot as it is, apart from the
  descriptors it closed, marked dead with the exit code; when the parent waits for it, \<open>process_waitpid\<close> returns
  its pid and that code, adds the processor time of the child and of the children it had waited for to the
  parent's, and marks the slot, so that the next \<open>process_alloc\<close> can use it.  Without a live parent the
  slot is marked by the exit itself.\<close>

theorem exit_status_reaches_parent:
  assumes ok: "pipes_ok s" and cur: "process_current s = Some i" and t: "process_exit code s = Some t"
    and own: "parent_pid (processes s i) \<noteq> pid (processes s i)" and new: "\<not> reaped (processes s i)"
    and uniq: "\<forall>k < PROCESS_MAX. pid (processes s k) = pid (processes s i) \<longrightarrow> k = i"
    and parent: "process_current (t\<lparr>current := Some pt\<rparr>) = Some j"
    and w: "process_waitpid (pid (processes s i)) (t\<lparr>current := Some pt\<rparr>) = (w, r)"
  shows "if \<exists>k < PROCESS_MAX. pid (processes s k) = parent_pid (processes s i) \<and> alive (processes s k) \<and> k \<noteq> i
    then processes t i = (processes s i)\<lparr>fds := fds (processes t i), exit_code := code, alive := False\<rparr> \<and>
      r = Waited (sint (pid (processes s i))) (Some code) \<and>
      cutime_ticks (processes w j) = cutime_ticks (processes s j) + (utime_ticks (processes s i) + cutime_ticks (processes s i)) \<and>
      cstime_ticks (processes w j) = cstime_ticks (processes s j) + (stime_ticks (processes s i) + cstime_ticks (processes s i)) \<and>
      reaped (processes w i) \<and> processes (reap_slots w) i = zero_process
    else processes (reap_slots t) i = zero_process"
proof -
  have i: "i < PROCESS_MAX" by (rule process_current_lt [OF cur])
  note ti = process_exit_state(1) [OF ok cur t own] and tj = process_exit_state(2) [OF ok cur t own]
  define orphan where "orphan \<longleftrightarrow> (\<forall>k < PROCESS_MAX. \<not> (pid (processes s k) = parent_pid (processes s i) \<and> alive (processes s k) \<and> k \<noteq> i))"
  have dead: "\<not> alive (processes t i)" "exit_code (processes t i) = code" "reaped (processes t i) = orphan"
    "utime_ticks (processes t i) = utime_ticks (processes s i)" "cutime_ticks (processes t i) = cutime_ticks (processes s i)"
    "stime_ticks (processes t i) = stime_ticks (processes s i)" "cstime_ticks (processes t i) = cstime_ticks (processes s i)"
    by (subst ti, simp add: new orphan_def)+
  have pids: "pid (processes t k) = pid (processes s k)" for k
  proof (cases "k = i")
    case True
    have "pid (processes t i) = pid (processes s i)" by (subst ti) simp
    then show ?thesis using True by simp
  next
    case False
    show ?thesis by (subst tj [OF False]) simp
  qed
  have j: "j \<noteq> i" using first_process_lt [of _ "t\<lparr>current := Some pt\<rparr>" j] parent dead(1)
    by (auto simp: process_current_def task_current_def split: option.splits)
  have times: "cutime_ticks (processes t j) = cutime_ticks (processes s j)" "cstime_ticks (processes t j) = cstime_ticks (processes s j)"
    by (subst tj [OF j], simp)+
  have "first_process (\<lambda>p. pid p = pid (processes s i)) (t\<lparr>current := Some pt\<rparr>) \<noteq> None"
    using i pids by (auto simp: first_process_exists)
  then have found: "first_process (\<lambda>p. pid p = pid (processes s i)) (t\<lparr>current := Some pt\<rparr>) = Some i"
    using first_process_lt [of "\<lambda>p. pid p = pid (processes s i)" "t\<lparr>current := Some pt\<rparr>"] uniq pids by auto
  have "r = Waited (sint (pid (processes s i))) (Some code)" "reaped (processes w i)" "\<not> alive (processes w i)"
    "cutime_ticks (processes w j) = cutime_ticks (processes s j) + (utime_ticks (processes s i) + cutime_ticks (processes s i))"
    "cstime_ticks (processes w j) = cstime_ticks (processes s j) + (stime_ticks (processes s i) + cstime_ticks (processes s i))"
    using w found dead parent times j by (auto simp: process_waitpid_def)
  moreover have "processes t i = (processes s i)\<lparr>fds := fds (processes t i), exit_code := code, alive := False\<rparr>" if "\<not> orphan"
  proof -
    have "processes t i = (processes s i)\<lparr>fds := fds (processes t i), exit_code := code, alive := False, reaped := reaped (processes s i)\<rparr>"
      using ti that unfolding orphan_def by (simp only: simp_thms)
    then show ?thesis by (cases "processes s i") simp
  qed
  ultimately show ?thesis using i dead unfolding orphan_def by (auto simp: reap_slots_def)
qed

definition family_kern :: "(nat, unit, unit) kern" where
  "family_kern = demo_kern\<lparr>current := Some 2, next_pid := 3,
     processes := (processes demo_kern)(1 := (new_process ''child'' 2 0)\<lparr>parent_pid := 1, p_task := Some 2, utime_ticks := 7\<rparr>)\<rparr>"

lemma family_current: "process_current family_kern = Some 1"
  by (simp add: process_current_def task_current_def family_kern_def demo_kern_def first_process_def new_process_def zero_process_def
      upt_conv_Cons)

lemma family_ok: "pipes_ok family_kern"
proof -
  have "length (filter (uses ty a) (fds (processes family_kern i))) = 0" if "ty = FD_PIPE_READ \<or> ty = FD_PIPE_WRITE" for ty a i
    using that by (auto simp: family_kern_def demo_kern_def zero_process_def new_process_def uses_def no_fd_def)
  then have r: "refs ty a family_kern = 0" if "ty = FD_PIPE_READ \<or> ty = FD_PIPE_WRITE" for ty a
    using that unfolding refs_def by simp
  have "length (fds (processes family_kern i)) = FD_MAX" for i
    by (simp add: family_kern_def demo_kern_def zero_process_def new_process_def)
  then show ?thesis using pipes_okD(1) [OF demo_pipes_ok(1)] r by (simp add: pipes_ok_def family_kern_def demo_kern_def)
qed

theorem exit_status_reaches_parent_witness:
  "\<exists>t w. process_exit 42 family_kern = Some t \<and> process_waitpid 2 (t\<lparr>current := Some 1\<rparr>) = (w, Waited 2 (Some 42)) \<and>
     cutime_ticks (processes w 0) = 7 \<and> processes (reap_slots w) 1 = zero_process"
proof -
  obtain t where t: "process_exit 42 family_kern = Some t" using process_exit_ok [OF family_ok, of 42] by blast
  obtain w r where w: "process_waitpid (pid (processes family_kern 1)) (t\<lparr>current := Some 1\<rparr>) = (w, r)" by fastforce
  have own: "parent_pid (processes family_kern 1) \<noteq> pid (processes family_kern 1)" "\<not> reaped (processes family_kern 1)"
    by (simp_all add: family_kern_def new_process_def zero_process_def)
  have uniq: "\<forall>k < PROCESS_MAX. pid (processes family_kern k) = pid (processes family_kern 1) \<longrightarrow> k = 1"
    by (simp add: family_kern_def demo_kern_def new_process_def zero_process_def)
  have p0: "processes t 0 = (processes family_kern 0)\<lparr>fds := fds (processes t 0), reaped := reaped (processes t 0)\<rparr>"
    by (rule process_exit_state(2) [OF family_ok family_current t own(1)]) simp
  have "alive (processes t 0)" "p_task (processes t 0) = Some 1"
    by (subst p0, simp add: family_kern_def demo_kern_def new_process_def)+
  then have parent: "process_current (t\<lparr>current := Some 1\<rparr>) = Some 0"
    by (simp add: process_current_def task_current_def first_process_def upt_conv_Cons)
  have "\<exists>k < PROCESS_MAX. pid (processes family_kern k) = parent_pid (processes family_kern 1) \<and> alive (processes family_kern k) \<and> k \<noteq> 1"
    by (rule exI [of _ 0]) (simp add: family_kern_def demo_kern_def new_process_def)
  with exit_status_reaches_parent [OF family_ok family_current t own uniq parent w]
  have "r = Waited (sint (pid (processes family_kern 1))) (Some 42)" "processes (reap_slots w) 1 = zero_process"
    "cutime_ticks (processes w 0) = cutime_ticks (processes family_kern 0) + (utime_ticks (processes family_kern 1) + cutime_ticks (processes family_kern 1))"
    by simp_all
  moreover have "pid (processes family_kern 1) = 2" "cutime_ticks (processes family_kern 0) = 0"
    "utime_ticks (processes family_kern 1) = 7" "cutime_ticks (processes family_kern 1) = 0"
    by (simp_all add: family_kern_def demo_kern_def new_process_def zero_process_def)
  ultimately show ?thesis using t w by auto
qed

end
