(* ===== verification/Exec.thy ===== *)
theory Exec
  imports Process
begin

text \<open>
  Loading and copying of programs, the rest of \<open>src/kernel/process.c\<close>: the initial stack of a program, \<open>spawn\<close> from
  memory and from a path, \<open>fork\<close> with the copy of the address space, and \<open>execve\<close>.

  Strings of a program are lists of bytes without the terminator.  A program image is the list of its bytes; the
  buffers that hold it between \<open>kmalloc\<close> and \<open>kfree\<close> appear in the heap only.  \<open>None\<close> is a panic (page
  tables cannot be allocated) or an access to missing memory; the address of \<open>spawn_trampoline\<close> is a
  parameter.

  The lemmas show that \<open>fork\<close> gives the child a copy of every page of the parent in fresh frames and leaves the parent's
  memory alone.
\<close>

section \<open>The initial stack\<close>

abbreviation (input) USER_STACK_TOP :: u64 where "USER_STACK_TOP \<equiv> 0x800000"
abbreviation (input) USER_STACK_PAGES :: nat where "USER_STACK_PAGES \<equiv> 4"
abbreviation (input) SPAWN_ENVP_MAX :: nat where "SPAWN_ENVP_MAX \<equiv> 32"
abbreviation (input) SPAWN_ARGV_MAX :: nat where "SPAWN_ARGV_MAX \<equiv> 16"
abbreviation (input) SPAWN_ARGV_BUF :: nat where "SPAWN_ARGV_BUF \<equiv> 512"

definition stack_put_byte :: "vm \<Rightarrow> u64 \<Rightarrow> u64 \<Rightarrow> u8 \<Rightarrow> bytes \<Rightarrow> bytes \<times> bool" where
  "stack_put_byte v pml4 va b m =
     (let page = va AND NOT 0xFFF; phys = vmm_get_physical_in v pml4 page
      in if phys = 0 then (m, False) else (m(phys + KERNEL_HHDM_BASE + (va - page) := b), True))"

definition stack_put_u64 :: "vm \<Rightarrow> u64 \<Rightarrow> u64 \<Rightarrow> u64 \<Rightarrow> bytes \<Rightarrow> bytes \<times> bool" where
  "stack_put_u64 v pml4 va w m =
     (let page = va AND NOT 0xFFF; phys = vmm_get_physical_in v pml4 page
      in if phys = 0 then (m, False) else (store64 (phys + KERNEL_HHDM_BASE + (va - page)) w m, True))"

fun put_bytes :: "vm \<Rightarrow> u64 \<Rightarrow> u64 \<Rightarrow> u8 list \<Rightarrow> bytes \<Rightarrow> bytes \<times> bool" where
  "put_bytes v pml4 va [] m = (m, True)"
| "put_bytes v pml4 va (b # bs) m =
     (let (m, ok) = stack_put_byte v pml4 va b m in if ok then put_bytes v pml4 (va + 1) bs m else (m, False))"

fun put_words :: "vm \<Rightarrow> u64 \<Rightarrow> u64 \<Rightarrow> u64 list \<Rightarrow> bytes \<Rightarrow> bytes \<times> bool" where
  "put_words v pml4 wp [] m = (m, True)"
| "put_words v pml4 wp (w # ws) m =
     (let (m, ok) = stack_put_u64 v pml4 wp w m in if ok then put_words v pml4 (wp + 8) ws m else (m, False))"

text \<open>\<open>for (i = n - 1; i >= 0; i--)\<close>: the strings from the last to the first, downwards; the addresses in order.\<close>

fun put_strings :: "vm \<Rightarrow> u64 \<Rightarrow> u8 list list \<Rightarrow> u64 \<times> bytes \<Rightarrow> u64 \<times> bytes \<times> u64 list \<times> bool" where
  "put_strings v pml4 [] (sp, m) = (sp, m, [], True)"
| "put_strings v pml4 (str # strs) (sp, m) =
     (let (sp, m, ptrs, ok) = put_strings v pml4 strs (sp, m)
      in if \<not> ok then (sp, m, ptrs, False)
         else let sp = sp - of_nat (length str + 1); (m, ok) = put_bytes v pml4 sp (str @ [0]) m
              in (sp, m, sp # ptrs, ok))"

text \<open>The memory and the stack pointer, 0 after an error.\<close>

definition build_user_stack ::
  "vm \<Rightarrow> u64 \<Rightarrow> u8 list list \<Rightarrow> u8 list list \<Rightarrow> (u64 \<times> u64) list \<Rightarrow> bytes \<Rightarrow> bytes \<times> u64" where
  "build_user_stack v pml4 argv envp auxv m =
     (let (sp, m, env_ptrs, ok) = put_strings v pml4 envp (USER_STACK_TOP, m)
      in if \<not> ok then (m, 0)
         else let (sp, m, arg_ptrs, ok) = put_strings v pml4 argv (sp, m)
              in if \<not> ok then (m, 0)
                 else let sp = sp AND NOT 0xF;
                          total_slots = 1 + (length argv + 1) + (length envp + 1) + length auxv * 2 + 2;
                          wp = (sp - of_nat total_slots * 8) AND NOT 0xF;
                          (m, ok) = put_words v pml4 wp
                            ([of_nat (length argv)] @ arg_ptrs @ [0] @ env_ptrs @ [0] @
                             concat (map (\<lambda>(k, x). [k, x]) auxv) @ [0, 0]) m
                      in (m, if ok then wp else 0))"

section \<open>Loading\<close>

text \<open>A panic of the loader ends the computation.\<close>

definition run_loader :: "'a outcome option \<Rightarrow> 'a option" where
  "run_loader r = Option.bind r (\<lambda>x. case x of Panic \<Rightarrow> None | Done y \<Rightarrow> Some y)"

definition load_image :: "image \<Rightarrow> u64 \<Rightarrow> ('n, 'd, 's) kern \<Rightarrow> (('n, 'd, 's) kern \<times> u64) option" where
  "load_image img pml4 s =
     map_option (\<lambda>(v, m, entry). (s\<lparr>vm := v, mem := m\<rparr>, entry)) (run_loader (elf_load img (Some pml4) (vm s, mem s)))"

text \<open>The interpreter named by the program, read through the file system into a heap buffer and loaded; 0 without one.\<close>

definition load_interp ::
  "('n \<Rightarrow> ('s, 'n) vfs_ops option) \<Rightarrow> image \<Rightarrow> u64 \<Rightarrow> ('n, 'd, 's) kern \<Rightarrow> (('n, 'd, 's) kern \<times> u64 \<times> u64) option" where
  "load_interp ops_of img pml4 s =
     Option.bind (elf_find_interp img (of_nat VFS_MAX_PATH)) (\<lambda>(path, found).
       if found = 0 then Some (s, 0, 0)
       else let path = map (\<lambda>b. char_of (unat b)) path;
                (s, rc, st) = with_fsys (vfs_stat ops_of (mount_table s) path) s
            in if rc \<noteq> 0 \<or> \<not> 0 < st_size st then Some (s, 0, 0)
               else Option.bind (kmalloc (heap s) (ucast (st_size st))) (\<lambda>(h, ibuf).
                 let s = s\<lparr>heap := h\<rparr>
                 in if ibuf = 0 then Some (s, 0, 0)
                    else let (s, r, bs) = with_fsys (vfs_read ops_of (mount_table s) path (ucast (st_size st)) 0) s
                         in Option.bind (if r = int (unat (st_size st))
                                         then map_option (\<lambda>(s, e). (s, e, 0x40000000)) (load_image bs pml4 s)
                                         else Some (s, 0, 0)) (\<lambda>(s, e, base).
                              map_option (\<lambda>h. (s\<lparr>heap := h\<rparr>, e, base)) (kfree (heap s) ibuf))))"

fun map_stack :: "u64 \<Rightarrow> nat list \<Rightarrow> vm \<times> bytes \<Rightarrow> (vm \<times> bytes \<times> bool) outcome" where
  "map_stack pml4 [] (v, m) = Done (v, m, True)"
| "map_stack pml4 (i # is) (v, m) =
     (case map_fresh_page pml4 (USER_STACK_TOP - of_nat (i + 1) * 4096) (v, m) of
        Panic \<Rightarrow> Panic
      | Done (v, m, False) \<Rightarrow> Done (v, m, False)
      | Done (v, m, True) \<Rightarrow> map_stack pml4 is (v, m))"

definition auxv_of :: "image \<Rightarrow> u64 \<Rightarrow> u64 \<Rightarrow> u64 \<Rightarrow> (u64 \<times> u64) list option" where
  "auxv_of img main_entry interp_entry interp_base =
     Option.bind (elf_phdr_vaddr img) (\<lambda>main_phdr_vaddr.
       if interp_entry = 0 then Some []
       else map_option (\<lambda>eh. [(3, main_phdr_vaddr), (4, ucast (e_phentsize eh)), (5, ucast (e_phnum eh)), (7, interp_base),
              (9, main_entry), (6, 4096)]) (read_ehdr img))"

text \<open>What \<open>spawn\<close> and \<open>execve\<close> share: the interpreter, the stack pages and the stack; the entry point and the stack pointer, or
  \<open>None\<close> inside on an error that the caller reports.\<close>

definition prepare_program ::
  "('n \<Rightarrow> ('s, 'n) vfs_ops option) \<Rightarrow> image \<Rightarrow> u64 \<Rightarrow> u64 \<Rightarrow> u8 list list \<Rightarrow> u8 list list \<Rightarrow> ('n, 'd, 's) kern \<Rightarrow>
   (('n, 'd, 's) kern \<times> (u64 \<times> u64) option) option" where
  "prepare_program ops_of img pml4 main_entry argv envp s =
     Option.bind (load_interp ops_of img pml4 s) (\<lambda>(s, interp_entry, interp_base).
       Option.bind (run_loader (Some (map_stack pml4 [0..<USER_STACK_PAGES] (vm s, mem s)))) (\<lambda>(v, m, ok).
         let s = s\<lparr>vm := v, mem := m\<rparr>
         in if \<not> ok then Some (s, None)
            else map_option (\<lambda>auxv.
                   let (m, sp) = build_user_stack (vm s) pml4 argv envp auxv (mem s)
                   in (s\<lparr>mem := m\<rparr>,
                       if sp = 0 then None else Some (if interp_entry \<noteq> 0 then interp_entry else main_entry, sp)))
                   (auxv_of img main_entry interp_entry interp_base)))"

section \<open>Spawning\<close>

text \<open>The registers with which \<open>jump_to_usermode\<close> enters the program: the instruction pointer and the stack pointer.\<close>

definition spawn_trampoline :: "('n, 'd, 's) kern \<Rightarrow> (('n, 'd, 's) kern \<times> u64 \<times> u64) option" where
  "spawn_trampoline s =
     Option.bind (spawning s) (\<lambda>i.
       let s = s\<lparr>spawning := None\<rparr>; p = processes s i
       in map_option (\<lambda>t. (tss_set_kernel_stack (stack_base (tasks s t) + TASK_STACK_SIZE) s, spawn_entry p, spawn_rsp p))
            (p_task p))"

text \<open>\<open>vmm_free_pml4(pml4); p->alive = false; return -1;\<close>\<close>

definition spawn_failed :: "nat \<Rightarrow> u64 \<Rightarrow> ('n, 'd, 's) kern \<Rightarrow> ('n, 'd, 's) kern \<times> int" where
  "spawn_failed i pml4 s = (set_process i (\<lambda>p. p\<lparr>alive := False\<rparr>) (s\<lparr>vm := vmm_free_pml4 (Some pml4) (vm s)\<rparr>), - 1)"

definition name_bytes :: "string \<Rightarrow> u8 list" where
  "name_bytes = map (\<lambda>c. of_nat (of_char c))"

definition start_task ::
  "u64 \<Rightarrow> nat \<Rightarrow> u64 \<Rightarrow> u64 \<times> u64 \<Rightarrow> nat \<Rightarrow> ('n, 'd, 's) kern \<Rightarrow> (('n, 'd, 's) kern \<times> int) option" where
  "start_task trampoline i pml4 start t s =
     (let s = task_set_entry t trampoline (set_task t (\<lambda>x. x\<lparr>t_pml4 := Some pml4\<rparr>) s);
          s = set_process i (\<lambda>p. p\<lparr>p_task := Some t, spawn_entry := fst start, spawn_rsp := snd start\<rparr>) s
      in map_option (\<lambda>s. (s, sint (pid (processes s i)))) (task_insert_ready t (s\<lparr>spawning := Some i\<rparr>)))"

definition process_spawn_from_memory ::
  "(u8 list \<Rightarrow> u8 list) \<Rightarrow> u64 \<Rightarrow> ('n \<Rightarrow> ('s, 'n) vfs_ops option) \<Rightarrow> string \<Rightarrow> image \<Rightarrow> u8 list list option \<Rightarrow>
   ('n, 'd, 's) kern \<Rightarrow> (('n, 'd, 's) kern \<times> int) option" where
  "process_spawn_from_memory fninit trampoline ops_of name img argv s =
     (case process_alloc name s of
        (s, None) \<Rightarrow> Some (s, - 1)
      | (s, Some i) \<Rightarrow>
          let s = set_process i (\<lambda>p. p\<lparr>parent_pid := (case process_current s of None \<Rightarrow> 0 | Some c \<Rightarrow> pid (processes s c))\<rparr>) s
          in Option.bind (vmm_new_pml4 (vm s)) (\<lambda>(v, pml4).
               let s = s\<lparr>vm := v\<rparr>
               in case pml4 of
                    None \<Rightarrow> Some (set_process i (\<lambda>p. p\<lparr>alive := False\<rparr>) s, - 1)
                  | Some pml4 \<Rightarrow>
                      Option.bind (load_image img pml4 s) (\<lambda>(s, entry).
                        if entry = 0 then Some (spawn_failed i pml4 s)
                        else Option.bind (prepare_program ops_of img pml4 entry
                                 (case argv of None \<Rightarrow> [name_bytes name] | Some as \<Rightarrow> take (SPAWN_ARGV_MAX - 1) as) [] s)
                               (\<lambda>(s, start). case start of
                                    None \<Rightarrow> Some (spawn_failed i pml4 s)
                                  | Some start \<Rightarrow>
                                      Option.bind (task_alloc fninit name s) (\<lambda>(s, t). case t of
                                          None \<Rightarrow> Some (spawn_failed i pml4 s)
                                        | Some t \<Rightarrow> start_task trampoline i pml4 start t s)))))"

text \<open>The part of the path behind the last slash.\<close>

definition last_component :: "string \<Rightarrow> string" where
  "last_component path = rev (takeWhile (\<lambda>c. c \<noteq> slash) (rev path))"

definition process_spawn_from_path ::
  "(u8 list \<Rightarrow> u8 list) \<Rightarrow> u64 \<Rightarrow> ('n \<Rightarrow> ('s, 'n) vfs_ops option) \<Rightarrow> string \<Rightarrow> u8 list list option \<Rightarrow>
   ('n, 'd, 's) kern \<Rightarrow> (('n, 'd, 's) kern \<times> int) option" where
  "process_spawn_from_path fninit trampoline ops_of path argv s =
     (let (s, rc, st) = with_fsys (vfs_stat ops_of (mount_table s) path) s
      in if rc \<noteq> 0 \<or> st_type st \<noteq> VFS_FILE then Some (s, - 1)
         else if st_size st = 0 then Some (s, - 1)
         else Option.bind (kmalloc (heap s) (ucast (st_size st))) (\<lambda>(h, buf).
           let s = s\<lparr>heap := h\<rparr>
           in if buf = 0 then Some (s, - 1)
              else let (s, r, bs) = with_fsys (vfs_read ops_of (mount_table s) path (ucast (st_size st)) 0) s
                   in Option.bind (if r \<noteq> int (unat (st_size st)) then Some (s, - 1)
                                   else process_spawn_from_memory fninit trampoline ops_of (last_component path) bs argv s)
                        (\<lambda>(s, r). map_option (\<lambda>h. (s\<lparr>heap := h\<rparr>, r)) (kfree (heap s) buf))))"

section \<open>Forking\<close>

text \<open>A loop whose body may panic or give up: the state, and whether the loop ran to its end.\<close>

fun for_each :: "('i \<Rightarrow> 'a \<Rightarrow> ('a \<times> bool) outcome) \<Rightarrow> 'i list \<Rightarrow> 'a \<Rightarrow> ('a \<times> bool) outcome" where
  "for_each f [] s = Done (s, True)"
| "for_each f (x # xs) s =
     (case f x s of Panic \<Rightarrow> Panic | Done (s, False) \<Rightarrow> Done (s, False) | Done (s, True) \<Rightarrow> for_each f xs s)"

text \<open>\<open>memcpy\<close> of a page through the direct map.\<close>

definition page_bytes :: "bytes \<Rightarrow> u64 \<Rightarrow> u8 list" where
  "page_bytes m a = map (\<lambda>k. m (a + KERNEL_HHDM_BASE + of_nat k)) [0..<4096]"

definition copy_page :: "u64 \<Rightarrow> u64 \<Rightarrow> bytes \<Rightarrow> bytes" where
  "copy_page dst src m = poke (dst + KERNEL_HHDM_BASE) (page_bytes m src) m"

definition path_va :: "nat \<Rightarrow> nat \<Rightarrow> nat \<Rightarrow> nat \<Rightarrow> u64" where
  "path_va i4 i3 i2 i1 =
     push_bit 39 (of_nat i4) OR push_bit 30 (of_nat i3) OR push_bit 21 (of_nat i2) OR push_bit 12 (of_nat i1)"

definition dup_page :: "u64 \<Rightarrow> u64 \<Rightarrow> u64 \<Rightarrow> vm \<times> bytes \<Rightarrow> ((vm \<times> bytes) \<times> bool) outcome" where
  "dup_page child_pml4 va e1 = (\<lambda>(v, m).
     let src_phys = e1 AND PTE_ADDR_MASK; (f, dst_phys) = pmm_alloc_frame (frames v); v = v\<lparr>frames := f\<rparr>
     in if dst_phys = 0 then Done ((v, m), False)
        else let m = copy_page dst_phys src_phys m
             in case vmm_map_in v child_pml4 va dst_phys (e1 AND 0xFFF) of
                  None \<Rightarrow> Panic
                | Some v \<Rightarrow> Done ((v, m), True))"

definition dup_pt :: "u64 \<Rightarrow> nat \<Rightarrow> nat \<Rightarrow> nat \<Rightarrow> u64 \<Rightarrow> vm \<times> bytes \<Rightarrow> ((vm \<times> bytes) \<times> bool) outcome" where
  "dup_pt child_pml4 i4 i3 i2 p_pt =
     for_each (\<lambda>i1 (v, m). let e1 = tables v p_pt i1
       in if \<not> has e1 VMM_FLAG_PRESENT then Done ((v, m), True)
          else dup_page child_pml4 (path_va i4 i3 i2 i1) e1 (v, m)) [0..<512]"

definition dup_pd :: "u64 \<Rightarrow> nat \<Rightarrow> nat \<Rightarrow> u64 \<Rightarrow> vm \<times> bytes \<Rightarrow> ((vm \<times> bytes) \<times> bool) outcome" where
  "dup_pd child_pml4 i4 i3 p_pd =
     for_each (\<lambda>i2 (v, m). let e2 = tables v p_pd i2
       in if \<not> has e2 VMM_FLAG_PRESENT \<or> has e2 VMM_FLAG_HUGE then Done ((v, m), True)
          else dup_pt child_pml4 i4 i3 i2 (e2 AND PTE_ADDR_MASK) (v, m)) [0..<512]"

definition dup_pdpt :: "u64 \<Rightarrow> nat \<Rightarrow> u64 \<Rightarrow> vm \<times> bytes \<Rightarrow> ((vm \<times> bytes) \<times> bool) outcome" where
  "dup_pdpt child_pml4 i4 p_pdpt =
     for_each (\<lambda>i3 (v, m). let e3 = tables v p_pdpt i3
       in if \<not> has e3 VMM_FLAG_PRESENT \<or> has e3 VMM_FLAG_HUGE then Done ((v, m), True)
          else dup_pd child_pml4 i4 i3 (e3 AND PTE_ADDR_MASK) (v, m)) [0..<512]"

definition duplicate_user_space :: "u64 \<Rightarrow> u64 \<Rightarrow> vm \<times> bytes \<Rightarrow> ((vm \<times> bytes) \<times> bool) outcome" where
  "duplicate_user_space parent_pml4 child_pml4 =
     for_each (\<lambda>i4 (v, m). let e4 = tables v parent_pml4 i4
       in if \<not> has e4 VMM_FLAG_PRESENT then Done ((v, m), True)
          else dup_pdpt child_pml4 i4 (e4 AND PTE_ADDR_MASK) (v, m)) [0..<256]"

text \<open>The copy of the interrupted registers on top of the child's kernel stack.\<close>

definition plant_frame :: "u64 \<Rightarrow> nat \<Rightarrow> ('n, 'd, 's) kern \<Rightarrow> ('n, 'd, 's) kern" where
  "plant_frame parent_regs t s =
     (let cf = stack_base (tasks s t) + TASK_STACK_SIZE - REGS_SIZE;
          m = store_regs cf ((load_regs (mem s) parent_regs)\<lparr>rax := 0\<rparr>) (mem s)
      in set_task t (\<lambda>x. x\<lparr>t_rsp := cf\<rparr>) (s\<lparr>mem := m\<rparr>))"

definition process_fork ::
  "(u8 list \<Rightarrow> u8 list) \<Rightarrow> u64 \<Rightarrow> ('n, 'd, 's) kern \<Rightarrow> (('n, 'd, 's) kern \<times> int) option" where
  "process_fork fninit parent_regs s =
     (case process_current s of
        None \<Rightarrow> Some (s, - 1)
      | Some parent \<Rightarrow>
          (case process_alloc (p_name (processes s parent)) s of
             (s, None) \<Rightarrow> Some (s, - 1)
           | (s, Some child) \<Rightarrow>
               let pp = processes s parent;
                   s = set_process child (\<lambda>p. p\<lparr>parent_pid := pid pp, pgid := pgid pp, root := root pp, cwd := cwd pp\<rparr>) s
               in Option.bind (inherit_fds parent child [0..<FD_MAX] s) (\<lambda>s.
                  Option.bind (vmm_new_pml4 (vm s)) (\<lambda>(v, pml4).
                    let s = s\<lparr>vm := v\<rparr>
                    in case pml4 of
                         None \<Rightarrow> Some (set_process child (\<lambda>p. p\<lparr>alive := False\<rparr>) s, - 1)
                       | Some pml4 \<Rightarrow>
                           Option.bind (p_task (processes s parent)) (\<lambda>pt.
                           Option.bind (t_pml4 (tasks s pt)) (\<lambda>parent_pml4.
                           Option.bind (run_loader (Some (duplicate_user_space parent_pml4 pml4 (vm s, mem s)))) (\<lambda>((v, m), ok).
                             let s = s\<lparr>vm := v, mem := m\<rparr>
                             in if \<not> ok then Some (spawn_failed child pml4 s)
                                else Option.bind (task_alloc fninit (p_name (processes s child)) s) (\<lambda>(s, t). case t of
                                    None \<Rightarrow> Some (spawn_failed child pml4 s)
                                  | Some t \<Rightarrow>
                                      let s = plant_frame parent_regs t (set_task t (\<lambda>x. x\<lparr>t_pml4 := Some pml4\<rparr>) s);
                                          s = set_process child (\<lambda>p. p\<lparr>p_task := Some t\<rparr>) s
                                      in map_option (\<lambda>s. (s, sint (pid (processes s child)))) (task_insert_ready t s)))))))))"

section \<open>Replacing the program\<close>

text \<open>
  The strings copied into a buffer of \<open>SPAWN_ARGV_BUF\<close> bytes of which \<open>used\<close> are taken, and how many are taken then;
  \<open>None\<close> when they do not fit.
\<close>

fun snapshot :: "u8 list list \<Rightarrow> nat \<Rightarrow> nat option" where
  "snapshot [] used = Some used"
| "snapshot (str # strs) used =
     (let len = length str + 1 in if SPAWN_ARGV_BUF < used + len then None else snapshot strs (used + len))"

definition exec_strings ::
  "string option \<Rightarrow> u8 list list option \<Rightarrow> u8 list list option \<Rightarrow> (u8 list list \<times> u8 list list) option" where
  "exec_strings name argv envp =
     Option.bind (case argv of
         None \<Rightarrow> Some ([case name of None \<Rightarrow> [] | Some n \<Rightarrow> name_bytes n], 0)
       | Some as \<Rightarrow> let as = take (SPAWN_ARGV_MAX - 1) as in map_option (\<lambda>used. (as, used)) (snapshot as 0)) (\<lambda>(as, used).
     case envp of
       None \<Rightarrow> Some (as, [])
     | Some es \<Rightarrow> let es = take (SPAWN_ENVP_MAX - 1) es in map_option (\<lambda>_. (as, es)) (snapshot es used))"

definition entry_regs :: "u64 \<Rightarrow> u64 \<Rightarrow> registers_t \<Rightarrow> registers_t" where
  "entry_regs entry sp r = r\<lparr>rip := entry, rsp := sp, rflags := 0x202, cs := 0x2B, ss := 0x23, rax := 0, rbx := 0, rcx := 0,
     rdx := 0, rsi := 0, rdi := 0, rbp := 0, r8 := 0, r9 := 0, r10 := 0, r11 := 0, r12 := 0, r13 := 0, r14 := 0, r15 := 0\<rparr>"

definition process_execve_from_memory ::
  "('n \<Rightarrow> ('s, 'n) vfs_ops option) \<Rightarrow> u64 \<Rightarrow> string option \<Rightarrow> image \<Rightarrow> u8 list list option \<Rightarrow> u8 list list option \<Rightarrow>
   ('n, 'd, 's) kern \<Rightarrow> (('n, 'd, 's) kern \<times> int) option" where
  "process_execve_from_memory ops_of regs name img argv envp s =
     (case process_current s of
        None \<Rightarrow> Some (s, - 1)
      | Some i \<Rightarrow>
          Option.bind (elf_validate img) (\<lambda>rc.
            if rc \<noteq> 0 then Some (s, - 1)
            else case exec_strings name argv envp of
                None \<Rightarrow> Some (s, - 1)
              | Some (as, es) \<Rightarrow>
                  Option.bind (p_task (processes s i)) (\<lambda>t.
                  Option.bind (t_pml4 (tasks s t)) (\<lambda>pml4.
                  let s = s\<lparr>vm := vmm_unmap_user_space (Some pml4) (vm s)\<rparr>
                  in Option.bind (load_image img pml4 s) (\<lambda>(s, entry).
                       if entry = 0 then Some (s, - 1)
                       else Option.bind (prepare_program ops_of img pml4 entry as es s) (\<lambda>(s, start).
                         case start of
                           None \<Rightarrow> Some (s, - 1)
                         | Some (entry, sp) \<Rightarrow>
                             let s = set_process i (\<lambda>p. p\<lparr>p_name := take 31 (case name of None \<Rightarrow> ''exec'' | Some n \<Rightarrow> n)\<rparr>) s
                             in Some (s\<lparr>mem := store_regs regs (entry_regs entry sp (load_regs (mem s) regs)) (mem s)\<rparr>, 0)))))))"

section \<open>Frames used by a mapping\<close>

text \<open>Frames are only taken, at most \<open>n\<close> of the low ones.\<close>

definition takes :: "nat \<Rightarrow> vm \<Rightarrow> vm \<Rightarrow> bool" where
  "takes n v v' \<longleftrightarrow> pmm_ok (frames v') \<and> 0 \<notin> free_frames (frames v') \<and>
     free_frames (frames v') \<subseteq> free_frames (frames v) \<and> total_frames (frames v') = total_frames (frames v) \<and>
     low_free v \<le> low_free v' + n"

lemma takes_trans: "takes a u v \<Longrightarrow> takes b v w \<Longrightarrow> takes (a + b) u w"
  unfolding takes_def by auto

lemma takes_mono: "takes a u v \<Longrightarrow> a \<le> b \<Longrightarrow> takes b u v"
  unfolding takes_def by auto

lemma takes_owned: "takes n v v' \<Longrightarrow> owned_frame (frames v) a \<Longrightarrow> owned_frame (frames v') a"
  unfolding takes_def owned_frame_def by auto

lemma takes_alloc:
  assumes "pmm_ok (frames v)" "0 \<notin> free_frames (frames v)"
  shows "takes 1 v (v\<lparr>frames := fst (pmm_alloc_frame (frames v))\<rparr>)"
proof (cases "free_frames (frames v) = {}")
  case True
  then show ?thesis using assms frames.alloc_empty [OF assms(1)] by (simp add: takes_def low_free_def)
next
  case False
  let ?F = "free_frames (frames v)"
  have fr: "free_frames (fst (pmm_alloc_frame (frames v))) = ?F - {Min ?F}" by (rule frames.alloc_free [OF assms(1) False])
  have "card (?F \<inter> {..<16384}) \<le> card (insert (Min ?F) ((?F - {Min ?F}) \<inter> {..<16384}))" by (intro card_mono) auto
  also have "\<dots> \<le> card ((?F - {Min ?F}) \<inter> {..<16384}) + 1" by (simp add: card_insert_if)
  finally show ?thesis
    using assms frames.alloc_ok [OF assms(1)] frames.alloc_limit [OF assms(1)]
    by (auto simp: takes_def low_free_def fr unsigned_word_eqI)
qed

lemma takes_frames: "frames v = frames w \<Longrightarrow> takes n u v = takes n u w"
  by (simp add: takes_def low_free_def)

lemma ensure_entry_takes:
  assumes "pmm_ok (frames v)" "0 \<notin> free_frames (frames v)" "ensure_entry v t i user = Some v'"
  shows "takes 1 v v'"
proof (cases "has (tables v t i) VMM_FLAG_PRESENT")
  case True
  then have "frames v' = frames v" using assms(3) by (auto simp: ensure_entry_def Let_def)
  then show ?thesis using assms by (simp add: takes_def low_free_def)
next
  case False
  then obtain v1 a where a: "alloc_table v = Some (v1, a)" "frames v' = frames v1"
    using assms(3) by (auto simp: ensure_entry_def Let_def split: option.splits)
  then have "frames v' = fst (pmm_alloc_frame (frames v))"
    by (auto simp: alloc_table_def Let_def split: prod.splits if_splits)
  then show ?thesis
    using takes_alloc [OF assms(1,2)] takes_frames [of v' "v\<lparr>frames := fst (pmm_alloc_frame (frames v))\<rparr>" 1 v] by simp
qed

lemma takesD: "takes n v v' \<Longrightarrow> pmm_ok (frames v') \<and> 0 \<notin> free_frames (frames v')"
  by (simp add: takes_def)

lemma walk_create_takes:
  assumes "pmm_ok (frames v)" "0 \<notin> free_frames (frames v)" "walk_create v pml4 va user = Some (v', res)"
  shows "takes 3 v v'"
proof -
  obtain v1 where v1: "ensure_entry v pml4 (pml4_idx va) user = Some v1"
    using assms(3) by (auto simp: walk_create_def split: option.splits)
  let ?t3 = "entry_to_table (tables v1 pml4 (pml4_idx va))"
  obtain v2 where v2: "ensure_entry v1 ?t3 (pdpt_idx va) user = Some v2"
    using assms(3) v1 by (auto simp: walk_create_def Let_def split: option.splits)
  let ?t2 = "entry_to_table (tables v2 ?t3 (pdpt_idx va))"
  note k1 = ensure_entry_takes [OF assms(1,2) v1]
  note k2 = takes_trans [OF k1 ensure_entry_takes [OF _ _ v2]]
  show ?thesis
  proof (cases "has (tables v2 ?t3 (pdpt_idx va)) VMM_FLAG_HUGE")
    case True
    then show ?thesis using assms(3) v1 v2 k2 takesD [OF k1] by (auto simp: walk_create_def Let_def intro: takes_mono)
  next
    case False
    then obtain v3 where v3: "ensure_entry v2 ?t2 (pd_idx va) user = Some v3" "v' = v3"
      using assms(3) v1 v2 by (auto simp: walk_create_def Let_def split: option.splits if_splits)
    have t2: "takes (1 + 1) v v2" using k2 takesD [OF k1] by blast
    show ?thesis
      using takes_trans [OF t2 ensure_entry_takes [OF _ _ v3(1)]] takesD [OF t2] v3(2) by (simp add: eval_nat_numeral)
  qed
qed

lemma map_in_takes:
  assumes "pmm_ok (frames v)" "0 \<notin> free_frames (frames v)" "vmm_map_in v pml4 va phys flags = Some v'"
  shows "takes 3 v v'"
proof -
  obtain v1 res where w: "walk_create v pml4 va (has flags VMM_FLAG_USER) = Some (v1, res)" "frames v' = frames v1"
    using assms(3) by (auto simp: vmm_map_in_def split: option.splits)
  show ?thesis using walk_create_takes [OF assms(1,2) w(1)] takes_frames [OF w(2)] by simp
qed

lemma map_in_tbl:
  assumes "vm_ok R v" "r \<in> R" "user_va va" "vmm_map_in v r va phys flags = Some v'"
    and "r' \<in> R" "user_path p" "tbl (tables v) r' p = Some t"
  shows "tbl (tables v') r' p = Some t"
proof -
  obtain v1 res where w: "walk_create v r va (has flags VMM_FLAG_USER) = Some (v1, res)"
    using assms(4) by (auto simp: vmm_map_in_def split: option.splits)
  obtain t1 where g: "grows R v v1" "res = Some (t1, pt_idx va)" "tbl (tables v1) r (va_path va) = Some t1"
    by (rule walk_create_grows [OF assms(1-3) w]) blast
  have len: "length (va_path va) = 3" by (simp add: va_path_def)
  have eq: "v' = flush_page r va (set_entry t1 (pt_idx va) (make_pte phys flags) v1)"
    using assms(4) w g(2) by (simp add: vmm_map_in_def)
  show ?thesis
    using leaf_write(2) [OF growsD(1) [OF g(1)] assms(2) va_path_user [OF assms(3)] len g(3)] growsD(4) [OF g(1) assms(5-7)]
      assms(5,6) by (simp add: eq)
qed

section \<open>Pages in memory\<close>

lemma page_bytes_length [simp]: "length (page_bytes m a) = 4096"
  by (simp add: page_bytes_def)

lemma page_window:
  assumes "k < 2 ^ 20" "j < 2 ^ 20" "i < 4096" "unat d < 4096" "frame_addr k + d = frame_addr j + of_nat i"
  shows "j = k"
proof -
  have i: "unat (of_nat i :: u64) = i" using assms(3) by (simp add: unat_of_nat)
  have "unat (frame_addr k + d) = k * 4096 + unat d"
    using assms(1,4) by (subst unat_plus_no_wrap) (simp_all add: unat_frame_addr)
  moreover have "unat (frame_addr j + of_nat i) = j * 4096 + i"
    using assms(2,3) i by (subst unat_plus_no_wrap) (simp_all add: unat_frame_addr)
  ultimately have sum: "k * 4096 + unat d = j * 4096 + i" using assms(5) by simp
  have "k = (k * 4096 + unat d) div 4096" using assms(4) by simp
  also have "\<dots> = j" using assms(3) by (simp add: sum)
  finally show ?thesis by simp
qed

lemma page_bytes_poke_same:
  assumes "k < 2 ^ 20" "length bs = 4096"
  shows "page_bytes (poke (frame_addr k + KERNEL_HHDM_BASE) bs m) (frame_addr k) = bs"
proof (rule nth_equalityI)
  show "length (page_bytes (poke (frame_addr k + KERNEL_HHDM_BASE) bs m) (frame_addr k)) = length bs" using assms by simp
next
  fix i assume "i < length (page_bytes (poke (frame_addr k + KERNEL_HHDM_BASE) bs m) (frame_addr k))"
  then have i: "i < 4096" by simp
  have "frame_addr k + KERNEL_HHDM_BASE + of_nat i - (frame_addr k + KERNEL_HHDM_BASE) = of_nat i" by simp
  then have "unat (frame_addr k + KERNEL_HHDM_BASE + of_nat i - (frame_addr k + KERNEL_HHDM_BASE)) = i"
    using i by (simp add: unat_of_nat del: add_diff_cancel_left')
  then show "page_bytes (poke (frame_addr k + KERNEL_HHDM_BASE) bs m) (frame_addr k) ! i = bs ! i"
    using i assms(2) by (simp add: page_bytes_def poke_def del: upt_rec_numeral)
qed

lemma page_bytes_poke_other:
  assumes "k < 2 ^ 20" "j < 2 ^ 20" "j \<noteq> k" "length bs = 4096"
  shows "page_bytes (poke (frame_addr k + KERNEL_HHDM_BASE) bs m) (frame_addr j) = page_bytes m (frame_addr j)"
proof -
  have "\<not> unat (frame_addr j + KERNEL_HHDM_BASE + of_nat i - (frame_addr k + KERNEL_HHDM_BASE)) < 4096" if "i < 4096" for i
    using page_window [OF assms(1,2) that, of "frame_addr j + KERNEL_HHDM_BASE + of_nat i - (frame_addr k + KERNEL_HHDM_BASE)"]
      assms(3) by (auto simp: algebra_simps)
  then show ?thesis using assms(4) by (auto simp: page_bytes_def poke_def Let_def simp del: upt_rec_numeral)
qed

section \<open>The copy of an address space\<close>

lemma bit_small:
  assumes "i < 512" "bit (of_nat i :: u64) n"
  shows "n < 9"
proof -
  have "bit i n" using assms(2) by (simp add: bit_of_nat_iff)
  moreover have "take_bit 9 i = i" using assms(1) by (simp add: take_bit_nat_eq_self)
  ultimately have "bit (take_bit 9 i) n" by simp
  then show ?thesis by (simp add: bit_take_bit_iff)
qed

lemma low_9: "(0x1FF :: u64) = mask 9"
  by (simp add: mask_eq_exp_minus_1)

lemma path_va_idx:
  assumes "i4 < 512" "i3 < 512" "i2 < 512" "i1 < 512"
  shows "va_path (path_va i4 i3 i2 i1) = [i4, i3, i2]" "pt_idx (path_va i4 i3 i2 i1) = i1"
proof -
  note b = bit_small [OF assms(1)] bit_small [OF assms(2)] bit_small [OF assms(3)] bit_small [OF assms(4)]
  have "drop_bit 39 (path_va i4 i3 i2 i1) AND 0x1FF = of_nat i4" "drop_bit 30 (path_va i4 i3 i2 i1) AND 0x1FF = of_nat i3"
    "drop_bit 21 (path_va i4 i3 i2 i1) AND 0x1FF = of_nat i2" "drop_bit 12 (path_va i4 i3 i2 i1) AND 0x1FF = of_nat i1"
    unfolding path_va_def low_9
    by (intro bit_word_eqI, force simp: bit_and_iff bit_or_iff bit_drop_bit_eq bit_push_bit_iff bit_mask_iff dest: b)+
  then show "va_path (path_va i4 i3 i2 i1) = [i4, i3, i2]" "pt_idx (path_va i4 i3 i2 i1) = i1"
    using assms by (simp_all add: va_path_def pml4_idx_def pdpt_idx_def pd_idx_def pt_idx_def unat_of_nat)
qed

text \<open>The user pages whose path starts with \<open>q\<close>, and those of them that the address space \<open>r\<close> maps.\<close>

definition below :: "nat list \<Rightarrow> (nat list \<times> nat) set" where
  "below q = {(p, i). user_path p \<and> length p = 3 \<and> i < 512 \<and> (\<exists>z. p @ [i] = q @ z)}"

definition live :: "u64 \<Rightarrow> vm \<Rightarrow> (nat list \<times> nat) set \<Rightarrow> (nat list \<times> nat) set" where
  "live r v A = {(p, i) \<in> A. page_entry v r p i \<noteq> None}"

text \<open>Every page of \<open>r\<close> lies in a frame that is in use.\<close>

definition backed :: "u64 \<Rightarrow> vm \<Rightarrow> bool" where
  "backed r v \<longleftrightarrow> (\<forall>(p, i) \<in> below []. \<forall>e. page_entry v r p i = Some e \<longrightarrow> owned_frame (frames v) (e AND PTE_ADDR_MASK))"

text \<open>The second state is the first one with the pages \<open>A\<close> of \<open>par\<close> copied into fresh frames of \<open>ch\<close>.\<close>

definition copied ::
  "u64 set \<Rightarrow> u64 \<Rightarrow> u64 \<Rightarrow> (nat list \<times> nat) set \<Rightarrow> vm \<times> bytes \<Rightarrow> vm \<times> bytes \<Rightarrow> bool" where
  "copied R par ch A = (\<lambda>(v, m) (v', m').
     vm_ok R v' \<and> (\<forall>a. owned_frame (frames v) a \<longrightarrow> owned_frame (frames v') a \<and> page_bytes m' a = page_bytes m a) \<and>
     (\<forall>p t. user_path p \<longrightarrow> tbl (tables v) par p = Some t \<longrightarrow> tbl (tables v') par p = Some t) \<and>
     (\<forall>(p, i) \<in> below []. page_entry v' par p i = page_entry v par p i) \<and>
     (\<forall>(p, i) \<in> below []. (p, i) \<notin> A \<or> page_entry v par p i = None \<longrightarrow> page_entry v' ch p i = page_entry v ch p i) \<and>
     (\<forall>(p, i) \<in> A. \<forall>e. page_entry v par p i = Some e \<longrightarrow>
        (\<exists>f. \<not> owned_frame (frames v) f \<and> owned_frame (frames v') f \<and>
           page_entry v' ch p i = Some (make_pte f (e AND 0xFFF)) \<and> page_bytes m' f = page_bytes m (e AND PTE_ADDR_MASK))))"

lemma copiedD:
  assumes "copied R par ch A (v, m) (v', m')"
  shows "vm_ok R v'" "owned_frame (frames v) a \<Longrightarrow> owned_frame (frames v') a"
    "owned_frame (frames v) a \<Longrightarrow> page_bytes m' a = page_bytes m a"
    "user_path p \<Longrightarrow> tbl (tables v) par p = Some t \<Longrightarrow> tbl (tables v') par p = Some t"
    "(p, i) \<in> below [] \<Longrightarrow> page_entry v' par p i = page_entry v par p i"
    "(p, i) \<in> below [] \<Longrightarrow> (p, i) \<notin> A \<or> page_entry v par p i = None \<Longrightarrow> page_entry v' ch p i = page_entry v ch p i"
    "(p, i) \<in> A \<Longrightarrow> page_entry v par p i = Some e \<Longrightarrow>
       \<exists>f. \<not> owned_frame (frames v) f \<and> owned_frame (frames v') f \<and>
         page_entry v' ch p i = Some (make_pte f (e AND 0xFFF)) \<and> page_bytes m' f = page_bytes m (e AND PTE_ADDR_MASK)"
  using assms unfolding copied_def by auto

lemma copied_none:
  assumes "vm_ok R v" "live par v A = {}"
  shows "copied R par ch A (v, m) (v, m)"
  using assms unfolding copied_def live_def by auto

lemma copied_backed: "copied R par ch A (v, m) (v', m') \<Longrightarrow> backed par v \<Longrightarrow> backed par v'"
  using copiedD(2,5) unfolding backed_def by fastforce

lemma copied_live: "copied R par ch A (v, m) (v', m') \<Longrightarrow> B \<subseteq> below [] \<Longrightarrow> live par v' B = live par v B"
  using copiedD(5) unfolding live_def by fastforce

lemma copied_trans:
  assumes A: "copied R par ch A (v, m) (v1, m1)" and B: "copied R par ch B (v1, m1) (v2, m2)"
    and disj: "A \<inter> B = {}" "A \<subseteq> below []" "B \<subseteq> below []" and bk: "backed par v"
  shows "copied R par ch (A \<union> B) (v, m) (v2, m2)"
proof -
  have "\<exists>f. \<not> owned_frame (frames v) f \<and> owned_frame (frames v2) f \<and>
      page_entry v2 ch p i = Some (make_pte f (e AND 0xFFF)) \<and> page_bytes m2 f = page_bytes m (e AND PTE_ADDR_MASK)"
    if pi: "(p, i) \<in> A \<union> B" and e: "page_entry v par p i = Some e" for p i e
  proof (cases "(p, i) \<in> A")
    case True
    then obtain f where f: "\<not> owned_frame (frames v) f" "owned_frame (frames v1) f"
      "page_entry v1 ch p i = Some (make_pte f (e AND 0xFFF))" "page_bytes m1 f = page_bytes m (e AND PTE_ADDR_MASK)"
      using copiedD(7) [OF A _ e] by blast
    have "page_entry v2 ch p i = page_entry v1 ch p i" using copiedD(6) [OF B] True disj by blast
    then show ?thesis using f copiedD(2,3) [OF B f(2)] by auto
  next
    case False
    then have "(p, i) \<in> B" using pi by simp
    then have in0: "(p, i) \<in> below []" using disj by blast
    have "page_entry v1 par p i = Some e" using copiedD(5) [OF A in0] e by simp
    then obtain f where f: "\<not> owned_frame (frames v1) f" "owned_frame (frames v2) f"
      "page_entry v2 ch p i = Some (make_pte f (e AND 0xFFF))" "page_bytes m2 f = page_bytes m1 (e AND PTE_ADDR_MASK)"
      using copiedD(7) [OF B \<open>(p, i) \<in> B\<close>] by blast
    have "owned_frame (frames v) (e AND PTE_ADDR_MASK)" using bk in0 e unfolding backed_def by fastforce
    then show ?thesis using f copiedD(2,3) [OF A] by metis
  qed
  moreover have "page_entry v2 ch p i = page_entry v ch p i"
    if "(p, i) \<in> below []" "(p, i) \<notin> A \<union> B \<or> page_entry v par p i = None" for p i
    using copiedD(6) [OF A that(1)] copiedD(6) [OF B that(1)] copiedD(5) [OF A that(1)] that(2) by auto
  ultimately show ?thesis
    using copiedD(1) [OF B] copiedD(2,3,4,5) [OF A] copiedD(2,3,4,5) [OF B] unfolding copied_def by auto
qed

lemma below_subset: "below q \<subseteq> below []"
  by (auto simp: below_def)

lemma finite_below: "finite (below q)"
proof -
  have "below q \<subseteq> {p. set p \<subseteq> {..<512} \<and> length p = 3} \<times> {..<512}" by (auto simp: below_def user_path_def)
  moreover have "finite ({p. set p \<subseteq> {..<512 :: nat} \<and> length p = 3} \<times> {..<512 :: nat})"
    by (intro finite_cartesian_product finite_lists_length_eq) auto
  ultimately show ?thesis by (rule finite_subset)
qed

lemma below_leaf:
  assumes "user_path p" "length p = 3" "i < 512"
  shows "below (p @ [i]) = {(p, i)}"
proof -
  have "q = p \<and> j = i" if "length q = 3" "q @ [j] = p @ i # z" for q j z
  proof -
    have "length (q @ [j]) = length (p @ i # z)" using that(2) by simp
    then have "z = []" using that(1) assms(2) by simp
    then show ?thesis using that by simp
  qed
  then show ?thesis using assms by (auto simp: below_def)
qed

lemma below_split:
  assumes "length q < 4"
  shows "below q = (\<Union>i \<in> {..<if q = [] then 256 else 512}. below (q @ [i]))"
proof (intro equalityI subsetI)
  fix x assume x: "x \<in> below q"
  obtain p j where pj: "x = (p, j)" by fastforce
  then obtain z where z: "user_path p" "length p = 3" "j < 512" "p @ [j] = q @ z" using x by (auto simp: below_def)
  have "length (p @ [j]) = length (q @ z)" using z(4) by simp
  then obtain i y where y: "z = i # y" using z(2) assms by (cases z) auto
  have "i \<in> set (p @ [j])" by (simp add: z(4) y)
  then have "i < 512" using z(1,3) by (auto simp: user_path_def)
  moreover have "i < 256" if "q = []" using z(1,2,4) y that by (cases p) (auto simp: user_path_def)
  ultimately show "x \<in> (\<Union>i \<in> {..<if q = [] then 256 else 512}. below (q @ [i]))"
    using z y by (auto simp: below_def pj intro!: bexI [of _ i])
qed (auto simp: below_def)

lemma below_disjoint: "i \<noteq> j \<Longrightarrow> below (q @ [i]) \<inter> below (q @ [j]) = {}"
  by (auto simp: below_def)

text \<open>One page.\<close>

lemma alloc_owned:
  assumes "pmm_ok f" "0 \<notin> free_frames f" "snd (pmm_alloc_frame f) \<noteq> 0"
  obtains k where "k \<in> free_frames f" "k < 2 ^ 20" "snd (pmm_alloc_frame f) = frame_addr k"
    "owned_frame (fst (pmm_alloc_frame f)) (frame_addr k)"
proof -
  have ne: "free_frames f \<noteq> {}" using frames.alloc_result [OF assms(1,2)] assms(3) by simp
  note min = min_free [OF assms(1) ne]
  have "owned_frame (fst (pmm_alloc_frame f)) (frame_addr (Min (free_frames f)))"
    using free_frames_bounded [of f] min frames.alloc_free [OF assms(1) ne] frames.alloc_limit [OF assms(1)]
    unfolding owned_frame_def by auto
  with that min frames.alloc_min [OF assms(1) ne] show ?thesis by blast
qed

lemma dup_page_done:
  assumes "dup_page ch va e (v, m) = Done ((v', m'), True)"
  obtains v1 dst where "v1 = v\<lparr>frames := fst (pmm_alloc_frame (frames v))\<rparr>" "dst = snd (pmm_alloc_frame (frames v))" "dst \<noteq> 0"
    "vmm_map_in v1 ch va dst (e AND 0xFFF) = Some v'" "m' = copy_page dst (e AND PTE_ADDR_MASK) m"
  using assms by (auto simp: dup_page_def Let_def case_prod_beta split: if_splits option.splits)

lemma dup_page_copies:
  assumes ok: "vm_ok R v" "par \<in> R" "ch \<in> R" "par \<noteq> ch" and bk: "backed par v"
    and va: "user_va va" "(va_path va, pt_idx va) \<in> below []" and e: "page_entry v par (va_path va) (pt_idx va) = Some e"
    and d: "dup_page ch va e (v, m) = Done ((v', m'), True)"
  shows "copied R par ch {(va_path va, pt_idx va)} (v, m) (v', m')"
proof -
  obtain v1 dst where v1: "v1 = v\<lparr>frames := fst (pmm_alloc_frame (frames v))\<rparr>" and dst: "dst = snd (pmm_alloc_frame (frames v))"
    "dst \<noteq> 0" and mp: "vmm_map_in v1 ch va dst (e AND 0xFFF) = Some v'" and m': "m' = copy_page dst (e AND PTE_ADDR_MASK) m"
    by (rule dup_page_done [OF d]) blast
  note pm = vm_okD(1,2) [OF ok(1)]
  obtain k where k: "k \<in> free_frames (frames v)" "k < 2 ^ 20" "dst = frame_addr k" "owned_frame (frames v1) dst"
    using alloc_owned [OF pm] dst by (auto simp: v1)
  have ok1: "vm_ok R v1" unfolding v1 by (rule alloc_frame_vm_ok [OF ok(1)])
  have t1: "takes 1 v v1" unfolding v1 by (rule takes_alloc [OF pm])
  have t2: "takes 3 v1 v'" by (rule map_in_takes [OF vm_okD(1,2) [OF ok1] mp])
  have same: "tables v1 = tables v" by (simp add: v1)
  have pe1: "page_entry v1 = page_entry v" by (intro ext) (simp only: page_entry_def same)
  note ent = map_in_entries [OF ok1 ok(3) va(1) mp, unfolded pe1]
  have up: "user_path p \<and> length p = 3" if "(p, i) \<in> below []" for p i using that by (simp add: below_def)
  have keep: "page_bytes m' a = page_bytes m a" if own: "owned_frame (frames v) a" for a
  proof -
    obtain j where j: "j < unat (total_frames (frames v))" "a = frame_addr j" "j \<notin> free_frames (frames v)"
      using own by (auto simp: owned_frame_def)
    then have "j \<noteq> k" "j < 2 ^ 20" using k(1) frames.limit_bound [OF pm(1)] by auto
    then show ?thesis unfolding m' copy_page_def k(3) j(2) by (intro page_bytes_poke_other k(2)) simp_all
  qed
  have new: "page_bytes m' dst = page_bytes m (e AND PTE_ADDR_MASK)"
    unfolding m' copy_page_def k(3) by (intro page_bytes_poke_same k(2)) simp
  have "\<not> owned_frame (frames v) dst" using fresh_not_owned [OF pm(1) k(1)] k(3) by simp
  moreover have "owned_frame (frames v') a" if "owned_frame (frames v1) a" for a by (rule takes_owned [OF t2 that])
  moreover have "owned_frame (frames v1) a" if "owned_frame (frames v) a" for a by (rule takes_owned [OF t1 that])
  moreover have "tbl (tables v') par p = Some t" if "user_path p" "tbl (tables v) par p = Some t" for p t
    using map_in_tbl [OF ok1 ok(3) va(1) mp ok(2) that(1)] that(2) by (simp add: same)
  ultimately show ?thesis
    using ent(1) ent(2) [OF ok(2)] ent(2) [OF ok(3)] up keep new k(4) ok(4) e va(2) unfolding copied_def
    by (auto intro!: exI [of _ dst])
qed

lemma dup_page_succeeds:
  assumes ok: "vm_ok R v" and low: "4 \<le> low_free v"
  shows "\<exists>v' m'. dup_page ch va e (v, m) = Done ((v', m'), True) \<and> takes 4 v v'"
proof -
  note pm = vm_okD(1,2) [OF ok]
  define v1 where "v1 = v\<lparr>frames := fst (pmm_alloc_frame (frames v))\<rparr>"
  have t1: "takes 1 v v1" unfolding v1_def by (rule takes_alloc [OF pm])
  have "free_frames (frames v) \<noteq> {}" using low by (auto simp: low_free_def)
  then have dst: "snd (pmm_alloc_frame (frames v)) \<noteq> 0" using frames.alloc_result [OF pm] by simp
  have "3 \<le> low_free v1" using t1 low by (simp add: takes_def)
  then obtain v' where v': "vmm_map_in v1 ch va (snd (pmm_alloc_frame (frames v))) (e AND 0xFFF) = Some v'"
    using map_in_low [of v1] takesD [OF t1] by blast
  have "takes (1 + 3) v v'" using takes_trans [OF t1 map_in_takes [OF _ _ v']] takesD [OF t1] by blast
  then show ?thesis using v' dst by (auto simp: dup_page_def Let_def case_prod_beta v1_def)
qed

text \<open>
  What a step of the loops does: it copies the pages \<open>A\<close>, and does so without giving up while four low frames per page
  are free.
\<close>

definition ready :: "u64 set \<Rightarrow> u64 \<Rightarrow> u64 \<Rightarrow> vm \<Rightarrow> bool" where
  "ready R par ch v \<longleftrightarrow> vm_ok R v \<and> par \<in> R \<and> ch \<in> R \<and> par \<noteq> ch \<and> backed par v"

definition copies ::
  "u64 set \<Rightarrow> u64 \<Rightarrow> u64 \<Rightarrow> (nat list \<times> nat) set \<Rightarrow> vm \<times> bytes \<Rightarrow> ((vm \<times> bytes) \<times> bool) outcome \<Rightarrow> bool" where
  "copies R par ch A = (\<lambda>(v, m) r.
     (\<forall>s'. r = Done (s', True) \<longrightarrow> copied R par ch A (v, m) s') \<and>
     (4 * card (live par v A) \<le> low_free v \<longrightarrow>
        (\<exists>v' m'. r = Done ((v', m'), True) \<and> low_free v \<le> low_free v' + 4 * card (live par v A))))"

lemma copies_none:
  assumes "vm_ok R v" "live par v A = {}"
  shows "copies R par ch A (v, m) (Done ((v, m), True))"
  using copied_none [OF assms] by (simp add: copies_def)

lemma copied_ready: "copied R par ch A (v, m) (v', m') \<Longrightarrow> ready R par ch v \<Longrightarrow> ready R par ch v'"
  using copied_backed copiedD(1) unfolding ready_def by blast

lemma live_Un:
  assumes "A \<inter> B = {}" "A \<subseteq> below []" "B \<subseteq> below []"
  shows "card (live r v (A \<union> B)) = card (live r v A) + card (live r v B)"
proof -
  have "live r v (A \<union> B) = live r v A \<union> live r v B" "live r v A \<inter> live r v B = {}"
    using assms(1) by (auto simp: live_def)
  moreover have "finite (live r v X)" if "X \<subseteq> below []" for X
    using that finite_subset [OF _ finite_below [of "[]"]] by (auto simp: live_def intro: finite_subset)
  ultimately show ?thesis using assms by (simp add: card_Un_disjoint)
qed

lemma copies_for_each:
  assumes "distinct is" "\<And>i. i \<in> set is \<Longrightarrow> A i \<subseteq> below []"
    "\<And>i j. i \<in> set is \<Longrightarrow> j \<in> set is \<Longrightarrow> i \<noteq> j \<Longrightarrow> A i \<inter> A j = {}"
    and step: "\<And>i v m. i \<in> set is \<Longrightarrow> ready R par ch v \<Longrightarrow> tbl (tables v) par q = Some t \<Longrightarrow> copies R par ch (A i) (v, m) (f i (v, m))"
    and "ready R par ch v" "tbl (tables v) par q = Some t" "user_path q"
  shows "copies R par ch (\<Union>i \<in> set is. A i) (v, m) (for_each f is (v, m))"
  using assms
proof (induction "is" arbitrary: v m)
  case Nil
  then show ?case by (auto simp: live_def ready_def intro!: copies_none)
next
  case (Cons i js)
  let ?B = "\<Union>j \<in> set js. A j"
  note this_step = Cons.prems(4) [OF _ Cons.prems(5,6), of i m]
  have disj: "A i \<inter> ?B = {}" using Cons.prems(1,3) by fastforce
  have sub: "A i \<subseteq> below []" "?B \<subseteq> below []" using Cons.prems(2) by auto
  have rest: "copied R par ch (A i) (v, m) (v1, m1) \<Longrightarrow> copies R par ch ?B (v1, m1) (for_each f js (v1, m1))" for v1 m1
    using Cons.prems copied_ready [OF _ Cons.prems(5)] copiedD(4) [OF _ Cons.prems(7,6)]
    by (intro Cons.IH) (auto simp: Cons.prems(7))
  note un = live_Un [OF disj sub, of par v]
  have "copied R par ch (A i \<union> ?B) (v, m) s'" if d: "for_each f (i # js) (v, m) = Done (s', True)" for s'
  proof -
    obtain v1 m1 where s1: "f i (v, m) = Done ((v1, m1), True)" "for_each f js (v1, m1) = Done (s', True)"
      using d by (auto split: outcome.splits bool.splits)
    have c1: "copied R par ch (A i) (v, m) (v1, m1)" using this_step s1(1) by (simp add: copies_def)
    obtain v2 m2 where s': "s' = (v2, m2)" by fastforce
    have c2: "copied R par ch ?B (v1, m1) (v2, m2)" using rest [OF c1] s1(2) s' by (simp add: copies_def)
    show ?thesis using copied_trans [OF c1 c2 disj sub] Cons.prems(5) s' by (simp add: ready_def)
  qed
  moreover have "\<exists>v' m'. for_each f (i # js) (v, m) = Done ((v', m'), True) \<and>
      low_free v \<le> low_free v' + 4 * card (live par v (A i \<union> ?B))"
    if low: "4 * card (live par v (A i \<union> ?B)) \<le> low_free v"
  proof -
    obtain v1 m1 where s1: "f i (v, m) = Done ((v1, m1), True)" "low_free v \<le> low_free v1 + 4 * card (live par v (A i))"
      using this_step low un by (auto simp: copies_def)
    have c1: "copied R par ch (A i) (v, m) (v1, m1)" using this_step s1(1) by (simp add: copies_def)
    obtain v2 m2 where "for_each f js (v1, m1) = Done ((v2, m2), True)"
      "low_free v1 \<le> low_free v2 + 4 * card (live par v ?B)"
      using rest [OF c1] low un s1(2) copied_live [OF c1 sub(2)] by (auto simp: copies_def)
    then show ?thesis using s1 un by simp
  qed
  ultimately show ?case by (simp add: copies_def del: for_each.simps)
qed

lemma dead_below:
  assumes "tbl (tables v) par q = Some t" "\<not> has (tables v t i) VMM_FLAG_PRESENT" "length q < 4"
  shows "live par v (below (q @ [i])) = {}"
proof -
  have "page_entry v par p j = None" if "length p = 3" "p @ [j] = (q @ [i]) @ z" for p j z
  proof (cases z rule: rev_cases)
    case Nil
    then show ?thesis using that(2) assms(1,2) by (simp add: page_entry_def)
  next
    case (snoc y k)
    then have "p = q @ i # y" using that(2) by simp
    then show ?thesis using assms(1,2) by (simp add: page_entry_def tbl_append)
  qed
  then show ?thesis by (force simp: live_def below_def)
qed

lemma dup_level:
  assumes q: "user_path q" "length q < 3" and t: "ready R par ch v" "tbl (tables v) par q = Some t"
    and skip: "\<And>e. \<not> has e VMM_FLAG_HUGE \<Longrightarrow> skip e \<longleftrightarrow> \<not> has e VMM_FLAG_PRESENT"
    and n: "n = (if q = [] then 256 else 512)"
    and g: "\<And>i t' v m. user_path (q @ [i]) \<Longrightarrow> ready R par ch v \<Longrightarrow> tbl (tables v) par (q @ [i]) = Some t' \<Longrightarrow>
      copies R par ch (below (q @ [i])) (v, m) (g i t' (v, m))"
  shows "copies R par ch (below q) (v, m)
    (for_each (\<lambda>i (v, m). let e = tables v t i in if skip e then Done ((v, m), True) else g i (e AND PTE_ADDR_MASK) (v, m)) [0..<n] (v, m))"
proof -
  have un: "below q = (\<Union>i \<in> set [0..<n]. below (q @ [i]))" using below_split [of q] q(2) n by (simp add: atLeast0LessThan)
  show ?thesis unfolding un
  proof (rule copies_for_each [OF _ _ _ _ t q(1)])
    fix i v m assume i: "i \<in> set [0..<n]" and r: "ready R par ch v" and tv: "tbl (tables v) par q = Some t"
    have qi: "user_path (q @ [i])" using i q n by (auto simp: user_path_def split: if_splits)
    have nh: "\<not> has (tables v t i) VMM_FLAG_HUGE" using vm_okD(4) [OF _ _ qi tv] r unfolding ready_def by blast
    show "copies R par ch (below (q @ [i])) (v, m)
        (case (v, m) of (v, m) \<Rightarrow> let e = tables v t i in if skip e then Done ((v, m), True) else g i (e AND PTE_ADDR_MASK) (v, m))"
    proof (cases "skip (tables v t i)")
      case True
      then have "live par v (below (q @ [i])) = {}" using dead_below [OF tv] skip [OF nh] q(2) by simp
      then show ?thesis using True copies_none [of R v] r by (simp add: ready_def Let_def)
    next
      case False
      then have "tbl (tables v) par (q @ [i]) = Some (tables v t i AND PTE_ADDR_MASK)"
        using skip [OF nh] nh tv by (simp add: tbl_append entry_to_table_def)
      then show ?thesis using False g [OF qi r] by (simp add: Let_def)
    qed
  qed (use below_subset below_disjoint in \<open>simp_all del: append.simps\<close>)
qed

lemma dup_pt_copies:
  assumes q: "user_path [i4, i3, i2]" and t: "ready R par ch v" "tbl (tables v) par [i4, i3, i2] = Some t"
  shows "copies R par ch (below [i4, i3, i2]) (v, m) (dup_pt ch i4 i3 i2 t (v, m))"
proof -
  let ?q = "[i4, i3, i2]"
  have un: "below ?q = (\<Union>i \<in> set [0..<512]. below (?q @ [i]))" using below_split [of ?q] by (simp add: atLeast0LessThan)
  have b: "i4 < 256" "i3 < 512" "i2 < 512" using q by (auto simp: user_path_def)
  show ?thesis unfolding un dup_pt_def
  proof (rule copies_for_each [OF _ _ _ _ t q])
    fix i v m assume "i \<in> set [0..<512]" and r: "ready R par ch v" and tv: "tbl (tables v) par ?q = Some t"
    then have i: "i < 512" by simp
    note idx = path_va_idx [OF _ b(2,3) i, of i4]
    let ?va = "path_va i4 i3 i2 i" and ?e = "tables v t i"
    have leaf: "below (?q @ [i]) = {(?q, i)}" by (rule below_leaf [OF q _ i]) simp
    show "copies R par ch (below (?q @ [i])) (v, m)
        (case (v, m) of (v, m) \<Rightarrow> let e1 = tables v t i
           in if \<not> has e1 VMM_FLAG_PRESENT then Done ((v, m), True) else dup_page ch (path_va i4 i3 i2 i) e1 (v, m))"
    proof (cases "has ?e VMM_FLAG_PRESENT")
      case False
      then show ?thesis using dead_below [OF tv, of i] copies_none [of R v] r by (simp add: ready_def Let_def)
    next
      case True
      have e: "page_entry v par ?q i = Some ?e" using True tv by (simp add: page_entry_def)
      have p: "va_path ?va = ?q" "pt_idx ?va = i" "user_va ?va"
        using idx b(1) by (auto simp: user_va_def va_path_def)
      have "(?q, i) \<in> below []" using leaf below_subset by blast
      then have "copied R par ch {(?q, i)} (v, m) s'" if "dup_page ch ?va ?e (v, m) = Done (s', True)" for s'
        using dup_page_copies [of R v par ch ?va ?e m] r e that by (cases s') (simp add: ready_def p)
      moreover have "live par v {(?q, i)} = {(?q, i)}" using e by (auto simp: live_def)
      ultimately show ?thesis
        using True dup_page_succeeds [of R v ch ?va ?e m] r unfolding leaf by (auto simp: copies_def ready_def takes_def)
    qed
  qed (use below_subset below_disjoint in \<open>simp_all del: append.simps\<close>)
qed

lemma dup_pd_copies:
  assumes "user_path [i4, i3]" "ready R par ch v" "tbl (tables v) par [i4, i3] = Some t"
  shows "copies R par ch (below [i4, i3]) (v, m) (dup_pd ch i4 i3 t (v, m))"
  unfolding dup_pd_def
  by (rule dup_level [OF assms(1) _ assms(2,3), where g = "\<lambda>i t. dup_pt ch i4 i3 i t"]) (use dup_pt_copies in auto)

lemma dup_pdpt_copies:
  assumes "user_path [i4]" "ready R par ch v" "tbl (tables v) par [i4] = Some t"
  shows "copies R par ch (below [i4]) (v, m) (dup_pdpt ch i4 t (v, m))"
  unfolding dup_pdpt_def
  by (rule dup_level [OF assms(1) _ assms(2,3), where g = "\<lambda>i t. dup_pd ch i4 i t"]) (use dup_pd_copies in auto)

lemma duplicate_copies:
  assumes "ready R par ch v"
  shows "copies R par ch (below []) (v, m) (duplicate_user_space par ch (v, m))"
  unfolding duplicate_user_space_def
  by (rule dup_level [OF _ _ assms, where g = "\<lambda>i t. dup_pdpt ch i t"]) (use dup_pdpt_copies in \<open>auto simp: user_path_def\<close>)

lemma user_page_below: "user_va va \<Longrightarrow> (va_path va, pt_idx va) \<in> below []"
  using va_path_user [of va] idx_bound by (auto simp: below_def va_path_def pt_idx_def)

lemma fresh_root_entries:
  assumes "vm_ok R v" "fresh_root ch v v1" "user_path p" "length p = 3"
  shows "page_entry v1 ch p i = None" "r \<in> R \<Longrightarrow> page_entry v1 r p i = page_entry v r p i"
proof -
  note tb = fresh_root_tbl [OF assms(1-3)]
  show "page_entry v1 ch p i = None" using tb(1) assms(4) by (auto simp: page_entry_def)
  show "page_entry v1 r p i = page_entry v r p i" if "r \<in> R"
    using tb(2,3) [OF that] assms(2) by (cases "tbl (tables v) r p") (auto simp: page_entry_def fresh_root_def)
qed

lemma fresh_root_ready:
  assumes "vm_ok R v" "par \<in> R" "backed par v" "fresh_root ch v v1"
  shows "ready (insert ch R) par ch v1"
proof -
  have "par \<noteq> ch" using fresh_root_tbl(3) [OF assms(1,4), of "[]" par par] assms(2) by (simp add: user_path_def)
  moreover have "backed par v1"
    using fresh_root_entries(2) [OF assms(1,4) _ _ assms(2)] assms(3,4)
    by (fastforce simp: backed_def below_def fresh_root_def)
  ultimately show ?thesis using assms fresh_root_ok [OF assms(1,4)] by (simp add: ready_def)
qed

section \<open>Properties\<close>

text \<open>C5: \<open>fork\<close> copies memory.  After \<open>vmm_new_pml4\<close>, \<open>duplicate_user_space\<close> succeeds while four low frames per page of the
  parent are free; when it succeeds, the child maps exactly the pages the parent maps, each to a frame that was not in use
  before, with the parent's low flag bits and the parent's bytes, while the parent's pages keep their frames and bytes and all
  page tables stay disjoint.\<close>

theorem fork_copies_memory:
  assumes "vm_ok R v" "par \<in> R" "backed par v" "kernel_pml4 v = Some k" "owned_frame (frames v) k"
    and "vmm_new_pml4 v = Some (v1, Some ch)"
  shows "(4 * card (live par v (below [])) \<le> low_free v1 \<longrightarrow> (\<exists>s'. duplicate_user_space par ch (v1, m) = Done (s', True))) \<and>
    (\<forall>v2 m2. duplicate_user_space par ch (v1, m) = Done ((v2, m2), True) \<longrightarrow>
       vm_ok (insert ch R) v2 \<and>
       (\<forall>va. user_va va \<longrightarrow> space_entry v2 par va = space_entry v par va \<and>
          (case space_entry v par va of
             None \<Rightarrow> space_entry v2 ch va = None
           | Some e \<Rightarrow> page_bytes m2 (e AND PTE_ADDR_MASK) = page_bytes m (e AND PTE_ADDR_MASK) \<and>
               (\<exists>f. \<not> owned_frame (frames v) f \<and> space_entry v2 ch va = Some (make_pte f (e AND 0xFFF)) \<and>
                  page_bytes m2 f = page_bytes m (e AND PTE_ADDR_MASK)))))"
proof (intro conjI allI impI)
  note fr = new_pml4_fresh(1) [OF assms(1,4-6)]
  note rd = fresh_root_ready [OF assms(1-3) fr]
  note dup = duplicate_copies [OF rd, of m]
  note pe = fresh_root_entries [OF assms(1) fr]
  have "live par v1 (below []) = live par v (below [])"
    using pe(2) [OF _ _ assms(2)] by (auto simp: live_def below_def)
  then show "4 * card (live par v (below [])) \<le> low_free v1 \<Longrightarrow> \<exists>s'. duplicate_user_space par ch (v1, m) = Done (s', True)"
    using dup unfolding copies_def by auto
  fix v2 m2 assume "duplicate_user_space par ch (v1, m) = Done ((v2, m2), True)"
  then have c: "copied (insert ch R) par ch (below []) (v1, m) (v2, m2)" using dup unfolding copies_def by simp
  show "vm_ok (insert ch R) v2" by (rule copiedD(1) [OF c])
  fix va assume va: "user_va va"
  note ub = user_page_below [OF va]
  have e1: "page_entry v1 par (va_path va) (pt_idx va) = space_entry v par va" "page_entry v1 ch (va_path va) (pt_idx va) = None"
    using pe va_path_user [OF va] assms(2) by (simp_all add: space_entry_def va_path_def)
  show "space_entry v2 par va = space_entry v par va" using copiedD(5) [OF c ub] e1 by (simp add: space_entry_def)
  show "case space_entry v par va of
       None \<Rightarrow> space_entry v2 ch va = None
     | Some e \<Rightarrow> page_bytes m2 (e AND PTE_ADDR_MASK) = page_bytes m (e AND PTE_ADDR_MASK) \<and>
         (\<exists>f. \<not> owned_frame (frames v) f \<and> space_entry v2 ch va = Some (make_pte f (e AND 0xFFF)) \<and>
            page_bytes m2 f = page_bytes m (e AND PTE_ADDR_MASK))"
  proof (cases "space_entry v par va")
    case None
    then show ?thesis using copiedD(6) [OF c ub] e1 by (simp add: space_entry_def)
  next
    case (Some e)
    have own: "owned_frame (frames v1) a" if "owned_frame (frames v) a" for a using that fr by (simp add: fresh_root_def)
    have "owned_frame (frames v1) (e AND PTE_ADDR_MASK)"
      using rd ub e1 Some unfolding ready_def backed_def by fastforce
    then have "page_bytes m2 (e AND PTE_ADDR_MASK) = page_bytes m (e AND PTE_ADDR_MASK)" by (rule copiedD(3) [OF c])
    then show ?thesis using copiedD(7) [OF c ub, of e] e1 Some own by (auto simp: space_entry_def)
  qed
qed

text \<open>An address space with one page at \<open>0x400000\<close> in the frame \<open>0xE000\<close>, and eleven free frames before that.\<close>

definition fork_vm :: vm where
  "fork_vm = small_vm\<lparr>frames := fold (\<lambda>k. release_frame (of_nat k)) [3..<14] (pmm_size 0x10000 blank_pmm)\<rparr>"

lemma fork_vm_frames:
  "pmm_ok (frames fork_vm)" "free_frames (frames fork_vm) = {3..<14}" "unat (total_frames (frames fork_vm)) = 16"
proof -
  let ?p = "pmm_size 0x10000 blank_pmm"
  have p: "pmm_ok ?p" "free_frames ?p = {}" "unat (total_frames ?p) = 16" by (simp_all add: pmm_size_ok)
  have "(\<lambda>k. unat (of_nat k :: u32)) ` set [3..<14] = (\<lambda>k. k) ` set [3..<14]"
    by (rule image_cong) (auto simp: unat_of_nat simp del: upt_rec_numeral)
  then have "(\<lambda>k. unat (of_nat k :: u32)) ` set [3..<14] = {3..<14}" by (simp del: upt_rec_numeral)
  with fold_release [OF p(1), of of_nat "[3..<14]"] p
  show "pmm_ok (frames fork_vm)" "free_frames (frames fork_vm) = {3..<14}" "unat (total_frames (frames fork_vm)) = 16"
    by (auto simp: fork_vm_def simp del: upt_rec_numeral)
qed

lemma fork_vm_ok: "vm_ok {0x1000} fork_vm" "11 \<le> low_free fork_vm"
proof -
  have "owned_frame (frames fork_vm) 0x1000"
    by (auto simp: owned_frame_def fork_vm_frames frame_addr_def intro: exI [of _ 1])
  then show "vm_ok {0x1000} fork_vm"
    using fork_vm_frames by (auto simp: vm_ok_def small_vm_tbl fork_vm_def split: if_splits)
  have "{3..<14} \<inter> {..<16384} = {3..<14 :: nat}" by auto
  then show "11 \<le> low_free fork_vm" by (simp add: low_free_def fork_vm_frames)
qed

lemma map_in_kernel_pml4:
  assumes "vm_ok R v" "r \<in> R" "user_va va" "vmm_map_in v r va phys flags = Some v'"
  shows "kernel_pml4 v' = kernel_pml4 v"
proof -
  obtain v1 res where w: "walk_create v r va (has flags VMM_FLAG_USER) = Some (v1, res)"
    using assms(4) by (auto simp: vmm_map_in_def split: option.splits)
  obtain t1 where "grows R v v1" "res = Some (t1, pt_idx va)" by (rule walk_create_grows [OF assms(1-3) w]) blast
  then show ?thesis using growsD(2) [of R v v1] assms(4) w by (auto simp: vmm_map_in_def)
qed

lemma new_pml4_low:
  assumes "pmm_ok (frames v)" "0 \<notin> free_frames (frames v)" "0 < low_free v" "kernel_pml4 v = Some k"
  shows "\<exists>v1 ch. vmm_new_pml4 v = Some (v1, Some ch) \<and> takes 1 v v1"
proof -
  let ?w = "v\<lparr>frames := fst (pmm_alloc_frame (frames v))\<rparr>"
  obtain s a where "alloc_table v = Some (s, a)" by (rule alloc_table_low [OF assms(1-3)])
  then have a: "snd (pmm_alloc_frame (frames v)) \<noteq> 0" "check_low (snd (pmm_alloc_frame (frames v)))"
    by (auto simp: alloc_table_def Let_def split: prod.splits if_splits)
  define v1 where "v1 = fold (\<lambda>i s. set_entry (snd (pmm_alloc_frame (frames v))) i (tables s k i) s) [256..<512]
    (zero_table (snd (pmm_alloc_frame (frames v))) ?w)"
  have "frames (fold (\<lambda>i s. set_entry x i (tables s k i) s) is s) = frames s" for x "is" s
    by (induction "is" arbitrary: s) simp_all
  then have "frames v1 = frames ?w" by (simp add: v1_def del: upt_rec_numeral)
  then have "takes 1 v v1" using takes_frames [of v1 ?w 1 v] takes_alloc [OF assms(1,2)] by simp
  then show ?thesis using a assms(4) by (simp add: vmm_new_pml4_def Let_def case_prod_beta v1_def del: upt_rec_numeral)
qed

lemma fork_vm_mapped:
  obtains v where "vm_ok {0x1000} v" "space_entry v 0x1000 0x400000 = Some (make_pte 0xE000 7)"
    "live 0x1000 v (below []) = {(va_path 0x400000, pt_idx 0x400000)}" "backed 0x1000 v" "kernel_pml4 v = Some 0x2000"
    "owned_frame (frames v) 0x2000" "owned_frame (frames v) 0xE000" "8 \<le> low_free v"
proof -
  have va: "user_va 0x400000" by (simp add: user_va_def pml4_idx_def)
  note pm = vm_okD(1,2) [OF fork_vm_ok(1)]
  have "3 \<le> low_free fork_vm" using fork_vm_ok(2) by simp
  then obtain v where v: "vmm_map_in fork_vm 0x1000 0x400000 0xE000 7 = Some v" using map_in_low [OF pm] by blast
  have tk: "takes 3 fork_vm v" by (rule map_in_takes [OF pm v])
  have own: "owned_frame (frames fork_vm) 0x2000" "owned_frame (frames fork_vm) 0xE000"
    by (auto simp: owned_frame_def fork_vm_frames frame_addr_def intro: exI [of _ 2] exI [of _ 14])
  note ent = map_in_entries [OF fork_vm_ok(1) singletonI va v]
  have none: "page_entry fork_vm 0x1000 p i = None" if "length p = 3" for p i
    using that by (auto simp: page_entry_def fork_vm_def small_vm_tbl)
  have pe: "page_entry v 0x1000 p i = (if p = va_path 0x400000 \<and> i = pt_idx 0x400000 then Some (make_pte 0xE000 7) else None)"
    if "(p, i) \<in> below []" for p i
    using that ent(2) [of "0x1000" p i] none by (simp add: below_def)
  have "(0xE000 :: u64) AND PTE_ADDR_MASK = 0xE000" by (simp add: PTE_ADDR_MASK_def)
  then have "make_pte 0xE000 7 AND PTE_ADDR_MASK = 0xE000" by (simp only: make_pte_simps(2))
  then have "backed 0x1000 v" using pe takes_owned [OF tk own(2)] by (auto simp: backed_def split: if_splits)
  moreover have "live 0x1000 v (below []) = {(va_path 0x400000, pt_idx 0x400000)}"
    using pe user_page_below [OF va] by (auto simp: live_def split: if_splits)
  ultimately show ?thesis
    using that ent(1) pe [OF user_page_below [OF va]] takes_owned [OF tk] own tk fork_vm_ok(2)
      map_in_kernel_pml4 [OF fork_vm_ok(1) singletonI va v] by (auto simp: space_entry_def takes_def fork_vm_def)
qed

theorem fork_copies_memory_witness:
  "\<exists>v v1 ch v2 m2 f. vmm_new_pml4 v = Some (v1, Some ch) \<and> space_entry v 0x1000 0x400000 = Some (make_pte 0xE000 7) \<and>
     duplicate_user_space 0x1000 ch (v1, \<lambda>_. 5) = Done ((v2, m2), True) \<and>
     space_entry v2 ch 0x400000 = Some (make_pte f (make_pte 0xE000 7 AND 0xFFF)) \<and> page_bytes m2 f = replicate 4096 5"
proof -
  obtain v where v: "vm_ok {0x1000} v" "space_entry v 0x1000 0x400000 = Some (make_pte 0xE000 7)"
    "live 0x1000 v (below []) = {(va_path 0x400000, pt_idx 0x400000)}" "backed 0x1000 v" "kernel_pml4 v = Some 0x2000"
    "owned_frame (frames v) 0x2000" "8 \<le> low_free v" by (rule fork_vm_mapped) blast
  obtain v1 ch where v1: "vmm_new_pml4 v = Some (v1, Some ch)" "takes 1 v v1"
    using new_pml4_low [OF vm_okD(1,2) [OF v(1)] _ v(5)] v(7) by auto
  note fk = fork_copies_memory [OF v(1) singletonI v(4-6) v1(1), of "\<lambda>_. 5"]
  have "4 * card (live 0x1000 v (below [])) \<le> low_free v1" using v(3,7) v1(2) by (simp add: takes_def)
  then obtain v2 m2 where d: "duplicate_user_space 0x1000 ch (v1, \<lambda>_. 5) = Done ((v2, m2), True)" using fk by auto
  have va: "user_va 0x400000" by (simp add: user_va_def pml4_idx_def)
  have "page_bytes (\<lambda>_. 5) a = replicate 4096 5" for a by (simp add: page_bytes_def map_replicate_const del: upt_rec_numeral)
  then show ?thesis using fk d va v(2) v1(1) by (fastforce split: option.splits)
qed

end
