(* ===== verification/Blkdev.thy ===== *)
theory Blkdev
  imports Heap
begin

text \<open>
  Block devices: the registry and the partitions of \<open>src/fs/blkdev.c\<close>, and the driver of the primary ATA disk,
  \<open>src/drivers/ata.c\<close>.

  A device carries its two functions; \<open>'s\<close> is the state of the hardware behind it.  A read returns the sector, or
  \<open>None\<close> for a nonzero return value; a write returns the value of the C function.  The ports of the machine are a
  parameter, a record of the four instructions on a hardware state.

  The locale \<open>block_device\<close> says what a file system relies on: sectors of 512 bytes, a read returns what was last written.
  The driver satisfies it on a drive that follows the ATA protocol with 28-bit addresses, and a partition of a device that
  satisfies it satisfies it again, on its window of the sectors.
\<close>

section \<open>Devices\<close>

abbreviation (input) MAX_BLKDEVS :: nat where "MAX_BLKDEVS \<equiv> 8"

record 's blkdev =
  b_name :: string
  total_sectors :: u32
  read_sector :: "u32 \<Rightarrow> 's \<Rightarrow> 's \<times> u8 list option"
  write_sector :: "u32 \<Rightarrow> u8 list \<Rightarrow> 's \<Rightarrow> 's \<times> int"
  mount_path :: string
  fs_type :: string
  read_only :: bool

text \<open>The registry: the devices by address, and the addresses of the registered ones.\<close>

record 's blk_state =
  blk_heap :: heap_state
  dev_at :: "u64 \<Rightarrow> 's blkdev"
  devices :: "u64 list"

definition blkdev_register :: "u64 \<Rightarrow> 's blk_state \<Rightarrow> 's blk_state" where
  "blkdev_register dev s = (if MAX_BLKDEVS \<le> length (devices s) then s else s\<lparr>devices := devices s @ [dev]\<rparr>)"

definition blkdev_get :: "string \<Rightarrow> 's blk_state \<Rightarrow> u64 option" where
  "blkdev_get name s = find (\<lambda>d. b_name (dev_at s d) = name) (devices s)"

definition blkdev_count :: "'s blk_state \<Rightarrow> int" where
  "blkdev_count s = int (length (devices s))"

definition blkdev_nth :: "int \<Rightarrow> 's blk_state \<Rightarrow> u64 option" where
  "blkdev_nth idx s = (if idx < 0 \<or> int (length (devices s)) \<le> idx then None else Some (devices s ! nat idx))"

definition part_read :: "'s blkdev \<Rightarrow> u32 \<Rightarrow> u32 \<Rightarrow> u32 \<Rightarrow> 's \<Rightarrow> 's \<times> u8 list option" where
  "part_read parent start count lba s = (if count \<le> lba then (s, None) else read_sector parent (start + lba) s)"

definition part_write :: "'s blkdev \<Rightarrow> u32 \<Rightarrow> u32 \<Rightarrow> u32 \<Rightarrow> u8 list \<Rightarrow> 's \<Rightarrow> 's \<times> int" where
  "part_write parent start count lba buf s = (if count \<le> lba then (s, - 1) else write_sector parent (start + lba) buf s)"

definition part_dev :: "'s blkdev \<Rightarrow> u32 \<Rightarrow> u32 \<Rightarrow> string \<Rightarrow> 's blkdev" where
  "part_dev parent start count name = \<lparr>b_name = take 31 name, total_sectors = count, read_sector = part_read parent start count,
     write_sector = part_write parent start count, mount_path = [], fs_type = [], read_only = False\<rparr>"

text \<open>\<open>sizeof (blkdev_t)\<close> is 120 and \<open>sizeof (part_priv_t)\<close> is 16.\<close>

definition blkdev_partition ::
  "u64 option \<Rightarrow> u32 \<Rightarrow> u32 \<Rightarrow> string \<Rightarrow> 's blk_state \<Rightarrow> ('s blk_state \<times> u64 option) option" where
  "blkdev_partition parent start count name s =
     (case parent of
        None \<Rightarrow> Some (s, None)
      | Some parent \<Rightarrow>
          Option.bind (kmalloc (blk_heap s) 120) (\<lambda>(h, dev).
          Option.bind (kmalloc h 16) (\<lambda>(h, priv).
          if dev = 0 \<or> priv = 0
          then Option.bind (if dev \<noteq> 0 then kfree h dev else Some h) (\<lambda>h.
               map_option (\<lambda>h. (s\<lparr>blk_heap := h\<rparr>, None)) (if priv \<noteq> 0 then kfree h priv else Some h))
          else Some (blkdev_register dev (s\<lparr>blk_heap := h,
                 dev_at := (dev_at s)(dev := part_dev (dev_at s parent) start count name)\<rparr>), Some dev))))"

section \<open>The ATA driver\<close>

text \<open>The instructions on ports.\<close>

record 'h port_io =
  inb :: "u16 \<Rightarrow> 'h \<Rightarrow> 'h \<times> u8"
  inw :: "u16 \<Rightarrow> 'h \<Rightarrow> 'h \<times> u16"
  outb :: "u16 \<Rightarrow> u8 \<Rightarrow> 'h \<Rightarrow> 'h"
  outw :: "u16 \<Rightarrow> u16 \<Rightarrow> 'h \<Rightarrow> 'h"

abbreviation (input) ATA_PRIMARY_DATA :: u16 where "ATA_PRIMARY_DATA \<equiv> 0x1F0"
abbreviation (input) ATA_PRIMARY_COUNT :: u16 where "ATA_PRIMARY_COUNT \<equiv> 0x1F2"
abbreviation (input) ATA_PRIMARY_LBA_LO :: u16 where "ATA_PRIMARY_LBA_LO \<equiv> 0x1F3"
abbreviation (input) ATA_PRIMARY_LBA_MI :: u16 where "ATA_PRIMARY_LBA_MI \<equiv> 0x1F4"
abbreviation (input) ATA_PRIMARY_LBA_HI :: u16 where "ATA_PRIMARY_LBA_HI \<equiv> 0x1F5"
abbreviation (input) ATA_PRIMARY_DRIVE :: u16 where "ATA_PRIMARY_DRIVE \<equiv> 0x1F6"
abbreviation (input) ATA_PRIMARY_CMD :: u16 where "ATA_PRIMARY_CMD \<equiv> 0x1F7"
abbreviation (input) ATA_PRIMARY_STATUS :: u16 where "ATA_PRIMARY_STATUS \<equiv> 0x1F7"
abbreviation (input) ATA_STATUS_BSY :: u8 where "ATA_STATUS_BSY \<equiv> 0x80"
abbreviation (input) ATA_STATUS_DRQ :: u8 where "ATA_STATUS_DRQ \<equiv> 0x08"
abbreviation (input) ATA_STATUS_ERR :: u8 where "ATA_STATUS_ERR \<equiv> 0x01"
abbreviation (input) ATA_CMD_READ :: u8 where "ATA_CMD_READ \<equiv> 0x20"
abbreviation (input) ATA_CMD_WRITE :: u8 where "ATA_CMD_WRITE \<equiv> 0x30"
abbreviation (input) ATA_CMD_FLUSH :: u8 where "ATA_CMD_FLUSH \<equiv> 0xE7"
abbreviation (input) ATA_CMD_IDENTIFY :: u8 where "ATA_CMD_IDENTIFY \<equiv> 0xEC"

definition ata_400ns_delay :: "'h port_io \<Rightarrow> 'h \<Rightarrow> 'h" where
  "ata_400ns_delay io h = (let (h, _) = inb io ATA_PRIMARY_STATUS h; (h, _) = inb io ATA_PRIMARY_STATUS h;
     (h, _) = inb io ATA_PRIMARY_STATUS h; (h, _) = inb io ATA_PRIMARY_STATUS h in h)"

fun wait_bsy :: "'h port_io \<Rightarrow> nat \<Rightarrow> 'h \<Rightarrow> 'h \<times> int" where
  "wait_bsy io 0 h = (h, - 1)"
| "wait_bsy io (Suc n) h =
     (let (h, status) = inb io ATA_PRIMARY_STATUS h
      in if status AND ATA_STATUS_BSY = 0 then (h, 0) else wait_bsy io n h)"

definition ata_wait_bsy :: "'h port_io \<Rightarrow> 'h \<Rightarrow> 'h \<times> int" where
  "ata_wait_bsy io = wait_bsy io 100000"

fun wait_drq :: "'h port_io \<Rightarrow> nat \<Rightarrow> 'h \<Rightarrow> 'h \<times> int" where
  "wait_drq io 0 h = (h, - 1)"
| "wait_drq io (Suc n) h =
     (let (h, status) = inb io ATA_PRIMARY_STATUS h
      in if status AND ATA_STATUS_ERR \<noteq> 0 then (h, - 1)
         else if status AND ATA_STATUS_DRQ \<noteq> 0 then (h, 0)
         else wait_drq io n h)"

definition ata_wait_drq :: "'h port_io \<Rightarrow> 'h \<Rightarrow> 'h \<times> int" where
  "ata_wait_drq io = wait_drq io 100000"

text \<open>\<open>for (i = 0; i < n; i++) wbuf[i] = inw(ATA_PRIMARY_DATA);\<close>\<close>

fun in_words :: "'h port_io \<Rightarrow> nat \<Rightarrow> 'h \<Rightarrow> 'h \<times> u16 list" where
  "in_words io 0 h = (h, [])"
| "in_words io (Suc n) h =
     (let (h, w) = inw io ATA_PRIMARY_DATA h; (h, ws) = in_words io n h in (h, w # ws))"

fun out_words :: "'h port_io \<Rightarrow> u16 list \<Rightarrow> 'h \<Rightarrow> 'h" where
  "out_words io [] h = h"
| "out_words io (w # ws) h = out_words io ws (outw io ATA_PRIMARY_DATA w h)"

text \<open>A buffer seen as little-endian 16-bit words.\<close>

definition word_bytes :: "u16 \<Rightarrow> u8 list" where
  "word_bytes w = [ucast w, ucast (drop_bit 8 w)]"

fun words_of :: "u8 list \<Rightarrow> u16 list" where
  "words_of (a # b # bs) = (ucast a OR push_bit 8 (ucast b)) # words_of bs"
| "words_of _ = []"

text \<open>The registers both transfers program.\<close>

definition ata_setup :: "'h port_io \<Rightarrow> u32 \<Rightarrow> u8 \<Rightarrow> 'h \<Rightarrow> 'h" where
  "ata_setup io lba cmd h =
     (let h = outb io ATA_PRIMARY_DRIVE (0xE0 OR ucast (drop_bit 24 lba AND 0x0F)) h;
          h = outb io ATA_PRIMARY_COUNT 1 h;
          h = outb io ATA_PRIMARY_LBA_LO (ucast (lba AND 0xFF)) h;
          h = outb io ATA_PRIMARY_LBA_MI (ucast (drop_bit 8 lba AND 0xFF)) h;
          h = outb io ATA_PRIMARY_LBA_HI (ucast (drop_bit 16 lba AND 0xFF)) h
      in outb io ATA_PRIMARY_CMD cmd h)"

definition ata_read_sector :: "'h port_io \<Rightarrow> u32 \<Rightarrow> 'h \<Rightarrow> 'h \<times> u8 list option" where
  "ata_read_sector io lba h =
     (let (h, rc) = ata_wait_bsy io h
      in if rc \<noteq> 0 then (h, None)
         else let h = ata_400ns_delay io (ata_setup io lba ATA_CMD_READ h); (h, rc) = ata_wait_drq io h
              in if rc \<noteq> 0 then (h, None)
                 else let (h, ws) = in_words io 256 h in (h, Some (concat (map word_bytes ws))))"

definition ata_write_sector :: "'h port_io \<Rightarrow> u32 \<Rightarrow> u8 list \<Rightarrow> 'h \<Rightarrow> 'h \<times> int" where
  "ata_write_sector io lba buf h =
     (let (h, rc) = ata_wait_bsy io h
      in if rc \<noteq> 0 then (h, - 1)
         else let h = ata_400ns_delay io (ata_setup io lba ATA_CMD_WRITE h); (h, rc) = ata_wait_drq io h
              in if rc \<noteq> 0 then (h, - 1)
                 else let h = out_words io (words_of buf) h;
                          h = outb io ATA_PRIMARY_CMD ATA_CMD_FLUSH h; (h, rc) = ata_wait_bsy io h
                      in if rc \<noteq> 0 then (h, - 1) else (h, 0))"

definition ata_device :: "'h port_io \<Rightarrow> u32 \<Rightarrow> 'h blkdev" where
  "ata_device io sectors = \<lparr>b_name = ''ata0'', total_sectors = sectors, read_sector = ata_read_sector io,
     write_sector = ata_write_sector io, mount_path = [], fs_type = [], read_only = False\<rparr>"

text \<open>The device found, if there is one; the caller registers it.\<close>

definition ata_init :: "'h port_io \<Rightarrow> 'h \<Rightarrow> 'h \<times> 'h blkdev option" where
  "ata_init io h =
     (let h = ata_400ns_delay io (outb io ATA_PRIMARY_DRIVE 0xA0 h);
          h = outb io ATA_PRIMARY_COUNT 0 h; h = outb io ATA_PRIMARY_LBA_LO 0 h;
          h = outb io ATA_PRIMARY_LBA_MI 0 h; h = outb io ATA_PRIMARY_LBA_HI 0 h;
          h = ata_400ns_delay io (outb io ATA_PRIMARY_CMD ATA_CMD_IDENTIFY h);
          (h, status) = inb io ATA_PRIMARY_STATUS h
      in if status = 0 then (h, None)
         else let (h, rc) = ata_wait_bsy io h
              in if rc \<noteq> 0 then (h, None)
                 else let (h, mi) = inb io ATA_PRIMARY_LBA_MI h
                      in if mi \<noteq> 0 then (h, None)
                         else let (h, hi) = inb io ATA_PRIMARY_LBA_HI h
                              in if hi \<noteq> 0 then (h, None)
                                 else let (h, rc) = ata_wait_drq io h
                                      in if rc \<noteq> 0 then (h, None)
                                         else let (h, identify) = in_words io 256 h;
                                                  sectors = ucast (identify ! 60) OR push_bit 16 (ucast (identify ! 61))
                                              in if sectors = 0 then (h, None) else (h, Some (ata_device io sectors)))"

section \<open>What a file system relies on\<close>

text \<open>
  \<open>sector h lba\<close> is what the device holds.  A read may change the state of the hardware, but no sector; a write changes one
  sector.
\<close>

locale block_device =
  fixes dev :: "'s blkdev"
    and ok :: "'s \<Rightarrow> bool"
    and sector :: "'s \<Rightarrow> u32 \<Rightarrow> u8 list"
  assumes sector_length: "ok h \<Longrightarrow> length (sector h lba) = 512"
    and read_law: "ok h \<Longrightarrow> lba < total_sectors dev \<Longrightarrow>
      \<exists>h'. read_sector dev lba h = (h', Some (sector h lba)) \<and> ok h' \<and> sector h' = sector h"
    and write_law: "ok h \<Longrightarrow> lba < total_sectors dev \<Longrightarrow> length bs = 512 \<Longrightarrow>
      \<exists>h'. write_sector dev lba bs h = (h', 0) \<and> ok h' \<and> sector h' = (sector h)(lba := bs)"
begin

lemma write_read:
  assumes "ok h" "lba < total_sectors dev" "length bs = 512"
  obtains h' h'' where "write_sector dev lba bs h = (h', 0)" "read_sector dev lba h' = (h'', Some bs)" "ok h''"
proof -
  obtain h' where h': "write_sector dev lba bs h = (h', 0)" "ok h'" "sector h' = (sector h)(lba := bs)"
    using write_law [OF assms] by blast
  then show ?thesis using read_law [OF h'(2) assms(2)] that by force
qed

end

text \<open>A partition inside the device is a device again.\<close>

locale partition = block_device +
  fixes start :: u32 and count :: u32 and name :: string
  assumes inside: "unat start + unat count \<le> unat (total_sectors dev)"
begin

lemma part_lba:
  assumes "lba < count"
  shows "start + lba < total_sectors dev" "unat (start + lba) = unat start + unat lba"
proof -
  have lt: "unat start + unat lba < unat (total_sectors dev)" using assms inside by (simp add: word_less_nat_alt)
  moreover have "unat (total_sectors dev) < 2 ^ 32" using unsigned_less [of "total_sectors dev", where 'a = nat] by simp
  ultimately show "unat (start + lba) = unat start + unat lba" by (subst unat_plus_no_wrap) auto
  with lt show "start + lba < total_sectors dev" by (simp add: word_less_nat_alt)
qed

end

sublocale partition \<subseteq> part: block_device "part_dev dev start count name" ok "\<lambda>h lba. sector h (start + lba)"
proof
  fix h lba
  assume h: "ok h"
  then show "length (sector h (start + lba)) = 512" by (rule sector_length)
  assume "lba < total_sectors (part_dev dev start count name)"
  then have lba: "lba < count" by (simp add: part_dev_def)
  show "\<exists>h'. read_sector (part_dev dev start count name) lba h = (h', Some (sector h (start + lba))) \<and> ok h' \<and>
      (\<lambda>lba. sector h' (start + lba)) = (\<lambda>lba. sector h (start + lba))"
    using read_law [OF h part_lba(1) [OF lba]] lba by (auto simp: part_dev_def part_read_def)
  fix bs :: "u8 list" assume bs: "length bs = 512"
  show "\<exists>h'. write_sector (part_dev dev start count name) lba bs h = (h', 0) \<and> ok h' \<and>
      (\<lambda>lba. sector h' (start + lba)) = (\<lambda>lba. sector h (start + lba))(lba := bs)"
    using write_law [OF h part_lba(1) [OF lba] bs] lba by (auto simp: part_dev_def part_write_def fun_eq_iff)
qed

section \<open>A drive\<close>

text \<open>
  A drive on the primary channel that follows the ATA protocol with 28-bit addresses and is never busy: the registers, the words
  waiting to be read, the words received, and the medium.
\<close>

record drive =
  r_drive :: u8
  r_lo :: u8
  r_mi :: u8
  r_hi :: u8
  to_host :: "u16 list"
  from_host :: "u16 list"
  receiving :: bool
  medium :: "u32 \<Rightarrow> u8 list"
  capacity :: u32

definition drive_lba :: "drive \<Rightarrow> u32" where
  "drive_lba d = push_bit 24 (ucast (r_drive d AND 0x0F)) OR push_bit 16 (ucast (r_hi d)) OR push_bit 8 (ucast (r_mi d)) OR ucast (r_lo d)"

definition drive_inb :: "u16 \<Rightarrow> drive \<Rightarrow> drive \<times> u8" where
  "drive_inb port d =
     (d, if port = ATA_PRIMARY_STATUS then (if to_host d \<noteq> [] \<or> receiving d then 0x48 else 0x40)
         else if port = ATA_PRIMARY_LBA_LO then r_lo d else if port = ATA_PRIMARY_LBA_MI then r_mi d
         else if port = ATA_PRIMARY_LBA_HI then r_hi d else if port = ATA_PRIMARY_DRIVE then r_drive d else 0)"

definition drive_inw :: "u16 \<Rightarrow> drive \<Rightarrow> drive \<times> u16" where
  "drive_inw port d = (case to_host d of [] \<Rightarrow> (d, 0) | w # ws \<Rightarrow> (d\<lparr>to_host := ws\<rparr>, w))"

definition identify_data :: "u32 \<Rightarrow> u16 list" where
  "identify_data n = replicate 60 0 @ [ucast n, ucast (drop_bit 16 n)] @ replicate 194 0"

definition drive_command :: "u8 \<Rightarrow> drive \<Rightarrow> drive" where
  "drive_command c d =
     (if c = ATA_CMD_READ then d\<lparr>to_host := words_of (medium d (drive_lba d))\<rparr>
      else if c = ATA_CMD_WRITE then d\<lparr>from_host := [], receiving := True\<rparr>
      else if c = ATA_CMD_IDENTIFY then d\<lparr>to_host := identify_data (capacity d)\<rparr> else d)"

definition drive_outb :: "u16 \<Rightarrow> u8 \<Rightarrow> drive \<Rightarrow> drive" where
  "drive_outb port b d =
     (if port = ATA_PRIMARY_CMD then drive_command b d
      else if port = ATA_PRIMARY_LBA_LO then d\<lparr>r_lo := b\<rparr> else if port = ATA_PRIMARY_LBA_MI then d\<lparr>r_mi := b\<rparr>
      else if port = ATA_PRIMARY_LBA_HI then d\<lparr>r_hi := b\<rparr> else if port = ATA_PRIMARY_DRIVE then d\<lparr>r_drive := b\<rparr> else d)"

definition drive_outw :: "u16 \<Rightarrow> u16 \<Rightarrow> drive \<Rightarrow> drive" where
  "drive_outw port w d =
     (if \<not> receiving d then d
      else let ws = from_host d @ [w]
           in if length ws < 256 then d\<lparr>from_host := ws\<rparr>
              else d\<lparr>from_host := [], receiving := False,
                     medium := (medium d)(drive_lba d := concat (map word_bytes ws))\<rparr>)"

definition drive_io :: "drive port_io" where
  "drive_io = \<lparr>inb = drive_inb, inw = drive_inw, outb = drive_outb, outw = drive_outw\<rparr>"

definition drive_ok :: "drive \<Rightarrow> bool" where
  "drive_ok d \<longleftrightarrow> to_host d = [] \<and> \<not> receiving d \<and> (\<forall>lba. length (medium d lba) = 512)"

lemma word_bytes_words_of: "even (length bs) \<Longrightarrow> concat (map word_bytes (words_of bs)) = bs"
proof (induction bs rule: words_of.induct)
  case (1 a b bs)
  have "ucast (ucast a OR push_bit 8 (ucast b) :: u16) = a" "ucast (drop_bit 8 (ucast a OR push_bit 8 (ucast b) :: u16)) = b"
    by (rule bit_word_eqI;
        auto simp: bit_or_iff bit_drop_bit_eq bit_push_bit_iff bit_ucast_iff dest: bit_imp_le_length)+
  then show ?case using 1 by (simp add: word_bytes_def)
qed simp_all

lemma length_words_of: "length (words_of bs) = length bs div 2"
  by (induction bs rule: words_of.induct) simp_all

lemma drive_io_simps [simp]:
  "inb drive_io = drive_inb" "inw drive_io = drive_inw" "outb drive_io = drive_outb" "outw drive_io = drive_outw"
  by (simp_all add: drive_io_def)

lemma drive_waits:
  "ata_wait_bsy drive_io d = (d, 0)" "ata_400ns_delay drive_io d = d"
  "to_host d \<noteq> [] \<or> receiving d \<Longrightarrow> ata_wait_drq drive_io d = (d, 0)"
proof -
  have "(100000 :: nat) = Suc 99999" by simp
  then show "ata_wait_bsy drive_io d = (d, 0)" "to_host d \<noteq> [] \<or> receiving d \<Longrightarrow> ata_wait_drq drive_io d = (d, 0)"
    unfolding ata_wait_bsy_def ata_wait_drq_def
    by (simp_all only: wait_bsy.simps wait_drq.simps) (auto simp: drive_inb_def)
  show "ata_400ns_delay drive_io d = d" by (simp add: ata_400ns_delay_def drive_inb_def)
qed

lemma in_words_drive: "to_host d = ws @ rest \<Longrightarrow> in_words drive_io (length ws) d = (d\<lparr>to_host := rest\<rparr>, ws)"
  by (induction ws arbitrary: d) (simp_all add: drive_inw_def)

lemma out_words_drive:
  assumes "receiving d" "length (from_host d) + length ws = 256" "ws \<noteq> []"
  shows "out_words drive_io ws d =
    d\<lparr>from_host := [], receiving := False, medium := (medium d)(drive_lba d := concat (map word_bytes (from_host d @ ws)))\<rparr>"
  using assms
proof (induction ws arbitrary: d)
  case (Cons w ws)
  show ?case
  proof (cases "ws = []")
    case True
    then show ?thesis using Cons.prems by (simp add: drive_outw_def fun_upd_def)
  next
    case False
    then have "drive_outw ATA_PRIMARY_DATA w d = d\<lparr>from_host := from_host d @ [w]\<rparr>"
      using Cons.prems by (cases ws) (simp_all add: drive_outw_def)
    then show ?thesis using False Cons.IH [of "d\<lparr>from_host := from_host d @ [w]\<rparr>"] Cons.prems
      by (simp add: drive_lba_def)
  qed
qed simp

lemma setup_drive:
  "ata_setup drive_io lba cmd d = drive_command cmd (d\<lparr>r_drive := 0xE0 OR ucast (drop_bit 24 lba AND 0x0F),
     r_lo := ucast (lba AND 0xFF), r_mi := ucast (drop_bit 8 lba AND 0xFF), r_hi := ucast (drop_bit 16 lba AND 0xFF)\<rparr>)"
  by (simp add: ata_setup_def drive_outb_def)

lemma lba_bits: "(0xFF :: u32) = mask 8" "(0x0F :: u32) = mask 4" "(0x0F :: u8) = mask 4" "(0xE0 :: u8) = push_bit 5 (mask 3)"
  by (simp_all add: mask_eq_exp_minus_1)

lemma lba_byte: "bit (ucast (ucast (drop_bit s lba AND 0xFF) :: u8) :: u32) k \<longleftrightarrow> k < 8 \<and> bit (lba :: u32) (s + k)"
  unfolding lba_bits by (auto simp: bit_and_iff bit_drop_bit_eq bit_ucast_iff bit_mask_iff)

lemma lba_nibble:
  "bit (ucast ((0xE0 OR ucast (drop_bit 24 lba AND 0x0F) :: u8) AND 0x0F) :: u32) k \<longleftrightarrow> k < 4 \<and> bit (lba :: u32) (24 + k)"
  unfolding lba_bits by (auto simp: bit_and_iff bit_or_iff bit_push_bit_iff bit_drop_bit_eq bit_ucast_iff bit_mask_iff)

lemma lba_round:
  assumes "unat lba < 2 ^ 28"
  shows "push_bit 24 (ucast ((0xE0 OR ucast (drop_bit 24 lba AND 0x0F) :: u8) AND 0x0F)) OR
    push_bit 16 (ucast (ucast (drop_bit 16 lba AND 0xFF) :: u8)) OR push_bit 8 (ucast (ucast (drop_bit 8 lba AND 0xFF) :: u8)) OR
    ucast (ucast (lba AND 0xFF) :: u8) = (lba :: u32)" (is "?x = lba")
proof (rule bit_word_eqI)
  fix n assume n: "n < LENGTH(32)"
  have small: "n < 28" if b: "bit lba n"
  proof -
    have "bit (unat lba) n" using b by (simp add: bit_unsigned_iff)
    moreover have "take_bit 28 (unat lba) = unat lba" using assms by (rule take_bit_nat_eq_self)
    ultimately have "bit (take_bit 28 (unat lba)) n" by simp
    then show ?thesis by (simp add: bit_take_bit_iff)
  qed
  have low: "bit (ucast (ucast (lba AND 0xFF) :: u8) :: u32) n \<longleftrightarrow> n < 8 \<and> bit lba n" using lba_byte [of 0 lba n] by simp
  consider "n < 8" | "8 \<le> n" "n < 16" | "16 \<le> n" "n < 24" | "24 \<le> n" by linarith
  then show "bit ?x n \<longleftrightarrow> bit lba n"
    unfolding bit_or_iff bit_push_bit_iff low lba_byte lba_nibble using n small by cases auto
qed

lemma ata_read_drive:
  assumes "drive_ok d" "unat lba < 2 ^ 28"
  shows "\<exists>d'. ata_read_sector drive_io lba d = (d', Some (medium d lba)) \<and> drive_ok d' \<and> medium d' = medium d"
proof -
  define d1 where "d1 = ata_setup drive_io lba ATA_CMD_READ d"
  have len: "length (medium d lba) = 512" using assms(1) by (simp add: drive_ok_def)
  have q: "to_host d1 = words_of (medium d lba)" "medium d1 = medium d" "receiving d1 = receiving d"
    using lba_round [OF assms(2)] by (simp_all add: d1_def setup_drive drive_command_def drive_lba_def)
  have "length (words_of (medium d lba)) = 256" using len by (simp add: length_words_of)
  then have "to_host d1 \<noteq> []" "in_words drive_io 256 d1 = (d1\<lparr>to_host := []\<rparr>, words_of (medium d lba))"
    using q in_words_drive [of d1 "words_of (medium d lba)" "[]"] by auto
  then have "ata_read_sector drive_io lba d = (d1\<lparr>to_host := []\<rparr>, Some (medium d lba))"
    using len by (simp add: ata_read_sector_def drive_waits d1_def [symmetric] word_bytes_words_of)
  then show ?thesis using assms(1) q by (simp add: drive_ok_def)
qed

lemma ata_write_drive:
  assumes "drive_ok d" "unat lba < 2 ^ 28" "length bs = 512"
  shows "\<exists>d'. ata_write_sector drive_io lba bs d = (d', 0) \<and> drive_ok d' \<and> medium d' = (medium d)(lba := bs)"
proof -
  define d1 where "d1 = ata_setup drive_io lba ATA_CMD_WRITE d"
  have q: "to_host d1 = []" "from_host d1 = []" "receiving d1" "medium d1 = medium d" "drive_lba d1 = lba"
    using lba_round [OF assms(2)] assms(1) by (simp_all add: d1_def setup_drive drive_command_def drive_lba_def drive_ok_def)
  have ws: "length (words_of bs) = 256" using assms(3) by (simp add: length_words_of)
  have "out_words drive_io (words_of bs) d1 = d1\<lparr>from_host := [], receiving := False, medium := (medium d)(lba := bs)\<rparr>"
    using out_words_drive [of d1 "words_of bs"] q ws assms(3) by (cases "words_of bs = []") (simp_all add: word_bytes_words_of)
  then have "ata_write_sector drive_io lba bs d = (d1\<lparr>from_host := [], receiving := False, medium := (medium d)(lba := bs)\<rparr>, 0)"
    using q by (simp add: ata_write_sector_def drive_waits d1_def [symmetric] drive_outb_def drive_command_def)
  then show ?thesis using assms(1,3) q by (auto simp: drive_ok_def)
qed

text \<open>The driver on such a drive is a block device, and so is every partition of it.\<close>

lemma ata_block_device:
  assumes "unat n \<le> 2 ^ 28"
  shows "block_device (ata_device drive_io n) drive_ok medium"
proof
  fix h :: drive and lba :: u32 and bs :: "u8 list"
  assume h: "drive_ok h"
  then show "length (medium h lba) = 512" by (simp add: drive_ok_def)
  assume "lba < total_sectors (ata_device drive_io n)"
  then have "unat lba < 2 ^ 28" using assms by (simp add: ata_device_def word_less_nat_alt)
  then show "\<exists>h'. read_sector (ata_device drive_io n) lba h = (h', Some (medium h lba)) \<and> drive_ok h' \<and> medium h' = medium h"
    "length bs = 512 \<Longrightarrow> \<exists>h'. write_sector (ata_device drive_io n) lba bs h = (h', 0) \<and> drive_ok h' \<and> medium h' = (medium h)(lba := bs)"
    using ata_read_drive [OF h] ata_write_drive [OF h] by (simp_all add: ata_device_def)
qed

interpretation ata0: block_device "ata_device drive_io 0x10000000" drive_ok medium
  by (rule ata_block_device) simp

interpretation ata0p1: partition "ata_device drive_io 0x10000000" drive_ok medium 2048 "0x20000" "''ata0p1''"
  by unfold_locales (simp add: ata_device_def)

text \<open>Initialisation finds the drive and its size.\<close>

lemma ata_init_drive:
  assumes "drive_ok d" "capacity d \<noteq> 0"
  shows "\<exists>d'. ata_init drive_io d = (d', Some (ata_device drive_io (capacity d))) \<and> drive_ok d' \<and> medium d' = medium d"
proof -
  define d1 where "d1 = d\<lparr>r_drive := 0xA0, r_lo := 0, r_mi := 0, r_hi := 0, to_host := identify_data (capacity d)\<rparr>"
  have len: "length (identify_data (capacity d)) = 256" by (simp add: identify_data_def)
  have words: "identify_data (capacity d) ! 60 = ucast (capacity d)" "identify_data (capacity d) ! 61 = ucast (drop_bit 16 (capacity d))"
    by (simp_all add: identify_data_def nth_append)
  have size: "ucast (ucast (capacity d) :: u16) OR push_bit 16 (ucast (ucast (drop_bit 16 (capacity d)) :: u16)) = capacity d"
    by (rule bit_word_eqI) (auto simp: bit_or_iff bit_push_bit_iff bit_ucast_iff bit_drop_bit_eq)
  have rd: "in_words drive_io 256 d1 = (d1\<lparr>to_host := []\<rparr>, identify_data (capacity d))"
    using in_words_drive [of d1 "identify_data (capacity d)" "[]"] len by (simp add: d1_def)
  have ne: "to_host d1 \<noteq> []" using len by (auto simp: d1_def)
  have "drive_inb ATA_PRIMARY_STATUS d1 = (d1, 0x48)" "drive_inb ATA_PRIMARY_LBA_MI d1 = (d1, 0)"
    "drive_inb ATA_PRIMARY_LBA_HI d1 = (d1, 0)"
    using ne by (simp_all add: drive_inb_def d1_def)
  moreover have "drive_outb ATA_PRIMARY_CMD ATA_CMD_IDENTIFY (d\<lparr>r_drive := 0xA0, r_lo := 0, r_mi := 0, r_hi := 0\<rparr>) = d1"
    by (simp add: drive_outb_def drive_command_def d1_def)
  ultimately have "ata_init drive_io d = (d1\<lparr>to_host := []\<rparr>, Some (ata_device drive_io (capacity d)))"
    using ne rd assms(2) by (simp add: ata_init_def drive_waits) (simp add: drive_outb_def drive_waits words size)
  then show ?thesis using assms(1) by (simp add: d1_def drive_ok_def)
qed

section \<open>Properties\<close>

text \<open>C29: a partition of the ATA disk.  On a drive with 28-bit addresses, writing a sector of a partition that lies inside the
  disk changes exactly the sector behind the start of the partition, and a read returns the bytes written; a sector number past
  the end is refused and the disk is left alone.\<close>

theorem partition_stays_inside:
  assumes "unat n \<le> 2 ^ 28" "unat start + unat count \<le> unat n" "drive_ok d" "length bs = 512"
    and "p = part_dev (ata_device drive_io n) start count name"
  shows "if lba < count
    then \<exists>d' d''. write_sector p lba bs d = (d', 0) \<and> medium d' = (medium d)(start + lba := bs) \<and>
      unat (start + lba) = unat start + unat lba \<and> read_sector p lba d' = (d'', Some bs) \<and> medium d'' = medium d'
    else write_sector p lba bs d = (d, - 1) \<and> read_sector p lba d = (d, None)"
proof (cases "lba < count")
  case True
  have "partition (ata_device drive_io n) drive_ok medium start count"
    using ata_block_device [OF assms(1)] assms(2) by (simp add: partition_def partition_axioms_def ata_device_def)
  then have base: "unat (start + lba) = unat start + unat lba" "start + lba < n"
    using partition.part_lba [of "ata_device drive_io n" drive_ok medium start count lba] True by (simp_all add: ata_device_def)
  obtain d' where d': "write_sector (ata_device drive_io n) (start + lba) bs d = (d', 0)" "drive_ok d'"
    "medium d' = (medium d)(start + lba := bs)"
    using block_device.write_law [OF ata_block_device [OF assms(1)] assms(3) _ assms(4)] base(2) by (auto simp: ata_device_def)
  obtain d'' where "read_sector (ata_device drive_io n) (start + lba) d' = (d'', Some bs)" "medium d'' = medium d'"
    using block_device.read_law [OF ata_block_device [OF assms(1)] d'(2), of "start + lba"] base(2) d'(3) by (auto simp: ata_device_def)
  then show ?thesis using True d' base(1) by (auto simp: assms(5) part_dev_def part_read_def part_write_def)
next
  case False
  then show ?thesis by (simp add: assms(5) part_dev_def part_read_def part_write_def not_less)
qed

theorem partition_stays_inside_witness:
  "\<exists>d d' d''. write_sector (part_dev (ata_device drive_io 64) 10 4 ''p'') 3 (replicate 512 7) d = (d', 0) \<and>
     medium d' 13 = replicate 512 7 \<and> medium d' 12 = replicate 512 0 \<and>
     read_sector (part_dev (ata_device drive_io 64) 10 4 ''p'') 3 d' = (d'', Some (replicate 512 7))"
proof -
  define d where "d = \<lparr>r_drive = 0, r_lo = 0, r_mi = 0, r_hi = 0, to_host = [], from_host = [], receiving = False,
    medium = (\<lambda>_. replicate 512 0), capacity = 64\<rparr>"
  have "drive_ok d" by (simp add: drive_ok_def d_def)
  then show ?thesis
    using partition_stays_inside [of 64 10 4 d "replicate 512 7" _ "''p''" 3] by (fastforce simp: d_def)
qed

end
