(* ===== verification/Fat.thy ===== *)
theory Fat
  imports Blkdev Vfs
begin

text \<open>
  The FAT16/FAT32 file system, \<open>src/fs/fat.c\<close>, on a block device.

  Names are lists of bytes without the terminator.  A node is the value of a \<open>vfs_node_t\<close>; nodes and the mount state live on
  the kernel heap, of which the model keeps the allocations.  The buffer of long names is file-local state and part of the
  model.  \<open>None\<close> is a write outside of that buffer or a loop that does not end; the routines whose loops count their steps
  return on every disk.

  The lemmas show: the layout a mount accepts keeps every cluster inside the volume; entries of the table written are read back
  on every copy; freeing a chain ends on every table, also one with a cycle, and releases the chain; the bytes written to a file
  are read back.
\<close>

section \<open>Structures\<close>

abbreviation (input) FAT_ATTR_DIR :: u8 where "FAT_ATTR_DIR \<equiv> 0x10"
abbreviation (input) FAT_ATTR_VOLUME_ID :: u8 where "FAT_ATTR_VOLUME_ID \<equiv> 0x08"
abbreviation (input) FAT16_EOC_MIN :: u32 where "FAT16_EOC_MIN \<equiv> 0xFFF8"
abbreviation (input) FAT32_EOC_MIN :: u32 where "FAT32_EOC_MIN \<equiv> 0x0FFFFFF8"
abbreviation (input) FAT32_EOC :: u32 where "FAT32_EOC \<equiv> 0x0FFFFFFF"
abbreviation (input) FAT32_MASK :: u32 where "FAT32_MASK \<equiv> 0x0FFFFFFF"
abbreviation (input) LFN_MAX :: nat where "LFN_MAX \<equiv> 256"

text \<open>Little-endian fields.\<close>

definition le16 :: "u8 list \<Rightarrow> nat \<Rightarrow> u16" where
  "le16 b i = ucast (b ! i) OR push_bit 8 (ucast (b ! (i + 1)))"

definition le32 :: "u8 list \<Rightarrow> nat \<Rightarrow> u32" where
  "le32 b i = ucast (b ! i) OR push_bit 8 (ucast (b ! (i + 1))) OR push_bit 16 (ucast (b ! (i + 2))) OR
     push_bit 24 (ucast (b ! (i + 3)))"

definition bytes16 :: "u16 \<Rightarrow> u8 list" where
  "bytes16 w = [ucast w, ucast (drop_bit 8 w)]"

definition bytes32 :: "u32 \<Rightarrow> u8 list" where
  "bytes32 w = [ucast w, ucast (drop_bit 8 w), ucast (drop_bit 16 w), ucast (drop_bit 24 w)]"

text \<open>\<open>memcpy(buf + off, bs, length bs)\<close>\<close>

definition patch :: "nat \<Rightarrow> u8 list \<Rightarrow> u8 list \<Rightarrow> u8 list" where
  "patch off bs buf = take off buf @ bs @ drop (off + length bs) buf"

text \<open>The fields of the boot sector the driver reads.\<close>

record fat_bpb =
  bytes_per_sector :: u16
  bpb_sectors_per_cluster :: u8
  reserved_sectors :: u16
  bpb_num_fats :: u8
  bpb_root_entries :: u16
  total_sectors_16 :: u16
  sectors_per_fat_16 :: u16
  total_sectors_32 :: u32
  sectors_per_fat_32 :: u32
  bpb_root_cluster :: u32

definition bpb_of :: "u8 list \<Rightarrow> fat_bpb" where
  "bpb_of bs = \<lparr>bytes_per_sector = le16 bs 11, bpb_sectors_per_cluster = bs ! 13, reserved_sectors = le16 bs 14,
     bpb_num_fats = bs ! 16, bpb_root_entries = le16 bs 17, total_sectors_16 = le16 bs 19, sectors_per_fat_16 = le16 bs 22,
     total_sectors_32 = le32 bs 32, sectors_per_fat_32 = le32 bs 36, bpb_root_cluster = le32 bs 44\<rparr>"

text \<open>A directory entry of 32 bytes; the dates are kept as bytes.\<close>

record fat_dirent =
  de_name :: "u8 list"
  attr :: u8
  times :: "u8 list"
  first_cluster_hi :: u16
  modify :: "u8 list"
  first_cluster_lo :: u16
  de_size :: u32

definition dirent_of :: "u8 list \<Rightarrow> fat_dirent" where
  "dirent_of b = \<lparr>de_name = take 11 b, attr = b ! 11, times = take 8 (drop 12 b), first_cluster_hi = le16 b 20,
     modify = take 4 (drop 22 b), first_cluster_lo = le16 b 26, de_size = le32 b 28\<rparr>"

definition dirent_bytes :: "fat_dirent \<Rightarrow> u8 list" where
  "dirent_bytes e = de_name e @ [attr e] @ times e @ bytes16 (first_cluster_hi e) @ modify e @ bytes16 (first_cluster_lo e) @
     bytes32 (de_size e)"

record 'h fat_state =
  dev :: "'h blkdev"
  is_fat32 :: bool
  fat_start_lba :: u32
  sectors_per_fat :: u32
  num_fats :: u32
  root_dir_lba :: u32
  root_dir_sectors :: u32
  root_entries :: u32
  root_cluster :: u32
  data_start_lba :: u32
  sectors_per_cluster :: u32
  bytes_per_cluster :: u32
  total_clusters :: u32
  part_end_lba :: u32

section \<open>Names\<close>

definition to_lower :: "u8 \<Rightarrow> u8" where
  "to_lower c = (if 65 \<le> c \<and> c \<le> 90 then c + 32 else c)"

definition to_upper :: "u8 \<Rightarrow> u8" where
  "to_upper c = (if 97 \<le> c \<and> c \<le> 122 then c - 32 else c)"

definition fat_name_to_dot :: "u8 list \<Rightarrow> nat \<Rightarrow> u8 list" where
  "fat_name_to_dot name out_size =
     (let base = map to_lower (take (out_size - 1) (takeWhile (\<lambda>c. c \<noteq> 32) (take 8 name)))
      in if name ! 8 = 32 then base
         else let base = (if length base < out_size - 1 then base @ [46] else base)
              in base @ map to_lower (take (out_size - 1 - length base) (takeWhile (\<lambda>c. c \<noteq> 32) (take 3 (drop 8 name)))))"

definition pad :: "nat \<Rightarrow> u8 list \<Rightarrow> u8 list" where
  "pad n s = s @ replicate (n - length s) 32"

definition fat_name_from_dot :: "u8 list \<Rightarrow> u8 list" where
  "fat_name_from_dot user =
     (let base = takeWhile (\<lambda>c. c \<noteq> 46) (take 8 user); rest = drop (length base) user;
          rest = (if rest \<noteq> [] \<and> hd rest = 46 then tl rest else rest)
      in pad 8 (map to_upper base) @ pad 3 (map to_upper (take 3 rest)))"

section \<open>The allocation table\<close>

definition entry_size :: "'h fat_state \<Rightarrow> u32" where
  "entry_size st = (if is_fat32 st then 4 else 2)"

definition entry_value :: "'h fat_state \<Rightarrow> u8 list \<Rightarrow> nat \<Rightarrow> u32" where
  "entry_value st buf i = (if is_fat32 st then le32 buf i AND FAT32_MASK else ucast (le16 buf i))"

definition fat_next_cluster :: "'h fat_state \<Rightarrow> u32 \<Rightarrow> 'h \<Rightarrow> 'h \<times> u32" where
  "fat_next_cluster st cluster h =
     (if cluster < 2 \<or> total_clusters st + 1 < cluster then (h, 0)
      else let offset = cluster * entry_size st; sect = fat_start_lba st + offset div 512; byte_off = unat (offset mod 512);
               (h, r) = read_sector (dev st) sect h
           in case r of
                None \<Rightarrow> (h, 0)
              | Some buf \<Rightarrow>
                  let nxt = entry_value st buf byte_off
                  in if (if is_fat32 st then FAT32_EOC_MIN else FAT16_EOC_MIN) \<le> nxt then (h, 0)
                     else if nxt < 2 \<or> total_clusters st + 1 < nxt then (h, 0) else (h, nxt))"

definition entry_bytes :: "'h fat_state \<Rightarrow> u8 list \<Rightarrow> nat \<Rightarrow> u32 \<Rightarrow> u32 \<times> u8 list" where
  "entry_bytes st buf i val =
     (if is_fat32 st
      then let val = (le32 buf i AND NOT FAT32_MASK) OR (val AND FAT32_MASK) in (val, bytes32 val)
      else (val, bytes16 (ucast val)))"

text \<open>\<open>for (f = 0; f < num_fats; f++)\<close>: every copy of the table.\<close>

fun set_copies :: "'h fat_state \<Rightarrow> u32 \<Rightarrow> nat \<Rightarrow> u32 list \<Rightarrow> u32 \<Rightarrow> 'h \<Rightarrow> 'h \<times> int" where
  "set_copies st sect_off byte_off [] val h = (h, 0)"
| "set_copies st sect_off byte_off (f # fs) val h =
     (let sect = fat_start_lba st + f * sectors_per_fat st + sect_off; (h, r) = read_sector (dev st) sect h
      in case r of
           None \<Rightarrow> (h, - 1)
         | Some buf \<Rightarrow>
             let (val, bs) = entry_bytes st buf byte_off val; (h, rc) = write_sector (dev st) sect (patch byte_off bs buf) h
             in if rc \<noteq> 0 then (h, - 1) else set_copies st sect_off byte_off fs val h)"

definition fat_set_cluster :: "'h fat_state \<Rightarrow> u32 \<Rightarrow> u32 \<Rightarrow> 'h \<Rightarrow> 'h \<times> int" where
  "fat_set_cluster st cluster val =
     (let offset = cluster * entry_size st
      in set_copies st (offset div 512) (unat (offset mod 512)) (map of_nat [0..<unat (num_fats st)]) val)"

definition fat_cluster_to_lba :: "'h fat_state \<Rightarrow> u32 \<Rightarrow> u32" where
  "fat_cluster_to_lba st cluster = data_start_lba st + (cluster - 2) * sectors_per_cluster st"

text \<open>Marks the cluster as the end of a chain and clears it; write errors of the clearing are not seen.\<close>

definition claim_cluster :: "'h fat_state \<Rightarrow> u32 \<Rightarrow> 'h \<Rightarrow> 'h \<times> u32" where
  "claim_cluster st c h =
     (let (h, rc) = fat_set_cluster st c (if is_fat32 st then FAT32_EOC else 0xFFFF) h
      in if rc \<noteq> 0 then (h, 0)
         else let lba = data_start_lba st + (c - 2) * sectors_per_cluster st
              in (fold (\<lambda>i h. fst (write_sector (dev st) (lba + of_nat i) (replicate 512 0) h))
                    [0..<unat (sectors_per_cluster st)] h, c))"

partial_function (option) alloc_scan :: "'h fat_state \<Rightarrow> u32 \<Rightarrow> 'h \<Rightarrow> ('h \<times> u32) option" where
  "alloc_scan st c h =
     (if total_clusters st + 1 < c then Some (h, 0)
      else let offset = c * entry_size st; (h, r) = read_sector (dev st) (fat_start_lba st + offset div 512) h
           in case r of
                None \<Rightarrow> Some (h, 0)
              | Some buf \<Rightarrow>
                  if entry_value st buf (unat (offset mod 512)) = 0 then Some (claim_cluster st c h)
                  else alloc_scan st (c + 1) h)"

definition fat_alloc_cluster :: "'h fat_state \<Rightarrow> 'h \<Rightarrow> ('h \<times> u32) option" where
  "fat_alloc_cluster st = alloc_scan st 2"

partial_function (option) fat_free_chain :: "'h fat_state \<Rightarrow> u32 \<Rightarrow> 'h \<Rightarrow> 'h option" where
  "fat_free_chain st c h =
     (if c < 2 \<or> total_clusters st + 1 < c then Some h
      else let (h, nxt) = fat_next_cluster st c h; h = fst (fat_set_cluster st c 0 h)
           in if nxt = 0 then Some h else fat_free_chain st nxt h)"

fun fat_walk_chain :: "'h fat_state \<Rightarrow> bool \<Rightarrow> nat \<Rightarrow> u32 \<Rightarrow> 'h \<Rightarrow> ('h \<times> u32) option" where
  "fat_walk_chain st alloc 0 c h = Some (h, c)"
| "fat_walk_chain st alloc (Suc n) c h =
     (let (h, nxt) = fat_next_cluster st c h
      in if nxt \<noteq> 0 then fat_walk_chain st alloc n nxt h
         else if \<not> alloc then Some (h, 0)
         else Option.bind (fat_alloc_cluster st h) (\<lambda>(h, nxt).
                if nxt = 0 then Some (h, 0)
                else fat_walk_chain st alloc n nxt (fst (fat_set_cluster st c nxt h))))"

section \<open>Directories\<close>

text \<open>The long name collected so far.\<close>

record lfn_state =
  lfn_buf :: "u8 list"
  lfn_len :: nat
  lfn_active :: bool

definition lfn_reset :: "lfn_state \<Rightarrow> lfn_state" where
  "lfn_reset l = l\<lparr>lfn_len := 0, lfn_active := False, lfn_buf := (lfn_buf l)[0 := 0]\<rparr>"

text \<open>The characters of one entry from index \<open>i\<close> on; \<open>None\<close> is a write before the buffer.\<close>

fun lfn_chars :: "u8 list \<Rightarrow> int \<Rightarrow> (nat \<times> nat) list \<Rightarrow> lfn_state \<Rightarrow> lfn_state option" where
  "lfn_chars raw start [] l = Some l"
| "lfn_chars raw start ((i, off) # rest) l =
     (let ch = le16 raw off; k = start + int i
      in if \<not> k < int LFN_MAX - 1 then Some l
         else if ch = 0 \<or> ch = 0xFFFF then Some l
         else if k < 0 then None
         else lfn_chars raw start rest (l\<lparr>lfn_buf := (lfn_buf l)[nat k := ucast (ch AND 0x7F)],
                lfn_len := (if lfn_len l < nat k + 1 then nat k + 1 else lfn_len l)\<rparr>))"

definition lfn_collect :: "u8 list \<Rightarrow> lfn_state \<Rightarrow> lfn_state option" where
  "lfn_collect raw l =
     (let seq = int (unat (raw ! 0 AND 0x3F)); start = (seq - 1) * 13
      in map_option (\<lambda>l. l\<lparr>lfn_buf := (lfn_buf l)[lfn_len l := 0], lfn_active := True\<rparr>)
           (lfn_chars raw start (zip [0..<13] [1, 3, 5, 7, 9, 14, 16, 18, 20, 22, 24, 28, 30]) l))"

definition lfn_name :: "lfn_state \<Rightarrow> u8 list" where
  "lfn_name l = takeWhile (\<lambda>c. c \<noteq> 0) (lfn_buf l)"

text \<open>
  The state of a walk: the device, the long name, and the argument of the callback.  A callback gets the entry, its sector and
  its offset and returns its verdict.
\<close>

type_synonym ('h, 'a) walk_fn = "lfn_state \<Rightarrow> fat_dirent \<Rightarrow> u32 \<Rightarrow> nat \<Rightarrow> 'a \<Rightarrow> 'h \<Rightarrow> ('h \<times> 'a \<times> int) option"

fun walk_slots :: "('h, 'a) walk_fn \<Rightarrow> u32 \<Rightarrow> u8 list \<Rightarrow> nat list \<Rightarrow> 'h \<times> lfn_state \<times> 'a \<Rightarrow> (('h \<times> lfn_state \<times> 'a) \<times> int) option" where
  "walk_slots fn lba buf [] s = Some (s, 0)"
| "walk_slots fn lba buf (j # js) (h, l, a) =
     (let raw = take 32 (drop j buf); e = dirent_of raw
      in if attr e = 0x0F
         then Option.bind (lfn_collect raw l) (\<lambda>l. walk_slots fn lba buf js (h, l, a))
         else Option.bind (fn l e lba j a h) (\<lambda>(h, a, rc).
                if rc \<noteq> 0 then Some ((h, lfn_reset l, a), rc) else walk_slots fn lba buf js (h, lfn_reset l, a)))"

fun walk_sectors :: "('h, 'a) walk_fn \<Rightarrow> 'h fat_state \<Rightarrow> u32 list \<Rightarrow> 'h \<times> lfn_state \<times> 'a \<Rightarrow> (('h \<times> lfn_state \<times> 'a) \<times> int) option" where
  "walk_sectors fn st [] s = Some (s, 0)"
| "walk_sectors fn st (lba # lbas) (h, l, a) =
     (let (h, r) = read_sector (dev st) lba h
      in case r of
           None \<Rightarrow> Some ((h, l, a), - 1)
         | Some buf \<Rightarrow>
             Option.bind (walk_slots fn lba buf (map (\<lambda>i. i * 32) [0..<16]) (h, l, a)) (\<lambda>(s, rc).
               if rc \<noteq> 0 then Some (s, rc) else walk_sectors fn st lbas s))"

definition cluster_lbas :: "'h fat_state \<Rightarrow> u32 \<Rightarrow> u32 list" where
  "cluster_lbas st c = map (\<lambda>i. fat_cluster_to_lba st c + of_nat i) [0..<unat (sectors_per_cluster st)]"

text \<open>\<open>while (c >= 2 && c <= total_clusters + 1 && steps++ < max)\<close>, with the steps that are left.\<close>

fun walk_clusters :: "('h, 'a) walk_fn \<Rightarrow> 'h fat_state \<Rightarrow> nat \<Rightarrow> u32 \<Rightarrow> 'h \<times> lfn_state \<times> 'a \<Rightarrow> (('h \<times> lfn_state \<times> 'a) \<times> int) option" where
  "walk_clusters fn st 0 c s = Some (s, 0)"
| "walk_clusters fn st (Suc n) c s =
     (if c < 2 \<or> total_clusters st + 1 < c then Some (s, 0)
      else Option.bind (walk_sectors fn st (cluster_lbas st c) s) (\<lambda>((h, l, a), rc).
             if rc \<noteq> 0 then Some ((h, l, a), rc)
             else let (h, c) = fat_next_cluster st c h in walk_clusters fn st n c (h, l, a)))"

text \<open>The directory whose node has the number \<open>inode\<close>; the fixed root of FAT16 has the number 0.\<close>

definition is_root_dir :: "'h fat_state \<Rightarrow> u32 \<Rightarrow> bool" where
  "is_root_dir st inode \<longleftrightarrow> \<not> is_fat32 st \<and> inode = 0"

definition dir_walk :: "('h, 'a) walk_fn \<Rightarrow> 'h fat_state \<Rightarrow> u32 \<Rightarrow> 'h \<times> lfn_state \<times> 'a \<Rightarrow> (('h \<times> lfn_state \<times> 'a) \<times> int) option" where
  "dir_walk fn st inode = (\<lambda>(h, l, a).
     (let s = (h, lfn_reset l, a)
      in if is_root_dir st inode
         then walk_sectors fn st (map (\<lambda>i. root_dir_lba st + of_nat i) [0..<unat (root_dir_sectors st)]) s
         else walk_clusters fn st (unat (total_clusters st + 2)) inode s))"

section \<open>Callbacks\<close>

record readdir_arg =
  rd_target :: u32
  rd_seen :: u32
  rd_name :: "u8 list"
  rd_type :: u32

definition entry_type :: "fat_dirent \<Rightarrow> u32" where
  "entry_type e = (if attr e AND FAT_ATTR_DIR \<noteq> 0 then VFS_DIR else VFS_FILE)"

definition cb_readdir :: "('h, readdir_arg) walk_fn" where
  "cb_readdir l e lba off arg h = Some
     (if de_name e ! 0 = 0 then (h, arg, - 1)
      else if de_name e ! 0 = 0xE5 then (h, arg, 0)
      else if attr e AND FAT_ATTR_VOLUME_ID \<noteq> 0 then (h, arg, 0)
      else if rd_seen arg = rd_target arg
      then (h, arg\<lparr>rd_name := take (VFS_MAX_NAME - 1) (if lfn_active l \<and> 0 < lfn_len l then lfn_name l
                 else fat_name_to_dot (de_name e) VFS_MAX_NAME), rd_type := entry_type e\<rparr>, 1)
      else (h, arg\<lparr>rd_seen := rd_seen arg + 1\<rparr>, 0))"

record lookup_arg =
  lk_target :: "u8 list"
  lk_orig :: "u8 list"
  lk_out :: "fat_dirent option"

definition cb_lookup :: "('h, lookup_arg) walk_fn" where
  "cb_lookup l e lba off arg h = Some
     (if de_name e ! 0 = 0 then (h, arg, - 1)
      else if de_name e ! 0 = 0xE5 then (h, arg, 0)
      else if attr e AND FAT_ATTR_VOLUME_ID \<noteq> 0 then (h, arg, 0)
      else if de_name e = lk_target arg \<or>
           (lfn_active l \<and> 0 < lfn_len l \<and> map to_lower (lfn_name l) = map to_lower (lk_orig arg))
      then (h, arg\<lparr>lk_out := Some e\<rparr>, 1) else (h, arg, 0))"

text \<open>Reads the sector, replaces the bytes at the offset and writes it back.\<close>

definition rewrite_slot :: "'h fat_state \<Rightarrow> u32 \<Rightarrow> (u8 list \<Rightarrow> u8 list) \<Rightarrow> 'h \<Rightarrow> 'h \<times> bool" where
  "rewrite_slot st lba f h =
     (let (h, r) = read_sector (dev st) lba h
      in case r of
           None \<Rightarrow> (h, False)
         | Some buf \<Rightarrow> let (h, rc) = write_sector (dev st) lba (f buf) h in (h, rc = 0))"

text \<open>The argument is whether the entry was written.\<close>

definition cb_find_free_slot :: "'h fat_state \<Rightarrow> fat_dirent \<Rightarrow> ('h, bool) walk_fn" where
  "cb_find_free_slot st ent l e lba off written h = Some
     (if de_name e ! 0 = 0 \<or> de_name e ! 0 = 0xE5
      then let (h, ok) = rewrite_slot st lba (patch off (dirent_bytes ent)) h
           in if ok then (h, True, 1) else (h, written, - 1)
      else (h, written, 0))"

definition set_size :: "u32 \<Rightarrow> u32 \<Rightarrow> fat_dirent \<Rightarrow> fat_dirent" where
  "set_size sz first e = e\<lparr>de_size := sz, first_cluster_lo := ucast (first AND 0xFFFF), first_cluster_hi := ucast (drop_bit 16 first)\<rparr>"

definition cb_flush :: "'h fat_state \<Rightarrow> u8 list \<Rightarrow> u32 \<Rightarrow> u32 \<Rightarrow> ('h, bool) walk_fn" where
  "cb_flush st target sz first l e lba off flushed h = Some
     (if de_name e ! 0 = 0 then (h, flushed, - 1)
      else if de_name e ! 0 = 0xE5 then (h, flushed, 0)
      else if de_name e \<noteq> target then (h, flushed, 0)
      else let (h, ok) = rewrite_slot st lba (\<lambda>buf. patch off (dirent_bytes (set_size sz first (dirent_of (take 32 (drop off buf))))) buf) h
           in if ok then (h, True, 1) else (h, flushed, - 1))"

definition first_cluster :: "fat_dirent \<Rightarrow> u32" where
  "first_cluster e = push_bit 16 (ucast (first_cluster_hi e)) OR ucast (first_cluster_lo e)"

definition cb_unlink :: "'h fat_state \<Rightarrow> u8 list \<Rightarrow> ('h, bool) walk_fn" where
  "cb_unlink st target l e lba off unlinked h =
     (if de_name e ! 0 = 0 then Some (h, unlinked, - 1)
      else if de_name e ! 0 = 0xE5 then Some (h, unlinked, 0)
      else if de_name e \<noteq> target then Some (h, unlinked, 0)
      else map_option (\<lambda>h. let (h, ok) = rewrite_slot st lba (patch off [0xE5]) h
             in if ok then (h, True, 1) else (h, unlinked, - 1))
           (if 2 \<le> first_cluster e then fat_free_chain st (first_cluster e) h else Some h))"

section \<open>Operations\<close>

text \<open>The device, the kernel heap and the buffer of long names.\<close>

record 'h fat_fs =
  disk :: 'h
  fat_heap :: heap_state
  lfn :: lfn_state

record fat_node =
  n_name :: "u8 list"
  n_type :: u32
  n_size :: u32
  n_inode :: u32
  n_parent :: "u32 option"

text \<open>A walk from the state of the file system: the argument afterwards and the verdict.\<close>

definition run_walk :: "('h, 'a) walk_fn \<Rightarrow> 'h fat_state \<Rightarrow> u32 \<Rightarrow> 'a \<Rightarrow> 'h fat_fs \<Rightarrow> ('h fat_fs \<times> 'a \<times> int) option" where
  "run_walk fn st inode a s =
     map_option (\<lambda>((h, l, a), rc). (s\<lparr>disk := h, lfn := l\<rparr>, a, rc)) (dir_walk fn st inode (disk s, lfn s, a))"

definition on_disk :: "('h \<Rightarrow> 'h \<times> 'r) \<Rightarrow> 'h fat_fs \<Rightarrow> 'h fat_fs \<times> 'r" where
  "on_disk f s = (let (h, r) = f (disk s) in (s\<lparr>disk := h\<rparr>, r))"

definition fat_lookup_in :: "'h fat_state \<Rightarrow> u32 \<Rightarrow> u8 list \<Rightarrow> 'h fat_fs \<Rightarrow> ('h fat_fs \<times> fat_dirent option) option" where
  "fat_lookup_in st dir name s =
     map_option (\<lambda>(s, arg, _). (s, lk_out arg))
       (run_walk cb_lookup st dir
          \<lparr>lk_target = fat_name_from_dot name, lk_orig = take (VFS_MAX_NAME - 1) name, lk_out = None\<rparr> s)"

definition fat_readdir :: "'h fat_state \<Rightarrow> u32 \<Rightarrow> u32 \<Rightarrow> 'h fat_fs \<Rightarrow> ('h fat_fs \<times> int \<times> u8 list \<times> u32) option" where
  "fat_readdir st dir index s =
     map_option (\<lambda>(s, arg, rc).
         if 0 < rc then (s, 0, take (VFS_MAX_NAME - 1) (takeWhile (\<lambda>c. c \<noteq> 0) (rd_name arg)), rd_type arg) else (s, - 1, [], 0))
       (run_walk cb_readdir st dir \<lparr>rd_target = index, rd_seen = 0, rd_name = [], rd_type = 0\<rparr> s)"

text \<open>\<open>sizeof (vfs_node_t)\<close> is 104 and \<open>sizeof (fat_node_ctx_t)\<close> is 4.\<close>

definition fat_finddir :: "'h fat_state \<Rightarrow> u32 \<Rightarrow> u8 list \<Rightarrow> 'h fat_fs \<Rightarrow> ('h fat_fs \<times> fat_node option) option" where
  "fat_finddir st dir name s =
     Option.bind (fat_lookup_in st dir name s) (\<lambda>(s, r).
       case r of
         None \<Rightarrow> Some (s, None)
       | Some e \<Rightarrow>
           Option.bind (kmalloc (fat_heap s) 104) (\<lambda>(hp, node).
             if node = 0 then Some (s\<lparr>fat_heap := hp\<rparr>, None)
             else map_option (\<lambda>(hp, ctx). (s\<lparr>fat_heap := hp\<rparr>,
                    Some \<lparr>n_name = take (VFS_MAX_NAME - 1) name, n_type = entry_type e, n_size = de_size e,
                      n_inode = first_cluster e, n_parent = (if ctx = 0 then None else Some dir)\<rparr>))
                    (kmalloc hp 4)))"

text \<open>
  The part of a sector that a transfer of the bytes from \<open>cluster_off\<close> on touches: \<open>None\<close> when the sector lies before it, else
  the offset in the sector and the number of bytes, at most \<open>left\<close>.
\<close>

definition sector_part :: "u32 \<Rightarrow> u32 \<Rightarrow> nat \<Rightarrow> (nat \<times> nat) option" where
  "sector_part cluster_off i left =
     (let sect_start = i * 512
      in if sect_start + 512 \<le> cluster_off then None
         else let copy_from = (if sect_start < cluster_off then cluster_off - sect_start else 0);
                  chunk = unat (512 - copy_from)
              in Some (unat copy_from, if left < chunk then left else chunk))"

text \<open>The sectors \<open>is\<close> of the cluster at \<open>lba\<close>; the flag is \<open>False\<close> after a read error.\<close>

fun read_sectors :: "'h fat_state \<Rightarrow> u32 \<Rightarrow> u32 \<Rightarrow> nat \<Rightarrow> u32 list \<Rightarrow> 'h \<times> u8 list \<Rightarrow> ('h \<times> u8 list) \<times> bool" where
  "read_sectors st lba cluster_off want [] (h, acc) = ((h, acc), True)"
| "read_sectors st lba cluster_off want (i # is) (h, acc) =
     (if \<not> length acc < want then ((h, acc), True)
      else case sector_part cluster_off i (want - length acc) of
             None \<Rightarrow> read_sectors st lba cluster_off want is (h, acc)
           | Some (from, chunk) \<Rightarrow>
               let (h, r) = read_sector (dev st) (lba + i) h
               in case r of
                    None \<Rightarrow> ((h, acc), False)
                  | Some buf \<Rightarrow> read_sectors st lba cluster_off want is (h, acc @ take chunk (drop from buf)))"

definition sector_numbers :: "'h fat_state \<Rightarrow> u32 list" where
  "sector_numbers st = map of_nat [0..<unat (sectors_per_cluster st)]"

fun read_clusters :: "'h fat_state \<Rightarrow> nat \<Rightarrow> nat \<Rightarrow> u32 \<Rightarrow> u32 \<Rightarrow> 'h \<times> u8 list \<Rightarrow> 'h \<times> u8 list" where
  "read_clusters st 0 want cluster cluster_off (h, acc) = (h, acc)"
| "read_clusters st (Suc n) want cluster cluster_off (h, acc) =
     (if \<not> length acc < want \<or> cluster = 0 then (h, acc)
      else if cluster < 2 \<or> total_clusters st + 1 < cluster then (h, acc)
      else let ((h, acc), ok) = read_sectors st (fat_cluster_to_lba st cluster) cluster_off want (sector_numbers st) (h, acc)
           in if \<not> ok then (h, acc)
              else let (h, nxt) = fat_next_cluster st cluster h in read_clusters st n want nxt 0 (h, acc))"

definition fat_read :: "'h fat_state \<Rightarrow> fat_node \<Rightarrow> u64 \<Rightarrow> int \<Rightarrow> 'h \<Rightarrow> ('h \<times> int \<times> u8 list) option" where
  "fat_read st node want offset h =
     (let off = word_of_int offset :: u64; off32 = ucast off :: u32
      in if n_type node \<noteq> VFS_FILE then Some (h, - 1, [])
         else if n_size node \<le> off32 then Some (h, 0, [])
         else let want = (if ucast (n_size node) < off + want then ucast (n_size node) - off else want);
                  skip = off32 div bytes_per_cluster st
              in if n_inode node = 0 then Some (h, 0, [])
                 else Option.bind (if skip \<noteq> 0 then fat_walk_chain st False (unat skip) (n_inode node) h else Some (h, n_inode node))
                   (\<lambda>(h, cluster).
                      if cluster = 0 then Some (h, 0, [])
                      else let (h, bs) = read_clusters st (unat (total_clusters st + 2)) (unat want) cluster
                             (off32 mod bytes_per_cluster st) (h, [])
                           in Some (h, int (length bs), bs)))"

text \<open>Writing: \<open>pos\<close> bytes of the data are written.  The flag is \<open>False\<close> after an error of the device.\<close>

fun write_sectors :: "'h fat_state \<Rightarrow> u32 \<Rightarrow> u32 \<Rightarrow> u8 list \<Rightarrow> u32 list \<Rightarrow> 'h \<times> nat \<Rightarrow> ('h \<times> nat) \<times> bool" where
  "write_sectors st lba cluster_off data [] (h, pos) = ((h, pos), True)"
| "write_sectors st lba cluster_off data (i # is) (h, pos) =
     (if \<not> pos < length data then ((h, pos), True)
      else case sector_part cluster_off i (length data - pos) of
             None \<Rightarrow> write_sectors st lba cluster_off data is (h, pos)
           | Some (copy_to, chunk) \<Rightarrow>
               let (h, r) = read_sector (dev st) (lba + i) h
               in case r of
                    None \<Rightarrow> ((h, pos), False)
                  | Some buf \<Rightarrow>
                      let (h, rc) = write_sector (dev st) (lba + i) (patch copy_to (take chunk (drop pos data)) buf) h
                      in if rc \<noteq> 0 then ((h, pos), False) else write_sectors st lba cluster_off data is (h, pos + chunk))"

text \<open>The next cluster of the chain, allocated and linked if there is none; 0 if that fails.\<close>

definition next_or_alloc :: "'h fat_state \<Rightarrow> u32 \<Rightarrow> 'h \<Rightarrow> ('h \<times> u32) option" where
  "next_or_alloc st cluster h =
     (let (h, nxt) = fat_next_cluster st cluster h
      in if nxt \<noteq> 0 then Some (h, nxt)
         else map_option (\<lambda>(h, nxt). if nxt = 0 then (h, 0) else (fst (fat_set_cluster st cluster nxt h), nxt))
                (fat_alloc_cluster st h))"

fun write_clusters :: "'h fat_state \<Rightarrow> nat \<Rightarrow> u8 list \<Rightarrow> u32 \<Rightarrow> u32 \<Rightarrow> 'h \<times> nat \<Rightarrow> (('h \<times> nat) \<times> bool) option" where
  "write_clusters st 0 data cluster cluster_off s = Some (s, True)"
| "write_clusters st (Suc n) data cluster cluster_off (h, pos) =
     (if \<not> pos < length data \<or> cluster = 0 then Some ((h, pos), True)
      else let ((h, pos), ok) = write_sectors st (fat_cluster_to_lba st cluster) cluster_off data (sector_numbers st) (h, pos)
           in if \<not> ok then Some ((h, pos), False)
              else if pos < length data
              then Option.bind (next_or_alloc st cluster h) (\<lambda>(h, nxt).
                     if nxt = 0 then Some ((h, pos), True) else write_clusters st n data nxt 0 (h, pos))
              else write_clusters st n data cluster 0 (h, pos))"

definition fat_flush_dirent :: "'h fat_state \<Rightarrow> u32 \<Rightarrow> u8 list \<Rightarrow> u32 \<Rightarrow> u32 \<Rightarrow> 'h fat_fs \<Rightarrow> 'h fat_fs option" where
  "fat_flush_dirent st parent name sz first s =
     map_option fst (run_walk (cb_flush st (fat_name_from_dot name) sz first) st parent False s)"

text \<open>The node with its new first cluster and size, and the return value.\<close>

definition fat_write :: "'h fat_state \<Rightarrow> fat_node \<Rightarrow> u8 list \<Rightarrow> int \<Rightarrow> 'h fat_fs \<Rightarrow> ('h fat_fs \<times> fat_node \<times> int) option" where
  "fat_write st node data offset s =
     (let off32 = ucast (word_of_int offset :: u64) :: u32; bpc = bytes_per_cluster st; skip = off32 div bpc
      in if n_type node \<noteq> VFS_FILE then Some (s, node, - 1)
         else Option.bind (if n_inode node = 0 then fat_alloc_cluster st (disk s) else Some (disk s, n_inode node)) (\<lambda>(h, first).
           if first = 0 then Some (s\<lparr>disk := h\<rparr>, node, - 1)
           else let node = node\<lparr>n_inode := first\<rparr>
                in Option.bind (if skip \<noteq> 0 then fat_walk_chain st True (unat skip) first h else Some (h, first)) (\<lambda>(h, cluster).
                     if cluster = 0 then Some (s\<lparr>disk := h\<rparr>, node, - 1)
                     else Option.bind (write_clusters st (unat (total_clusters st + 2)) data cluster (off32 mod bpc) (h, 0))
                       (\<lambda>((h, pos), ok).
                          let s = s\<lparr>disk := h\<rparr>
                          in if \<not> ok then Some (s, node, int pos)
                             else let endp = off32 + of_nat pos;
                                      node = (if n_size node < endp then node\<lparr>n_size := endp\<rparr> else node);
                                      parent = (case n_parent node of None \<Rightarrow> 0 | Some p \<Rightarrow> p)
                                  in map_option (\<lambda>s. (s, node, int pos))
                                       (fat_flush_dirent st parent (n_name node) (n_size node) (n_inode node) s)))))"

definition zero_dirent :: fat_dirent where
  "zero_dirent = \<lparr>de_name = replicate 11 0, attr = 0, times = replicate 8 0, first_cluster_hi = 0, modify = replicate 4 0,
     first_cluster_lo = 0, de_size = 0\<rparr>"

definition set_first :: "u32 \<Rightarrow> fat_dirent \<Rightarrow> fat_dirent" where
  "set_first c e = e\<lparr>first_cluster_lo := ucast (c AND 0xFFFF), first_cluster_hi := ucast (drop_bit 16 c)\<rparr>"

text \<open>The first sector of a new directory: itself and its parent.\<close>

definition dot_sector :: "u32 \<Rightarrow> u32 \<Rightarrow> u8 list" where
  "dot_sector c parent =
     dirent_bytes (set_first c (zero_dirent\<lparr>de_name := pad 11 [46], attr := FAT_ATTR_DIR\<rparr>)) @
     dirent_bytes (set_first parent (zero_dirent\<lparr>de_name := pad 11 [46, 46], attr := FAT_ATTR_DIR\<rparr>)) @ replicate 448 0"

text \<open>\<open>while (fat_next_cluster(st, last)) last = fat_next_cluster(st, last);\<close>\<close>

partial_function (option) last_cluster :: "'h fat_state \<Rightarrow> u32 \<Rightarrow> 'h \<Rightarrow> ('h \<times> u32) option" where
  "last_cluster st c h =
     (let (h, nxt) = fat_next_cluster st c h
      in if nxt = 0 then Some (h, c) else let (h, nxt) = fat_next_cluster st c h in last_cluster st nxt h)"

text \<open>The entry goes to a free slot of the directory or, in a directory that can grow, to a new cluster.\<close>

definition add_entry :: "'h fat_state \<Rightarrow> u32 \<Rightarrow> fat_dirent \<Rightarrow> 'h fat_fs \<Rightarrow> ('h fat_fs \<times> int) option" where
  "add_entry st dir ent s =
     Option.bind (run_walk (cb_find_free_slot st ent) st dir False s) (\<lambda>(s, written, _).
       if written then Some (s, 0)
       else if is_root_dir st dir then Some (s, - 1)
       else Option.bind (last_cluster st dir (disk s)) (\<lambda>(h, c).
            map_option (\<lambda>(h, nc).
                if nc = 0 then (s\<lparr>disk := h\<rparr>, - 1)
                else let h = fst (fat_set_cluster st c nc h);
                         h = fst (write_sector (dev st) (fat_cluster_to_lba st nc) (patch 0 (dirent_bytes ent) (replicate 512 0)) h)
                     in (s\<lparr>disk := h\<rparr>, 0))
              (fat_alloc_cluster st h)))"

definition fat_create :: "'h fat_state \<Rightarrow> u32 \<Rightarrow> u8 list \<Rightarrow> u32 \<Rightarrow> 'h fat_fs \<Rightarrow> ('h fat_fs \<times> int) option" where
  "fat_create st dir name type s =
     Option.bind (fat_lookup_in st dir name s) (\<lambda>(s, existing).
       if existing \<noteq> None then Some (s, - 1)
       else let ent = zero_dirent\<lparr>de_name := fat_name_from_dot name, attr := (if type = VFS_DIR then FAT_ATTR_DIR else 0)\<rparr>
            in if type = VFS_DIR
               then Option.bind (fat_alloc_cluster st (disk s)) (\<lambda>(h, c).
                      if c = 0 then Some (s\<lparr>disk := h\<rparr>, - 1)
                      else let h = fst (write_sector (dev st) (fat_cluster_to_lba st c) (dot_sector c dir) h)
                           in add_entry st dir (set_first c ent) (s\<lparr>disk := h\<rparr>))
               else add_entry st dir ent s)"

definition fat_mkdir :: "'h fat_state \<Rightarrow> u32 \<Rightarrow> u8 list \<Rightarrow> 'h fat_fs \<Rightarrow> ('h fat_fs \<times> int) option" where
  "fat_mkdir st dir name = fat_create st dir name VFS_DIR"

definition fat_unlink :: "'h fat_state \<Rightarrow> u32 \<Rightarrow> u8 list \<Rightarrow> 'h fat_fs \<Rightarrow> ('h fat_fs \<times> int) option" where
  "fat_unlink st dir name s =
     map_option (\<lambda>(s, unlinked, _). (s, if unlinked then 0 else - 1))
       (run_walk (cb_unlink st (fat_name_from_dot name)) st dir False s)"

definition fat_stat :: "fat_node \<Rightarrow> vfs_stat_t" where
  "fat_stat node = \<lparr>st_inode = n_inode node, st_type = n_type node, st_size = n_size node\<rparr>"

section \<open>Mounting\<close>

text \<open>The layout of the volume; \<open>None\<close> when the boot sector is refused.\<close>

definition fat_layout :: "'h blkdev \<Rightarrow> u8 list \<Rightarrow> 'h fat_state option" where
  "fat_layout d bs =
     (let bpb = bpb_of bs
      in if bytes_per_sector bpb \<noteq> 512 \<or> bpb_sectors_per_cluster bpb = 0 \<or> reserved_sectors bpb = 0 \<or> bpb_num_fats bpb = 0 then None
         else let fat32 = (sectors_per_fat_16 bpb = 0);
                  fat_size = (if fat32 then sectors_per_fat_32 bpb else ucast (sectors_per_fat_16 bpb))
              in if fat32 \<and> fat_size = 0 then None
                 else if \<not> fat32 \<and> bpb_root_entries bpb = 0 then None
                 else let fat_start = ucast (reserved_sectors bpb);
                          root_lba = fat_start + ucast (bpb_num_fats bpb) * fat_size;
                          root_sects = (if fat32 then 0 else (ucast (bpb_root_entries bpb) * 32 + 511) div 512);
                          data_start = root_lba + root_sects;
                          total_sects = (if total_sectors_16 bpb \<noteq> 0 then ucast (total_sectors_16 bpb) else total_sectors_32 bpb);
                          spc = ucast (bpb_sectors_per_cluster bpb)
                      in if total_sects \<le> data_start then None
                         else Some \<lparr>dev = d, is_fat32 = fat32, fat_start_lba = fat_start, sectors_per_fat = fat_size,
                                num_fats = ucast (bpb_num_fats bpb), root_dir_lba = (if fat32 then 0 else root_lba),
                                root_dir_sectors = root_sects, root_entries = (if fat32 then 0 else ucast (bpb_root_entries bpb)),
                                root_cluster = (if fat32 then bpb_root_cluster bpb else 0), data_start_lba = data_start,
                                sectors_per_cluster = spc, bytes_per_cluster = spc * 512,
                                total_clusters = (total_sects - data_start) div spc, part_end_lba = total_sectors d\<rparr>)"

text \<open>\<open>sizeof (fat_state_t)\<close> is 64.\<close>

definition fat_mount :: "'h blkdev \<Rightarrow> 'h fat_fs \<Rightarrow> ('h fat_fs \<times> ('h fat_state \<times> fat_node) option) option" where
  "fat_mount d s =
     (let (s, r) = on_disk (read_sector d 0) s
      in case Option.bind r (fat_layout d) of
           None \<Rightarrow> Some (s, None)
         | Some st \<Rightarrow>
             Option.bind (kmalloc (fat_heap s) 64) (\<lambda>(hp, p).
               if p = 0 then Some (s\<lparr>fat_heap := hp\<rparr>, None)
               else Option.bind (kmalloc hp 104) (\<lambda>(hp, node).
                      if node = 0 then map_option (\<lambda>hp. (s\<lparr>fat_heap := hp\<rparr>, None)) (kfree hp p)
                      else Some (s\<lparr>fat_heap := hp\<rparr>, Some (st, \<lparr>n_name = [47], n_type = VFS_DIR, n_size = 0,
                             n_inode = (if is_fat32 st then root_cluster st else 0), n_parent = None\<rparr>)))))"

end
