(* ===== verification/Fat_Table.thy ===== *)
theory Fat_Table
  imports Fat
begin

text \<open>
  The layout and the allocation table of a FAT volume: what a successful mount guarantees, what an update of the table does to
  every copy of it, and that freeing a chain ends on every table.
\<close>

section \<open>Layout\<close>

definition valid_cluster :: "'h fat_state \<Rightarrow> u32 \<Rightarrow> bool" where
  "valid_cluster st c \<longleftrightarrow> 2 \<le> c \<and> c \<le> total_clusters st + 1"

text \<open>What the driver needs of the sizes, for a volume of \<open>n\<close> sectors: nothing wraps around and the clusters end inside.\<close>

definition layout_ok :: "'h fat_state \<Rightarrow> nat \<Rightarrow> bool" where
  "layout_ok st n \<longleftrightarrow> 0 < unat (sectors_per_cluster st) \<and> unat (sectors_per_cluster st) < 256 \<and>
     bytes_per_cluster st = sectors_per_cluster st * 512 \<and> 0 < unat (num_fats st) \<and> unat (num_fats st) < 256 \<and>
     0 < fat_start_lba st \<and> 0 < sectors_per_fat st \<and>
     unat (data_start_lba st) + unat (total_clusters st) * unat (sectors_per_cluster st) \<le> n \<and> n < 2 ^ 32"

text \<open>The size of the volume in its boot sector.\<close>

definition volume_sectors :: "u8 list \<Rightarrow> nat" where
  "volume_sectors bs = (let bpb = bpb_of bs
     in if total_sectors_16 bpb \<noteq> 0 then unat (total_sectors_16 bpb) else unat (total_sectors_32 bpb))"

lemma unat_ucast_u16 [simp]: "unat (ucast (x :: u16) :: u32) = unat x"
  using unsigned_less [of x, where 'a = nat] by (simp add: unsigned_ucast_eq take_bit_nat_eq_self)

lemma ucast_u16_zero: "(ucast (x :: u16) :: u32) = 0 \<longleftrightarrow> x = 0"
  by (metis unat_eq_0 unat_ucast_u16)

lemma fat_layout_ok:
  assumes "fat_layout d bs = Some st"
  shows "layout_ok st (volume_sectors bs)" "dev st = d"
proof -
  define bpb where "bpb = bpb_of bs"
  define total where "total = (if total_sectors_16 bpb \<noteq> 0 then ucast (total_sectors_16 bpb) else total_sectors_32 bpb)"
  have st: "sectors_per_cluster st = ucast (bpb_sectors_per_cluster bpb)" "bpb_sectors_per_cluster bpb \<noteq> 0"
    "bytes_per_cluster st = sectors_per_cluster st * 512" "num_fats st = ucast (bpb_num_fats bpb)" "bpb_num_fats bpb \<noteq> 0"
    "fat_start_lba st = ucast (reserved_sectors bpb)" "reserved_sectors bpb \<noteq> 0" "sectors_per_fat st \<noteq> 0"
    "\<not> total \<le> data_start_lba st" "total_clusters st = (total - data_start_lba st) div sectors_per_cluster st" "dev st = d"
    using assms by (auto simp: fat_layout_def Let_def bpb_def total_def ucast_u16_zero split: if_splits)
  have small: "unat (ucast x :: u32) = unat x" "unat x < 256" for x :: u8
    using unsigned_less [of x, where 'a = nat] by (simp_all add: unsigned_ucast_eq take_bit_nat_eq_self)
  have pos: "unat x \<noteq> 0 \<longleftrightarrow> x \<noteq> 0" for x :: u8 by (simp add: unat_eq_0)
  have "unat (total_clusters st) * unat (sectors_per_cluster st) \<le> unat (total - data_start_lba st)"
    unfolding st(10) unat_div_distrib by simp
  also have "\<dots> = unat total - unat (data_start_lba st)" using st(9) by (intro unat_minus_no_wrap) (simp add: word_le_nat_alt)
  finally have "unat (data_start_lba st) + unat (total_clusters st) * unat (sectors_per_cluster st) \<le> unat total"
    using st(9) by (simp add: word_le_nat_alt)
  moreover have "unat total < 2 ^ 32" using unsigned_less [of total, where 'a = nat] by simp
  moreover have "0 < fat_start_lba st" using st(6,7) by (simp add: word_neq_0_conv [symmetric] ucast_u16_zero)
  moreover have "0 < sectors_per_fat st" using st(8) by (simp add: word_neq_0_conv)
  ultimately have "layout_ok st (unat total)"
    unfolding layout_ok_def using st(1-5) small pos by auto
  moreover have "unat total = volume_sectors bs"
    by (simp add: total_def volume_sectors_def bpb_def Let_def)
  ultimately show "layout_ok st (volume_sectors bs)" by simp
  show "dev st = d" by (rule st(11))
qed

lemma valid_cluster_iff: "valid_cluster st c \<longleftrightarrow> \<not> c < 2 \<and> \<not> total_clusters st + 1 < c"
  by (auto simp: valid_cluster_def)

lemma valid_cluster_nat:
  assumes "valid_cluster st c"
  shows "2 \<le> unat c" "unat c \<le> unat (total_clusters st) + 1" "unat (c - 2) = unat c - 2"
proof -
  have le: "2 \<le> c" "c \<le> total_clusters st + 1" using assms by (simp_all add: valid_cluster_def)
  show two: "2 \<le> unat c" using le(1) by (simp add: word_le_nat_alt)
  have "total_clusters st + 1 \<noteq> 0" using le by (auto simp: word_le_nat_alt)
  then have "unat (total_clusters st + 1) = unat (total_clusters st) + 1" by (metis Suc_eq_plus1 add.commute unatSuc)
  then show "unat c \<le> unat (total_clusters st) + 1" using le(2) by (simp add: word_le_nat_alt)
  show "unat (c - 2) = unat c - 2" using unat_minus_no_wrap [of 2 c] two by simp
qed

text \<open>Every cluster lies behind the tables and inside the volume, and different clusters have different sectors.\<close>

lemma cluster_lba:
  assumes "layout_ok st n" "valid_cluster st c"
  shows "unat (fat_cluster_to_lba st c) = unat (data_start_lba st) + (unat c - 2) * unat (sectors_per_cluster st)"
    "unat (fat_cluster_to_lba st c) + unat (sectors_per_cluster st) \<le> n"
proof -
  let ?d = "unat (data_start_lba st)" and ?s = "unat (sectors_per_cluster st)" and ?t = "unat (total_clusters st)"
  note v = valid_cluster_nat [OF assms(2)]
  have "(unat c - 2 + 1) * ?s \<le> ?t * ?s" by (rule mult_le_mono1) (use v in linarith)
  then have le: "?d + (unat c - 2) * ?s + ?s \<le> n" "n < 2 ^ 32" using assms(1) by (simp_all add: layout_ok_def)
  have "unat ((c - 2) * sectors_per_cluster st) = (unat c - 2) * ?s"
    using le by (simp add: v(3) unat_mult_lem [THEN iffD1])
  then show lba: "unat (fat_cluster_to_lba st c) = ?d + (unat c - 2) * ?s"
    unfolding fat_cluster_to_lba_def using le by (subst unat_plus_no_wrap) simp_all
  show "unat (fat_cluster_to_lba st c) + ?s \<le> n" using le lba by simp
qed

section \<open>Fields in sectors\<close>

lemma length_patch [simp]: "i + length bs \<le> length buf \<Longrightarrow> length (patch i bs buf) = length buf"
  by (simp add: patch_def)

lemma nth_patch:
  assumes "i + length bs \<le> length buf"
  shows "patch i bs buf ! j = (if i \<le> j \<and> j < i + length bs then bs ! (j - i) else buf ! j)"
  using assms by (auto simp: patch_def nth_append not_less)

lemma byte_of_or:
  "ucast (ucast (a :: u8) OR push_bit 8 (x :: u32)) = a"
  by (rule bit_word_eqI) (auto simp: bit_or_iff bit_push_bit_iff bit_ucast_iff)

lemma le16_bytes16: "le16 (patch i (bytes16 w) buf) i = w" if "i + 2 \<le> length buf"
proof -
  have "le16 (patch i (bytes16 w) buf) i = ucast (ucast w :: u8) OR push_bit 8 (ucast (ucast (drop_bit 8 w) :: u8))"
    using that by (simp add: le16_def nth_patch bytes16_def)
  also have "\<dots> = w"
    by (rule bit_word_eqI) (auto simp: bit_or_iff bit_push_bit_iff bit_ucast_iff bit_drop_bit_eq)
  finally show ?thesis .
qed

lemma quarter: "bit (push_bit s (ucast (ucast (drop_bit s (w :: u32)) :: u8) :: u32)) n \<longleftrightarrow> s \<le> n \<and> n < s + 8 \<and> bit w n"
  by (auto simp: bit_push_bit_iff bit_ucast_iff bit_drop_bit_eq dest: bit_imp_le_length)

lemma le32_bytes32: "le32 (patch i (bytes32 w) buf) i = w" if "i + 4 \<le> length buf"
proof (rule bit_word_eqI)
  fix n assume n: "n < LENGTH(32)"
  have eq: "le32 (patch i (bytes32 w) buf) i = push_bit 0 (ucast (ucast (drop_bit 0 w) :: u8)) OR push_bit 8 (ucast (ucast (drop_bit 8 w) :: u8)) OR
      push_bit 16 (ucast (ucast (drop_bit 16 w) :: u8)) OR push_bit 24 (ucast (ucast (drop_bit 24 w) :: u8))"
    using that by (simp add: le32_def nth_patch bytes32_def)
  consider "n < 8" | "8 \<le> n" "n < 16" | "16 \<le> n" "n < 24" | "24 \<le> n" by linarith
  then show "bit (le32 (patch i (bytes32 w) buf) i) n \<longleftrightarrow> bit w n"
    unfolding eq bit_or_iff quarter using n by cases auto
qed

lemma le16_other: "i + length bs \<le> length buf \<Longrightarrow> j + 2 \<le> i \<or> i + length bs \<le> j \<Longrightarrow> le16 (patch i bs buf) j = le16 buf j"
  by (auto simp: le16_def nth_patch)

lemma le32_other: "i + length bs \<le> length buf \<Longrightarrow> j + 4 \<le> i \<or> i + length bs \<le> j \<Longrightarrow> le32 (patch i bs buf) j = le32 buf j"
  by (auto simp: le32_def nth_patch)

section \<open>Updates of the table\<close>

text \<open>The bytes an entry takes, its place in the table, and the value stored for it.\<close>

definition width :: "'h fat_state \<Rightarrow> nat" where
  "width st = (if is_fat32 st then 4 else 2)"

definition stored :: "'h fat_state \<Rightarrow> u32 \<Rightarrow> u32" where
  "stored st v = (if is_fat32 st then v AND FAT32_MASK else ucast (ucast v :: u16))"

definition new_sector :: "'h fat_state \<Rightarrow> nat \<Rightarrow> u32 \<Rightarrow> u8 list \<Rightarrow> u8 list" where
  "new_sector st i v buf = patch i (snd (entry_bytes st buf i v)) buf"

lemma merge_masked: "((x AND NOT m) OR (v AND m)) AND m = v AND (m :: u32)"
  by (rule bit_word_eqI) (auto simp: bit_and_iff bit_or_iff bit_not_iff)

lemma entry_bytes_twice: "snd (entry_bytes st buf i (fst (entry_bytes st buf' i v))) = snd (entry_bytes st buf i v)"
proof (cases "is_fat32 st")
  case True
  then show ?thesis unfolding entry_bytes_def Let_def by (simp only: if_True fst_conv snd_conv merge_masked)
qed (simp add: entry_bytes_def)

lemma length_entry_bytes: "length (snd (entry_bytes st buf i v)) = width st"
  by (simp add: entry_bytes_def width_def bytes16_def bytes32_def Let_def)

lemma length_new_sector: "i + width st \<le> length buf \<Longrightarrow> length (new_sector st i v buf) = length buf"
  by (simp add: new_sector_def length_entry_bytes)

lemma entry_new_sector:
  assumes "i + width st \<le> length buf"
  shows "entry_value st (new_sector st i v buf) i = stored st v"
    "j + width st \<le> i \<or> i + width st \<le> j \<Longrightarrow> entry_value st (new_sector st i v buf) j = entry_value st buf j"
proof -
  show "entry_value st (new_sector st i v buf) i = stored st v"
  proof (cases "is_fat32 st")
    case True
    then have "i + 4 \<le> length buf" using assms by (simp add: width_def)
    with True show ?thesis
      unfolding entry_value_def new_sector_def stored_def entry_bytes_def Let_def
      by (simp only: if_True snd_conv le32_bytes32 merge_masked)
  next
    case False
    with assms show ?thesis by (simp add: entry_value_def new_sector_def stored_def entry_bytes_def width_def le16_bytes16)
  qed
  show "entry_value st (new_sector st i v buf) j = entry_value st buf j" if "j + width st \<le> i \<or> i + width st \<le> j"
    using assms that length_entry_bytes [of st buf i v] unfolding entry_value_def new_sector_def
    by (auto simp: width_def le32_other le16_other split: if_splits)
qed

definition table_end :: "'h fat_state \<Rightarrow> nat" where
  "table_end st = unat (fat_start_lba st) + unat (num_fats st) * unat (sectors_per_fat st)"

text \<open>
  A volume on a device: the volume ends inside the device, the tables have room for every cluster, the fixed root directory
  lies between the tables and the data, and no cluster has the number of an end mark.
\<close>

definition volume_ok :: "'h fat_state \<Rightarrow> bool" where
  "volume_ok st \<longleftrightarrow> layout_ok st (unat (total_sectors (dev st))) \<and>
     (unat (total_clusters st) + 2) * width st \<le> unat (sectors_per_fat st) * 512 \<and>
     table_end st \<le> unat (data_start_lba st) \<and>
     (\<not> is_fat32 st \<longrightarrow> table_end st \<le> unat (root_dir_lba st) \<and>
        unat (root_dir_lba st) + unat (root_dir_sectors st) \<le> unat (data_start_lba st)) \<and>
     unat (total_clusters st) + 1 < (if is_fat32 st then 0x0FFFFFF8 else 0xFFF8)"

text \<open>The sector of copy \<open>f\<close> of the table with the entry of a cluster, and where in it the entry starts.\<close>

definition entry_sector :: "'h fat_state \<Rightarrow> nat \<Rightarrow> u32 \<Rightarrow> u32" where
  "entry_sector st f c = fat_start_lba st + of_nat f * sectors_per_fat st + c * entry_size st div 512"

definition entry_byte :: "'h fat_state \<Rightarrow> u32 \<Rightarrow> nat" where
  "entry_byte st c = unat (c * entry_size st mod 512)"

text \<open>The entry of a cluster in a copy of the table, and the successor it stands for, 0 without one.\<close>

definition table_entry :: "'h fat_state \<Rightarrow> (u32 \<Rightarrow> u8 list) \<Rightarrow> nat \<Rightarrow> u32 \<Rightarrow> u32" where
  "table_entry st D f c = entry_value st (D (entry_sector st f c)) (entry_byte st c)"

definition successor :: "'h fat_state \<Rightarrow> (u32 \<Rightarrow> u8 list) \<Rightarrow> u32 \<Rightarrow> u32" where
  "successor st D c =
     (let v = table_entry st D 0 c
      in if (if is_fat32 st then FAT32_EOC_MIN else FAT16_EOC_MIN) \<le> v \<or> \<not> valid_cluster st v then 0 else v)"

lemma volume_nat:
  assumes "volume_ok st" "valid_cluster st c"
  shows "unat (c * entry_size st) = unat c * width st" "entry_byte st c + width st \<le> 512"
    "unat (c * entry_size st div 512) < unat (sectors_per_fat st)"
proof -
  have w: "unat (entry_size st) = width st" "width st = 2 \<or> width st = 4" by (auto simp: entry_size_def width_def)
  note v = valid_cluster_nat [OF assms(2)]
  have "unat c < 0x0FFFFFF8" using v(2) assms(1) by (auto simp: volume_ok_def split: if_splits)
  then have "unat c * width st < 2 ^ 32" using w(2) by auto
  then show off: "unat (c * entry_size st) = unat c * width st" using w(1) by (simp add: unat_mult_lem [THEN iffD1])
  have "unat (c * entry_size st mod 512) = unat c * width st mod 512" unfolding unat_mod_distrib off by simp
  moreover have "unat c * width st mod 512 + width st \<le> 512"
  proof -
    have "width st dvd 512" "width st dvd unat c * width st" using w(2) by auto
    then have "width st dvd (512 - unat c * width st mod 512)" by (simp add: dvd_mod)
    moreover have "0 < 512 - unat c * width st mod 512" by simp
    ultimately have "width st \<le> 512 - unat c * width st mod 512" by (rule dvd_imp_le)
    then show ?thesis using w(2) by linarith
  qed
  ultimately show "entry_byte st c + width st \<le> 512" by (simp add: entry_byte_def)
  have "(unat c + 1) * width st \<le> (unat (total_clusters st) + 2) * width st" using v(2) by (intro mult_le_mono1) simp
  then have "unat c * width st < unat (sectors_per_fat st) * 512" using assms(1) w(2) by (auto simp: volume_ok_def)
  then show "unat (c * entry_size st div 512) < unat (sectors_per_fat st)" unfolding unat_div_distrib off by simp
qed

lemma entry_sector_nat:
  assumes "volume_ok st" "valid_cluster st c" "f < unat (num_fats st)"
  shows "unat (entry_sector st f c) = unat (fat_start_lba st) + f * unat (sectors_per_fat st) + unat (c * entry_size st div 512)"
    "unat (entry_sector st f c) < table_end st" "unat (entry_sector st f c) < unat (data_start_lba st)"
    "entry_sector st f c < total_sectors (dev st)"
proof -
  let ?s = "unat (sectors_per_fat st)" and ?o = "unat (c * entry_size st div 512)"
  have "(f + 1) * ?s \<le> unat (num_fats st) * ?s" using assms(3) by (intro mult_le_mono1) simp
  then have te: "unat (fat_start_lba st) + f * ?s + ?o < table_end st"
    using volume_nat(3) [OF assms(1,2)] by (auto simp: table_end_def)
  then have le: "unat (fat_start_lba st) + f * ?s + ?o < unat (data_start_lba st)"
    using assms(1) by (auto simp: volume_ok_def)
  moreover have lim: "unat (data_start_lba st) \<le> unat (total_sectors (dev st))" "unat (total_sectors (dev st)) < 2 ^ 32"
    using assms(1) by (auto simp: volume_ok_def layout_ok_def)
  ultimately have lt: "unat (fat_start_lba st) + f * ?s + ?o < 2 ^ 32" by linarith
  have "unat (of_nat f :: u32) = f" using assms(3) unsigned_less [of "num_fats st", where 'a = nat] by (simp add: unat_of_nat)
  then have "unat (of_nat f * sectors_per_fat st) = f * ?s" using lt by (simp add: unat_mult_lem [THEN iffD1])
  then show eq: "unat (entry_sector st f c) = unat (fat_start_lba st) + f * ?s + ?o"
    unfolding entry_sector_def using lt by (simp add: unat_plus_no_wrap)
  then show "unat (entry_sector st f c) < table_end st" "unat (entry_sector st f c) < unat (data_start_lba st)"
    "entry_sector st f c < total_sectors (dev st)"
    using te le lim by (simp_all add: word_less_nat_alt)
qed

lemma entry_sector_inj:
  assumes "volume_ok st" "valid_cluster st c" "f < unat (num_fats st)" "valid_cluster st c'" "f' < unat (num_fats st)"
    and "entry_sector st f c = entry_sector st f' c'"
  shows "f = f'" "c * entry_size st div 512 = c' * entry_size st div 512"
proof -
  let ?s = "unat (sectors_per_fat st)"
  have o: "unat (c * entry_size st div 512) < ?s" "unat (c' * entry_size st div 512) < ?s"
    using volume_nat(3) [OF assms(1)] assms(2,4) by blast+
  have eq: "f * ?s + unat (c * entry_size st div 512) = f' * ?s + unat (c' * entry_size st div 512)"
    using entry_sector_nat(1) [OF assms(1-3)] entry_sector_nat(1) [OF assms(1,4,5)] assms(6) by simp
  then have "(f * ?s + unat (c * entry_size st div 512)) div ?s = (f' * ?s + unat (c' * entry_size st div 512)) div ?s" by simp
  then show "f = f'" using o by simp
  with eq show "c * entry_size st div 512 = c' * entry_size st div 512" by (simp add: word_unat_eq_iff)
qed

text \<open>Entries of different clusters do not overlap.\<close>

lemma entry_byte_apart:
  assumes "volume_ok st" "valid_cluster st c" "valid_cluster st c'" "c \<noteq> c'"
    and "c * entry_size st div 512 = c' * entry_size st div 512"
  shows "entry_byte st c' + width st \<le> entry_byte st c \<or> entry_byte st c + width st \<le> entry_byte st c'"
proof -
  let ?w = "width st"
  have n: "unat (c * entry_size st) = unat c * ?w" "unat (c' * entry_size st) = unat c' * ?w"
    using volume_nat(1) [OF assms(1)] assms(2,3) by blast+
  have q: "unat c * ?w div 512 = unat c' * ?w div 512"
    using arg_cong [OF assms(5), of unat] by (simp add: unat_div_distrib n)
  have b: "entry_byte st c = unat c * ?w mod 512" "entry_byte st c' = unat c' * ?w mod 512"
    by (simp_all add: entry_byte_def unat_mod_distrib n)
  have "unat c * ?w = 512 * (unat c * ?w div 512) + entry_byte st c"
    "unat c' * ?w = 512 * (unat c * ?w div 512) + entry_byte st c'"
    unfolding b by (simp, simp add: q)
  moreover have "unat c \<noteq> unat c'" using assms(4) by (simp add: word_unat_eq_iff)
  then have "(unat c + 1) * ?w \<le> unat c' * ?w \<or> (unat c' + 1) * ?w \<le> unat c * ?w"
    using mult_le_mono1 [of "unat c + 1" "unat c'" ?w] mult_le_mono1 [of "unat c' + 1" "unat c" ?w] by linarith
  ultimately show ?thesis by auto
qed

text \<open>What an update of the entry of \<open>c\<close> does to a disk: the sector of the entry changes in every copy.\<close>

definition table_update :: "'h fat_state \<Rightarrow> u32 \<Rightarrow> u32 \<Rightarrow> (u32 \<Rightarrow> u8 list) \<Rightarrow> u32 \<Rightarrow> u8 list" where
  "table_update st c v D = (\<lambda>lba. if \<exists>f < unat (num_fats st). lba = entry_sector st f c
     then new_sector st (entry_byte st c) v (D lba) else D lba)"

lemma table_update_entry:
  assumes "volume_ok st" "valid_cluster st c" "valid_cluster st c'" "f < unat (num_fats st)" "\<And>lba. length (D lba) = 512"
  shows "table_entry st (table_update st c v D) f c' = (if c' = c then stored st v else table_entry st D f c')"
proof (cases "\<exists>g < unat (num_fats st). entry_sector st f c' = entry_sector st g c")
  case False
  then have "c' \<noteq> c" using assms(4) by blast
  with False show ?thesis by (auto simp: table_entry_def table_update_def)
next
  case True
  then obtain g where g: "g < unat (num_fats st)" "entry_sector st f c' = entry_sector st g c" by blast
  have same: "c' * entry_size st div 512 = c * entry_size st div 512"
    by (rule entry_sector_inj(2) [OF assms(1,3,4,2) g])
  have room: "entry_byte st c + width st \<le> length (D lba)" for lba
    using volume_nat(2) [OF assms(1,2)] assms(5) by simp
  have new: "table_update st c v D (entry_sector st f c') = new_sector st (entry_byte st c) v (D (entry_sector st f c'))"
    using True by (simp add: table_update_def)
  show ?thesis
  proof (cases "c' = c")
    case True
    then show ?thesis unfolding table_entry_def new using entry_new_sector(1) [OF room] by simp
  next
    case False
    then show ?thesis unfolding table_entry_def new
      using entry_new_sector(2) [OF room] entry_byte_apart [OF assms(1,2,3)] same by auto
  qed
qed

lemma table_update_data:
  assumes "volume_ok st" "valid_cluster st c" "data_start_lba st \<le> lba"
  shows "table_update st c v D lba = D lba"
  using entry_sector_nat(3) [OF assms(1,2)] assms(3) by (fastforce simp: table_update_def word_le_nat_alt)

lemma table_update_length:
  assumes "volume_ok st" "valid_cluster st c" "\<And>lba. length (D lba) = 512"
  shows "length (table_update st c v D lba) = 512"
  using volume_nat(2) [OF assms(1,2)] assms(3) by (simp add: table_update_def length_new_sector)

locale fat_volume = block_device "dev st" ok sector
  for st :: "'h fat_state" and ok :: "'h \<Rightarrow> bool" and sector :: "'h \<Rightarrow> u32 \<Rightarrow> u8 list" +
  assumes volume: "volume_ok st"
begin

lemma next_cluster:
  assumes "ok h"
  obtains h' where "fat_next_cluster st c h = (h', if valid_cluster st c then successor st (sector h) c else 0)" "ok h'"
    "sector h' = sector h"
proof (cases "valid_cluster st c")
  case False
  then show ?thesis using that [of h] assms by (auto simp: fat_next_cluster_def valid_cluster_def not_less)
next
  case True
  have pos: "0 < unat (num_fats st)" using volume by (simp add: volume_ok_def layout_ok_def)
  have lba: "fat_start_lba st + c * entry_size st div 512 = entry_sector st 0 c" by (simp add: entry_sector_def)
  obtain h' where h': "read_sector (dev st) (entry_sector st 0 c) h = (h', Some (sector h (entry_sector st 0 c)))" "ok h'"
    "sector h' = sector h"
    using read_law [OF assms entry_sector_nat(4) [OF volume True pos]] by blast
  have "fat_next_cluster st c h = (h', successor st (sector h) c)"
    using h'(1) True
    by (simp add: fat_next_cluster_def lba entry_byte_def [symmetric] successor_def table_entry_def Let_def valid_cluster_iff)
  then show ?thesis using that [of h'] h' True by simp
qed

lemma set_copies_all:
  assumes "ok h" "valid_cluster st c" "k \<le> unat (num_fats st)"
  obtains h' where "set_copies st (c * entry_size st div 512) (entry_byte st c) (map of_nat [k..<unat (num_fats st)]) v h = (h', 0)"
    "ok h'" "sector h' = (\<lambda>lba. if \<exists>f. k \<le> f \<and> f < unat (num_fats st) \<and> lba = entry_sector st f c
       then new_sector st (entry_byte st c) v (sector h lba) else sector h lba)"
  using assms
proof (induction "unat (num_fats st) - k" arbitrary: k h v thesis)
  case 0
  then have k: "k = unat (num_fats st)" by simp
  have "sector h = (\<lambda>lba. if \<exists>f. k \<le> f \<and> f < unat (num_fats st) \<and> lba = entry_sector st f c
      then new_sector st (entry_byte st c) v (sector h lba) else sector h lba)" by (rule ext) (auto simp: k)
  then show ?case using 0(2) [of h] 0(3) k by simp
next
  case (Suc n)
  let ?N = "unat (num_fats st)" and ?b = "entry_byte st c"
  have k: "k < ?N" "n = ?N - Suc k" "Suc k \<le> ?N" using Suc.hyps(2) by auto
  let ?lba = "entry_sector st k c"
  note in_dev = entry_sector_nat(4) [OF volume Suc.prems(3) k(1)]
  obtain h1 where h1: "read_sector (dev st) ?lba h = (h1, Some (sector h ?lba))" "ok h1" "sector h1 = sector h"
    using read_law [OF Suc.prems(2) in_dev] by blast
  have len: "length (new_sector st ?b v (sector h ?lba)) = 512"
    using volume_nat(2) [OF volume Suc.prems(3)] sector_length [OF Suc.prems(2)] by (simp add: length_new_sector)
  obtain h2 where h2: "write_sector (dev st) ?lba (new_sector st ?b v (sector h ?lba)) h1 = (h2, 0)" "ok h2"
    "sector h2 = (sector h)(?lba := new_sector st ?b v (sector h ?lba))"
    using write_law [OF h1(2) in_dev len] h1(3) by auto
  define v' where "v' = fst (entry_bytes st (sector h ?lba) ?b v)"
  have v': "new_sector st ?b v' buf = new_sector st ?b v buf" for buf
    unfolding v'_def new_sector_def by (simp only: entry_bytes_twice)
  obtain h' where h': "set_copies st (c * entry_size st div 512) ?b (map of_nat [Suc k..<?N]) v' h2 = (h', 0)" "ok h'"
    "sector h' = (\<lambda>lba. if \<exists>f. Suc k \<le> f \<and> f < ?N \<and> lba = entry_sector st f c then new_sector st ?b v' (sector h2 lba) else sector h2 lba)"
    by (rule Suc.hyps(1) [OF k(2) _ h2(2) Suc.prems(3) k(3)]) blast
  have split: "map of_nat [k..<?N] = (of_nat k :: u32) # map of_nat [Suc k..<?N]" using k(1) by (simp add: upt_conv_Cons)
  have "set_copies st (c * entry_size st div 512) ?b (map of_nat [k..<?N]) v h = (h', 0)"
    using h1 h2 h'(1) by (simp add: split entry_sector_def [symmetric] new_sector_def v'_def case_prod_beta)
  moreover have "sector h' = (\<lambda>lba. if \<exists>f. k \<le> f \<and> f < ?N \<and> lba = entry_sector st f c
      then new_sector st ?b v (sector h lba) else sector h lba)"
  proof
    fix lba
    define Q where "Q = (\<exists>f. Suc k \<le> f \<and> f < ?N \<and> lba = entry_sector st f c)"
    have "lba \<noteq> ?lba" if Q
      using entry_sector_inj(1) [OF volume Suc.prems(3) _ Suc.prems(3) k(1)] that by (fastforce simp: Q_def)
    moreover have "(\<exists>f. k \<le> f \<and> f < ?N \<and> lba = entry_sector st f c) \<longleftrightarrow> lba = ?lba \<or> Q"
      using k(1) unfolding Q_def by (metis Suc_leD le_neq_implies_less le_refl Suc_leI)
    ultimately show "sector h' lba = (if \<exists>f. k \<le> f \<and> f < ?N \<and> lba = entry_sector st f c
        then new_sector st ?b v (sector h lba) else sector h lba)"
      unfolding h'(3) h2(3) v' Q_def [symmetric] by (cases Q) auto
  qed
  ultimately show ?case using Suc.prems(1) h'(2) by blast
qed

lemma set_cluster:
  assumes "ok h" "valid_cluster st c"
  obtains h' where "fat_set_cluster st c v h = (h', 0)" "ok h'" "sector h' = table_update st c v (sector h)"
proof -
  obtain h' where "set_copies st (c * entry_size st div 512) (entry_byte st c) (map of_nat [0..<unat (num_fats st)]) v h = (h', 0)"
    "ok h'" "sector h' = (\<lambda>lba. if \<exists>f. 0 \<le> f \<and> f < unat (num_fats st) \<and> lba = entry_sector st f c
       then new_sector st (entry_byte st c) v (sector h lba) else sector h lba)"
    by (rule set_copies_all [OF assms, of 0]) auto
  then show ?thesis using that [of h'] by (simp add: fat_set_cluster_def entry_byte_def [symmetric] table_update_def)
qed

end

section \<open>Chains\<close>

text \<open>The clusters of the chain that starts at \<open>c\<close>; a table can hold a cycle.\<close>

inductive follows :: "'h fat_state \<Rightarrow> (u32 \<Rightarrow> u8 list) \<Rightarrow> u32 \<Rightarrow> u32 \<Rightarrow> bool" for st D where
  "valid_cluster st x \<Longrightarrow> successor st D x = y \<Longrightarrow> y \<noteq> 0 \<Longrightarrow> follows st D x y"

inductive_simps follows_simps: "follows st D x y"

definition chain_set :: "'h fat_state \<Rightarrow> (u32 \<Rightarrow> u8 list) \<Rightarrow> u32 \<Rightarrow> u32 set" where
  "chain_set st D c = {x. valid_cluster st x \<and> (follows st D)\<^sup>*\<^sup>* c x}"

lemma successor_valid: "successor st D c \<noteq> 0 \<Longrightarrow> valid_cluster st (successor st D c)"
  by (auto simp: successor_def Let_def split: if_splits)

lemma stored_zero: "stored st 0 = 0"
  by (simp add: stored_def)

lemma successor_cleared:
  assumes "volume_ok st" "valid_cluster st c" "valid_cluster st x" "\<And>lba. length (D lba) = 512"
  shows "successor st (table_update st c 0 D) x = (if x = c then 0 else successor st D x)"
proof -
  have "0 < unat (num_fats st)" using assms(1) by (simp add: volume_ok_def layout_ok_def)
  then have "table_entry st (table_update st c 0 D) 0 x = (if x = c then 0 else table_entry st D 0 x)"
    using table_update_entry [OF assms(1-3) _ assms(4)] by (simp add: stored_zero)
  then show ?thesis by (auto simp: successor_def Let_def valid_cluster_def)
qed

lemma chain_set_step:
  assumes vol: "volume_ok st" and c: "valid_cluster st c" and len: "\<And>lba. length (D lba) = 512"
    and n: "n = successor st D c"
  shows "chain_set st D c = insert c (if n = 0 then {} else chain_set st (table_update st c 0 D) n)"
proof -
  let ?D' = "table_update st c 0 D"
  have less: "follows st D x y" if "follows st ?D' x y" for x y
    using that successor_cleared [OF vol c _ len, of x] by (auto simp: follows_simps split: if_splits)
  have kept: "follows st ?D' x y" if "follows st D x y" "x \<noteq> c" for x y
    using that successor_cleared [OF vol c _ len, of x] by (auto simp: follows_simps)
  have only: "y = n" if "follows st D c y" for y using that n by (auto simp: follows_simps)
  have from_n: "x = c \<or> (follows st ?D')\<^sup>*\<^sup>* n x" if "(follows st D)\<^sup>*\<^sup>* n x" for x
    using that
  proof induction
    case (step y z)
    then show ?case using kept [OF step.hyps(2)] only [of z] by (metis rtranclp.rtrancl_into_rtrancl rtranclp.rtrancl_refl)
  qed simp
  have edge: "follows st D c n" if "n \<noteq> 0" using that n c by (simp add: follows_simps)
  show ?thesis
  proof (intro equalityI subsetI)
    fix x assume x: "x \<in> chain_set st D c"
    then have "(follows st D)\<^sup>*\<^sup>* c x" by (simp add: chain_set_def)
    then show "x \<in> insert c (if n = 0 then {} else chain_set st ?D' n)"
    proof (cases rule: converse_rtranclpE)
      case (step y)
      then have "y = n" "n \<noteq> 0" using only n by (auto simp: follows_simps)
      then show ?thesis using from_n [of x] step x by (auto simp: chain_set_def)
    qed simp
  next
    fix x assume "x \<in> insert c (if n = 0 then {} else chain_set st ?D' n)"
    then consider "x = c" | "n \<noteq> 0" "valid_cluster st x" "(follows st ?D')\<^sup>*\<^sup>* n x"
      by (auto simp: chain_set_def split: if_splits)
    then show "x \<in> chain_set st D c"
    proof cases
      case 2
      have "(follows st D)\<^sup>*\<^sup>* n x" using 2(3) by (rule rtranclp_mono [THEN predicate2D, rotated]) (use less in blast)
      then show ?thesis using edge [OF 2(1)] 2(2) by (auto simp: chain_set_def)
    qed (simp add: chain_set_def c)
  qed
qed

lemma links_decrease:
  assumes "volume_ok st" "valid_cluster st c" "\<And>lba. length (D lba) = 512" "successor st D c \<noteq> 0"
  shows "card {x. valid_cluster st x \<and> successor st (table_update st c 0 D) x \<noteq> 0} < card {x. valid_cluster st x \<and> successor st D x \<noteq> 0}"
proof (rule psubset_card_mono)
  show "finite {x. valid_cluster st x \<and> successor st D x \<noteq> 0}" by simp
  have "{x. valid_cluster st x \<and> successor st (table_update st c 0 D) x \<noteq> 0} = {x. valid_cluster st x \<and> successor st D x \<noteq> 0} - {c}"
    using successor_cleared [where D = D, OF assms(1,2) _ assms(3)] by (auto split: if_splits)
  then show "{x. valid_cluster st x \<and> successor st (table_update st c 0 D) x \<noteq> 0} \<subset> {x. valid_cluster st x \<and> successor st D x \<noteq> 0}"
    using assms(2,4) by auto
qed

context fat_volume
begin

lemma free_chain:
  assumes "ok h"
  shows "\<exists>h'. fat_free_chain st c h = Some h' \<and> ok h' \<and>
    (\<forall>f < unat (num_fats st). \<forall>x. valid_cluster st x \<longrightarrow> table_entry st (sector h') f x =
       (if valid_cluster st c \<and> x \<in> chain_set st (sector h) c then 0 else table_entry st (sector h) f x)) \<and>
    (\<forall>lba \<ge> data_start_lba st. sector h' lba = sector h lba)"
  using assms
proof (induction "card {x. valid_cluster st x \<and> successor st (sector h) x \<noteq> 0}" arbitrary: c h rule: less_induct)
  case less
  show ?case
  proof (cases "valid_cluster st c")
    case False
    then have "fat_free_chain st c h = Some h" by (subst fat_free_chain.simps) (auto simp: valid_cluster_iff)
    then show ?thesis using less.prems False by simp
  next
    case True
    let ?D = "sector h" and ?n = "successor st (sector h) c"
    have len: "length (?D lba) = 512" for lba by (rule sector_length [OF less.prems])
    obtain h1 where h1: "fat_next_cluster st c h = (h1, ?n)" "ok h1" "sector h1 = ?D"
      by (rule next_cluster [OF less.prems, of c]) (auto simp: True)
    obtain h2 where h2: "fat_set_cluster st c 0 h1 = (h2, 0)" "ok h2" "sector h2 = table_update st c 0 ?D"
      by (rule set_cluster [OF h1(2) True, of 0]) (auto simp: h1(3))
    have eq: "fat_free_chain st c h = (if ?n = 0 then Some h2 else fat_free_chain st ?n h2)"
      using True h1(1) h2(1) by (subst fat_free_chain.simps) (simp add: valid_cluster_iff)
    note vc = True
    note upd = table_update_entry [where D = ?D and v = 0, OF volume True _ _ len, unfolded stored_zero]
    note data = table_update_data [OF volume True]
    note step = chain_set_step [where D = ?D, OF volume True len refl]
    show ?thesis
    proof (cases "?n = 0")
      case True
      then show ?thesis using eq h2 upd data step vc by auto
    next
      case False
      obtain h' where h': "fat_free_chain st ?n h2 = Some h'" "ok h'"
        "\<And>f x. f < unat (num_fats st) \<Longrightarrow> valid_cluster st x \<Longrightarrow> table_entry st (sector h') f x =
           (if x \<in> chain_set st (sector h2) ?n then 0 else table_entry st (sector h2) f x)"
        "\<And>lba. data_start_lba st \<le> lba \<Longrightarrow> sector h' lba = sector h2 lba"
        using less.hyps [of h2 ?n] links_decrease [OF volume True len False] h2 successor_valid [OF False] by auto
      show ?thesis using eq False h' upd data step h2(3) vc by auto
    qed
  qed
qed

end

section \<open>A volume\<close>

text \<open>A boot sector of a FAT16 volume with twenty clusters, in a partition of the ATA disk.\<close>

definition boot_sector :: "u8 list" where
  "boot_sector = patch 11 (bytes16 512 @ [1] @ bytes16 1 @ [2] @ bytes16 16 @ bytes16 24 @ [0xF8] @ bytes16 1) (replicate 512 0)"

definition disk_partition :: "drive blkdev" where
  "disk_partition = part_dev (ata_device drive_io 0x10000000) 2048 0x20000 ''ata0p1''"

definition small_volume :: "drive fat_state" where
  "small_volume = \<lparr>dev = disk_partition, is_fat32 = False, fat_start_lba = 1, sectors_per_fat = 1, num_fats = 2, root_dir_lba = 3,
     root_dir_sectors = 1, root_entries = 16, root_cluster = 0, data_start_lba = 4, sectors_per_cluster = 1,
     bytes_per_cluster = 512, total_clusters = 20, part_end_lba = 0x20000\<rparr>"

lemma boot_sector_accepted: "fat_layout disk_partition boot_sector = Some small_volume"
proof -
  have "bpb_of boot_sector = \<lparr>bytes_per_sector = 512, bpb_sectors_per_cluster = 1, reserved_sectors = 1, bpb_num_fats = 2,
      bpb_root_entries = 16, total_sectors_16 = 24, sectors_per_fat_16 = 1, total_sectors_32 = 0, sectors_per_fat_32 = 0,
      bpb_root_cluster = 0\<rparr>"
    by (simp add: bpb_of_def boot_sector_def le16_def le32_def nth_patch bytes16_def)
  then show ?thesis by (simp add: fat_layout_def small_volume_def disk_partition_def part_dev_def)
qed

lemma small_volume_ok: "volume_ok small_volume"
  by (simp add: volume_ok_def layout_ok_def small_volume_def disk_partition_def part_dev_def width_def table_end_def)

interpretation vol: fat_volume small_volume drive_ok "\<lambda>d lba. medium d (2048 + lba)"
proof -
  have "block_device (dev small_volume) drive_ok (\<lambda>d lba. medium d (2048 + lba))"
    using ata0p1.part.block_device_axioms by (simp add: small_volume_def disk_partition_def)
  then show "fat_volume small_volume drive_ok (\<lambda>d lba. medium d (2048 + lba))"
    using small_volume_ok by (simp add: fat_volume_def fat_volume_axioms_def)
qed

section \<open>Properties\<close>



text \<open>C18: freeing a chain always ends.  On a device that keeps its sectors and a volume whose tables fit, \<open>fat_free_chain\<close> returns from
  every first cluster and every content of the table, also when the chain is a cycle; afterwards every copy of the table holds
  0 for exactly the clusters of the chain in addition, every other entry is as before, and no sector of the data area has
  changed.\<close>

theorem fat_free_chain_ends:
  assumes "block_device (dev st) ok sector" "volume_ok st" "ok h"
  shows "\<exists>h'. fat_free_chain st c h = Some h' \<and> ok h' \<and>
    (\<forall>f < unat (num_fats st). \<forall>x. valid_cluster st x \<longrightarrow> table_entry st (sector h') f x =
       (if valid_cluster st c \<and> x \<in> chain_set st (sector h) c then 0 else table_entry st (sector h) f x)) \<and>
    (\<forall>lba \<ge> data_start_lba st. sector h' lba = sector h lba)"
proof -
  have "fat_volume st ok sector" using assms(1,2) by (simp add: fat_volume_def fat_volume_axioms_def)
  then show ?thesis using assms(3) by (rule fat_volume.free_chain)
qed

text \<open>The table with the cycle of the clusters 2 and 3.\<close>

definition cycle_disk :: drive where
  "cycle_disk = \<lparr>r_drive = 0, r_lo = 0, r_mi = 0, r_hi = 0, to_host = [], from_host = [], receiving = False,
    medium = (\<lambda>_. patch 4 [3, 0, 2, 0] (replicate 512 0)), capacity = 0x10000000\<rparr>"

theorem fat_free_chain_ends_witness:
  "\<exists>d'. fat_free_chain small_volume 2 cycle_disk = Some d' \<and>
     table_entry small_volume (\<lambda>lba. medium cycle_disk (2048 + lba)) 1 3 = 2 \<and>
     table_entry small_volume (\<lambda>lba. medium d' (2048 + lba)) 1 3 = 0"
proof -
  let ?D = "\<lambda>lba. medium cycle_disk (2048 + lba)"
  have ok: "drive_ok cycle_disk" by (simp add: drive_ok_def cycle_disk_def)
  have te: "table_entry small_volume ?D f 2 = 3" "table_entry small_volume ?D f 3 = 2" for f
    by (simp_all add: table_entry_def entry_value_def small_volume_def entry_byte_def entry_size_def cycle_disk_def le16_def nth_patch)
  have v: "valid_cluster small_volume 2" "valid_cluster small_volume 3" "unat (num_fats small_volume) = 2"
    by (simp_all add: valid_cluster_def small_volume_def)
  have "follows small_volume ?D 2 3"
    using v te by (simp add: follows_simps successor_def Let_def)
  then have "3 \<in> chain_set small_volume ?D 2" using v by (auto simp: chain_set_def)
  then show ?thesis
    using fat_free_chain_ends [OF vol.block_device_axioms small_volume_ok ok, of 2] v te by auto
qed

end
