(* ===== verification/Fat_File.thy ===== *)
theory Fat_File
  imports Fat_Table
begin

text \<open>
  Reading and writing files on a FAT volume.  A file is a chain of clusters; the lemmas follow the transfer loops sector by sector
  and cluster by cluster and show that a read returns the bytes of the file and that a write replaces exactly the bytes it covers.
\<close>

section \<open>Sectors of a cluster\<close>

text \<open>The transfer of the bytes from offset \<open>a\<close> of a cluster on, at sector \<open>j\<close>.\<close>

lemma sector_part_eq:
  assumes "unat off < 2 ^ 17" "j < 256"
  shows "sector_part off (of_nat j) left =
    (if j * 512 + 512 \<le> unat off then None
     else let skip = max (unat off) (j * 512) - j * 512 in Some (skip, min left (512 - skip)))"
proof -
  have j: "unat (of_nat j * 512 :: u32) = j * 512" using assms(2) by (simp add: unat_of_nat unat_mult_lem [THEN iffD1])
  then have j1: "unat (of_nat j * 512 + 512 :: u32) = j * 512 + 512" using assms(2) by (subst unat_plus_no_wrap) simp_all
  show ?thesis
  proof (cases "j * 512 + 512 \<le> unat off")
    case True
    then show ?thesis by (simp add: sector_part_def Let_def word_le_nat_alt j1)
  next
    case False
    define cf where "cf = (if of_nat j * 512 < off then off - of_nat j * 512 else (0 :: u32))"
    have cf: "unat cf = max (unat off) (j * 512) - j * 512"
    proof (cases "of_nat j * 512 < off")
      case True
      then have "unat cf = unat off - j * 512" unfolding cf_def by (simp add: unat_minus_no_wrap j word_less_nat_alt)
      then show ?thesis using True by (simp add: word_less_nat_alt j)
    next
      case False
      then show ?thesis by (simp add: cf_def word_less_nat_alt j)
    qed
    then have lt: "unat cf < 512" using False by auto
    then have "unat (512 - cf) = 512 - unat cf" by (simp add: unat_minus_no_wrap)
    then show ?thesis
      using False cf by (simp add: sector_part_def Let_def word_le_nat_alt j1 cf_def [symmetric] min_def)
  qed
qed

text \<open>The bytes of the cluster at \<open>lba\<close>.\<close>

definition cluster_byte :: "(u32 \<Rightarrow> u8 list) \<Rightarrow> u32 \<Rightarrow> nat \<Rightarrow> u8" where
  "cluster_byte D lba x = D (lba + of_nat (x div 512)) ! (x mod 512)"

lemma sector_of_cluster:
  fixes lba :: u32
  assumes "unat lba + n < 2 ^ 32" "i < n" "k < n"
  shows "lba + of_nat i = lba + of_nat k \<longleftrightarrow> i = k" "unat (lba + of_nat i) = unat lba + i"
proof -
  have eq: "unat (lba + of_nat m) = unat lba + m" if "m < n" for m
    using assms(1) that by (subst unat_plus_no_wrap) (simp_all add: unat_of_nat)
  then show "unat (lba + of_nat i) = unat lba + i" using assms(2) by blast
  show "lba + of_nat i = lba + of_nat k \<longleftrightarrow> i = k" using eq [OF assms(2)] eq [OF assms(3)] by (metis add_left_cancel)
qed

text \<open>A transfer of at most \<open>left\<close> bytes up to \<open>e\<close>, cut at the end \<open>b\<close> of a sector.\<close>

lemma min_split:
  fixes a :: nat
  assumes "a \<le> b" "b \<le> e" "c = min left (b - a)"
  shows "a + min left (e - a) = (if left \<le> b - a then a + c else b + min (left - c) (e - b))"
  using assms by (auto simp: min_def)

lemma upt_min_split:
  assumes "a \<le> b" "b \<le> e" "c = min left (b - a)"
  shows "[a..<a + min left (e - a)] = [a..<a + c] @ [b..<b + min (left - c) (e - b)]"
proof (cases "left \<le> b - a")
  case True
  then show ?thesis using assms by simp
next
  case False
  then have "a + c = b" using assms by simp
  then show ?thesis using min_split [OF assms] False upt_add_eq_append [of a b] assms by (metis le_add_diff_inverse le_add1)
qed

lemma sector_bytes:
  assumes "length (D (lba + of_nat j)) = 512" "skip + chunk \<le> 512"
  shows "take chunk (drop skip (D (lba + of_nat j))) = map (cluster_byte D lba) [j * 512 + skip..<j * 512 + skip + chunk]"
proof (rule nth_equalityI)
  fix i assume "i < length (take chunk (drop skip (D (lba + of_nat j))))"
  then have i: "i < chunk" "skip + i < 512" using assms by auto
  then have "(j * 512 + skip + i) div 512 = j" "(j * 512 + skip + i) mod 512 = skip + i" by (simp_all add: add.assoc)
  then show "take chunk (drop skip (D (lba + of_nat j))) ! i = map (cluster_byte D lba) [j * 512 + skip..<j * 512 + skip + chunk] ! i"
    using i assms by (simp add: cluster_byte_def)
qed (use assms in simp)

text \<open>The disk \<open>D'\<close> is \<open>D\<close> with the bytes from offset \<open>a\<close> of the cluster at \<open>lba\<close> replaced.\<close>

definition wrote :: "(u32 \<Rightarrow> u8 list) \<Rightarrow> u32 \<Rightarrow> nat \<Rightarrow> nat \<Rightarrow> u8 list \<Rightarrow> (u32 \<Rightarrow> u8 list) \<Rightarrow> bool" where
  "wrote D lba n a bs D' \<longleftrightarrow>
     (\<forall>x < n * 512. cluster_byte D' lba x = (if a \<le> x \<and> x < a + length bs then bs ! (x - a) else cluster_byte D lba x)) \<and>
     (\<forall>l. (\<forall>i < n. l \<noteq> lba + of_nat i) \<longrightarrow> D' l = D l)"

lemma wrote_nothing: "wrote D lba n a [] D"
  by (auto simp: wrote_def)

lemma wrote_append:
  assumes "wrote D lba n a bs D1" "wrote D1 lba n b cs D2" "cs = [] \<or> a + length bs = b"
  shows "wrote D lba n a (bs @ cs) D2"
proof (cases "cs = []")
  case True
  then show ?thesis using assms(1,2) by (auto simp: wrote_def)
next
  case False
  then have b: "b = a + length bs" using assms(3) by simp
  show ?thesis using assms(1,2) unfolding wrote_def b by (auto simp: nth_append)
qed

lemma wrote_sector:
  assumes "unat lba + n < 2 ^ 32" "j < n" "length (D (lba + of_nat j)) = 512" "skip + length bs \<le> 512"
  shows "wrote D lba n (j * 512 + skip) bs (D(lba + of_nat j := patch skip bs (D (lba + of_nat j))))"
proof -
  let ?D = "D(lba + of_nat j := patch skip bs (D (lba + of_nat j)))"
  have "cluster_byte ?D lba x = (if j * 512 + skip \<le> x \<and> x < j * 512 + skip + length bs then bs ! (x - (j * 512 + skip)) else cluster_byte D lba x)"
    if x: "x < n * 512" for x
  proof (cases "x div 512 = j")
    case True
    obtain k where k: "x = j * 512 + k" "x mod 512 = k" using True by (metis div_mult_mod_eq)
    show ?thesis using assms(3,4) True unfolding cluster_byte_def k(2) by (auto simp: k(1) nth_patch)
  next
    case False
    have "x div 512 < n" using x by (simp add: less_mult_imp_div_less)
    then have "lba + of_nat (x div 512) \<noteq> lba + of_nat j" using sector_of_cluster(1) [OF assms(1)] False assms(2) by blast
    moreover have "\<not> (j * 512 + skip \<le> x \<and> x < j * 512 + skip + length bs)"
    proof
      assume "j * 512 + skip \<le> x \<and> x < j * 512 + skip + length bs"
      then have "j * 512 \<le> x" "x < j * 512 + 512" using assms(4) by auto
      then have "x div 512 = j" by (intro div_nat_eqI) auto
      then show False using False by simp
    qed
    ultimately show ?thesis by (auto simp: cluster_byte_def)
  qed
  then show ?thesis using assms(2) by (auto simp: wrote_def)
qed

lemma take_min_split:
  assumes "a \<le> b" "b \<le> e" "c = min (length xs) (b - a)"
  shows "take (min (length xs) (e - a)) xs = take c xs @ take (min (length xs - c) (e - b)) (drop c xs)"
    "min (length xs) (e - a) = c + min (length xs - c) (e - b)"
proof -
  show "min (length xs) (e - a) = c + min (length xs - c) (e - b)" using assms by (auto simp: min_def)
  then show "take (min (length xs) (e - a)) xs = take c xs @ take (min (length xs - c) (e - b)) (drop c xs)"
    by (simp only: take_add)
qed

context fat_volume
begin

lemma read_sectors_from:
  assumes "ok h" "unat lba + n \<le> unat (total_sectors (dev st))" "n < 256" "j \<le> n" "unat off < n * 512"
  obtains h' where "read_sectors st lba off want (map of_nat [j..<n]) (h, acc) =
      ((h', acc @ map (cluster_byte (sector h) lba)
          [max (unat off) (j * 512)..<max (unat off) (j * 512) + min (want - length acc) (n * 512 - max (unat off) (j * 512))]), True)"
    "ok h'" "sector h' = sector h"
  using assms
proof (induction "n - j" arbitrary: j h acc thesis)
  case 0
  then have "j = n" by simp
  then show ?case using 0(2) [of h] 0(3) by simp
next
  case (Suc d)
  let ?a = "max (unat off) (j * 512)" and ?left = "want - length acc"
  have j: "j < n" "d = n - Suc j" "Suc j \<le> n" using Suc.hyps(2) by auto
  have split: "map of_nat [j..<n] = (of_nat j :: u32) # map of_nat [Suc j..<n]" using j(1) by (simp add: upt_conv_Cons)
  have small: "unat off < 2 ^ 17" "j < 256" using Suc.prems(4,6) j(1) by simp_all
  note part = sector_part_eq [OF small, of ?left]
  show ?case
  proof (cases "length acc < want")
    case False
    then show ?thesis using Suc.prems(1) [of h] Suc.prems(2) by (simp add: split)
  next
    case more: True
    show ?thesis
    proof (cases "j * 512 + 512 \<le> unat off")
      case True
      then have "?a = max (unat off) (Suc j * 512)" by simp
      then show ?thesis
        using Suc.hyps(1) [OF j(2) _ Suc.prems(2-4) j(3) Suc.prems(6), of acc] Suc.prems(1) more True part by (simp add: split) metis
    next
      case False
      define skip where "skip = ?a - j * 512"
      have skip: "skip < 512" "?a = j * 512 + skip" using False by (auto simp: skip_def)
      define chunk where "chunk = min ?left (512 - skip)"
      have "lba + of_nat j < total_sectors (dev st)"
        using sector_of_cluster(2) [of lba n j j] Suc.prems(3) j(1) unsigned_less [of "total_sectors (dev st)", where 'a = nat]
        by (simp add: word_less_nat_alt)
      then obtain h1 where h1: "read_sector (dev st) (lba + of_nat j) h = (h1, Some (sector h (lba + of_nat j)))" "ok h1" "sector h1 = sector h"
        using read_law [OF Suc.prems(2)] by blast
      let ?bs = "map (cluster_byte (sector h) lba) [?a..<?a + chunk]"
      have bs: "take chunk (drop skip (sector h (lba + of_nat j))) = ?bs"
        using sector_bytes [of "sector h" lba j skip chunk] sector_length [OF Suc.prems(2)] skip by (simp add: chunk_def)
      obtain h' where h': "read_sectors st lba off want (map of_nat [Suc j..<n]) (h1, acc @ ?bs) =
          ((h', (acc @ ?bs) @ map (cluster_byte (sector h1) lba) [max (unat off) (Suc j * 512)..<
             max (unat off) (Suc j * 512) + min (want - length (acc @ ?bs)) (n * 512 - max (unat off) (Suc j * 512))]), True)"
        "ok h'" "sector h' = sector h1"
        by (rule Suc.hyps(1) [OF j(2) _ h1(2) Suc.prems(3,4) j(3) Suc.prems(6)]) blast
      have nxt: "max (unat off) (Suc j * 512) = Suc j * 512" using False by simp
      have tail: "[?a..<?a + min ?left (n * 512 - ?a)] = [?a..<?a + chunk] @
          [Suc j * 512..<Suc j * 512 + min (want - length (acc @ ?bs)) (n * 512 - Suc j * 512)]"
      proof -
        have c: "?a \<le> Suc j * 512" "Suc j * 512 \<le> n * 512" "chunk = min ?left (Suc j * 512 - ?a)"
          using skip j(3) by (simp_all add: chunk_def)
        have "want - length (acc @ ?bs) = ?left - chunk" by simp
        then show ?thesis using upt_min_split [OF c] by (simp only:)
      qed
      have "sector_part off (of_nat j) ?left = Some (skip, chunk)" using part False by (simp add: skip_def chunk_def Let_def)
      then have "read_sectors st lba off want (map of_nat [j..<n]) (h, acc) =
          read_sectors st lba off want (map of_nat [Suc j..<n]) (h1, acc @ ?bs)"
        using more h1(1) bs by (simp add: split)
      then show ?thesis using Suc.prems(1) [of h'] h' h1(3) by (simp only: nxt tail map_append append_assoc)
    qed
  qed
qed

lemma write_sectors_from:
  assumes "ok h" "unat lba + n \<le> unat (total_sectors (dev st))" "n < 256" "j \<le> n" "unat off < n * 512" "pos \<le> length data"
  obtains h' m where "m = min (length data - pos) (n * 512 - max (unat off) (j * 512))"
    "write_sectors st lba off data (map of_nat [j..<n]) (h, pos) = ((h', pos + m), True)" "ok h'"
    "wrote (sector h) lba n (max (unat off) (j * 512)) (take m (drop pos data)) (sector h')"
  using assms
proof (induction "n - j" arbitrary: j h pos thesis)
  case 0
  then have "j = n" by simp
  then show ?case using 0(2) [of 0 h] 0(3) by (simp add: wrote_nothing)
next
  case (Suc d)
  let ?a = "max (unat off) (j * 512)" and ?left = "length data - pos" and ?S = "lba + of_nat j"
  have j: "j < n" "d = n - Suc j" "Suc j \<le> n" using Suc.hyps(2) by auto
  have split: "map of_nat [j..<n] = (of_nat j :: u32) # map of_nat [Suc j..<n]" using j(1) by (simp add: upt_conv_Cons)
  have small: "unat off < 2 ^ 17" "j < 256" using Suc.prems(4,6) j(1) by simp_all
  note part = sector_part_eq [OF small, of ?left]
  have lim: "unat lba + n < 2 ^ 32" using Suc.prems(3) unsigned_less [of "total_sectors (dev st)", where 'a = nat] by simp
  show ?case
  proof (cases "pos < length data")
    case False
    then show ?thesis using Suc.prems(1) [of 0 h] Suc.prems(2) by (simp add: split wrote_nothing)
  next
    case more: True
    show ?thesis
    proof (cases "j * 512 + 512 \<le> unat off")
      case True
      then have a: "max (unat off) (Suc j * 512) = ?a" by simp
      obtain h' m where "m = min ?left (n * 512 - ?a)" "write_sectors st lba off data (map of_nat [Suc j..<n]) (h, pos) = ((h', pos + m), True)"
        "ok h'" "wrote (sector h) lba n ?a (take m (drop pos data)) (sector h')"
        by (rule Suc.hyps(1) [OF j(2) _ Suc.prems(2-4) j(3) Suc.prems(6,7), unfolded a]) blast
      then show ?thesis using Suc.prems(1) [of m h'] more True part by (simp add: split)
    next
      case False
      define skip where "skip = ?a - j * 512"
      have skip: "skip < 512" "?a = j * 512 + skip" using False by (auto simp: skip_def)
      define chunk where "chunk = min ?left (512 - skip)"
      let ?bs = "take chunk (drop pos data)"
      have len: "length ?bs = chunk" "skip + chunk \<le> 512" using skip by (auto simp: chunk_def)
      have dv: "?S < total_sectors (dev st)"
        using sector_of_cluster(2) [OF lim j(1) j(1)] Suc.prems(3) j(1) by (simp add: word_less_nat_alt)
      obtain h1 where h1: "read_sector (dev st) ?S h = (h1, Some (sector h ?S))" "ok h1" "sector h1 = sector h"
        using read_law [OF Suc.prems(2) dv] by blast
      obtain h2 where h2: "write_sector (dev st) ?S (patch skip ?bs (sector h ?S)) h1 = (h2, 0)" "ok h2"
        "sector h2 = (sector h)(?S := patch skip ?bs (sector h ?S))"
        using write_law [OF h1(2) dv, of "patch skip ?bs (sector h ?S)"] h1(3) len sector_length [OF Suc.prems(2)] by auto
      have w1: "wrote (sector h) lba n ?a ?bs (sector h2)"
        unfolding h2(3) skip(2) using len sector_length [OF Suc.prems(2)] by (intro wrote_sector [OF lim j(1)]) simp_all
      have nxt: "max (unat off) (Suc j * 512) = Suc j * 512" using False by simp
      have pos: "pos + chunk \<le> length data" using more by (auto simp: chunk_def)
      obtain h' m where h': "m = min (length data - (pos + chunk)) (n * 512 - Suc j * 512)"
        "write_sectors st lba off data (map of_nat [Suc j..<n]) (h2, pos + chunk) = ((h', pos + chunk + m), True)"
        "ok h'" "wrote (sector h2) lba n (Suc j * 512) (take m (drop (pos + chunk) data)) (sector h')"
        by (rule Suc.hyps(1) [OF j(2) _ h2(2) Suc.prems(3,4) j(3) Suc.prems(6) pos, unfolded nxt]) blast
      note parts = take_min_split [of ?a "Suc j * 512" "n * 512" chunk "drop pos data"]
      have c: "chunk = min (length (drop pos data)) (Suc j * 512 - ?a)" "?a \<le> Suc j * 512" "Suc j * 512 \<le> n * 512"
        using skip j(3) by (simp_all add: chunk_def)
      have "take m (drop (pos + chunk) data) = [] \<or> ?a + length ?bs = Suc j * 512"
        using h'(1) skip len(1) by (auto simp: chunk_def min_def)
      from wrote_append [OF w1 h'(4) this]
      have "wrote (sector h) lba n ?a (take (min ?left (n * 512 - ?a)) (drop pos data)) (sector h')"
        using parts(1) [OF c(2,3,1)] h'(1) by (simp add: add.commute)
      moreover have "sector_part off (of_nat j) ?left = Some (skip, chunk)" using part False by (simp add: skip_def chunk_def Let_def)
      then have "write_sectors st lba off data (map of_nat [j..<n]) (h, pos) = ((h', pos + min ?left (n * 512 - ?a)), True)"
        using more h1(1) h2(1) h'(1,2) parts(2) [OF c(2,3,1)] by (simp add: split)
      ultimately show ?thesis using Suc.prems(1) [OF refl] h'(3) by blast
    qed
  qed
qed

end

section \<open>Chains of clusters as files\<close>

definition cluster_size :: "'h fat_state \<Rightarrow> nat" where
  "cluster_size st = unat (sectors_per_cluster st) * 512"

definition file_chain :: "'h fat_state \<Rightarrow> (u32 \<Rightarrow> u8 list) \<Rightarrow> u32 list \<Rightarrow> bool" where
  "file_chain st D cs \<longleftrightarrow> cs \<noteq> [] \<and> distinct cs \<and> (\<forall>c \<in> set cs. valid_cluster st c) \<and>
     (\<forall>i. Suc i < length cs \<longrightarrow> successor st D (cs ! i) = cs ! Suc i)"

text \<open>Byte \<open>x\<close> of the file, and a write of bytes from position \<open>g\<close> on.\<close>

definition file_byte :: "'h fat_state \<Rightarrow> (u32 \<Rightarrow> u8 list) \<Rightarrow> u32 list \<Rightarrow> nat \<Rightarrow> u8" where
  "file_byte st D cs x = cluster_byte D (fat_cluster_to_lba st (cs ! (x div cluster_size st))) (x mod cluster_size st)"

definition wrote_file ::
  "'h fat_state \<Rightarrow> u32 list \<Rightarrow> (u32 \<Rightarrow> u8 list) \<Rightarrow> nat \<Rightarrow> u8 list \<Rightarrow> (u32 \<Rightarrow> u8 list) \<Rightarrow> bool" where
  "wrote_file st cs D g bs D' \<longleftrightarrow>
     (\<forall>x < length cs * cluster_size st. file_byte st D' cs x =
        (if g \<le> x \<and> x < g + length bs then bs ! (x - g) else file_byte st D cs x)) \<and>
     (\<forall>l. (\<forall>c \<in> set cs. l \<notin> set (cluster_lbas st c)) \<longrightarrow> D' l = D l)"

lemma wrote_file_nothing: "wrote_file st cs D g [] D"
  by (auto simp: wrote_file_def)

lemma wrote_file_append:
  assumes "wrote_file st cs D a bs D1" "wrote_file st cs D1 b es D2" "es = [] \<or> a + length bs = b"
  shows "wrote_file st cs D a (bs @ es) D2"
proof (cases "es = []")
  case True
  then show ?thesis using assms(1,2) by (auto simp: wrote_file_def)
next
  case False
  then have b: "b = a + length bs" using assms(3) by simp
  show ?thesis using assms(1,2) unfolding wrote_file_def b by (auto simp: nth_append)
qed

lemma cluster_lbas_iff: "l \<in> set (cluster_lbas st c) \<longleftrightarrow> (\<exists>i < unat (sectors_per_cluster st). l = fat_cluster_to_lba st c + of_nat i)"
  by (auto simp: cluster_lbas_def)

context fat_volume
begin

lemma sizes: "0 < unat (sectors_per_cluster st)" "unat (sectors_per_cluster st) < 256" "unat (bytes_per_cluster st) = cluster_size st"
  "0 < cluster_size st" "layout_ok st (unat (total_sectors (dev st)))"
proof -
  show ok: "layout_ok st (unat (total_sectors (dev st)))" using volume by (simp add: volume_ok_def)
  then show s: "0 < unat (sectors_per_cluster st)" "unat (sectors_per_cluster st) < 256" by (simp_all add: layout_ok_def)
  then show "unat (bytes_per_cluster st) = cluster_size st" "0 < cluster_size st"
    using ok by (simp_all add: layout_ok_def cluster_size_def unat_mult_lem [THEN iffD1])
qed

text \<open>Where the sectors of a cluster are: behind the tables, apart from those of other clusters.\<close>

lemma cluster_sectors:
  assumes "valid_cluster st c" "i < unat (sectors_per_cluster st)"
  shows "unat (fat_cluster_to_lba st c + of_nat i) = unat (fat_cluster_to_lba st c) + i"
    "data_start_lba st \<le> fat_cluster_to_lba st c + of_nat i"
    "valid_cluster st c' \<Longrightarrow> i' < unat (sectors_per_cluster st) \<Longrightarrow>
       fat_cluster_to_lba st c + of_nat i = fat_cluster_to_lba st c' + of_nat i' \<Longrightarrow> c = c' \<and> i = i'"
proof -
  let ?s = "unat (sectors_per_cluster st)"
  have at: "unat (fat_cluster_to_lba st c + of_nat i) = unat (data_start_lba st) + (unat c - 2) * ?s + i"
    if "valid_cluster st c" "i < ?s" for c i
  proof -
    have "unat (fat_cluster_to_lba st c) + ?s < 2 ^ 32"
      using cluster_lba(2) [OF sizes(5) that(1)] unsigned_less [of "total_sectors (dev st)", where 'a = nat] by simp
    then show ?thesis using sector_of_cluster(2) [OF _ that(2) that(2)] cluster_lba(1) [OF sizes(5) that(1)] by simp
  qed
  show "unat (fat_cluster_to_lba st c + of_nat i) = unat (fat_cluster_to_lba st c) + i"
    using at [OF assms] cluster_lba(1) [OF sizes(5) assms(1)] by simp
  show "data_start_lba st \<le> fat_cluster_to_lba st c + of_nat i" using at [OF assms] by (simp add: word_le_nat_alt)
  assume c': "valid_cluster st c'" "i' < ?s" "fat_cluster_to_lba st c + of_nat i = fat_cluster_to_lba st c' + of_nat i'"
  then have eq: "(unat c - 2) * ?s + i = (unat c' - 2) * ?s + i'" using at [OF assms] at [OF c'(1,2)] by simp
  then have "((unat c - 2) * ?s + i) div ?s = ((unat c' - 2) * ?s + i') div ?s" by simp
  then have "unat c - 2 = unat c' - 2" using assms(2) c'(2) by simp
  moreover from this eq have "i = i'" by simp
  ultimately show "c = c' \<and> i = i'"
    using valid_cluster_nat(1) [OF assms(1)] valid_cluster_nat(1) [OF c'(1)] by (metis le_add_diff_inverse word_unat_eq_iff)
qed

text \<open>Changes behind the tables leave the chains alone.\<close>

lemma successor_data:
  assumes "\<And>l. unat l < table_end st \<Longrightarrow> D' l = D l" "valid_cluster st c"
  shows "successor st D' c = successor st D c"
proof -
  have "0 < unat (num_fats st)" using sizes(5) by (simp add: layout_ok_def)
  then have "unat (entry_sector st 0 c) < table_end st" by (rule entry_sector_nat(2) [OF volume assms(2)])
  then show ?thesis using assms(1) by (simp add: successor_def table_entry_def)
qed

lemma file_chain_data:
  assumes "file_chain st D cs" "\<And>l. unat l < table_end st \<Longrightarrow> D' l = D l"
  shows "file_chain st D' cs"
  using assms(1) successor_data [where D = D and D' = D', OF assms(2)] by (simp add: file_chain_def)

lemma chain_next:
  assumes "ok h" "file_chain st (sector h) cs" "Suc i < length cs"
  obtains h' where "fat_next_cluster st (cs ! i) h = (h', cs ! Suc i)" "ok h'" "sector h' = sector h" "cs ! Suc i \<noteq> 0"
proof -
  have v: "valid_cluster st (cs ! i)" "successor st (sector h) (cs ! i) = cs ! Suc i" "valid_cluster st (cs ! Suc i)"
    using assms(2,3) by (simp_all add: file_chain_def)
  then have ne: "cs ! Suc i \<noteq> 0" by (auto simp: valid_cluster_def)
  obtain h' where "fat_next_cluster st (cs ! i) h = (h', if valid_cluster st (cs ! i) then successor st (sector h) (cs ! i) else 0)"
    "ok h'" "sector h' = sector h" by (rule next_cluster [OF assms(1)])
  then show ?thesis using that [of h'] ne v(1,2) by simp
qed

lemma walk_chain:
  assumes "ok h" "file_chain st (sector h) cs" "i + n < length cs"
  obtains h' where "fat_walk_chain st alloc n (cs ! i) h = Some (h', cs ! (i + n))" "ok h'" "sector h' = sector h"
  using assms
proof (induction n arbitrary: i h thesis)
  case 0
  then show ?case by simp
next
  case (Suc n)
  obtain h1 where h1: "fat_next_cluster st (cs ! i) h = (h1, cs ! Suc i)" "ok h1" "sector h1 = sector h" "cs ! Suc i \<noteq> 0"
    by (rule chain_next [OF Suc.prems(2,3), of i]) (use Suc.prems(4) in auto)
  obtain h' where "fat_walk_chain st alloc n (cs ! Suc i) h1 = Some (h', cs ! (Suc i + n))" "ok h'" "sector h' = sector h1"
    by (rule Suc.IH [OF _ h1(2), of "Suc i"]) (use Suc.prems h1(3) in auto)
  then show ?case using Suc.prems(1) [of h'] h1 by simp
qed

lemma chain_length:
  assumes "file_chain st D cs"
  shows "length cs \<le> unat (total_clusters st + 2)"
proof -
  let ?t = "unat (total_clusters st)"
  have "unat ` set cs \<subseteq> {2..<?t + 2}"
    using assms valid_cluster_nat(1,2) by (fastforce simp: file_chain_def)
  then have "card (unat ` set cs) \<le> ?t" using card_mono [of "{2..<?t + 2}" "unat ` set cs"] by simp
  moreover have "card (unat ` set cs) = length cs"
    using assms by (simp add: file_chain_def card_image distinct_card inj_on_def word_unat_eq_iff)
  moreover have "unat (total_clusters st + 2) = ?t + 2"
    using volume by (subst unat_plus_no_wrap) (auto simp: volume_ok_def split: if_splits)
  ultimately show ?thesis by simp
qed

end

section \<open>Transfers along a chain\<close>

lemma read_clusters_full: "\<not> length acc < want \<Longrightarrow> read_clusters st n want c off (h, acc) = (h, acc)"
  by (cases n) simp_all

lemma write_clusters_full: "\<not> pos < length data \<Longrightarrow> write_clusters st n data c off (h, pos) = Some ((h, pos), True)"
  by (cases n) simp_all

text \<open>A position in a file as a cluster and an offset.\<close>

lemma file_byte_at:
  assumes "x < cluster_size st"
  shows "file_byte st D cs (i * cluster_size st + x) = cluster_byte D (fat_cluster_to_lba st (cs ! i)) x"
  using assms by (simp add: file_byte_def)

lemma map_file_bytes:
  assumes "a + m \<le> cluster_size st"
  shows "map (cluster_byte D (fat_cluster_to_lba st (cs ! i))) [a..<a + m] =
    map (file_byte st D cs) [i * cluster_size st + a..<i * cluster_size st + a + m]"
  using assms by (intro nth_equalityI) (simp_all add: file_byte_at add.assoc)

lemma more_clusters:
  assumes "i < n" "i * z + off + left \<le> n * z" "z < off + left"
  shows "Suc i < n"
proof (rule ccontr)
  assume "\<not> Suc i < n"
  then have "n = Suc i" using assms(1) by simp
  then show False using assms(2,3) by simp
qed

context fat_volume
begin

lemma chain_next_any:
  assumes "ok h" "file_chain st (sector h) cs"
  obtains h' nxt where "fat_next_cluster st (cs ! i) h = (h', nxt)" "ok h'" "sector h' = sector h"
    "Suc i < length cs \<Longrightarrow> nxt = cs ! Suc i"
proof (cases "Suc i < length cs")
  case True
  then show ?thesis using chain_next [OF assms True] that by metis
next
  case False
  then show ?thesis using next_cluster [OF assms(1), of "cs ! i"] that by metis
qed

lemma read_clusters_from:
  assumes "ok h" "file_chain st (sector h) cs" "i < length cs" "unat off < cluster_size st" "length cs - i \<le> fuel"
    and "i * cluster_size st + unat off + (want - length acc) \<le> length cs * cluster_size st"
  obtains h' where "read_clusters st fuel want (cs ! i) off (h, acc) = (h', acc @ map (file_byte st (sector h) cs)
      [i * cluster_size st + unat off..<i * cluster_size st + unat off + (want - length acc)])" "ok h'" "sector h' = sector h"
  using assms
proof (induction fuel arbitrary: i off h acc thesis)
  case 0
  then show ?case by simp
next
  case (Suc n)
  let ?D = "sector h" and ?z = "cluster_size st" and ?c = "cs ! i" and ?left = "want - length acc"
  let ?lba = "fat_cluster_to_lba st ?c" and ?s = "unat (sectors_per_cluster st)"
  have v: "valid_cluster st ?c" using Suc.prems(3,4) by (simp add: file_chain_def)
  then have nz: "?c \<noteq> 0" "\<not> (?c < 2 \<or> total_clusters st + 1 < ?c)" by (auto simp: valid_cluster_iff)
  show ?case
  proof (cases "length acc < want")
    case False
    then show ?thesis using Suc.prems(1) [of h] Suc.prems(2) by (simp add: read_clusters_full)
  next
    case True
    define m where "m = min ?left (?z - unat off)"
    let ?bs = "map (file_byte st ?D cs) [i * ?z + unat off..<i * ?z + unat off + m]"
    have z: "?z = ?s * 512" by (simp add: cluster_size_def)
    obtain h1 where h1: "read_sectors st ?lba off want (map of_nat [0..<?s]) (h, acc) =
        ((h1, acc @ map (cluster_byte ?D ?lba) [max (unat off) (0 * 512)..<max (unat off) (0 * 512) +
           min ?left (?s * 512 - max (unat off) (0 * 512))]), True)" "ok h1" "sector h1 = ?D"
      by (rule read_sectors_from [OF Suc.prems(2) cluster_lba(2) [OF sizes(5) v] sizes(2), of 0 off want acc])
         (use Suc.prems(5) z in auto)
    have rs: "read_sectors st ?lba off want (sector_numbers st) (h, acc) = ((h1, acc @ ?bs), True)"
      using h1(1) map_file_bytes [of "unat off" m st ?D cs i] Suc.prems(5)
      by (simp add: sector_numbers_def z [symmetric] m_def)
    have "file_chain st (sector h1) cs" using Suc.prems(3) h1(3) by simp
    then obtain h2 nxt where h2: "fat_next_cluster st ?c h1 = (h2, nxt)" "ok h2" "sector h2 = ?D"
      "Suc i < length cs \<Longrightarrow> nxt = cs ! Suc i" using chain_next_any [OF h1(2)] h1(3) by metis
    have go: "read_clusters st (Suc n) want ?c off (h, acc) = read_clusters st n want nxt 0 (h2, acc @ ?bs)"
      using True nz rs h2(1) by (simp add: Let_def)
    show ?thesis
    proof (cases "?left \<le> ?z - unat off")
      case True
      then have "m = ?left" "\<not> length (acc @ ?bs) < want" by (auto simp: m_def)
      then show ?thesis using Suc.prems(1) [of h2] h2(2,3) go by (simp add: read_clusters_full)
    next
      case False
      then have m: "m = ?z - unat off" "i * ?z + unat off + m = Suc i * ?z" using Suc.prems(5) by (auto simp: m_def)
      have more: "Suc i < length cs" by (rule more_clusters [OF Suc.prems(4,7)]) (use False in simp)
      obtain h' where h': "read_clusters st n want (cs ! Suc i) 0 (h2, acc @ ?bs) = (h', (acc @ ?bs) @ map (file_byte st (sector h2) cs)
          [Suc i * ?z + unat 0..<Suc i * ?z + unat 0 + (want - length (acc @ ?bs))])" "ok h'" "sector h' = sector h2"
        by (rule Suc.IH [OF _ h2(2), of "Suc i" 0 "acc @ ?bs"])
           (use Suc.prems more m False h2(3) sizes(4) in auto)
      have "i * ?z + unat off + ?left = Suc i * ?z + (want - length (acc @ ?bs))" using m False by simp
      then have "[i * ?z + unat off..<i * ?z + unat off + ?left] =
          [i * ?z + unat off..<Suc i * ?z] @ [Suc i * ?z..<Suc i * ?z + (want - length (acc @ ?bs))]"
        using upt_add_eq_append [of "i * ?z + unat off" "Suc i * ?z"] m(2) by (metis le_add1)
      then show ?thesis using Suc.prems(1) [of h'] h' go h2(3,4) more by (simp add: m(2))
    qed
  qed
qed

end

context fat_volume
begin

text \<open>A write inside one cluster of the chain is a write of the file.\<close>

lemma wrote_cluster:
  assumes "\<And>c. c \<in> set cs \<Longrightarrow> valid_cluster st c" "distinct cs" "i < length cs" "a + length bs \<le> cluster_size st"
    and w: "wrote D (fat_cluster_to_lba st (cs ! i)) (unat (sectors_per_cluster st)) a bs D'"
  shows "wrote_file st cs D (i * cluster_size st + a) bs D'"
proof -
  let ?z = "cluster_size st" and ?s = "unat (sectors_per_cluster st)"
  have z: "?z = ?s * 512" by (simp add: cluster_size_def)
  have "file_byte st D' cs x = (if i * ?z + a \<le> x \<and> x < i * ?z + a + length bs then bs ! (x - (i * ?z + a)) else file_byte st D cs x)"
    if x: "x < length cs * ?z" for x
  proof (cases "x div ?z = i")
    case True
    define y where "y = x mod ?z"
    have y: "y < ?z" "x = i * ?z + y" using sizes(4) True by (auto simp: y_def)
    then show ?thesis using w by (simp add: file_byte_at) (auto simp: wrote_def z)
  next
    case False
    define k where "k = x div ?z"
    have k: "k < length cs" "k \<noteq> i" using x False sizes(4) by (simp_all add: k_def less_mult_imp_div_less)
    have sn: "x mod ?z div 512 < ?s" using sizes(4) by (simp add: z less_mult_imp_div_less)
    have "fat_cluster_to_lba st (cs ! k) + of_nat (x mod ?z div 512) \<noteq> fat_cluster_to_lba st (cs ! i) + of_nat j" if "j < ?s" for j
      using cluster_sectors(3) [OF assms(1) sn assms(1) that, of "cs ! k" "cs ! i"] k assms(2,3) by (auto simp: nth_eq_iff_index_eq)
    then have "file_byte st D' cs x = file_byte st D cs x"
      using w by (simp add: file_byte_def cluster_byte_def wrote_def k_def)
    moreover have "\<not> (i * ?z + a \<le> x \<and> x < i * ?z + a + length bs)"
    proof
      assume "i * ?z + a \<le> x \<and> x < i * ?z + a + length bs"
      then have "i * ?z \<le> x" "x < Suc i * ?z" using assms(4) by auto
      then have "x div ?z = i" by (intro div_nat_eqI) (auto simp: mult.commute)
      then show False using False by simp
    qed
    ultimately show ?thesis by (auto split: if_splits)
  qed
  moreover have "D' l = D l" if "\<forall>c \<in> set cs. l \<notin> set (cluster_lbas st c)" for l
    using w that assms(3) by (force simp: wrote_def cluster_lbas_iff)
  ultimately show ?thesis by (simp add: wrote_file_def)
qed

lemma wrote_file_table:
  assumes "wrote_file st cs D g bs D'" "\<And>c. c \<in> set cs \<Longrightarrow> valid_cluster st c" "unat l < table_end st"
  shows "D' l = D l"
proof -
  have "l < data_start_lba st" using assms(3) volume by (simp add: volume_ok_def word_less_nat_alt)
  then have "l \<notin> set (cluster_lbas st c)" if "c \<in> set cs" for c
    using cluster_sectors(2) [OF assms(2) [OF that]] that by (auto simp: cluster_lbas_iff not_less [symmetric])
  then show ?thesis using assms(1) by (simp add: wrote_file_def)
qed

lemma write_clusters_from:
  assumes "ok h" "file_chain st (sector h) cs" "i < length cs" "unat off < cluster_size st" "length cs - i \<le> fuel" "pos \<le> length data"
    and "i * cluster_size st + unat off + (length data - pos) \<le> length cs * cluster_size st"
  obtains h' where "write_clusters st fuel data (cs ! i) off (h, pos) = Some ((h', length data), True)" "ok h'"
    "wrote_file st cs (sector h) (i * cluster_size st + unat off) (drop pos data) (sector h')"
  using assms
proof (induction fuel arbitrary: i off h pos thesis)
  case 0
  then show ?case by simp
next
  case (Suc n)
  let ?D = "sector h" and ?z = "cluster_size st" and ?c = "cs ! i" and ?left = "length data - pos"
  let ?lba = "fat_cluster_to_lba st ?c" and ?s = "unat (sectors_per_cluster st)"
  have vs: "valid_cluster st c" if "c \<in> set cs" for c using Suc.prems(3) that by (simp add: file_chain_def)
  have v: "valid_cluster st ?c" using vs Suc.prems(4) by simp
  then have nz: "?c \<noteq> 0" by (auto simp: valid_cluster_def)
  show ?case
  proof (cases "pos < length data")
    case False
    then show ?thesis using Suc.prems(1) [of h] Suc.prems(2,7) by (simp add: write_clusters_full wrote_file_nothing)
  next
    case True
    have z: "?z = ?s * 512" by (simp add: cluster_size_def)
    obtain h1 m where h1: "m = min ?left (?s * 512 - max (unat off) (0 * 512))"
      "write_sectors st ?lba off data (map of_nat [0..<?s]) (h, pos) = ((h1, pos + m), True)" "ok h1"
      "wrote ?D ?lba ?s (max (unat off) (0 * 512)) (take m (drop pos data)) (sector h1)"
      by (rule write_sectors_from [OF Suc.prems(2) cluster_lba(2) [OF sizes(5) v] sizes(2), of 0 off pos data])
         (use Suc.prems(5,7) z in auto)
    have m: "m = min ?left (?z - unat off)" using h1(1) by (simp add: z)
    have w: "wrote_file st cs ?D (i * ?z + unat off) (take m (drop pos data)) (sector h1)"
      by (rule wrote_cluster [OF vs _ Suc.prems(4)]) (use Suc.prems(3,5) h1(4) m in \<open>auto simp: file_chain_def\<close>)
    have fc: "file_chain st (sector h1) cs" by (rule file_chain_data [OF Suc.prems(3)]) (rule wrote_file_table [OF w vs])
    have go: "write_clusters st (Suc n) data ?c off (h, pos) =
        (if pos + m < length data
         then Option.bind (next_or_alloc st ?c h1) (\<lambda>(h, nxt).
                if nxt = 0 then Some ((h, pos + m), True) else write_clusters st n data nxt 0 (h, pos + m))
         else Some ((h1, pos + m), True))"
      using True nz h1(2) by (simp add: Let_def sector_numbers_def write_clusters_full)
    show ?thesis
    proof (cases "?left \<le> ?z - unat off")
      case True
      then have "m = ?left" "pos + m = length data" using m Suc.prems(7) by auto
      then show ?thesis using Suc.prems(1) [of h1] h1(3) go w by simp
    next
      case False
      then have m': "m = ?z - unat off" "i * ?z + unat off + m = Suc i * ?z" "pos + m < length data" using m Suc.prems(5) by auto
      have more: "Suc i < length cs" by (rule more_clusters [OF Suc.prems(4,8)]) (use False in simp)
      obtain h2 where h2: "fat_next_cluster st ?c h1 = (h2, cs ! Suc i)" "ok h2" "sector h2 = sector h1" "cs ! Suc i \<noteq> 0"
        by (rule chain_next [OF h1(3) fc more])
      have fc2: "file_chain st (sector h2) cs" using fc h2(3) by simp
      obtain h' where h': "write_clusters st n data (cs ! Suc i) 0 (h2, pos + m) = Some ((h', length data), True)" "ok h'"
        "wrote_file st cs (sector h2) (Suc i * ?z + unat 0) (drop (pos + m) data) (sector h')"
        by (rule Suc.IH [OF _ h2(2) fc2 more, of 0 "pos + m"]) (use Suc.prems(6,8) m' sizes(4) in auto)
      have "wrote_file st cs ?D (i * ?z + unat off) (take m (drop pos data) @ drop (pos + m) data) (sector h')"
        by (rule wrote_file_append [OF w, of "Suc i * ?z"]) (use h'(3) h2(3) m' in auto)
      moreover have "take m (drop pos data) @ drop (pos + m) data = drop pos data"
        by (metis add.commute append_take_drop_id drop_drop)
      ultimately show ?thesis using Suc.prems(1) [of h'] h'(1,2) go m'(3) h2 by (simp add: next_or_alloc_def)
    qed
  qed
qed

end

section \<open>Walks that change one sector\<close>

text \<open>No entry of a long name in the sector has the sequence number 0.\<close>

definition names_ok :: "u8 list \<Rightarrow> bool" where
  "names_ok buf \<longleftrightarrow> (\<forall>j < 16. buf ! (j * 32 + 11) = 0x0F \<longrightarrow> buf ! (j * 32) AND 0x3F \<noteq> 0)"

lemma lfn_chars_returns: "0 \<le> start \<Longrightarrow> \<exists>l'. lfn_chars raw start is l = Some l'"
  by (induction raw start "is" l rule: lfn_chars.induct) (auto simp: Let_def)

lemma lfn_collect_returns:
  assumes "raw ! 0 AND 0x3F \<noteq> 0"
  shows "\<exists>l'. lfn_collect raw l = Some l'"
proof -
  define k where "k = unat (raw ! 0 AND 0x3F)"
  have "k \<noteq> 0" using assms by (simp add: unat_eq_0 k_def)
  then have "0 \<le> (int k - 1) * 13" by simp
  from lfn_chars_returns [OF this, of raw "zip [0..<13] [1, 3, 5, 7, 9, 14, 16, 18, 20, 22, 24, 28, 30]" l]
  show ?thesis unfolding lfn_collect_def Let_def k_def [symmetric] by (auto simp del: upt_rec_numeral)
qed

text \<open>The other direction: sequence number 0 makes the driver write before its buffer.\<close>

lemma lfn_collect_underflow:
  assumes "raw ! 0 AND 0x3F = 0" "le16 raw 1 \<noteq> 0" "le16 raw 1 \<noteq> 0xFFFF"
  shows "lfn_collect raw l = None"
proof -
  have "zip [0..<13] [1, 3, 5, 7, 9, 14, 16, 18, 20, 22, 24, 28, 30 :: nat] =
      (0, 1) # zip [1..<13] [3, 5, 7, 9, 14, 16, 18, 20, 22, 24, 28, 30]" by (simp add: upt_rec)
  then show ?thesis using assms by (simp add: lfn_collect_def Let_def del: upt_rec_numeral)
qed

text \<open>The sectors of the directory with the number \<open>inode\<close>.\<close>

definition dir_sectors :: "'h fat_state \<Rightarrow> (u32 \<Rightarrow> u8 list) \<Rightarrow> u32 \<Rightarrow> u32 set" where
  "dir_sectors st D inode =
     (if is_root_dir st inode then set (map (\<lambda>i. root_dir_lba st + of_nat i) [0..<unat (root_dir_sectors st)])
      else \<Union>c \<in> chain_set st D inode. set (cluster_lbas st c))"

lemma chain_set_successor:
  assumes "valid_cluster st c" "successor st D c \<noteq> 0"
  shows "chain_set st D (successor st D c) \<subseteq> chain_set st D c"
proof -
  have "follows st D c (successor st D c)" using assms by (simp add: follows_simps)
  then show ?thesis by (auto simp: chain_set_def)
qed

context fat_volume
begin

text \<open>A callback that returns, changes at most the sector of its entry, and stops the walk when it does; the verdict of a
  walk with it.\<close>

definition tame :: "('h, 'a) walk_fn \<Rightarrow> bool" where
  "tame fn \<longleftrightarrow> (\<forall>l e lba j a h. ok h \<longrightarrow> lba < total_sectors (dev st) \<longrightarrow> j < 16 \<longrightarrow>
     (\<exists>h' a' rc. fn l e lba (j * 32) a h = Some (h', a', rc) \<and> ok h' \<and> (rc = 0 \<longrightarrow> sector h' = sector h) \<and>
        (\<forall>x. x \<noteq> lba \<longrightarrow> sector h' x = sector h x)))"

definition walked :: "'h \<Rightarrow> u32 set \<Rightarrow> (('h \<times> lfn_state \<times> 'a) \<times> int) option \<Rightarrow> bool" where
  "walked h A r \<longleftrightarrow> (\<exists>h' l a rc. r = Some ((h', l, a), rc) \<and> ok h' \<and> (rc = 0 \<longrightarrow> sector h' = sector h) \<and>
     (\<forall>x. x \<notin> A \<longrightarrow> sector h' x = sector h x))"

lemma walked_mono: "walked h A r \<Longrightarrow> A \<subseteq> B \<Longrightarrow> walked h B r"
  unfolding walked_def by blast

lemma walked_same: "sector h2 = sector h \<Longrightarrow> walked h2 A r = walked h A r"
  by (simp add: walked_def)

lemma walked_done: "ok h \<Longrightarrow> walked h A (Some ((h, l, a), rc))"
  unfolding walked_def by blast

lemma walked_slots:
  assumes "tame fn" "lba < total_sectors (dev st)" "names_ok buf" "length buf = 512" "\<forall>j \<in> set js. j < 16" "ok h"
  shows "walked h {lba} (walk_slots fn lba buf (map (\<lambda>j. j * 32) js) (h, l, a))"
  using assms(5,6)
proof (induction js arbitrary: h l a)
  case Nil
  then show ?case by (simp add: walked_done)
next
  case (Cons j js)
  let ?raw = "take 32 (drop (j * 32) buf)"
  have j: "j < 16" "j * 32 + 31 < 512" using Cons.prems(1) by auto
  have raw: "attr (dirent_of ?raw) = buf ! (j * 32 + 11)" "?raw ! 0 = buf ! (j * 32)"
    using j assms(4) by (simp_all add: dirent_of_def)
  show ?case
  proof (cases "attr (dirent_of ?raw) = 0x0F")
    case True
    then have "?raw ! 0 AND 0x3F \<noteq> 0" using raw assms(3) j(1) unfolding names_ok_def by metis
    then obtain l' where "lfn_collect ?raw l = Some l'" using lfn_collect_returns by blast
    then show ?thesis using True Cons by (simp add: Let_def)
  next
    case False
    obtain h' a' rc where f: "fn l (dirent_of ?raw) lba (j * 32) a h = Some (h', a', rc)" "ok h'" "rc = 0 \<Longrightarrow> sector h' = sector h"
      "\<And>x. x \<noteq> lba \<Longrightarrow> sector h' x = sector h x"
      using assms(1,2) Cons.prems(2) j(1) unfolding tame_def by metis
    show ?thesis
    proof (cases "rc = 0")
      case True
      have "walked h' {lba} (walk_slots fn lba buf (map (\<lambda>j. j * 32) js) (h', lfn_reset l, a'))"
        using Cons.IH [OF _ f(2)] Cons.prems(1) by simp
      then show ?thesis using True False f by (simp add: Let_def walked_def)
    qed (use False f in \<open>auto simp: Let_def walked_def\<close>)
  qed
qed

lemma walked_sectors:
  assumes "tame fn" "\<forall>lba \<in> set lbas. lba < total_sectors (dev st) \<and> names_ok (sector h lba)" "ok h"
  shows "walked h (set lbas) (walk_sectors fn st lbas (h, l, a))"
  using assms(2,3)
proof (induction lbas arbitrary: h l a)
  case Nil
  then show ?case by (simp add: walked_done)
next
  case (Cons lba lbas)
  have lba: "lba < total_sectors (dev st)" "names_ok (sector h lba)" using Cons.prems(1) by simp_all
  obtain h1 where h1: "read_sector (dev st) lba h = (h1, Some (sector h lba))" "ok h1" "sector h1 = sector h"
    using read_law [OF Cons.prems(2) lba(1)] by blast
  obtain h2 l2 a2 rc where w: "walk_slots fn lba (sector h lba) (map (\<lambda>i. i * 32) [0..<16]) (h1, l, a) = Some ((h2, l2, a2), rc)"
    "ok h2" "rc = 0 \<Longrightarrow> sector h2 = sector h" "\<And>x. x \<noteq> lba \<Longrightarrow> sector h2 x = sector h x"
    using walked_slots [OF assms(1) lba sector_length [OF Cons.prems(2)] _ h1(2), of "[0..<16]" l a] h1(3)
    by (auto simp: walked_def simp del: upt_rec_numeral)
  show ?case
  proof (cases "rc = 0")
    case True
    have "walked h2 (set lbas) (walk_sectors fn st lbas (h2, l2, a2))"
      using Cons.IH [OF _ w(2)] Cons.prems(1) w(3) [OF True] by simp
    then show ?thesis using h1 w True by (auto simp: walked_def simp del: upt_rec_numeral)
  qed (use h1 w in \<open>auto simp: walked_def simp del: upt_rec_numeral\<close>)
qed

lemma cluster_sector_inside:
  assumes "valid_cluster st c" "l \<in> set (cluster_lbas st c)"
  shows "l < total_sectors (dev st)"
  using assms cluster_sectors(1) [OF assms(1)] cluster_lba(2) [OF sizes(5) assms(1)]
  by (fastforce simp: cluster_lbas_iff word_less_nat_alt)

lemma walked_clusters:
  assumes "tame fn" "\<forall>x \<in> chain_set st (sector h) c. \<forall>lba \<in> set (cluster_lbas st x). names_ok (sector h lba)" "ok h"
  shows "walked h (\<Union>x \<in> chain_set st (sector h) c. set (cluster_lbas st x)) (walk_clusters fn st n c (h, l, a))"
  using assms(2,3)
proof (induction n arbitrary: c h l a)
  case 0
  then show ?case by (simp add: walked_done)
next
  case (Suc n)
  let ?A = "\<Union>x \<in> chain_set st (sector h) c. set (cluster_lbas st x)"
  show ?case
  proof (cases "valid_cluster st c")
    case False
    then show ?thesis using Suc.prems(2) by (auto simp: valid_cluster_iff walked_done)
  next
    case True
    have c: "c \<in> chain_set st (sector h) c" using True by (simp add: chain_set_def)
    obtain h1 l1 a1 rc where w: "walk_sectors fn st (cluster_lbas st c) (h, l, a) = Some ((h1, l1, a1), rc)" "ok h1"
      "rc = 0 \<Longrightarrow> sector h1 = sector h" "\<And>x. x \<notin> set (cluster_lbas st c) \<Longrightarrow> sector h1 x = sector h x"
      using walked_sectors [OF assms(1) _ Suc.prems(2), of "cluster_lbas st c" l a] Suc.prems(1) c cluster_sector_inside [OF True]
      by (auto simp: walked_def)
    have go: "walk_clusters fn st (Suc n) c (h, l, a) = (if rc \<noteq> 0 then Some ((h1, l1, a1), rc)
        else let (h, c) = fat_next_cluster st c h1 in walk_clusters fn st n c (h, l1, a1))"
      using True w(1) by (simp add: valid_cluster_iff)
    show ?thesis
    proof (cases "rc = 0")
      case False
      then show ?thesis unfolding go using w c by (auto simp: walked_def)
    next
      case rc: True
      let ?n = "successor st (sector h) c"
      obtain h2 where h2: "fat_next_cluster st c h1 = (h2, ?n)" "ok h2" "sector h2 = sector h"
        by (rule next_cluster [OF w(2), of c]) (use True w(3) [OF rc] in auto)
      have sub: "chain_set st (sector h2) ?n \<subseteq> chain_set st (sector h) c"
      proof (cases "?n = 0")
        case True
        have "\<not> valid_cluster st (0 :: u32)" by (simp add: valid_cluster_def)
        then have "chain_set st (sector h2) 0 = {}"
          unfolding chain_set_def by (auto elim: converse_rtranclpE simp: follows_simps)
        then show ?thesis using True by simp
      next
        case False
        then show ?thesis using chain_set_successor [OF True] h2(3) by simp
      qed
      have "walked h2 (\<Union>x \<in> chain_set st (sector h2) ?n. set (cluster_lbas st x)) (walk_clusters fn st n ?n (h2, l1, a1))"
        by (rule Suc.IH [OF _ h2(2)]) (use Suc.prems(1) sub h2(3) in auto)
      then have "walked h2 ?A (walk_clusters fn st n ?n (h2, l1, a1))" by (rule walked_mono) (use sub in blast)
      then show ?thesis unfolding go using rc h2 by (simp add: walked_same [OF h2(3)])
    qed
  qed
qed

end

context fat_volume
begin

lemma root_sector:
  assumes "\<not> is_fat32 st" "l \<in> set (map (\<lambda>i. root_dir_lba st + of_nat i) [0..<unat (root_dir_sectors st)])"
  shows "table_end st \<le> unat l" "l < data_start_lba st" "l < total_sectors (dev st)"
proof -
  obtain i where i: "i < unat (root_dir_sectors st)" "l = root_dir_lba st + of_nat i" using assms(2) by auto
  have v: "table_end st \<le> unat (root_dir_lba st)" "unat (root_dir_lba st) + unat (root_dir_sectors st) \<le> unat (data_start_lba st)"
    using volume assms(1) by (simp_all add: volume_ok_def)
  have "unat (data_start_lba st) < 2 ^ 32" using unsigned_less [of "data_start_lba st", where 'a = nat] by simp
  then have "unat l = unat (root_dir_lba st) + i" using sector_of_cluster(2) [OF _ i(1) i(1)] v i(2) by simp
  moreover have "unat (data_start_lba st) \<le> unat (total_sectors (dev st))" using sizes(5) by (auto simp: layout_ok_def)
  ultimately show "table_end st \<le> unat l" "l < data_start_lba st" "l < total_sectors (dev st)"
    using v i(1) by (simp_all add: word_less_nat_alt)
qed

lemma walked_dir:
  assumes "tame fn" "\<forall>lba \<in> dir_sectors st (sector h) inode. names_ok (sector h lba)" "ok h"
  shows "walked h (dir_sectors st (sector h) inode) (dir_walk fn st inode (h, l, a))"
proof (cases "is_root_dir st inode")
  case True
  let ?lbas = "map (\<lambda>i. root_dir_lba st + of_nat i) [0..<unat (root_dir_sectors st)]"
  have "\<not> is_fat32 st" using True by (simp add: is_root_dir_def)
  then have "\<forall>lba \<in> set ?lbas. lba < total_sectors (dev st) \<and> names_ok (sector h lba)"
    using root_sector(3) assms(2) True unfolding dir_sectors_def by (simp only: if_True) blast
  from walked_sectors [OF assms(1) this assms(3)] show ?thesis using True by (simp add: dir_walk_def dir_sectors_def)
next
  case False
  then show ?thesis using walked_clusters [OF assms(1) _ assms(3)] assms(2) by (simp add: dir_walk_def dir_sectors_def)
qed

lemma length_dirent_bytes:
  assumes "length b = 32"
  shows "length (dirent_bytes (set_size sz first (dirent_of b))) = 32"
  using assms by (simp add: dirent_bytes_def set_size_def dirent_of_def bytes16_def bytes32_def)

lemma rewrite_slot_result:
  assumes "ok h" "lba < total_sectors (dev st)" "length (f (sector h lba)) = 512"
  obtains h' where "rewrite_slot st lba f h = (h', True)" "ok h'" "sector h' = (sector h)(lba := f (sector h lba))"
proof -
  obtain h1 where h1: "read_sector (dev st) lba h = (h1, Some (sector h lba))" "ok h1" "sector h1 = sector h"
    using read_law [OF assms(1,2)] by blast
  then show ?thesis using write_law [OF h1(2) assms(2,3)] that by (auto simp: rewrite_slot_def)
qed

lemma cb_flush_tame: "tame (cb_flush st target sz first)"
  unfolding tame_def
proof (intro allI impI)
  fix l e lba j a h
  assume h: "ok h" "lba < total_sectors (dev st)" "j < (16 :: nat)"
  let ?f = "\<lambda>buf. patch (j * 32) (dirent_bytes (set_size sz first (dirent_of (take 32 (drop (j * 32) buf))))) buf"
  have "length (dirent_bytes (set_size sz first (dirent_of (take 32 (drop (j * 32) (sector h lba)))))) = 32"
    using h sector_length [OF h(1)] by (intro length_dirent_bytes) simp
  then have len: "length (?f (sector h lba)) = 512" using h(3) sector_length [OF h(1)] by simp
  obtain h' where h': "rewrite_slot st lba ?f h = (h', True)" "ok h'" "sector h' = (sector h)(lba := ?f (sector h lba))"
    by (rule rewrite_slot_result [where f = ?f, OF h(1,2) len])
  then show "\<exists>h' a' rc. cb_flush st target sz first l e lba (j * 32) a h = Some (h', a', rc) \<and> ok h' \<and>
      (rc = 0 \<longrightarrow> sector h' = sector h) \<and> (\<forall>x. x \<noteq> lba \<longrightarrow> sector h' x = sector h x)"
    using h(1) by (auto simp: cb_flush_def)
qed

lemma flush_result:
  assumes "ok (disk s)" "\<forall>lba \<in> dir_sectors st (sector (disk s)) parent. names_ok (sector (disk s) lba)"
  obtains s' where "fat_flush_dirent st parent name sz first s = Some s'" "ok (disk s')"
    "\<And>x. x \<notin> dir_sectors st (sector (disk s)) parent \<Longrightarrow> sector (disk s') x = sector (disk s) x"
proof -
  have "walked (disk s) (dir_sectors st (sector (disk s)) parent)
      (dir_walk (cb_flush st (fat_name_from_dot name) sz first) st parent (disk s, lfn s, False))"
    by (rule walked_dir [OF cb_flush_tame assms(2,1)])
  then show ?thesis using that by (auto simp: walked_def fat_flush_dirent_def run_walk_def)
qed

lemma dir_sector_behind_table:
  assumes "l \<in> dir_sectors st D inode"
  shows "table_end st \<le> unat l"
proof (cases "is_root_dir st inode")
  case True
  then show ?thesis using assms root_sector(1) by (auto simp: dir_sectors_def is_root_dir_def)
next
  case False
  then obtain c i where "valid_cluster st c" "i < unat (sectors_per_cluster st)" "l = fat_cluster_to_lba st c + of_nat i"
    using assms by (auto simp: dir_sectors_def chain_set_def cluster_lbas_iff)
  then have "data_start_lba st \<le> l" using cluster_sectors(2) by blast
  then show ?thesis using volume by (auto simp: volume_ok_def word_le_nat_alt)
qed

end

section \<open>Files\<close>

text \<open>A node of a file whose bytes lie in the chain \<open>cs\<close>.\<close>

definition file_node :: "'h fat_state \<Rightarrow> (u32 \<Rightarrow> u8 list) \<Rightarrow> u32 list \<Rightarrow> fat_node \<Rightarrow> bool" where
  "file_node st D cs node \<longleftrightarrow> n_type node = VFS_FILE \<and> file_chain st D cs \<and> n_inode node = hd cs \<and>
     unat (n_size node) \<le> length cs * cluster_size st"

lemma chain_nonzero:
  assumes "file_chain st D cs" "c \<in> set cs"
  shows "c \<noteq> 0"
proof -
  have "valid_cluster st c" using assms by (simp add: file_chain_def)
  then show ?thesis by (auto simp: valid_cluster_def)
qed

lemma offset_words:
  assumes "x < 2 ^ 32"
  shows "(ucast (of_nat x :: u64) :: u32) = of_nat x" "unat (of_nat x :: u32) = x" "unat (of_nat x :: u64) = x"
proof -
  show "unat (of_nat x :: u32) = x" "unat (of_nat x :: u64) = x" using assms by (simp_all add: unat_of_nat)
  then show "(ucast (of_nat x :: u64) :: u32) = of_nat x"
    using assms by (simp add: word_unat_eq_iff unsigned_ucast_eq take_bit_nat_eq_self)
qed

context fat_volume
begin

lemma position:
  assumes "x < 2 ^ 32"
  shows "unat ((of_nat x :: u32) div bytes_per_cluster st) = x div cluster_size st"
    "unat ((of_nat x :: u32) mod bytes_per_cluster st) = x mod cluster_size st"
  using offset_words(2) [OF assms] by (simp_all add: unat_div_distrib unat_mod_distrib sizes(3))

text \<open>Walking to the cluster with position \<open>x\<close>.\<close>

lemma walk_to:
  assumes "ok h" "file_chain st (sector h) cs" "x < length cs * cluster_size st" "x < 2 ^ 32"
  obtains h' where "(if (of_nat x :: u32) div bytes_per_cluster st \<noteq> 0
      then fat_walk_chain st alloc (unat ((of_nat x :: u32) div bytes_per_cluster st)) (hd cs) h else Some (h, hd cs)) =
    Some (h', cs ! (x div cluster_size st))" "ok h'" "sector h' = sector h"
proof -
  have i: "x div cluster_size st < length cs" using assms(3) by (simp add: less_mult_imp_div_less)
  then have hd: "hd cs = cs ! 0" by (cases cs) auto
  obtain h' where w: "fat_walk_chain st alloc (x div cluster_size st) (cs ! 0) h = Some (h', cs ! (0 + x div cluster_size st))"
    "ok h'" "sector h' = sector h"
    by (rule walk_chain [OF assms(1,2), of 0 "x div cluster_size st"]) (use i in auto)
  show ?thesis
  proof (cases "(of_nat x :: u32) div bytes_per_cluster st = 0")
    case True
    then have "x div cluster_size st = 0" using position(1) [OF assms(4)] by (metis unat_0)
    then show ?thesis using that [of h] True assms(1) hd by simp
  next
    case False
    then show ?thesis using that [of h'] w position(1) [OF assms(4)] hd by simp
  qed
qed

lemma fat_read_bytes:
  assumes "ok h" "file_node st (sector h) cs node" "x < unat (n_size node)" "x + unat w < 2 ^ 64"
  obtains h' where "fat_read st node w (int x) h = Some (h', int (min (unat w) (unat (n_size node) - x)),
      map (file_byte st (sector h) cs) [x..<x + min (unat w) (unat (n_size node) - x)])" "ok h'" "sector h' = sector h"
proof -
  let ?N = "unat (n_size node)" and ?m = "min (unat w) (unat (n_size node) - x)" and ?z = "cluster_size st"
  have fc: "file_chain st (sector h) cs" "n_type node = VFS_FILE" "n_inode node = hd cs" "?N \<le> length cs * ?z"
    using assms(2) by (simp_all add: file_node_def)
  have N: "?N < 2 ^ 32" using unsigned_less [of "n_size node", where 'a = nat] by simp
  have x: "x < 2 ^ 32" "x < length cs * ?z" using assms(3) N fc(4) by linarith+
  note ow = offset_words [OF x(1)]
  have cs: "cs \<noteq> []" "valid_cluster st (hd cs)" using fc(1) by (auto simp: file_chain_def)
  have i: "x div ?z < length cs" using x(2) by (simp add: less_mult_imp_div_less)
  have nz: "hd cs \<noteq> 0" "cs ! (x div ?z) \<noteq> 0" using chain_nonzero [OF fc(1)] cs(1) i by simp_all
  have sum: "unat (of_nat x + w :: u64) = x + unat w" using ow(3) assms(4) by (subst unat_plus_no_wrap) simp_all
  have want: "unat (if ucast (n_size node) < of_nat x + w then ucast (n_size node) - of_nat x else w :: u64) = ?m"
    using assms(3) ow(3) sum by (auto simp: word_less_nat_alt unat_ucast_u32_u64 unat_minus_no_wrap)
  obtain h1 where h1: "(if (of_nat x :: u32) div bytes_per_cluster st \<noteq> 0
      then fat_walk_chain st False (unat ((of_nat x :: u32) div bytes_per_cluster st)) (hd cs) h else Some (h, hd cs)) =
    Some (h1, cs ! (x div ?z))" "ok h1" "sector h1 = sector h" by (rule walk_to [OF assms(1) fc(1) x(2,1)])
  let ?o = "(of_nat x :: u32) mod bytes_per_cluster st"
  have fc1: "file_chain st (sector h1) cs" using fc(1) h1(3) by simp
  have ofs: "unat ?o < ?z" "x div ?z * ?z + unat ?o = x" using position(2) [OF x(1)] sizes(4) by simp_all
  have fuel: "length cs - x div ?z \<le> unat (total_clusters st + 2)" using chain_length [OF fc(1)] by simp
  have cap: "x div ?z * ?z + unat ?o + (?m - length []) \<le> length cs * ?z" unfolding ofs(2) using assms(3) fc(4) by simp
  obtain h2 where h2: "read_clusters st (unat (total_clusters st + 2)) ?m (cs ! (x div ?z)) ?o (h1, []) =
      (h2, map (file_byte st (sector h) cs) [x..<x + ?m])" "ok h2" "sector h2 = sector h"
    by (rule read_clusters_from [OF h1(2) fc1 i ofs(1) fuel cap]) (simp add: ofs(2) h1(3))
  have "\<not> n_size node \<le> (of_nat x :: u32)" using ow(2) assms(3) by (simp add: word_le_nat_alt)
  then have "fat_read st node w (int x) h = Some (h2, int ?m, map (file_byte st (sector h) cs) [x..<x + ?m])"
    unfolding fat_read_def Let_def of_int_of_nat_eq ow(1) fc(3) h1(1) want using fc(2) nz h2(1) by simp
  then show ?thesis using that h2(2,3) by blast
qed

end

text \<open>The directory that holds the entry of the node can be updated without touching the file.\<close>

definition entry_dir_ok :: "'h fat_state \<Rightarrow> (u32 \<Rightarrow> u8 list) \<Rightarrow> u32 list \<Rightarrow> fat_node \<Rightarrow> bool" where
  "entry_dir_ok st D cs node \<longleftrightarrow> (\<forall>lba \<in> dir_sectors st D (case n_parent node of None \<Rightarrow> 0 | Some p \<Rightarrow> p).
     names_ok (D lba) \<and> (\<forall>c \<in> set cs. lba \<notin> set (cluster_lbas st c)))"

context fat_volume
begin

lemma chain_set_data:
  assumes "\<And>l. unat l < table_end st \<Longrightarrow> D' l = D l"
  shows "chain_set st D' c = chain_set st D c" "dir_sectors st D' c = dir_sectors st D c"
proof -
  have "follows st D' = follows st D"
    by (intro ext) (auto simp: follows_simps successor_data [where D = D and D' = D', OF assms])
  then show "chain_set st D' c = chain_set st D c" by (simp add: chain_set_def)
  then show "dir_sectors st D' c = dir_sectors st D c" by (simp add: dir_sectors_def)
qed

lemma file_byte_cong:
  assumes "file_chain st D cs" "y < length cs * cluster_size st" "\<And>c l. c \<in> set cs \<Longrightarrow> l \<in> set (cluster_lbas st c) \<Longrightarrow> D' l = D l"
  shows "file_byte st D' cs y = file_byte st D cs y"
proof -
  let ?c = "cs ! (y div cluster_size st)" and ?i = "y mod cluster_size st div 512"
  have "y div cluster_size st < length cs" using assms(2) by (simp add: less_mult_imp_div_less)
  moreover have "y mod cluster_size st < unat (sectors_per_cluster st) * 512"
    using sizes(4) mod_less_divisor [of "cluster_size st" y] by (simp add: cluster_size_def)
  then have "?i < unat (sectors_per_cluster st)" by (simp add: less_mult_imp_div_less)
  ultimately have "fat_cluster_to_lba st ?c + of_nat ?i \<in> set (cluster_lbas st ?c)" "?c \<in> set cs" by (auto simp: cluster_lbas_iff)
  then show ?thesis using assms(3) by (simp add: file_byte_def cluster_byte_def)
qed

lemma fat_write_bytes:
  assumes "ok (disk s)" "file_node st (sector (disk s)) cs node" "x < length cs * cluster_size st"
    and "x + length data \<le> length cs * cluster_size st" "x + length data < 2 ^ 32"
    and dir: "entry_dir_ok st (sector (disk s)) cs node"
  obtains s' node' where "fat_write st node data (int x) s = Some (s', node', int (length data))" "ok (disk s')"
    "file_node st (sector (disk s')) cs node'" "unat (n_size node') = max (unat (n_size node)) (x + length data)"
    "\<And>y. y < length cs * cluster_size st \<Longrightarrow> file_byte st (sector (disk s')) cs y =
       (if x \<le> y \<and> y < x + length data then data ! (y - x) else file_byte st (sector (disk s)) cs y)"
proof -
  let ?D = "sector (disk s)" and ?z = "cluster_size st" and ?o = "(of_nat x :: u32) mod bytes_per_cluster st"
  let ?p = "case n_parent node of None \<Rightarrow> 0 | Some p \<Rightarrow> p"
  have fc: "file_chain st ?D cs" "n_type node = VFS_FILE" "n_inode node = hd cs" "unat (n_size node) \<le> length cs * ?z"
    using assms(2) by (simp_all add: file_node_def)
  have vs: "valid_cluster st c" if "c \<in> set cs" for c using fc(1) that by (simp add: file_chain_def)
  have x: "x < 2 ^ 32" using assms(5) by simp
  note ow = offset_words [OF x]
  have i: "x div ?z < length cs" using assms(3) by (simp add: less_mult_imp_div_less)
  have nz: "hd cs \<noteq> 0" "cs ! (x div ?z) \<noteq> 0" using chain_nonzero [OF fc(1)] fc(1) i by (auto simp: file_chain_def)
  obtain h1 where h1: "(if (of_nat x :: u32) div bytes_per_cluster st \<noteq> 0
      then fat_walk_chain st True (unat ((of_nat x :: u32) div bytes_per_cluster st)) (hd cs) (disk s) else Some (disk s, hd cs)) =
    Some (h1, cs ! (x div ?z))" "ok h1" "sector h1 = ?D" by (rule walk_to [OF assms(1) fc(1) assms(3) x])
  have fc1: "file_chain st (sector h1) cs" using fc(1) h1(3) by simp
  have ofs: "unat ?o < ?z" "x div ?z * ?z + unat ?o = x" using position(2) [OF x] sizes(4) by simp_all
  have fuel: "length cs - x div ?z \<le> unat (total_clusters st + 2)" using chain_length [OF fc(1)] by simp
  have cap: "x div ?z * ?z + unat ?o + (length data - 0) \<le> length cs * ?z" unfolding ofs(2) using assms(4) by simp
  obtain h2 where h2: "write_clusters st (unat (total_clusters st + 2)) data (cs ! (x div ?z)) ?o (h1, 0) =
      Some ((h2, length data), True)" "ok h2" "wrote_file st cs ?D x data (sector h2)"
    by (rule write_clusters_from [OF h1(2) fc1 i ofs(1) fuel le0 cap]) (simp add: ofs(2) h1(3))
  have table: "sector h2 l = ?D l" if "unat l < table_end st" for l by (rule wrote_file_table [OF h2(3) vs that])
  have same: "dir_sectors st (sector h2) c = dir_sectors st ?D c" for c by (rule chain_set_data(2)) (rule table)
  define node' where "node' = (if n_size node < of_nat x + of_nat (length data) then node\<lparr>n_size := of_nat x + of_nat (length data)\<rparr> else node)"
  have sz: "unat (of_nat x + of_nat (length data) :: u32) = x + length data"
    using assms(5) by (metis offset_words(2) of_nat_add)
  have node': "n_size node' = (if n_size node < of_nat x + of_nat (length data) then of_nat x + of_nat (length data) else n_size node)"
    "n_type node' = VFS_FILE" "n_inode node' = hd cs" "n_parent node' = n_parent node" "n_name node' = n_name node"
    using fc by (simp_all add: node'_def)
  have "\<forall>lba \<in> dir_sectors st (sector h2) ?p. names_ok (sector h2 lba)"
    using dir h2(3) unfolding entry_dir_ok_def same wrote_file_def by simp
  then obtain s' where s': "fat_flush_dirent st ?p (n_name node) (n_size node') (hd cs) (s\<lparr>disk := h2\<rparr>) = Some s'" "ok (disk s')"
    "\<And>l. l \<notin> dir_sectors st ?D ?p \<Longrightarrow> sector (disk s') l = sector h2 l"
    using flush_result [of "s\<lparr>disk := h2\<rparr>" ?p "n_name node" "n_size node'" "hd cs"] h2(2) same by auto
  have "fat_write st node data (int x) s = Some (s', node', int (length data))"
    unfolding fat_write_def Let_def of_int_of_nat_eq ow(1) fc(3)
    using fc(2,3) nz h1(1) h2(1) s'(1)
    by (cases "n_size node < of_nat x + of_nat (length data)") (simp_all add: node'_def)
  moreover have "file_chain st (sector (disk s')) cs"
    by (rule file_chain_data [OF fc(1)]) (metis s'(3) table dir_sector_behind_table not_le)
  then have "file_node st (sector (disk s')) cs node'"
    using node' fc(4) assms(4) sz by (simp add: file_node_def word_less_nat_alt)
  moreover have "unat (n_size node') = max (unat (n_size node)) (x + length data)" using node'(1) sz by (auto simp: word_less_nat_alt)
  moreover have "file_byte st (sector (disk s')) cs y = (if x \<le> y \<and> y < x + length data then data ! (y - x) else file_byte st ?D cs y)"
    if "y < length cs * ?z" for y
  proof -
    have "file_byte st (sector (disk s')) cs y = file_byte st (sector h2) cs y"
      by (rule file_byte_cong [OF _ that]) (use fc1 file_chain_data [OF fc(1) table] s'(3) dir in \<open>auto simp: entry_dir_ok_def\<close>)
    then show ?thesis using h2(3) that by (simp add: wrote_file_def)
  qed
  ultimately show ?thesis using that s'(2) by blast
qed

end

section \<open>Properties\<close>


text \<open>A file of the clusters 2 and 3 and a write across their border.\<close>

definition two_clusters :: drive where
  "two_clusters = \<lparr>r_drive = 0, r_lo = 0, r_mi = 0, r_hi = 0, to_host = [], from_host = [], receiving = False,
    medium = (\<lambda>_. patch 4 [3, 0, 0xFF, 0xFF] (replicate 512 0)), capacity = 0x10000000\<rparr>"

definition two_fs :: "drive fat_fs" where
  "two_fs = \<lparr>disk = two_clusters, fat_heap = page_heap, lfn = \<lparr>lfn_buf = replicate 256 0, lfn_len = 0, lfn_active = False\<rparr>\<rparr>"

definition new_file :: fat_node where
  "new_file = \<lparr>n_name = [97], n_type = VFS_FILE, n_size = 0, n_inode = 2, n_parent = Some 0\<rparr>"

lemma two_clusters_file:
  "file_node small_volume (\<lambda>lba. medium two_clusters (2048 + lba)) [2, 3] new_file"
  "entry_dir_ok small_volume (\<lambda>lba. medium two_clusters (2048 + lba)) [2, 3] new_file"
proof -
  let ?D = "\<lambda>lba. medium two_clusters (2048 + lba)"
  have "table_entry small_volume ?D 0 2 = 3"
    by (simp add: table_entry_def entry_value_def small_volume_def entry_byte_def entry_size_def two_clusters_def le16_def nth_patch)
  then have "successor small_volume ?D 2 = 3"
    by (simp add: successor_def Let_def valid_cluster_def) (simp add: small_volume_def)
  then show "file_node small_volume ?D [2, 3] new_file"
    by (simp add: file_node_def file_chain_def new_file_def valid_cluster_def cluster_size_def small_volume_def)
  have "buf ! (j * 32 + 11) = 0" if "j < 16" "buf = patch 4 [3, 0, 0xFF, 0xFF] (replicate 512 (0 :: u8))" for j buf
    using that by (simp add: nth_patch)
  then have "names_ok (medium two_clusters lba)" for lba by (simp add: names_ok_def two_clusters_def)
  moreover have "dir_sectors small_volume ?D 0 = {3}" "cluster_lbas small_volume 2 = [4]" "cluster_lbas small_volume 3 = [5]"
    by (simp_all add: dir_sectors_def is_root_dir_def cluster_lbas_def fat_cluster_to_lba_def small_volume_def)
  ultimately show "entry_dir_ok small_volume ?D [2, 3] new_file" by (simp add: entry_dir_ok_def new_file_def)
qed


end
