(* ===== verification/Procfs.thy ===== *)
theory Procfs
  imports Process Blkdev
begin

text \<open>
  The process file system, \<open>src/fs/procfs.c\<close>: the text of \<open>/proc/meminfo\<close>, \<open>/proc/mounts\<close> and of the two files of every
  process, and the directories above them.

  The text is composed from the state of the kernel and of the block devices at each read.  A buffer of \<open>cap\<close> bytes is the
  string written to it so far.  Nodes are values, of the heap the model keeps the allocations.  \<open>None\<close> around a result is an access
  to memory that the allocator does not know.  \<open>spawn_argc\<close>, \<open>spawn_argv_off\<close> and \<open>spawn_argv_buf\<close>, which no code sets apart from the
  bytes of the buffer, are arguments of the text that reads them.

  The lemmas show that numbers are printed and parsed back, that every text stays inside its buffer, and that each live process
  is listed under a name that leads to its directory.
\<close>

section \<open>Nodes\<close>

datatype proc_kind = PROC_ROOT | PROC_MEMINFO | PROC_MOUNTS | PROC_PID_DIR | PROC_PID_STATUS | PROC_PID_CMDLINE

record proc_node =
  pn_name :: string
  pn_type :: u32
  pn_kind :: proc_kind
  pn_pid :: u32

text \<open>The kernel and the block devices.\<close>

record ('n, 'd, 's, 'h) proc_env =
  kern :: "('n, 'd, 's) kern"
  blk :: "'h blk_state"

text \<open>\<open>sizeof (proc_node_t)\<close> is 8 and \<open>sizeof (vfs_node_t)\<close> is 104.\<close>

definition new_node ::
  "string \<Rightarrow> u32 \<Rightarrow> proc_kind \<Rightarrow> u32 \<Rightarrow> ('n, 'd, 's, 'h) proc_env \<Rightarrow> (('n, 'd, 's, 'h) proc_env \<times> proc_node option) option" where
  "new_node name type kind n e =
     Option.bind (kmalloc (heap (kern e)) 8) (\<lambda>(h, pn).
       let e = e\<lparr>kern := (kern e)\<lparr>heap := h\<rparr>\<rparr>
       in if pn = 0 then Some (e, None)
          else Option.bind (kmalloc h 104) (\<lambda>(h, v).
                 if v = 0 then map_option (\<lambda>h. (e\<lparr>kern := (kern e)\<lparr>heap := h\<rparr>\<rparr>, None)) (kfree h pn)
                 else Some (e\<lparr>kern := (kern e)\<lparr>heap := h\<rparr>\<rparr>,
                        Some \<lparr>pn_name = take (VFS_MAX_NAME - 1) name, pn_type = type, pn_kind = kind, pn_pid = n\<rparr>)))"

section \<open>Formatting\<close>

text \<open>\<open>while (v > 0) { tmp[i++] = '0' + v % 10; v /= 10; }\<close>: the digits from the last one on.\<close>

function rev_digits :: "u64 \<Rightarrow> string" where
  "rev_digits v = (if v = 0 then [] else char_of (48 + unat (v mod 10)) # rev_digits (v div 10))"
  by pat_completeness auto
termination
proof (relation "measure unat")
  fix v :: u64
  assume "v \<noteq> 0"
  then have "0 < unat v" by (simp add: unat_gt_0)
  then show "(v div 10, v) \<in> measure unat" by (simp add: unat_div)
qed simp

declare rev_digits.simps [simp del]

definition utoa_dec :: "u64 \<Rightarrow> string" where
  "utoa_dec v = rev (if v = 0 then ''0'' else rev_digits v)"

definition append_str :: "nat \<Rightarrow> string \<Rightarrow> string \<Rightarrow> string" where
  "append_str cap out s = out @ take (cap - 1 - length out) s"

definition append_u :: "nat \<Rightarrow> string \<Rightarrow> u64 \<Rightarrow> string" where
  "append_u cap out v = out @ take (cap - 1 - length out) (utoa_dec v)"

text \<open>Up to \<open>max_len\<close> characters and up to the first NUL.\<close>

definition append_bounded :: "nat \<Rightarrow> string \<Rightarrow> string \<Rightarrow> nat \<Rightarrow> string" where
  "append_bounded cap out src max_len =
     out @ take (cap - 1 - length out) (takeWhile (\<lambda>c. c \<noteq> CHR 0x00) (take max_len src))"

text \<open>The loop over the characters of a number; \<open>None\<close> for a character that is not a digit and for a value above 32 bits.\<close>

fun digits_value :: "u64 \<Rightarrow> string \<Rightarrow> u64 option" where
  "digits_value v [] = Some v"
| "digits_value v (c # rest) =
     (if of_char c < (48 :: nat) \<or> 57 < (of_char c :: nat) then None
      else let v = v * 10 + (of_nat (of_char c) - 48) in if 0xFFFFFFFF < v then None else digits_value v rest)"

definition is_all_digits :: "string \<Rightarrow> u32 option" where
  "is_all_digits s = (if s = [] then None else map_option ucast (digits_value 0 s))"

section \<open>Contents\<close>

abbreviation (input) LF :: string where "LF \<equiv> [CHR 0x0A]"

definition compose_meminfo :: "nat \<Rightarrow> ('n, 'd, 's, 'h) proc_env \<Rightarrow> string" where
  "compose_meminfo cap e =
     (let f = frames (vm (kern e)); total_kb = ucast (pmm_get_total_count f) * 4; free_kb = ucast (pmm_get_free_count f) * 4;
          p = append_str cap [] ''MemTotal: '';
          p = append_u cap p total_kb;
          p = append_str cap p ('' kB'' @ LF @ ''MemFree: '');
          p = append_u cap p free_kb
      in append_str cap p ('' kB'' @ LF))"

definition mount_line :: "nat \<Rightarrow> 'h blkdev \<Rightarrow> string \<Rightarrow> string" where
  "mount_line cap d p =
     (if mount_path d = [] then p
      else let p = append_str cap p (b_name d);
               p = append_str cap p '' '';
               p = append_str cap p (mount_path d);
               p = append_str cap p '' '';
               p = append_str cap p (if fs_type d \<noteq> [] then fs_type d else ''unknown'')
           in append_str cap p (if read_only d then '' ro'' @ LF else '' rw'' @ LF))"

definition compose_mounts :: "nat \<Rightarrow> ('n, 'd, 's, 'h) proc_env \<Rightarrow> string" where
  "compose_mounts cap e =
     fold (\<lambda>i p. case blkdev_nth (int i) (blk e) of None \<Rightarrow> p | Some d \<Rightarrow> mount_line cap (dev_at (blk e) d) p)
       [0..<nat (blkdev_count (blk e))] []"

definition task_state_char :: "u32 \<Rightarrow> char" where
  "task_state_char st = (if st = 0 then CHR ''R'' else if st = 1 then CHR ''R'' else if st = 2 then CHR ''S''
     else if st = 3 then CHR ''T'' else if st = 4 then CHR ''Z'' else CHR ''?'')"

definition compose_pid_status :: "u32 \<Rightarrow> nat \<Rightarrow> ('n, 'd, 's, 'h) proc_env \<Rightarrow> string" where
  "compose_pid_status n cap e =
     (case process_get n (kern e) of
        None \<Rightarrow> []
      | Some i \<Rightarrow>
          let proc = processes (kern e) i;
              p = append_str cap [] ''Name: '';
              p = append_str cap p (p_name proc);
              p = append_str cap p (LF @ ''Pid: '');
              p = append_u cap p (ucast (pid proc));
              p = append_str cap p (LF @ ''PPid: '');
              p = append_u cap p (ucast (parent_pid proc));
              p = append_str cap p (LF @ ''Pgid: '');
              p = append_u cap p (ucast (pgid proc));
              p = append_str cap p (LF @ ''State: '');
              p = append_str cap p [task_state_char
                    (case p_task proc of None \<Rightarrow> 4 | Some t \<Rightarrow> state_number (t_state (tasks (kern e) t)))];
              p = append_str cap p (LF @ ''UTime: '');
              p = append_u cap p (utime_ticks proc);
              p = append_str cap p (LF @ ''STime: '');
              p = append_u cap p (stime_ticks proc);
              p = append_str cap p (LF @ ''StartTicks: '');
              p = append_u cap p (start_ticks proc)
          in append_str cap p LF)"

text \<open>\<open>if (p < cap) out[p++] = 0;\<close>\<close>

definition append_nul :: "nat \<Rightarrow> string \<Rightarrow> string" where
  "append_nul cap out = (if length out < cap then out @ [CHR 0x00] else out)"

record spawn_args =
  spawn_argc :: int
  spawn_argv_off :: "u64 list"
  spawn_argv_buf :: string

abbreviation (input) SPAWN_ARGV_MAX :: nat where "SPAWN_ARGV_MAX \<equiv> 16"
abbreviation (input) SPAWN_ARGV_BUF :: nat where "SPAWN_ARGV_BUF \<equiv> 512"

definition compose_pid_cmdline :: "spawn_args \<Rightarrow> u32 \<Rightarrow> nat \<Rightarrow> ('n, 'd, 's, 'h) proc_env \<Rightarrow> string" where
  "compose_pid_cmdline args n cap e =
     (case process_get n (kern e) of
        None \<Rightarrow> []
      | Some i \<Rightarrow>
          if spawn_argc args \<le> 0 then append_nul cap (append_str cap [] (p_name (processes (kern e) i)))
          else fold (\<lambda>off p. if of_nat SPAWN_ARGV_BUF \<le> off then p
                      else append_nul cap (append_bounded cap p (drop (unat off) (spawn_argv_buf args)) (SPAWN_ARGV_BUF - unat off)))
                 (take (min (nat (spawn_argc args)) SPAWN_ARGV_MAX) (spawn_argv_off args)) [])"

section \<open>Operations\<close>

definition procfs_text :: "(u32 \<Rightarrow> spawn_args) \<Rightarrow> proc_node \<Rightarrow> ('n, 'd, 's, 'h) proc_env \<Rightarrow> string option" where
  "procfs_text args node e =
     (case pn_kind node of
        PROC_MEMINFO \<Rightarrow> Some (compose_meminfo 1024 e)
      | PROC_MOUNTS \<Rightarrow> Some (compose_mounts 1024 e)
      | PROC_PID_STATUS \<Rightarrow> Some (compose_pid_status (pn_pid node) 1024 e)
      | PROC_PID_CMDLINE \<Rightarrow> Some (compose_pid_cmdline (args (pn_pid node)) (pn_pid node) 1024 e)
      | _ \<Rightarrow> None)"

definition procfs_read ::
  "(u32 \<Rightarrow> spawn_args) \<Rightarrow> proc_node \<Rightarrow> u64 \<Rightarrow> int \<Rightarrow> ('n, 'd, 's, 'h) proc_env \<Rightarrow> int \<times> string" where
  "procfs_read args node n offset e =
     (if offset < 0 then (- 1, [])
      else case procfs_text args node e of
             None \<Rightarrow> (- 1, [])
           | Some tmp \<Rightarrow>
               if int (length tmp) \<le> offset then (0, [])
               else let avail = of_int (int (length tmp) - offset); n = (if avail < n then avail else n)
                    in (uint n, take (unat n) (drop (nat offset) tmp)))"

definition procfs_readdir :: "proc_node \<Rightarrow> u32 \<Rightarrow> ('n, 'd, 's, 'h) proc_env \<Rightarrow> (string \<times> u32) option" where
  "procfs_readdir dir index e =
     (case pn_kind dir of
        PROC_ROOT \<Rightarrow>
          if index = 0 then Some (''meminfo'', VFS_FILE)
          else if index = 1 then Some (''mounts'', VFS_FILE)
          else map_option (\<lambda>info. (utoa_dec (ucast (pi_pid info)), VFS_DIR)) (process_info_at (index - 2) (kern e))
      | PROC_PID_DIR \<Rightarrow>
          if index = 0 then Some (''status'', VFS_FILE)
          else if index = 1 then Some (''cmdline'', VFS_FILE)
          else None
      | _ \<Rightarrow> None)"

definition procfs_finddir ::
  "proc_node \<Rightarrow> string \<Rightarrow> ('n, 'd, 's, 'h) proc_env \<Rightarrow> (('n, 'd, 's, 'h) proc_env \<times> proc_node option) option" where
  "procfs_finddir dir name e =
     (if name = ''.'' \<or> name = ''..'' then Some (e, None)
      else case pn_kind dir of
        PROC_ROOT \<Rightarrow>
          if name = ''meminfo'' then new_node ''meminfo'' VFS_FILE PROC_MEMINFO 0 e
          else if name = ''mounts'' then new_node ''mounts'' VFS_FILE PROC_MOUNTS 0 e
          else if name = ''self''
          then (case process_current (kern e) of
                  None \<Rightarrow> Some (e, None)
                | Some i \<Rightarrow> new_node ''self'' VFS_DIR PROC_PID_DIR (pid (processes (kern e) i)) e)
          else (case is_all_digits name of
                  None \<Rightarrow> Some (e, None)
                | Some n \<Rightarrow> if process_get n (kern e) = None then Some (e, None) else new_node name VFS_DIR PROC_PID_DIR n e)
      | PROC_PID_DIR \<Rightarrow>
          if process_get (pn_pid dir) (kern e) = None then Some (e, None)
          else if name = ''status'' then new_node ''status'' VFS_FILE PROC_PID_STATUS (pn_pid dir) e
          else if name = ''cmdline'' then new_node ''cmdline'' VFS_FILE PROC_PID_CMDLINE (pn_pid dir) e
          else Some (e, None)
      | _ \<Rightarrow> Some (e, None))"

definition procfs_stat :: "proc_node \<Rightarrow> vfs_stat_t" where
  "procfs_stat node = \<lparr>st_inode = 0, st_type = pn_type node, st_size = 0\<rparr>"

text \<open>The file system cannot be written.\<close>

definition procfs_write :: "proc_node \<Rightarrow> u8 list \<Rightarrow> int \<Rightarrow> int" where "procfs_write n b off = - 1"
definition procfs_create :: "proc_node \<Rightarrow> string \<Rightarrow> u32 \<Rightarrow> int" where "procfs_create d n t = - 1"
definition procfs_unlink :: "proc_node \<Rightarrow> string \<Rightarrow> int" where "procfs_unlink d n = - 1"
definition procfs_mkdir :: "proc_node \<Rightarrow> string \<Rightarrow> int" where "procfs_mkdir d n = - 1"
definition procfs_open :: "proc_node \<Rightarrow> u32 \<Rightarrow> int" where "procfs_open n f = 0"
definition procfs_close :: "proc_node \<Rightarrow> int" where "procfs_close n = 0"

definition procfs_init :: "('n, 'd, 's, 'h) proc_env \<Rightarrow> (('n, 'd, 's, 'h) proc_env \<times> proc_node option) option" where
  "procfs_init = new_node ''/'' VFS_DIR PROC_ROOT 0"

section \<open>Numbers\<close>

text \<open>The value of a string of digits, read from the last one on.\<close>

lemma digits_value_append:
  "digits_value v (xs @ ys) = Option.bind (digits_value v xs) (\<lambda>v. digits_value v ys)"
  by (induction xs arbitrary: v) (auto simp: Let_def)

lemma of_char_digit: "n < 10 \<Longrightarrow> of_char (char_of (48 + n :: nat)) = 48 + n"
  by (simp add: of_char_of)

lemma digits_value_digit:
  assumes "n < 10" "unat v * 10 + n \<le> 0xFFFFFFFF"
  shows "digits_value v [char_of (48 + n)] = Some (v * 10 + of_nat n)"
proof -
  have n: "v * 10 + of_nat n = of_nat (unat v * 10 + n)" by simp
  have "unat (v * 10 + of_nat n) = unat v * 10 + n"
    unfolding n by (rule unat_of_nat_u64) (use assms(2) in simp)
  then have "\<not> 0xFFFFFFFF < v * 10 + of_nat n" using assms(2) by (simp add: word_less_nat_alt)
  then show ?thesis using assms(1) by (simp add: of_char_digit)
qed

lemma unat_of_nat_word: "of_nat (unat w) = (w :: u64)"
  by simp

lemma digits_value_rev_digits: "unat v \<le> 0xFFFFFFFF \<Longrightarrow> digits_value 0 (rev (rev_digits v)) = Some v"
proof (induction v rule: rev_digits.induct)
  case (1 v)
  show ?case
  proof (cases "v = 0")
    case True
    then show ?thesis by (simp add: rev_digits.simps)
  next
    case False
    have q: "unat (v div 10) = unat v div 10" "unat (v mod 10) = unat v mod 10" by (simp_all add: unat_div unat_mod)
    have "unat (v div 10) * 10 + unat (v mod 10) = unat v" unfolding q by simp
    then have "unat (v div 10) * 10 + unat (v mod 10) \<le> 0xFFFFFFFF" using 1(2) by (simp only:)
    moreover have "v div 10 * 10 + of_nat (unat (v mod 10)) = v" using div_mult_mod_eq [of v 10] by (simp only: unat_of_nat_word)
    moreover have "digits_value 0 (rev (rev_digits (v div 10))) = Some (v div 10)"
      by (rule 1(1) [OF False]) (use 1(2) q(1) in linarith)
    moreover have "unat (v mod 10) < 10" unfolding q by simp
    ultimately show ?thesis
      using False digits_value_digit [of "unat (v mod 10)" "v div 10"]
      by (subst rev_digits.simps) (simp add: digits_value_append)
  qed
qed

lemma rev_digits_nonempty: "v \<noteq> 0 \<Longrightarrow> rev_digits v \<noteq> []"
  by (subst rev_digits.simps) simp

lemma ucast_nonzero: "n \<noteq> 0 \<Longrightarrow> ucast (n :: u32) \<noteq> (0 :: u64)"
  by (metis unat_0 unat_eq_zero unat_ucast_u32_u64)

lemma unat_of_nat_32: "n < 2 ^ 32 \<Longrightarrow> unat (of_nat n :: u32) = n"
  by (simp add: unat_of_nat take_bit_nat_eq_self)

text \<open>A printed number of 32 bits is parsed back.\<close>

lemma is_all_digits_utoa: "is_all_digits (utoa_dec (ucast (n :: u32))) = Some n"
proof (cases "n = 0")
  case True
  then show ?thesis by (simp add: utoa_dec_def is_all_digits_def)
next
  case False
  then have nz: "ucast n \<noteq> (0 :: u64)" by (rule ucast_nonzero)
  have "unat (ucast n :: u64) \<le> 0xFFFFFFFF"
    using unsigned_less [of n, where 'a = nat] by (simp add: unat_ucast_u32_u64)
  then have "digits_value 0 (rev (rev_digits (ucast n))) = Some (ucast n)" by (rule digits_value_rev_digits)
  moreover have "ucast (ucast n :: u64) = n" by (rule bit_word_eqI) (auto simp: bit_simps)
  ultimately show ?thesis using nz rev_digits_nonempty [OF nz] by (simp add: utoa_dec_def is_all_digits_def)
qed

lemma digits_are_digits: "c \<in> set (utoa_dec v) \<Longrightarrow> 48 \<le> (of_char c :: nat) \<and> of_char c \<le> (57 :: nat)"
proof -
  have "\<forall>c \<in> set (rev_digits v). 48 \<le> (of_char c :: nat) \<and> of_char c \<le> (57 :: nat)"
  proof (induction v rule: rev_digits.induct)
    case (1 v)
    have "unat (v mod 10) < 10" by (simp add: unat_mod)
    then show ?case using 1 by (subst rev_digits.simps) (auto simp: of_char_of)
  qed
  then show "c \<in> set (utoa_dec v) \<Longrightarrow> ?thesis" by (auto simp: utoa_dec_def split: if_splits)
qed

lemma utoa_dec_nonempty: "utoa_dec v \<noteq> []"
  by (simp add: utoa_dec_def rev_digits_nonempty)

text \<open>So the name of a process is none of the fixed names.\<close>

lemma utoa_dec_not_fixed:
  assumes "c \<in> set s" "of_char c < (48 :: nat) \<or> (57 :: nat) < of_char c"
  shows "utoa_dec v \<noteq> s"
  using digits_are_digits assms by fastforce

lemma utoa_dec_length: "length (utoa_dec (ucast (n :: u32))) \<le> 10"
proof -
  have "10 ^ length (rev_digits v) \<le> unat v * 10" if "v \<noteq> 0" for v
    using that
  proof (induction v rule: rev_digits.induct)
    case (1 v)
    have q: "unat (v div 10) = unat v div 10" by (simp add: unat_div)
    have "0 < unat v" using 1(2) by (simp add: unat_gt_0)
    then show ?case
      using 1 q by (cases "v div 10 = 0") (auto simp: rev_digits.simps)
  qed
  from this [of "ucast n"] have "10 ^ length (rev_digits (ucast n)) \<le> unat n * 10" if "n \<noteq> 0"
    using ucast_nonzero [OF that] by (simp add: unat_ucast_u32_u64)
  moreover have "unat n * 10 < 10 ^ 11" using unsigned_less [of n, where 'a = nat] by simp
  ultimately have "length (rev_digits (ucast n)) < 11" if "n \<noteq> 0"
    using that by (meson le_less_trans one_less_numeral_iff power_less_imp_less_exp semiring_norm(76))
  then show ?thesis by (cases "n = 0") (auto simp: utoa_dec_def)
qed

section \<open>Bounds\<close>

text \<open>Appending stays inside the buffer, its last byte left free.\<close>

definition fits :: "nat \<Rightarrow> string \<Rightarrow> bool" where
  "fits cap out \<longleftrightarrow> length out < cap"

lemma append_fits [intro]:
  "fits cap out \<Longrightarrow> fits cap (append_str cap out s)" "fits cap out \<Longrightarrow> fits cap (append_u cap out v)"
  "fits cap out \<Longrightarrow> fits cap (append_bounded cap out s n)"
  by (auto simp: fits_def append_str_def append_u_def append_bounded_def)

lemma compose_meminfo_fits: "0 < cap \<Longrightarrow> fits cap (compose_meminfo cap e)"
  unfolding compose_meminfo_def Let_def by (intro append_fits) (simp add: fits_def)

lemma compose_mounts_fits:
  assumes "0 < cap"
  shows "fits cap (compose_mounts cap e)"
proof -
  have "fits cap p \<Longrightarrow> fits cap (mount_line cap d p)" for d :: "'h blkdev" and p
    unfolding mount_line_def Let_def by (auto intro!: append_fits)
  then have "fits cap p \<Longrightarrow> fits cap (fold (\<lambda>i p. case blkdev_nth (int i) (blk e) of None \<Rightarrow> p
      | Some d \<Rightarrow> mount_line cap (dev_at (blk e) d) p) is p)" for p "is"
    by (induction "is" arbitrary: p) (auto split: option.splits)
  then show ?thesis using assms by (simp add: compose_mounts_def fits_def)
qed

lemma compose_pid_status_fits: "0 < cap \<Longrightarrow> fits cap (compose_pid_status n cap e)"
  unfolding compose_pid_status_def Let_def
  by (cases "process_get n (kern e)") (auto simp: fits_def intro!: append_fits [unfolded fits_def])

lemma append_nul_le: "length out \<le> cap \<Longrightarrow> length (append_nul cap out) \<le> cap"
  by (simp add: append_nul_def)

lemma compose_pid_cmdline_le:
  assumes "0 < cap"
  shows "length (compose_pid_cmdline args n cap e) \<le> cap"
proof -
  have "length (append_nul cap (append_bounded cap p s k)) \<le> cap" if "length p \<le> cap" for p s k
    using that by (intro append_nul_le) (auto simp: append_bounded_def)
  then have "length p \<le> cap \<Longrightarrow> length (fold (\<lambda>off p. if of_nat SPAWN_ARGV_BUF \<le> off then p
      else append_nul cap (append_bounded cap p (drop (unat off) (spawn_argv_buf args)) (SPAWN_ARGV_BUF - unat off))) offs p) \<le> cap" for p and offs :: "u64 list"
    by (induction offs arbitrary: p) auto
  moreover have "length (append_nul cap (append_str cap [] s)) \<le> cap" for s
    using assms by (intro append_nul_le) (simp add: append_str_def)
  ultimately show ?thesis by (auto simp: compose_pid_cmdline_def split: option.splits)
qed

text \<open>So no text exceeds the buffer of 1024 bytes of \<open>procfs_read\<close>.\<close>

lemma procfs_text_bounded: "procfs_text args node e = Some t \<Longrightarrow> length t \<le> 1024"
  using compose_meminfo_fits [of 1024 e] compose_mounts_fits [of 1024 e] compose_pid_status_fits [of 1024 "pn_pid node" e]
    compose_pid_cmdline_le [of 1024 "args (pn_pid node)" "pn_pid node" e]
  by (auto simp: procfs_text_def fits_def split: proc_kind.splits)

section \<open>Directories\<close>

lemma new_node_result:
  "new_node name type kind n e = Some (e', Some node) \<Longrightarrow>
     node = \<lparr>pn_name = take (VFS_MAX_NAME - 1) name, pn_type = type, pn_kind = kind, pn_pid = n\<rparr>"
  by (auto simp: new_node_def Let_def bind_eq_Some_conv split: prod.splits if_splits)

lemma new_node_succeeds:
  assumes "kmalloc (heap (kern e)) 8 = Some (h, a)" "a \<noteq> 0" "kmalloc h 104 = Some (h', b)" "b \<noteq> 0"
  shows "\<exists>e'. new_node name type kind n e =
    Some (e', Some \<lparr>pn_name = take (VFS_MAX_NAME - 1) name, pn_type = type, pn_kind = kind, pn_pid = n\<rparr>)"
  using assms by (simp add: new_node_def Let_def)

lemma process_get_live: "j < PROCESS_MAX \<Longrightarrow> alive (processes s j) \<Longrightarrow> process_get (pid (processes s j)) s \<noteq> None"
  unfolding process_get_def first_process_exists by blast

lemma process_current_live: "process_current s = Some i \<Longrightarrow> i < PROCESS_MAX \<and> alive (processes s i)"
  by (auto simp: process_current_def first_process_def find_Some_iff split: option.splits)

lemma live_slot: "i < length (live_slots s) \<Longrightarrow> live_slots s ! i < PROCESS_MAX \<and> alive (processes s (live_slots s ! i))"
  using nth_mem [of i "live_slots s"] by (simp add: live_slots_def)

lemma live_slots_length: "length (live_slots s) \<le> PROCESS_MAX"
  unfolding live_slots_def using length_filter_le [of _ "[0..<PROCESS_MAX]"] by simp

lemma process_info_at_live:
  assumes "i < length (live_slots s)"
  shows "\<exists>info. process_info_at (of_nat i) s = Some info \<and> pi_pid info = pid (processes s (live_slots s ! i))"
proof -
  have "unat (of_nat i :: u32) = i" using assms live_slots_length [of s] by (intro unat_of_nat_32) simp
  then show ?thesis using assms by (simp add: process_info_at_def Let_def)
qed

text \<open>The names of processes are not the fixed ones.\<close>

lemma utoa_dec_fresh:
  "utoa_dec v \<noteq> ''.''" "utoa_dec v \<noteq> ''..''" "utoa_dec v \<noteq> ''meminfo''" "utoa_dec v \<noteq> ''mounts''" "utoa_dec v \<noteq> ''self''"
  by (rule utoa_dec_not_fixed [of "CHR ''.''"], simp, simp)
    (rule utoa_dec_not_fixed [of "CHR ''.''"], simp, simp,
     rule utoa_dec_not_fixed [of "CHR ''m''"], simp, simp,
     rule utoa_dec_not_fixed [of "CHR ''m''"], simp, simp,
     rule utoa_dec_not_fixed [of "CHR ''s''"], simp, simp)

text \<open>C38: \<open>/proc\<close> lists exactly the live processes.  The entry behind the two fixed ones with number \<open>i\<close> is the decimal pid
  of the \<open>i\<close>th live process; when the two allocations succeed, looking that name up leads to the directory of that
  process, although the name was printed as text and is parsed again.  Conversely every directory of a process that a lookup
  returns belongs to a live process.\<close>

theorem procfs_lists_processes:
  assumes "pn_kind dir = PROC_ROOT" "i < length (live_slots (kern e))"
    and "kmalloc (heap (kern e)) 8 = Some (h, a)" "a \<noteq> 0" "kmalloc h 104 = Some (h', b)" "b \<noteq> 0"
  shows "\<exists>name e' node. procfs_readdir dir (of_nat (i + 2)) e = Some (name, VFS_DIR) \<and>
      procfs_finddir dir name e = Some (e', Some node) \<and> pn_kind node = PROC_PID_DIR \<and> pn_name node = name \<and>
      pn_pid node = pid (processes (kern e) (live_slots (kern e) ! i)) \<and>
      (\<forall>other e'' d. procfs_finddir dir other e = Some (e'', Some d) \<and> pn_kind d = PROC_PID_DIR \<longrightarrow>
         (\<exists>j < PROCESS_MAX. alive (processes (kern e) j) \<and> pid (processes (kern e) j) = pn_pid d))"
proof -
  let ?p = "pid (processes (kern e) (live_slots (kern e) ! i))" let ?name = "utoa_dec (ucast ?p)"
  have i: "of_nat (i + 2) - 2 = (of_nat i :: u32)" "of_nat (i + 2) \<noteq> (0 :: u32)" "of_nat (i + 2) \<noteq> (1 :: u32)"
  proof -
    have "unat (of_nat (i + 2) :: u32) = i + 2" using assms(2) live_slots_length [of "kern e"] by (intro unat_of_nat_32) simp
    then show "of_nat (i + 2) \<noteq> (0 :: u32)" "of_nat (i + 2) \<noteq> (1 :: u32)" by (metis add_2_eq_Suc' nat.distinct(1) unat_0)
        (metis One_nat_def \<open>unat (of_nat (i + 2) :: u32) = i + 2\<close> add_2_eq_Suc' nat.distinct(1) nat.inject unat_1)
  qed simp
  obtain info where "process_info_at (of_nat i) (kern e) = Some info" "pi_pid info = ?p"
    using process_info_at_live [OF assms(2)] by blast
  then have listed: "procfs_readdir dir (of_nat (i + 2)) e = Some (?name, VFS_DIR)"
    using assms(1) i by (simp add: procfs_readdir_def)
  have "process_get ?p (kern e) \<noteq> None" using live_slot [OF assms(2)] process_get_live by blast
  moreover obtain e' where "new_node ?name VFS_DIR PROC_PID_DIR ?p e = Some (e',
      Some \<lparr>pn_name = take (VFS_MAX_NAME - 1) ?name, pn_type = VFS_DIR, pn_kind = PROC_PID_DIR, pn_pid = ?p\<rparr>)"
    using new_node_succeeds [OF assms(3-6)] by blast
  ultimately have found: "procfs_finddir dir ?name e =
      Some (e', Some \<lparr>pn_name = ?name, pn_type = VFS_DIR, pn_kind = PROC_PID_DIR, pn_pid = ?p\<rparr>)"
    using assms(1) utoa_dec_length [of ?p] by (simp add: procfs_finddir_def utoa_dec_fresh is_all_digits_utoa)
  have "\<exists>j < PROCESS_MAX. alive (processes (kern e) j) \<and> pid (processes (kern e) j) = pn_pid d"
    if "procfs_finddir dir other e = Some (e'', Some d)" "pn_kind d = PROC_PID_DIR" for other e'' d
    using that assms(1)
    by (auto simp: procfs_finddir_def process_get_def first_process_def find_Some_iff
      dest!: new_node_result process_current_live split: if_splits option.splits)
  then show ?thesis using listed found by fastforce
qed

text \<open>A kernel with the processes 1 and 2, a fresh heap and no devices.\<close>

definition proc_demo :: "(nat, unit, unit, unit) proc_env" where
  "proc_demo = \<lparr>kern = family_kern\<lparr>heap := page_heap\<rparr>, blk = \<lparr>blk_heap = page_heap, dev_at = (\<lambda>_. undefined), devices = []\<rparr>\<rparr>"

lemma proc_demo_allocates:
  obtains h h' where "kmalloc (heap (kern proc_demo)) 8 = Some (h, 4128)" "kmalloc h 104 = Some (h', 4176)"
proof -
  have start: "heap_start page_heap = 4096" by (simp add: page_heap_def heap_init_def Let_def ALIGN16_def)
  have a: "ALIGN16 8 = 16" "ALIGN16 104 = 112" by (simp_all add: ALIGN16_def)
  obtain s1 where s1: "kmalloc page_heap 8 = Some (s1, 4128)" "heap_start s1 = 4096" "heap_inv s1 [(16, False), (4016, True)]"
    using kmalloc_refines [OF page_heap_inv, of 8] by (auto simp: a start)
  obtain s2 where "kmalloc s1 104 = Some (s2, 4176)"
    using kmalloc_refines [OF s1(3), of 104] by (auto simp: a s1(2))
  then show ?thesis using s1(1) that by (simp add: proc_demo_def)
qed

theorem procfs_lists_processes_witness:
  "\<exists>name e' node. procfs_readdir \<lparr>pn_name = ''/'', pn_type = VFS_DIR, pn_kind = PROC_ROOT, pn_pid = 0\<rparr> 3 proc_demo = Some (name, VFS_DIR) \<and>
     procfs_finddir \<lparr>pn_name = ''/'', pn_type = VFS_DIR, pn_kind = PROC_ROOT, pn_pid = 0\<rparr> name proc_demo = Some (e', Some node) \<and>
     pn_kind node = PROC_PID_DIR \<and> pn_pid node = 2"
proof -
  obtain h h' where "kmalloc (heap (kern proc_demo)) 8 = Some (h, 4128)" "kmalloc h 104 = Some (h', 4176)"
    by (rule proc_demo_allocates)
  moreover have "[0..<64] = 0 # 1 # [2..<64 :: nat]" by (simp add: upt_conv_Cons)
  then have live: "live_slots (kern proc_demo) = [0, 1]"
    by (simp add: live_slots_def proc_demo_def family_kern_def demo_kern_def new_process_def zero_process_def)
  moreover have "pid (processes (kern proc_demo) 1) = 2"
    by (simp add: proc_demo_def family_kern_def demo_kern_def new_process_def)
  ultimately show ?thesis
    using procfs_lists_processes [of "\<lparr>pn_name = ''/'', pn_type = VFS_DIR, pn_kind = PROC_ROOT, pn_pid = 0\<rparr>" 1 proc_demo h 4128 h' 4176]
    by (fastforce simp: live)
qed

end
