(* ===== verification/Fstab.thy ===== *)
theory Fstab
  imports Procfs Fat
begin

text \<open>
  The table of file systems, \<open>src/fs/fstab.c\<close>: the parser of its lines and the mount of one entry.

  The state is that of the kernel with its block devices.  The file systems share the kernel's heap, mount table and node type; how
  the state of the FAT driver sits in the state of the file systems, and how the nodes of the two drivers are nodes of the virtual
  file system, is given by a record.  \<open>None\<close> around a result is undefined behaviour of a driver.  Log lines are left out.

  The lemmas show that the parser reads back the lines of a table: every entry is mounted, in order and with its four fields.
\<close>

section \<open>Tokens\<close>

abbreviation (input) TAB :: char where "TAB \<equiv> CHR 0x09"
abbreviation (input) NL :: char where "NL \<equiv> CHR 0x0A"

definition skip_ws :: "string \<Rightarrow> string" where
  "skip_ws p = dropWhile (\<lambda>c. c = CHR '' '' \<or> c = TAB) p"

text \<open>The token and the text behind it.\<close>

definition next_tok :: "string \<Rightarrow> nat \<Rightarrow> string \<times> string" where
  "next_tok p cap =
     (let p = skip_ws p; out = take (cap - 1) (takeWhile (\<lambda>c. c \<noteq> CHR '' '' \<and> c \<noteq> TAB \<and> c \<noteq> NL) p)
      in (out, drop (length out) p))"

section \<open>Mounting an entry\<close>

record ('n, 'd, 's, 'h) mount_env =
  ops_table :: "'n \<Rightarrow> ('s, 'n) vfs_ops option"
  set_mount :: "nat \<Rightarrow> 'n \<Rightarrow> 'n"
  proc_root :: "proc_node \<Rightarrow> 'n \<times> 'd"
  fat_root :: "'h fat_state \<times> fat_node \<Rightarrow> 'n \<times> 'd"
  fat_part :: "'s \<Rightarrow> 'h fat_fs"
  put_fat :: "'h fat_fs \<Rightarrow> 's \<Rightarrow> 's"

text \<open>\<open>fat_mount\<close> on the state of the kernel.\<close>

definition mount_fat ::
  "('n, 'd, 's, 'h) mount_env \<Rightarrow> 'h blkdev \<Rightarrow> ('n, 'd, 's, 'h) proc_env \<Rightarrow> (('n, 'd, 's, 'h) proc_env \<times> ('n \<times> 'd) option) option" where
  "mount_fat env d e =
     map_option (\<lambda>(fs, r). (e\<lparr>kern := (kern e)\<lparr>fsys := put_fat env fs (fsys (kern e)), heap := fat_heap fs\<rparr>\<rparr>, map_option (fat_root env) r))
       (fat_mount d ((fat_part env (fsys (kern e)))\<lparr>fat_heap := heap (kern e)\<rparr>))"

text \<open>\<open>vfs_mkdir(mountpoint); vfs_mount(mountpoint, ...)\<close>\<close>

definition mount_at ::
  "('n, 'd, 's, 'h) mount_env \<Rightarrow> string \<Rightarrow> 'n \<times> 'd \<Rightarrow> ('n, 'd, 's, 'h) proc_env \<Rightarrow> ('n, 'd, 's, 'h) proc_env \<times> bool" where
  "mount_at env mountpoint r e =
     (let k = fst (with_fsys (vfs_mkdir (ops_table env) (mount_table (kern e)) mountpoint) (kern e));
          (ms, rc) = vfs_mount (set_mount env) mountpoint (fst r) (snd r) (mount_table k)
      in (e\<lparr>kern := k\<lparr>mount_table := ms\<rparr>\<rparr>, rc = 0))"

definition apply_entry ::
  "('n, 'd, 's, 'h) mount_env \<Rightarrow> string \<Rightarrow> string \<Rightarrow> string \<Rightarrow> string \<Rightarrow> ('n, 'd, 's, 'h) proc_env \<Rightarrow>
   (('n, 'd, 's, 'h) proc_env \<times> bool) option" where
  "apply_entry env source mountpoint type flags e =
     (let ro = (flags = ''ro'')
      in if type = ''proc'' \<or> type = ''procfs''
         then map_option (\<lambda>(e, rt). case rt of None \<Rightarrow> (e, False) | Some rt \<Rightarrow> mount_at env mountpoint (proc_root env rt) e)
                (procfs_init e)
         else case blkdev_get source (blk e) of
                None \<Rightarrow> Some (e, False)
              | Some dv \<Rightarrow>
                  if \<not> (type = ''fat'' \<or> type = ''fat16'' \<or> type = ''fat32'') then Some (e, False)
                  else map_option (\<lambda>(e, rt). case rt of
                           None \<Rightarrow> (e, False)
                         | Some rt \<Rightarrow>
                             let (e, ok) = mount_at env mountpoint rt e
                             in if \<not> ok then (e, False)
                                else (e\<lparr>blk := (blk e)\<lparr>dev_at := (dev_at (blk e))(dv := (dev_at (blk e) dv)
                                        \<lparr>mount_path := take 31 mountpoint, fs_type := ''fat'', read_only := ro\<rparr>)\<rparr>\<rparr>, True))
                         (mount_fat env (dev_at (blk e) dv) e))"

definition fstab_do_mount ::
  "('n, 'd, 's, 'h) mount_env \<Rightarrow> string option \<Rightarrow> string option \<Rightarrow> string option \<Rightarrow> string option \<Rightarrow> ('n, 'd, 's, 'h) proc_env \<Rightarrow>
   (('n, 'd, 's, 'h) proc_env \<times> int) option" where
  "fstab_do_mount env source mountpoint type flags e =
     (case (source, mountpoint, type) of
        (Some source, Some mountpoint, Some type) \<Rightarrow>
          map_option (\<lambda>(e, ok). (e, if ok then 0 else - 1))
            (apply_entry env source mountpoint type (case flags of None \<Rightarrow> ''rw'' | Some flags \<Rightarrow> flags) e)
      | _ \<Rightarrow> Some (e, - 1))"

section \<open>The table\<close>

text \<open>The four fields of the line that starts the text, \<open>None\<close> for a comment or a line with fewer than three.\<close>

definition parse_line :: "string \<Rightarrow> (string \<times> string \<times> string \<times> string) option" where
  "parse_line line_start =
     (let line_len = length (takeWhile (\<lambda>c. c \<noteq> NL) line_start);
          blanks = length (takeWhile (\<lambda>c. c = CHR '' '' \<or> c = TAB) (take line_len line_start)); q = drop blanks line_start
      in if line_len \<le> blanks \<or> char_at q 0 = CHR ''#'' \<or> char_at q 0 = NL then None
         else let (source, q) = next_tok q 32
              in if source = [] then None
                 else let (mountpoint, q) = next_tok q VFS_MAX_PATH
                      in if mountpoint = [] then None
                         else let (type, q) = next_tok q 16
                              in if type = [] then None
                                 else let (flags, q) = next_tok q 8
                                      in Some (source, mountpoint, type, if flags = [] then ''rw'' else flags))"

definition next_line :: "string \<Rightarrow> string" where
  "next_line p = drop 1 (dropWhile (\<lambda>c. c \<noteq> NL) p)"

lemma next_line_shorter: "p \<noteq> [] \<Longrightarrow> length (next_line p) < length p"
  using length_dropWhile_le [of "\<lambda>c. c \<noteq> NL" p] by (cases p) (auto simp: next_line_def)

function mount_lines ::
  "('n, 'd, 's, 'h) mount_env \<Rightarrow> string \<Rightarrow> int \<Rightarrow> ('n, 'd, 's, 'h) proc_env \<Rightarrow> (('n, 'd, 's, 'h) proc_env \<times> int) option" where
  "mount_lines env p mounted e =
     (if p = [] then Some (e, mounted)
      else case parse_line p of
             None \<Rightarrow> mount_lines env (next_line p) mounted e
           | Some (source, mountpoint, type, flags) \<Rightarrow>
               (case apply_entry env source mountpoint type flags e of
                  None \<Rightarrow> None
                | Some (e, ok) \<Rightarrow> mount_lines env (next_line p) (if ok then mounted + 1 else mounted) e))"
  by pat_completeness auto
termination
  by (relation "measure (\<lambda>(_, p, _). length p)") (auto simp: next_line_shorter)

declare mount_lines.simps [simp del]

definition fstab_mount_string ::
  "('n, 'd, 's, 'h) mount_env \<Rightarrow> string option \<Rightarrow> ('n, 'd, 's, 'h) proc_env \<Rightarrow> (('n, 'd, 's, 'h) proc_env \<times> int) option" where
  "fstab_mount_string env content e = (case content of None \<Rightarrow> Some (e, 0) | Some p \<Rightarrow> mount_lines env p 0 e)"

definition text_of :: "u8 list \<Rightarrow> string" where
  "text_of bs = map (\<lambda>b. char_of (unat b)) (takeWhile (\<lambda>b. b \<noteq> 0) bs)"

definition fstab_mount_file ::
  "('n, 'd, 's, 'h) mount_env \<Rightarrow> string \<Rightarrow> ('n, 'd, 's, 'h) proc_env \<Rightarrow> (('n, 'd, 's, 'h) proc_env \<times> int) option" where
  "fstab_mount_file env path e =
     (let (k, rc, st) = with_fsys (vfs_stat (ops_table env) (mount_table (kern e)) path) (kern e); e = e\<lparr>kern := k\<rparr>
      in if rc \<noteq> 0 \<or> st_type st \<noteq> VFS_FILE then Some (e, 0)
         else if st_size st = 0 \<or> 4096 < st_size st then Some (e, 0)
         else Option.bind (kmalloc (heap (kern e)) (ucast (st_size st + 1))) (\<lambda>(h, buf).
           let e = e\<lparr>kern := (kern e)\<lparr>heap := h\<rparr>\<rparr>
           in if buf = 0 then Some (e, 0)
              else let (k, n, bs) = with_fsys (vfs_read (ops_table env) (mount_table (kern e)) path (ucast (st_size st)) 0) (kern e);
                       e = e\<lparr>kern := k\<rparr>
                   in Option.bind (if n < 0 then Some (e, 0) else fstab_mount_string env (Some (text_of bs)) e) (\<lambda>(e, mounted).
                        map_option (\<lambda>h. (e\<lparr>kern := (kern e)\<lparr>heap := h\<rparr>\<rparr>, mounted)) (kfree (heap (kern e)) buf))))"

definition default_fstab :: string where
  "default_fstab = ''ata0p0 / fat rw'' @ [NL] @ ''proc /proc proc rw'' @ [NL]"

definition fstab_mount_defaults ::
  "('n, 'd, 's, 'h) mount_env \<Rightarrow> ('n, 'd, 's, 'h) proc_env \<Rightarrow> (('n, 'd, 's, 'h) proc_env \<times> int) option" where
  "fstab_mount_defaults env = fstab_mount_string env (Some default_fstab)"

section \<open>Reading a table back\<close>

text \<open>A token that is not empty, has none of the characters that end a token and fits its buffer of \<open>cap\<close> bytes.\<close>

definition plain :: "char \<Rightarrow> bool" where
  "plain c \<longleftrightarrow> c \<noteq> CHR '' '' \<and> c \<noteq> TAB \<and> c \<noteq> NL"

lemma plain_simps [simp]: "\<not> plain (CHR '' '')" "\<not> plain TAB" "\<not> plain NL"
  by (simp_all add: plain_def)

definition token :: "nat \<Rightarrow> string \<Rightarrow> bool" where
  "token cap t \<longleftrightarrow> t \<noteq> [] \<and> length t < cap \<and> (\<forall>c \<in> set t. plain c)"

type_synonym fstab_entry = "string \<times> string \<times> string \<times> string"

definition entry_ok :: "fstab_entry \<Rightarrow> bool" where
  "entry_ok = (\<lambda>(source, mountpoint, type, flags).
     token 32 source \<and> hd source \<noteq> CHR ''#'' \<and> token VFS_MAX_PATH mountpoint \<and> token 16 type \<and> token 8 flags)"

text \<open>The line of an entry.\<close>

definition entry_line :: "fstab_entry \<Rightarrow> string" where
  "entry_line = (\<lambda>(source, mountpoint, type, flags).
     source @ '' '' @ mountpoint @ '' '' @ type @ '' '' @ flags @ [NL])"

text \<open>A table in which a comment and a blank line stand in front of each entry.\<close>

fun fstab_text :: "string list \<Rightarrow> fstab_entry list \<Rightarrow> string" where
  "fstab_text (c # comments) (en # es) = CHR ''#'' # c @ [NL, CHR '' '', NL] @ entry_line en @ fstab_text comments es"
| "fstab_text _ _ = []"

fun apply_all ::
  "('n, 'd, 's, 'h) mount_env \<Rightarrow> fstab_entry list \<Rightarrow> int \<Rightarrow> ('n, 'd, 's, 'h) proc_env \<Rightarrow> (('n, 'd, 's, 'h) proc_env \<times> int) option" where
  "apply_all env [] n e = Some (e, n)"
| "apply_all env ((source, mountpoint, type, flags) # es) n e =
     Option.bind (apply_entry env source mountpoint type flags e) (\<lambda>(e, ok). apply_all env es (if ok then n + 1 else n) e)"

lemma next_tok_token:
  assumes "token cap t" "\<not> plain c"
  shows "next_tok (t @ c # rest) cap = (t, c # rest)" "next_tok (CHR '' '' # t @ c # rest) cap = (t, c # rest)"
proof -
  have t: "t \<noteq> []" "length t \<le> cap - 1" "\<And>x. x \<in> set t \<Longrightarrow> plain x" using assms(1) by (auto simp: token_def)
  then have "plain (hd t)" by simp
  then have skip: "skip_ws (t @ c # rest) = t @ c # rest" "skip_ws (CHR '' '' # t @ c # rest) = t @ c # rest"
    using t(1) by (cases t; simp add: skip_ws_def plain_def)+
  have "takeWhile plain (t @ c # rest) = t" by (subst takeWhile_append2) (use t(3) assms(2) in auto)
  then have "takeWhile (\<lambda>c. c \<noteq> CHR '' '' \<and> c \<noteq> TAB \<and> c \<noteq> NL) (t @ c # rest) = t" by (simp only: plain_def [abs_def])
  then show "next_tok (t @ c # rest) cap = (t, c # rest)" "next_tok (CHR '' '' # t @ c # rest) cap = (t, c # rest)"
    unfolding next_tok_def skip Let_def using t(2) by simp_all
qed

lemma token_no_newline: "token cap t \<Longrightarrow> NL \<notin> set t"
  using plain_simps(3) unfolding token_def by blast

lemma parse_entry_line:
  assumes "entry_ok en"
  shows "parse_line (entry_line en @ rest) = Some en" "next_line (entry_line en @ rest) = rest"
proof -
  obtain source mountpoint type flags where en: "en = (source, mountpoint, type, flags)" by (cases en) auto
  let ?body = "source @ '' '' @ mountpoint @ '' '' @ type @ '' '' @ flags"
  have line: "entry_line en @ rest = ?body @ NL # rest" by (simp add: en entry_line_def)
  have toks: "token 32 source" "token VFS_MAX_PATH mountpoint" "token 16 type" "token 8 flags" "hd source \<noteq> CHR ''#''"
    using assms by (auto simp: en entry_ok_def)
  have "NL \<notin> set ?body" using token_no_newline [OF toks(1)] token_no_newline [OF toks(2)] token_no_newline [OF toks(3)]
      token_no_newline [OF toks(4)] by simp
  then have nl: "\<And>c. c \<in> set ?body \<Longrightarrow> c \<noteq> NL" by metis
  have tw: "takeWhile (\<lambda>c. c \<noteq> NL) (?body @ NL # rest) = ?body"
    by (subst takeWhile_append2) (simp_all only: nl takeWhile.simps simp_thms if_False append_Nil2)
  have "dropWhile (\<lambda>c. c \<noteq> NL) (?body @ NL # rest) = NL # rest"
    by (subst dropWhile_append2) (simp_all only: nl dropWhile.simps simp_thms if_False)
  then show "next_line (entry_line en @ rest) = rest" by (simp add: next_line_def line)
  obtain x xs where src: "source = x # xs" "x \<noteq> CHR '' ''" "x \<noteq> TAB" "x \<noteq> NL" "x \<noteq> CHR ''#''"
    using toks(1,5) by (cases source) (auto simp: token_def plain_def)
  have ne: "source \<noteq> []" "mountpoint \<noteq> []" "type \<noteq> []" "flags \<noteq> []" using toks by (simp_all add: token_def)
  have first: "char_at (?body @ NL # rest) 0 = x" "takeWhile (\<lambda>c. c = CHR '' '' \<or> c = TAB) ?body = []" "?body \<noteq> []"
    using src by (auto simp: char_at_def)
  have tok: "next_tok (?body @ NL # rest) 32 = (source, CHR '' '' # mountpoint @ CHR '' '' # type @ CHR '' '' # flags @ NL # rest)"
    using next_tok_token(1) [OF toks(1), of "CHR '' ''"] by simp
  show "parse_line (entry_line en @ rest) = Some en"
    unfolding parse_line_def line Let_def tw
    using first(1,2) src ne tok next_tok_token(2) [OF toks(2), of "CHR '' ''"] next_tok_token(2) [OF toks(3), of "CHR '' ''"]
      next_tok_token(2) [OF toks(4), of NL] by (simp add: en)
qed

text \<open>C39: the parser reads a table back.  For every list of entries whose fields are tokens that fit their buffers,
  \<open>fstab_mount_string\<close> on the text of the table, one line per entry, comments and blank lines in front of any of them, mounts exactly
  these entries with exactly these fields, in their order, and returns how many of the mounts succeeded.\<close>

theorem fstab_reads_table:
  assumes "list_all entry_ok entries" "list_all (\<lambda>c. NL \<notin> set c) comments" "length comments = length entries"
  shows "fstab_mount_string env (Some (fstab_text comments entries)) e = apply_all env entries 0 e"
proof -
  have skip: "mount_lines env (CHR ''#'' # c @ [NL, CHR '' '', NL] @ p) n e = mount_lines env p n e"
    if c: "NL \<notin> set c" for c p n e
  proof -
    have "parse_line (CHR ''#'' # c @ [NL, CHR '' '', NL] @ p) = None" by (simp add: parse_line_def Let_def char_at_def)
    moreover have "dropWhile (\<lambda>c. c \<noteq> NL) (c @ [NL, CHR '' '', NL] @ p) = [NL, CHR '' '', NL] @ p"
      by (subst dropWhile_append2) (use c in auto)
    then have "next_line (CHR ''#'' # c @ [NL, CHR '' '', NL] @ p) = CHR '' '' # NL # p" by (simp add: next_line_def)
    moreover have "parse_line (CHR '' '' # NL # p) = None" "next_line (CHR '' '' # NL # p) = p"
      by (simp_all add: parse_line_def next_line_def Let_def)
    ultimately show ?thesis
      using mount_lines.simps [of env "CHR ''#'' # c @ [NL, CHR '' '', NL] @ p"] mount_lines.simps [of env "CHR '' '' # NL # p"] by simp
  qed
  have "mount_lines env (fstab_text comments entries) n e = apply_all env entries n e" for n
    using assms
  proof (induction entries arbitrary: comments n e)
    case Nil
    then show ?case by (simp add: mount_lines.simps)
  next
    case (Cons en entries)
    obtain source mountpoint type flags where en: "en = (source, mountpoint, type, flags)" by (cases en) auto
    obtain c comments' where c: "comments = c # comments'" using Cons.prems(3) by (cases comments) auto
    have ok: "entry_ok en" "NL \<notin> set c" using Cons.prems by (auto simp: c)
    have IH: "mount_lines env (fstab_text comments' entries) n e = apply_all env entries n e" for n e
      by (rule Cons.IH) (use Cons.prems in \<open>auto simp: c\<close>)
    have ne: "entry_line (source, mountpoint, type, flags) \<noteq> []" by (simp add: entry_line_def)
    have "mount_lines env (entry_line en @ fstab_text comments' entries) n e = apply_all env (en # entries) n e"
      unfolding en by (subst mount_lines.simps)
        (simp add: parse_entry_line [OF ok(1), unfolded en] ne IH split: option.splits Option.bind_splits prod.splits)
    then show ?case using skip [OF ok(2)] by (simp add: c)
  qed
  then show ?thesis by (simp add: fstab_mount_string_def)
qed

text \<open>The table of defaults behind comments, with nodes that are numbers and no operations.\<close>

definition demo_mounts :: "(nat, unit, unit, unit) mount_env" where
  "demo_mounts = \<lparr>ops_table = (\<lambda>_. None), set_mount = (\<lambda>_ n. n), proc_root = (\<lambda>_. (1, ())), fat_root = (\<lambda>_. (2, ())),
     fat_part = (\<lambda>_. \<lparr>disk = (), fat_heap = page_heap, lfn = \<lparr>lfn_buf = replicate 256 0, lfn_len = 0, lfn_active = False\<rparr>\<rparr>),
     put_fat = (\<lambda>_ _. ())\<rparr>"

theorem fstab_reads_table_witness:
  "fstab_mount_string demo_mounts (Some (fstab_text [''boot'', []] [(''ata0p0'', ''/'', ''fat'', ''rw''), (''proc'', ''/proc'', ''proc'', ''rw'')])) proc_demo =
     apply_all demo_mounts [(''ata0p0'', ''/'', ''fat'', ''rw''), (''proc'', ''/proc'', ''proc'', ''rw'')] 0 proc_demo"
  by (rule fstab_reads_table) (simp_all add: entry_ok_def token_def plain_def)

end
