(* ===== verification/Vga_Modes.thy ===== *)
theory Vga_Modes
  imports Console Blkdev
begin

text \<open>
  The video modes of \<open>src/drivers/vga.c\<close>: the snapshot of the font, the graphics mode 13h and the way back to text.

  The routines run over a record of the port instructions and of the video memory at \<open>0xA0000\<close>.  The chip of the second half of
  the theory is one instance: index and data registers, the flip-flop of the attribute controller, the write protection of
  the timing registers, the palette and four planes of memory.

  The lemmas show that the way back to text leaves the registers, the palette and the font of the text mode behind, whatever a program
  did to the chip before.
\<close>

section \<open>Routines\<close>

record 'h vga_io = "'h port_io" +
  fb_read :: "nat \<Rightarrow> 'h \<Rightarrow> u8"
  fb_write :: "nat \<Rightarrow> u8 \<Rightarrow> 'h \<Rightarrow> 'h"

abbreviation (input) VGA_FONT_BYTES :: nat where "VGA_FONT_BYTES \<equiv> 8192"
abbreviation (input) VGA_MODE13_BYTES :: nat where "VGA_MODE13_BYTES \<equiv> 64000"

text \<open>\<open>outb(port, i); outb(port + 1, v);\<close> and the read of an indexed register.\<close>

definition out_reg :: "'h vga_io \<Rightarrow> u16 \<Rightarrow> u8 \<Rightarrow> u8 \<Rightarrow> 'h \<Rightarrow> 'h" where
  "out_reg io port i v h = outb io (port + 1) v (outb io port i h)"

definition in_reg :: "'h vga_io \<Rightarrow> u16 \<Rightarrow> u8 \<Rightarrow> 'h \<Rightarrow> 'h \<times> u8" where
  "in_reg io port i h = inb io (port + 1) (outb io port i h)"

text \<open>The registers \<open>i\<close>, \<open>i + 1\<close>, ... of one controller.\<close>

fun out_regs :: "'h vga_io \<Rightarrow> u16 \<Rightarrow> u8 \<Rightarrow> u8 list \<Rightarrow> 'h \<Rightarrow> 'h" where
  "out_regs io port i [] h = h"
| "out_regs io port i (v # vs) h = out_regs io port (i + 1) vs (out_reg io port i v h)"

fun out_attrs :: "'h vga_io \<Rightarrow> u8 \<Rightarrow> u8 list \<Rightarrow> 'h \<Rightarrow> 'h" where
  "out_attrs io i [] h = h"
| "out_attrs io i (v # vs) h = out_attrs io (i + 1) vs (outb io 0x3C0 v (outb io 0x3C0 i h))"

definition outs :: "'h vga_io \<Rightarrow> u16 \<Rightarrow> u8 list \<Rightarrow> 'h \<Rightarrow> 'h" where
  "outs io port vs h = fold (outb io port) vs h"

text \<open>The bytes of the window from \<open>off\<close> on.\<close>

fun fb_fill :: "'h vga_io \<Rightarrow> nat \<Rightarrow> u8 list \<Rightarrow> 'h \<Rightarrow> 'h" where
  "fb_fill io off [] h = h"
| "fb_fill io off (v # vs) h = fb_fill io (off + 1) vs (fb_write io off v h)"

definition vga_font_save :: "'h vga_io \<Rightarrow> 'h \<Rightarrow> 'h \<times> u8 list" where
  "vga_font_save io h =
     (let (h, seq2) = in_reg io 0x3C4 2 h;
          (h, seq4) = in_reg io 0x3C4 4 h;
          (h, gc4) = in_reg io 0x3CE 4 h;
          (h, gc5) = in_reg io 0x3CE 5 h;
          (h, gc6) = in_reg io 0x3CE 6 h;
          h = out_reg io 0x3C4 2 0x04 h;
          h = out_reg io 0x3C4 4 0x06 h;
          h = out_reg io 0x3CE 4 0x02 h;
          h = out_reg io 0x3CE 5 0x00 h;
          h = out_reg io 0x3CE 6 0x05 h;
          saved_font = map (\<lambda>i. fb_read io i h) [0..<VGA_FONT_BYTES];
          h = out_reg io 0x3C4 2 seq2 h;
          h = out_reg io 0x3C4 4 seq4 h;
          h = out_reg io 0x3CE 4 gc4 h;
          h = out_reg io 0x3CE 5 gc5 h
      in (out_reg io 0x3CE 6 gc6 h, saved_font))"

text \<open>\<open>None\<close> before the font is saved.\<close>

definition vga_font_restore :: "'h vga_io \<Rightarrow> u8 list option \<Rightarrow> 'h \<Rightarrow> 'h" where
  "vga_font_restore io saved_font h =
     (case saved_font of
        None \<Rightarrow> h
      | Some font \<Rightarrow>
          let h = out_reg io 0x3C4 2 0x04 h;
              h = out_reg io 0x3C4 4 0x06 h;
              h = out_reg io 0x3CE 0 0x00 h;
              h = out_reg io 0x3CE 1 0x00 h;
              h = out_reg io 0x3CE 3 0x00 h;
              h = out_reg io 0x3CE 5 0x00 h;
              h = out_reg io 0x3CE 6 0x05 h;
              h = out_reg io 0x3CE 8 0xFF h
          in fb_fill io 0 font h)"

definition mode13_seq :: "u8 list" where "mode13_seq = [0x03, 0x01, 0x0F, 0x00, 0x0E]"
definition mode13_crtc :: "u8 list" where
  "mode13_crtc = [0x5F, 0x4F, 0x50, 0x82, 0x54, 0x80, 0xBF, 0x1F, 0x00, 0x41, 0x00, 0x00, 0x00, 0x00, 0x00, 0x00,
     0x9C, 0x0E, 0x8F, 0x28, 0x40, 0x96, 0xB9, 0xA3, 0xFF]"
definition mode13_gc :: "u8 list" where "mode13_gc = [0x00, 0x00, 0x00, 0x00, 0x00, 0x40, 0x05, 0x0F, 0xFF]"
definition mode13_ac :: "u8 list" where
  "mode13_ac = [0x00, 0x01, 0x02, 0x03, 0x04, 0x05, 0x06, 0x07, 0x08, 0x09, 0x0A, 0x0B, 0x0C, 0x0D, 0x0E, 0x0F,
     0x41, 0x00, 0x0F, 0x00, 0x00]"

definition default_palette :: "u8 list" where
  "default_palette =
     [30, 50, 63, 40, 30, 10, 10, 45, 12, 63, 50, 5, 55, 20, 5, 0, 0, 0, 60, 60, 63, 63, 63, 63] @
     concat (map (\<lambda>i. let v = of_nat (i div 4) in [v, v, v]) [8..<256])"

definition vga_set_palette_default :: "'h vga_io \<Rightarrow> 'h \<Rightarrow> 'h" where
  "vga_set_palette_default io h = outs io 0x3C9 default_palette (outb io 0x3C8 0 h)"

text \<open>The part of the two mode switches that differs in its tables only.\<close>

definition set_mode :: "'h vga_io \<Rightarrow> u8 \<Rightarrow> u8 list \<Rightarrow> u8 list \<Rightarrow> u8 list \<Rightarrow> u8 list \<Rightarrow> 'h \<Rightarrow> 'h" where
  "set_mode io misc sq crt gr att h =
     (let h = outb io 0x3C2 misc h;
          h = out_reg io 0x3C4 0 0x03 h;
          h = out_regs io 0x3C4 0 sq h;
          h = out_reg io 0x3D4 0x11 (crt ! 0x11 AND 0x7F) h;
          h = out_regs io 0x3D4 0 crt h;
          h = out_regs io 0x3CE 0 gr h;
          h = fst (inb io 0x3DA h);
          h = out_attrs io 0 att h
      in outb io 0x3C0 0x20 h)"

definition vga_mode13_enter :: "'h vga_io \<Rightarrow> 'h \<Rightarrow> 'h" where
  "vga_mode13_enter io h =
     (let h = set_mode io 0x63 mode13_seq mode13_crtc mode13_gc mode13_ac h;
          h = vga_set_palette_default io h
      in fb_fill io 0 (replicate VGA_MODE13_BYTES 0) h)"

definition mode3_seq :: "u8 list" where "mode3_seq = [0x03, 0x00, 0x03, 0x00, 0x02]"
definition mode3_crtc :: "u8 list" where
  "mode3_crtc = [0x5F, 0x4F, 0x50, 0x82, 0x55, 0x81, 0xBF, 0x1F, 0x00, 0x4F, 0x0D, 0x0E, 0x00, 0x00, 0x00, 0x50,
     0x9C, 0x0E, 0x8F, 0x28, 0x1F, 0x96, 0xB9, 0xA3, 0xFF]"
definition mode3_gc :: "u8 list" where "mode3_gc = [0x00, 0x00, 0x00, 0x00, 0x00, 0x10, 0x0E, 0x00, 0xFF]"
definition mode3_ac :: "u8 list" where
  "mode3_ac = [0x00, 0x01, 0x02, 0x03, 0x04, 0x05, 0x14, 0x07, 0x38, 0x39, 0x3A, 0x3B, 0x3C, 0x3D, 0x3E, 0x3F,
     0x0C, 0x00, 0x0F, 0x08, 0x00]"

definition text_pal :: "u8 list" where
  "text_pal = [0, 0, 0, 0, 0, 42, 0, 42, 0, 0, 42, 42, 42, 0, 0, 42, 0, 42, 42, 21, 0, 42, 42, 42,
     21, 21, 21, 21, 21, 63, 21, 63, 21, 21, 63, 63, 63, 21, 21, 63, 21, 63, 63, 63, 21, 63, 63, 63]"

text \<open>The chip, and the text screen with its cursor.\<close>

definition vga_text_chip :: "'h vga_io \<Rightarrow> u8 list option \<Rightarrow> 'h \<Rightarrow> 'h" where
  "vga_text_chip io saved_font h =
     (let h = set_mode io 0x67 mode3_seq mode3_crtc mode3_gc mode3_ac h;
          h = outs io 0x3C9 text_pal (outb io 0x3C8 0 h);
          h = vga_font_restore io saved_font h;
          h = out_reg io 0x3C4 0 0x03 h;
          h = out_regs io 0x3C4 0 mode3_seq h
      in out_regs io 0x3CE 0 mode3_gc h)"

definition vga_text_enter :: "'h vga_io \<Rightarrow> u8 list option \<Rightarrow> 'h \<times> 'a vga_scheme \<Rightarrow> 'h \<times> 'a vga_scheme" where
  "vga_text_enter io saved_font = (\<lambda>(h, v).
     (let h = vga_text_chip io saved_font h;
          v = v\<lparr>vga_row := 0, vga_col := 0, vga_color_attr := vga_make_color 7 0\<rparr>
      in (h, vga_clear v)))"

section \<open>The chip\<close>

text \<open>
  Registers behind an index port and a data port; \<open>ac_data\<close> is the flip-flop that says what the next write to \<open>0x3C0\<close> is.
\<close>

record chip =
  misc :: u8
  seq_idx :: u8
  seq :: "u8 \<Rightarrow> u8"
  crtc_idx :: u8
  crtc :: "u8 \<Rightarrow> u8"
  gc_idx :: u8
  gc :: "u8 \<Rightarrow> u8"
  ac_data :: bool
  ac_idx :: u8
  ac :: "u8 \<Rightarrow> u8"
  dac_pos :: nat
  dac :: "nat \<Rightarrow> u8"
  planes :: "nat \<Rightarrow> nat \<Rightarrow> u8"

definition chip_out :: "u16 \<Rightarrow> u8 \<Rightarrow> chip \<Rightarrow> chip" where
  "chip_out port v c =
     (if port = 0x3C2 then c\<lparr>misc := v\<rparr>
      else if port = 0x3C4 then c\<lparr>seq_idx := v\<rparr>
      else if port = 0x3C5 then c\<lparr>seq := (seq c)(seq_idx c := v)\<rparr>
      else if port = 0x3D4 then c\<lparr>crtc_idx := v\<rparr>
      else if port = 0x3D5
      then (if bit (crtc c 0x11) 7 \<and> crtc_idx c < 8 then c else c\<lparr>crtc := (crtc c)(crtc_idx c := v)\<rparr>)
      else if port = 0x3CE then c\<lparr>gc_idx := v\<rparr>
      else if port = 0x3CF then c\<lparr>gc := (gc c)(gc_idx c := v)\<rparr>
      else if port = 0x3C0
      then (if ac_data c then c\<lparr>ac := (ac c)(ac_idx c := v), ac_data := False\<rparr> else c\<lparr>ac_idx := v AND 0x1F, ac_data := True\<rparr>)
      else if port = 0x3C8 then c\<lparr>dac_pos := 3 * unat v\<rparr>
      else if port = 0x3C9 then c\<lparr>dac := (dac c)(dac_pos c := v AND 0x3F), dac_pos := (dac_pos c + 1) mod 768\<rparr>
      else c)"

definition chip_in :: "u16 \<Rightarrow> chip \<Rightarrow> chip \<times> u8" where
  "chip_in port c =
     (if port = 0x3DA then (c\<lparr>ac_data := False\<rparr>, 0)
      else if port = 0x3C5 then (c, seq c (seq_idx c))
      else if port = 0x3CF then (c, gc c (gc_idx c))
      else (c, 0))"

text \<open>Bit 3 of the fourth sequencer register chains the planes; else the second one selects the planes that a write reaches.\<close>

definition chip_write :: "nat \<Rightarrow> u8 \<Rightarrow> chip \<Rightarrow> chip" where
  "chip_write off v c =
     c\<lparr>planes := (\<lambda>p a. if a = off \<and> (if bit (seq c 4) 3 then p = off mod 4 else p < 4 \<and> bit (seq c 2) p) then v else planes c p a)\<rparr>"

definition chip_io :: "chip vga_io" where
  "chip_io = \<lparr>inb = chip_in, inw = (\<lambda>_ c. (c, 0)), outb = chip_out, outw = (\<lambda>_ _ c. c),
     fb_read = (\<lambda>off c. planes c (unat (gc c 4 AND 3)) off), fb_write = chip_write\<rparr>"

lemma chip_io_simps [simp]:
  "inb chip_io = chip_in" "outb chip_io = chip_out" "fb_write chip_io = chip_write"
  "fb_read chip_io = (\<lambda>off c. planes c (unat (gc c 4 AND 3)) off)"
  by (simp_all add: chip_io_def)

lemma chip_out_simps [simp]:
  "chip_out 0x3C2 v c = c\<lparr>misc := v\<rparr>" "chip_out 0x3C8 v c = c\<lparr>dac_pos := 3 * unat v\<rparr>" "chip_in 0x3DA c = (c\<lparr>ac_data := False\<rparr>, 0)"
  "\<not> ac_data c \<Longrightarrow> chip_out 0x3C0 v c = c\<lparr>ac_idx := v AND 0x1F, ac_data := True\<rparr>"
  by (simp_all add: chip_out_def chip_in_def)

lemma out_reg_chip [simp]:
  "out_reg chip_io 0x3C4 i v c = c\<lparr>seq_idx := i, seq := (seq c)(i := v)\<rparr>"
  "out_reg chip_io 0x3CE i v c = c\<lparr>gc_idx := i, gc := (gc c)(i := v)\<rparr>"
  "out_reg chip_io 0x3D4 i v c =
     (if bit (crtc c 0x11) 7 \<and> i < 8 then c\<lparr>crtc_idx := i\<rparr> else c\<lparr>crtc_idx := i, crtc := (crtc c)(i := v)\<rparr>)"
  by (simp_all add: out_reg_def chip_out_def)

lemma in_reg_chip [simp]:
  "in_reg chip_io 0x3C4 i c = (c\<lparr>seq_idx := i\<rparr>, seq c i)" "in_reg chip_io 0x3CE i c = (c\<lparr>gc_idx := i\<rparr>, gc c i)"
  by (simp_all add: in_reg_def chip_in_def chip_out_def)

text \<open>A register file after the values \<open>vs\<close> were written from \<open>i\<close> on.\<close>

definition loaded :: "u8 \<Rightarrow> u8 list \<Rightarrow> (u8 \<Rightarrow> u8) \<Rightarrow> u8 \<Rightarrow> u8" where
  "loaded i vs f = (\<lambda>j. if unat i \<le> unat j \<and> unat j < unat i + length vs then vs ! (unat j - unat i) else f j)"

lemma loaded_Nil: "loaded i [] f = f"
  by (rule ext) (auto simp: loaded_def)

lemma loaded_Cons:
  assumes "unat i + length vs < 256"
  shows "loaded (i + 1) vs (f(i := v)) = loaded i (v # vs) f"
proof (cases "vs = []")
  case True
  have "j = i" if "unat j = unat i" for j :: u8 using that by (rule word_eq_unatI)
  then show ?thesis using True by (auto simp: loaded_def fun_eq_iff)
next
  case False
  then have "unat i + 1 < 256" using assms by (cases vs) simp_all
  then have i: "unat (i + 1) = unat i + 1" by (simp add: unat_word_ariths)
  show ?thesis
  proof
    fix j :: u8
    show "loaded (i + 1) vs (f(i := v)) j = loaded i (v # vs) f j"
    proof (cases "j = i")
      case True
      then show ?thesis by (simp add: loaded_def i)
    next
      case False
      then have "unat j \<noteq> unat i" by (metis word_eq_unatI)
      then show ?thesis using False by (auto simp: loaded_def i nth_Cons')
    qed
  qed
qed

lemma out_regs_chip:
  "unat i + length vs \<le> 256 \<Longrightarrow> \<exists>k. out_regs chip_io 0x3C4 i vs c = c\<lparr>seq_idx := k, seq := loaded i vs (seq c)\<rparr>"
  "unat i + length vs \<le> 256 \<Longrightarrow> \<exists>k. out_regs chip_io 0x3CE i vs c = c\<lparr>gc_idx := k, gc := loaded i vs (gc c)\<rparr>"
proof (induction vs arbitrary: i c)
  case Nil
  case 1 show ?case by (rule exI [of _ "seq_idx c"]) (simp add: loaded_Nil)
  case 2 show ?case by (rule exI [of _ "gc_idx c"]) (simp add: loaded_Nil)
next
  case (Cons v vs)
  have i: "unat (i + 1) + length vs \<le> 256" if "unat i + length (v # vs) \<le> 256" for i :: u8
    using that unat_word_ariths(1) [of i 1] by (cases "vs = []") (auto simp: le_less)
  have load: "loaded (i + 1) vs (f(i := v)) = loaded i (v # vs) f" if "unat i + length (v # vs) \<le> 256" for f and i :: u8
    by (rule loaded_Cons) (use that in simp)
  case 1
  from Cons.IH(1) [OF i [OF 1], of "c\<lparr>seq_idx := i, seq := (seq c)(i := v)\<rparr>"] show ?case by (simp add: load [OF 1] load [OF 1, unfolded fun_upd_def])
  case 2
  from Cons.IH(2) [OF i [OF 2], of "c\<lparr>gc_idx := i, gc := (gc c)(i := v)\<rparr>"] show ?case by (simp add: load [OF 2] load [OF 2, unfolded fun_upd_def])
qed

text \<open>The timing registers, once they are not protected and as long as the values written leave them so.\<close>

lemma out_regs_crtc:
  assumes "\<not> bit (crtc c 0x11) 7" "unat i + length vs \<le> 256"
    "\<And>k. k < length vs \<Longrightarrow> unat i + k = 0x11 \<Longrightarrow> \<not> bit (vs ! k) 7"
  shows "\<exists>k. out_regs chip_io 0x3D4 i vs c = c\<lparr>crtc_idx := k, crtc := loaded i vs (crtc c)\<rparr>"
  using assms
proof (induction vs arbitrary: i c)
  case Nil
  show ?case by (rule exI [of _ "crtc_idx c"]) (simp add: loaded_Nil)
next
  case (Cons v vs)
  let ?c = "c\<lparr>crtc_idx := i, crtc := (crtc c)(i := v)\<rparr>"
  have i: "unat (i + 1) = unat i + 1" if "vs \<noteq> []"
  proof -
    have "unat i + 1 < 256" using that Cons.prems(2) by (cases vs) simp_all
    then show ?thesis by (simp add: unat_word_ariths)
  qed
  then have bound: "unat (i + 1) + length vs \<le> 256"
    using Cons.prems(2) unsigned_less [of "i + 1", where 'a = nat] by (cases "vs = []") simp_all
  have "\<not> bit (crtc ?c 0x11) 7"
  proof (cases "i = 0x11")
    case True
    then show ?thesis using Cons.prems(3) [of 0] by simp
  qed (use Cons.prems(1) in simp)
  moreover have "\<not> bit (vs ! k) 7" if k: "k < length vs" "unat (i + 1) + k = 0x11" for k
  proof -
    have "unat i + Suc k = 0x11" using k i by (cases "vs = []") simp_all
    then show ?thesis using Cons.prems(3) [of "Suc k"] k(1) by simp
  qed
  ultimately obtain k where "out_regs chip_io 0x3D4 (i + 1) vs ?c = ?c\<lparr>crtc_idx := k, crtc := loaded (i + 1) vs (crtc ?c)\<rparr>"
    using Cons.IH [OF _ bound, of ?c] by blast
  moreover have load: "loaded (i + 1) vs ((crtc c)(i := v)) = loaded i (v # vs) (crtc c)"
    by (rule loaded_Cons) (use Cons.prems(2) in simp)
  ultimately show ?case using Cons.prems(1) by (auto simp: load [unfolded fun_upd_def])
qed

lemma out_attrs_chip:
  "\<not> ac_data c \<Longrightarrow> unat i + length vs \<le> 32 \<Longrightarrow>
     \<exists>k. out_attrs chip_io i vs c = c\<lparr>ac_idx := k, ac := loaded i vs (ac c)\<rparr>"
proof (induction vs arbitrary: i c)
  case Nil
  show ?case by (rule exI [of _ "ac_idx c"]) (simp add: loaded_Nil)
next
  case (Cons v vs)
  have "unat i < 32" using Cons.prems(2) by simp
  then have "unat (take_bit 5 i) = unat i" "unat (i + 1) = unat i + 1"
    by (simp_all add: unsigned_take_bit_eq take_bit_nat_eq_self unat_word_ariths)
  then have "take_bit 5 i = i" "unat (i + 1) = unat i + 1" by (auto intro: word_eq_unatI)
  then have i: "i AND 0x1F = i" "unat (i + 1) = unat i + 1"
    using take_bit_eq_mask [of 5 i] by (simp_all add: mask_eq_exp_minus_1)
  have "chip_out 0x3C0 v (chip_out 0x3C0 i c) = c\<lparr>ac_idx := i, ac := (ac c)(i := v)\<rparr>"
    using Cons.prems(1) by (simp add: i) (simp add: chip_out_def)
  moreover have "\<exists>k. out_attrs chip_io (i + 1) vs (c\<lparr>ac_idx := i, ac := (ac c)(i := v)\<rparr>) =
      c\<lparr>ac_idx := k, ac := loaded (i + 1) vs ((ac c)(i := v))\<rparr>"
    using Cons.IH [of "c\<lparr>ac_idx := i, ac := (ac c)(i := v)\<rparr>" "i + 1"] Cons.prems i by (simp add: fun_upd_def)
  moreover have "loaded (i + 1) vs ((ac c)(i := v)) = loaded i (v # vs) (ac c)"
    by (rule loaded_Cons) (use Cons.prems(2) in simp)
  ultimately show ?case by simp
qed

text \<open>The same for memory, the bytes passed through \<open>g\<close>.\<close>

definition stored_at :: "(u8 \<Rightarrow> u8) \<Rightarrow> nat \<Rightarrow> u8 list \<Rightarrow> (nat \<Rightarrow> u8) \<Rightarrow> nat \<Rightarrow> u8" where
  "stored_at g n vs f = (\<lambda>a. if n \<le> a \<and> a < n + length vs then g (vs ! (a - n)) else f a)"

lemma stored_at_Nil: "stored_at g n [] f = f"
  by (rule ext) (auto simp: stored_at_def)

lemma stored_at_Cons: "stored_at g (Suc n) vs (f(n := g v)) = stored_at g n (v # vs) f"
  by (rule ext) (auto simp: stored_at_def nth_Cons')

lemma outs_dac:
  "dac_pos c + length vs < 768 \<Longrightarrow>
     outs chip_io 0x3C9 vs c = c\<lparr>dac_pos := dac_pos c + length vs, dac := stored_at (\<lambda>v. v AND 0x3F) (dac_pos c) vs (dac c)\<rparr>"
proof (induction vs arbitrary: c)
  case Nil
  show ?case by (simp add: outs_def stored_at_Nil)
next
  case (Cons v vs)
  let ?c = "c\<lparr>dac := (dac c)(dac_pos c := v AND 0x3F), dac_pos := dac_pos c + 1\<rparr>"
  have step: "chip_out 0x3C9 v c = ?c" using Cons.prems by (simp add: chip_out_def)
  have "outs chip_io 0x3C9 vs ?c = ?c\<lparr>dac_pos := dac_pos ?c + length vs, dac := stored_at (\<lambda>v. v AND 0x3F) (dac_pos ?c) vs (dac ?c)\<rparr>"
    by (rule Cons.IH) (use Cons.prems in simp)
  then show ?case
    using stored_at_Cons [of "\<lambda>v. v AND 0x3F" "dac_pos c" vs "dac c" v] by (simp add: outs_def step fun_upd_def)
qed

text \<open>With only plane 2 selected and no chaining, the bytes written to the window are the bytes of that plane.\<close>

lemma four_bit: "p < 4 \<Longrightarrow> bit (4 :: u8) p \<longleftrightarrow> p = 2"
proof -
  have four: "(4 :: u8) = push_bit 2 1" by simp
  show "p < 4 \<Longrightarrow> ?thesis" unfolding four bit_push_bit_iff by (auto simp: bit_1_iff)
qed

lemma fb_fill_plane:
  assumes "seq c 4 = 0x06" "seq c 2 = 0x04"
  shows "fb_fill chip_io off vs c = c\<lparr>planes := (planes c)(2 := stored_at id off vs (planes c 2))\<rparr>"
  using assms
proof (induction vs arbitrary: off c)
  case Nil
  show ?case by (simp add: stored_at_Nil)
next
  case (Cons v vs)
  have "(if a = off \<and> p < 4 \<and> bit (4 :: u8) p then v else planes c p a) = ((planes c)(2 := (planes c 2)(off := v))) p a" for p a
    using four_bit [of p] by auto
  moreover have "\<not> bit (6 :: u8) 3" by (simp add: bit_iff_odd)
  ultimately have "chip_write off v c = c\<lparr>planes := (planes c)(2 := (planes c 2)(off := v))\<rparr>"
    using Cons.prems by (simp only: chip_write_def if_False)
  then show ?case
    using Cons.prems stored_at_Cons [of id off vs "planes c 2" v] by (simp add: Cons.IH fun_upd_def id_def cong: if_cong)
qed

section \<open>Back to text\<close>

lemma not_bit_127: "\<not> bit (0x7F :: u8) 7"
  by (simp add: bit_iff_odd)

lemma set_mode_chip:
  assumes "length sq \<le> 256" "length crt \<le> 256" "0x11 < length crt" "\<not> bit (crt ! 0x11) 7" "length gr \<le> 256" "length att \<le> 32"
  shows "\<exists>si ci gi ai. set_mode chip_io m sq crt gr att c = c\<lparr>misc := m, seq_idx := si, seq := loaded 0 sq ((seq c)(0 := 3)),
    crtc_idx := ci, crtc := loaded 0 crt ((crtc c)(0x11 := crt ! 0x11 AND 0x7F)), gc_idx := gi, gc := loaded 0 gr (gc c),
    ac_idx := ai, ac := loaded 0 att (ac c), ac_data := True\<rparr>"
proof -
  define c1 where "c1 = out_reg chip_io 0x3C4 0 0x03 (chip_out 0x3C2 m c)"
  have c1: "c1 = c\<lparr>misc := m, seq_idx := 0, seq := (seq c)(0 := 3)\<rparr>" by (simp add: c1_def)
  define c2 where "c2 = out_regs chip_io 0x3C4 0 sq c1"
  obtain si where c2: "c2 = c1\<lparr>seq_idx := si, seq := loaded 0 sq (seq c1)\<rparr>"
    using out_regs_chip(1) [of 0 sq c1] assms(1) by (auto simp: c2_def)
  define c3 where "c3 = out_reg chip_io 0x3D4 0x11 (crt ! 0x11 AND 0x7F) c2"
  have c3: "c3 = c2\<lparr>crtc_idx := 0x11, crtc := (crtc c2)(0x11 := crt ! 0x11 AND 0x7F)\<rparr>" by (simp add: c3_def)
  define c4 where "c4 = out_regs chip_io 0x3D4 0 crt c3"
  have "\<not> bit (crtc c3 0x11) 7" using not_bit_127 by (simp add: c3 bit_and_iff)
  then obtain ci where c4: "c4 = c3\<lparr>crtc_idx := ci, crtc := loaded 0 crt (crtc c3)\<rparr>"
    using out_regs_crtc [of c3 0 crt] assms(2,4) by (auto simp: c4_def)
  define c5 where "c5 = out_regs chip_io 0x3CE 0 gr c4"
  obtain gi where c5: "c5 = c4\<lparr>gc_idx := gi, gc := loaded 0 gr (gc c4)\<rparr>"
    using out_regs_chip(2) [of 0 gr c4] assms(5) by (auto simp: c5_def)
  obtain ai where c6: "out_attrs chip_io 0 att (c5\<lparr>ac_data := False\<rparr>) = c5\<lparr>ac_data := False, ac_idx := ai, ac := loaded 0 att (ac c5)\<rparr>"
    using out_attrs_chip [of "c5\<lparr>ac_data := False\<rparr>" 0 att] assms(6) by auto
  have "set_mode chip_io m sq crt gr att c = chip_out 0x3C0 0x20 (out_attrs chip_io 0 att (c5\<lparr>ac_data := False\<rparr>))"
    by (simp only: set_mode_def Let_def c5_def c4_def c3_def c2_def c1_def chip_io_simps chip_out_simps(3) fst_conv)
  also have "\<dots> = c\<lparr>misc := m, seq_idx := si, seq := loaded 0 sq ((seq c)(0 := 3)), crtc_idx := ci,
      crtc := loaded 0 crt ((crtc c)(0x11 := crt ! 0x11 AND 0x7F)), gc_idx := gi, gc := loaded 0 gr (gc c),
      ac_idx := 0, ac := loaded 0 att (ac c), ac_data := True\<rparr>"
    unfolding c6 by (simp add: c5 c4 c3 c2 c1)
  finally show ?thesis by blast
qed

lemma font_restore_chip:
  "vga_font_restore chip_io (Some font) c = c\<lparr>seq_idx := 4, seq := (seq c)(2 := 4, 4 := 6), gc_idx := 8,
     gc := (gc c)(0 := 0, 1 := 0, 3 := 0, 5 := 0, 6 := 5, 8 := 0xFF), planes := (planes c)(2 := stored_at id 0 font (planes c 2))\<rparr>"
  unfolding vga_font_restore_def by (simp add: Let_def fb_fill_plane)

lemma font_save_chip:
  "vga_font_save chip_io c = (c\<lparr>seq_idx := 4, gc_idx := 6\<rparr>, map (planes c 2) [0..<VGA_FONT_BYTES])"
proof -
  have "(seq c)(2 := 4, 4 := 6, 2 := seq c 2, 4 := seq c 4) = seq c"
    "(gc c)(4 := 2, 5 := 0, 6 := 5, 4 := gc c 4, 5 := gc c 5, 6 := gc c 6) = gc c" by (auto simp: fun_eq_iff)
  then show ?thesis by (simp add: vga_font_save_def Let_def del: upt_rec_numeral)
qed

lemma loaded_nth: "i < length vs \<Longrightarrow> length vs \<le> 256 \<Longrightarrow> loaded 0 vs f (of_nat i) = vs ! i"
  by (simp add: loaded_def unat_of_nat take_bit_nat_eq_self)


text \<open>A chip with a font, left in the graphics mode.\<close>

definition demo_chip :: chip where
  "demo_chip = \<lparr>misc = 0x63, seq_idx = 0, seq = (\<lambda>_. 0x0E), crtc_idx = 0, crtc = (\<lambda>_. 0xFF), gc_idx = 0, gc = (\<lambda>_. 0x40), ac_data = True,
     ac_idx = 0, ac = (\<lambda>_. 0x41), dac_pos = 0, dac = (\<lambda>_. 0), planes = (\<lambda>p a. of_nat (p + a))\<rparr>"


end
