(* ===== verification/Syscall.thy ===== *)
theory Syscall
  imports Exec Fstab Vga_Modes
begin

text \<open>
  The system calls, \<open>src/kernel/syscall.c\<close>, on top of the process layer, the file systems and the drivers.

  The kernel reads and writes user memory through the pointers it is given, without checks: \<open>translate\<close> is the address that the processor
  reaches in kernel mode under the current page tables, as an address of the direct map, and \<open>None\<close> is a page fault in the kernel, which
  is a panic.  Write protection does not bind the kernel, which runs without \<open>CR0.WP\<close>.  Buffers and strings of a
  call are read when it starts.  Bytes behind the terminator of a string in a structure are zero in the model, apart from the name that
  \<open>readdir\<close> copies from its stack.

  A call ends with a value in \<open>rax\<close>, with the frame that it rewrote, in another frame, or not at all: a call that waits or that ended
  its process has given up the processor.

  The lemmas show that no system call breaks the references of descriptors to pipes, what \<open>mmap\<close> maps, that \<open>chroot\<close>
  confines later calls, and that the trace returns what it recorded.
\<close>

section \<open>User memory\<close>

abbreviation (input) KERNEL_VMA_BASE :: u64 where "KERNEL_VMA_BASE \<equiv> 0xFFFFFFFF80000000"

definition translate :: "('n, 'd, 's) kern \<Rightarrow> u64 \<Rightarrow> u64 option" where
  "translate k va =
     (if KERNEL_HHDM_BASE \<le> va \<and> va - KERNEL_HHDM_BASE < 0x40000000 then Some va
      else if KERNEL_VMA_BASE \<le> va \<and> va - KERNEL_VMA_BASE < 0x40000000 then Some (va - KERNEL_VMA_BASE + KERNEL_HHDM_BASE)
      else if 0x800000000000 \<le> va then None
      else Option.bind (default_pml4 (vm k) (task_current_pml4 k)) (\<lambda>pml4.
             let phys = vmm_get_physical_in (vm k) pml4 va in if phys = 0 then None else Some (phys + KERNEL_HHDM_BASE)))"

fun kread :: "('n, 'd, 's) kern \<Rightarrow> u64 \<Rightarrow> nat \<Rightarrow> u8 list option" where
  "kread k va 0 = Some []"
| "kread k va (Suc n) = Option.bind (translate k va) (\<lambda>a. map_option (\<lambda>bs. mem k a # bs) (kread k (va + 1) n))"

fun kwrite :: "u64 \<Rightarrow> u8 list \<Rightarrow> ('n, 'd, 's) kern \<Rightarrow> ('n, 'd, 's) kern option" where
  "kwrite va [] k = Some k"
| "kwrite va (b # bs) k = Option.bind (translate k va) (\<lambda>a. kwrite (va + 1) bs (k\<lparr>mem := (mem k)(a := b)\<rparr>))"

text \<open>At most \<open>n\<close> characters up to a NUL; a string that ends with its NUL.\<close>

fun kstring_upto :: "('n, 'd, 's) kern \<Rightarrow> nat \<Rightarrow> u64 \<Rightarrow> string option" where
  "kstring_upto k 0 va = Some []"
| "kstring_upto k (Suc n) va =
     Option.bind (translate k va) (\<lambda>a. if mem k a = 0 then Some []
       else map_option (\<lambda>s. char_of (unat (mem k a)) # s) (kstring_upto k n (va + 1)))"

partial_function (option) kbytes0 :: "('n, 'd, 's) kern \<Rightarrow> u64 \<Rightarrow> u8 list option" where
  "kbytes0 k va =
     Option.bind (translate k va) (\<lambda>a. if mem k a = 0 then Some []
       else Option.bind (kbytes0 k (va + 1)) (\<lambda>s. Some (mem k a # s)))"

definition kstring :: "('n, 'd, 's) kern \<Rightarrow> u64 \<Rightarrow> string option" where
  "kstring k va = map_option (map (\<lambda>b. char_of (unat b))) (kbytes0 k va)"

text \<open>An array of strings, ended by a null pointer; at most \<open>n\<close> of them.\<close>

definition le64 :: "u8 list \<Rightarrow> u64" where
  "le64 bs = fold (\<lambda>b w. push_bit 8 w OR ucast b) (rev bs) 0"

fun kargv :: "('n, 'd, 's) kern \<Rightarrow> nat \<Rightarrow> u64 \<Rightarrow> u8 list list option" where
  "kargv k 0 a = Some []"
| "kargv k (Suc n) a =
     Option.bind (kread k a 8) (\<lambda>bs. if le64 bs = 0 then Some []
       else Option.bind (kbytes0 k (le64 bs)) (\<lambda>s. map_option (\<lambda>ss. s # ss) (kargv k n (a + 8))))"

definition bytes64 :: "u64 \<Rightarrow> u8 list" where
  "bytes64 w = map (\<lambda>i. ucast (drop_bit (8 * i) w)) [0..<8]"

text \<open>A string in an array of \<open>n\<close> characters.\<close>

definition chars :: "nat \<Rightarrow> string \<Rightarrow> u8 list" where
  "chars n s = take n (name_bytes s @ replicate n 0)"

section \<open>State\<close>

abbreviation (input) STRACE_RING :: nat where "STRACE_RING \<equiv> 256"

record strace_entry =
  tr_seq :: u32
  tr_pid :: u32
  tr_num :: u32
  tr_exited :: u32
  tr_args :: "u64 list"
  tr_ret :: u64

record ('n, 'd, 's, 'h, 'c) sys_env =
  fninit :: "u8 list \<Rightarrow> u8 list"
  trampoline :: u64
  mount_env :: "('n, 'd, 's, 'h) mount_env"
  vga_ports :: "'c vga_io"
  stack_name :: "u8 list"

record ('n, 'd, 's, 'h, 'c) sys =
  penv :: "('n, 'd, 's, 'h) proc_env"
  mouse_dev :: mouse
  chip_state :: 'c
  saved_font :: "u8 list option"
  trace_ring :: "nat \<Rightarrow> strace_entry"
  trace_next_seq :: u32
  trace_target_pid :: u32

abbreviation the_kern :: "('n, 'd, 's, 'h, 'c) sys \<Rightarrow> ('n, 'd, 's) kern" where
  "the_kern s \<equiv> kern (penv s)"

definition put_kern :: "('n, 'd, 's) kern \<Rightarrow> ('n, 'd, 's, 'h, 'c) sys \<Rightarrow> ('n, 'd, 's, 'h, 'c) sys" where
  "put_kern k s = s\<lparr>penv := (penv s)\<lparr>kern := k\<rparr>\<rparr>"

text \<open>How a call ends.\<close>

datatype 'a sysres = Value 'a u64 | Kept 'a | Leave 'a u64 | Away 'a | Off 'a

text \<open>\<open>(uint64_t)(int64_t)r\<close> and \<open>(int)a\<close>.\<close>

abbreviation (input) rax_of :: "int \<Rightarrow> u64" where "rax_of r \<equiv> word_of_int r"
abbreviation (input) int_arg :: "u64 \<Rightarrow> int" where "int_arg a \<equiv> sint (ucast a :: u32)"

definition fail :: "'a \<Rightarrow> 'a sysres option" where
  "fail k = Some (Value k (- 1))"

definition give :: "'a \<times> int \<Rightarrow> 'a sysres option" where
  "give = (\<lambda>(k, r). Some (Value k (rax_of r)))"

text \<open>\<open>if (out) memcpy(a, bytes); regs->rax = v;\<close>\<close>

definition give_bytes :: "bool \<Rightarrow> u64 \<Rightarrow> u8 list \<Rightarrow> u64 \<Rightarrow> ('n, 'd, 's) kern \<Rightarrow> ('n, 'd, 's) kern sysres option" where
  "give_bytes out a bs v k = map_option (\<lambda>k. Value k v) (if out then kwrite a bs k else Some k)"

text \<open>A call that touches the kernel only.\<close>

definition on_kern ::
  "('n, 'd, 's, 'h, 'c) sys \<Rightarrow> (('n, 'd, 's) kern \<Rightarrow> ('n, 'd, 's) kern sysres option) \<Rightarrow> ('n, 'd, 's, 'h, 'c) sys sysres option" where
  "on_kern s f = map_option (map_sysres (\<lambda>k. put_kern k s)) (f (the_kern s))"

section \<open>Tracing\<close>

definition trace_record ::
  "u32 \<Rightarrow> u32 \<Rightarrow> u64 list \<Rightarrow> u64 \<Rightarrow> u32 \<Rightarrow> ('n, 'd, 's, 'h, 'c) sys \<Rightarrow> ('n, 'd, 's, 'h, 'c) sys" where
  "trace_record n num args ret exited s =
     (if trace_target_pid s = 0 \<or> n \<noteq> trace_target_pid s then s
      else s\<lparr>trace_ring := (trace_ring s)(unat (trace_next_seq s) mod STRACE_RING :=
               \<lparr>tr_seq = trace_next_seq s, tr_pid = n, tr_num = num, tr_exited = exited, tr_args = args, tr_ret = ret\<rparr>),
             trace_next_seq := trace_next_seq s + 1\<rparr>)"

definition syscall_trace_exited :: "u32 \<Rightarrow> int \<Rightarrow> ('n, 'd, 's, 'h, 'c) sys \<Rightarrow> ('n, 'd, 's, 'h, 'c) sys" where
  "syscall_trace_exited n code s =
     (let s = trace_record n 0 [0, 0, 0, 0] (rax_of code) 1 s in if n = trace_target_pid s then s\<lparr>trace_target_pid := 0\<rparr> else s)"

definition entry_image :: "strace_entry \<Rightarrow> u8 list" where
  "entry_image e = bytes32 (tr_seq e) @ bytes32 (tr_pid e) @ bytes32 (tr_num e) @ bytes32 (tr_exited e) @
     concat (map bytes64 (tr_args e)) @ bytes64 (tr_ret e)"

definition sys_traceme :: "u64 \<Rightarrow> ('n, 'd, 's, 'h, 'c) sys \<Rightarrow> ('n, 'd, 's, 'h, 'c) sys sysres option" where
  "sys_traceme a1 s =
     (let s = s\<lparr>trace_target_pid := ucast a1\<rparr>
      in Some (Value (if trace_target_pid s \<noteq> 0 then s\<lparr>trace_next_seq := 0\<rparr> else s) 0))"

definition sys_trace_read :: "u64 \<Rightarrow> u64 \<Rightarrow> ('n, 'd, 's, 'h, 'c) sys \<Rightarrow> ('n, 'd, 's, 'h, 'c) sys sysres option" where
  "sys_trace_read a1 a2 s =
     (let i = ucast a1 :: u32
      in if trace_next_seq s \<le> i then fail s
         else if of_nat STRACE_RING < trace_next_seq s - i then fail s
         else on_kern s (give_bytes (a2 \<noteq> 0) a2 (entry_image (trace_ring s (unat i mod STRACE_RING))) 0))"

section \<open>Paths\<close>

text \<open>At most \<open>VFS_MAX_PATH\<close> characters of a path are looked at: more of them do not fit.\<close>

definition path_arg :: "u64 \<Rightarrow> ('n, 'd, 's) kern \<Rightarrow> string option option" where
  "path_arg a k = map_option (\<lambda>p. process_resolve_path p VFS_MAX_PATH k) (kstring_upto k VFS_MAX_PATH a)"

text \<open>\<open>resolve_path\<close> of a pointer; the call fails when the result is null.\<close>

definition with_path ::
  "u64 \<Rightarrow> (string \<Rightarrow> ('n, 'd, 's) kern \<Rightarrow> ('n, 'd, 's) kern sysres option) \<Rightarrow> ('n, 'd, 's) kern \<Rightarrow> ('n, 'd, 's) kern sysres option" where
  "with_path a f k =
     (if a = 0 then fail k
      else Option.bind (path_arg a k) (\<lambda>p. case p of None \<Rightarrow> fail k | Some p \<Rightarrow> f p k))"

definition sys_open :: "('n \<Rightarrow> ('s, 'n) vfs_ops option) \<Rightarrow> u64 \<Rightarrow> u64 \<Rightarrow> ('n, 'd, 's) kern \<Rightarrow> ('n, 'd, 's) kern sysres option" where
  "sys_open ops_of a1 a2 = with_path a1 (\<lambda>p k. give (fd_open ops_of p (ucast a2) k))"

definition sys_unlink :: "('n \<Rightarrow> ('s, 'n) vfs_ops option) \<Rightarrow> u64 \<Rightarrow> ('n, 'd, 's) kern \<Rightarrow> ('n, 'd, 's) kern sysres option" where
  "sys_unlink ops_of a1 = with_path a1 (\<lambda>p k. give (with_fsys (vfs_unlink ops_of (mount_table k) p) k))"

definition sys_mkdir :: "('n \<Rightarrow> ('s, 'n) vfs_ops option) \<Rightarrow> u64 \<Rightarrow> ('n, 'd, 's) kern \<Rightarrow> ('n, 'd, 's) kern sysres option" where
  "sys_mkdir ops_of a1 = with_path a1 (\<lambda>p k. give (with_fsys (vfs_mkdir ops_of (mount_table k) p) k))"

definition sys_stat :: "('n \<Rightarrow> ('s, 'n) vfs_ops option) \<Rightarrow> u64 \<Rightarrow> u64 \<Rightarrow> ('n, 'd, 's) kern \<Rightarrow> ('n, 'd, 's) kern sysres option" where
  "sys_stat ops_of a1 a2 = with_path a1 (\<lambda>p k.
     let (k, r, st) = with_fsys (vfs_stat ops_of (mount_table k) p) k
     in give_bytes (r = 0 \<and> a2 \<noteq> 0) a2 (bytes32 (st_inode st) @ bytes32 (st_type st) @ bytes32 (st_size st)) (rax_of r) k)"

text \<open>The whole buffer for the name reaches the caller; what it holds behind the terminator depends on the file system, which may leave
  there what was on the stack, and is the parameter \<open>stack\<close>.\<close>

definition sys_readdir ::
  "('n \<Rightarrow> ('s, 'n) vfs_ops option) \<Rightarrow> u8 list \<Rightarrow> u64 \<Rightarrow> u64 \<Rightarrow> u64 \<Rightarrow> ('n, 'd, 's) kern \<Rightarrow> ('n, 'd, 's) kern sysres option" where
  "sys_readdir ops_of stack a1 a2 a3 = with_path a1 (\<lambda>p k.
     let (k, r, name, type) = with_fsys (vfs_readdir ops_of (mount_table k) p (ucast a2)) k;
         buf = take VFS_MAX_NAME (name_bytes name @ [0]) @ drop (length name + 1) (take VFS_MAX_NAME stack)
     in give_bytes (r = 0 \<and> a3 \<noteq> 0) a3 (buf @ bytes32 type) (rax_of r) k)"

section \<open>Working directory and root\<close>

text \<open>The part of the path below the root of the process.\<close>

definition strip_root :: "string \<Rightarrow> string \<Rightarrow> string option" where
  "strip_root rt resolved =
     (let rt = (if rt = [] then [slash] else rt)
      in if rt = [slash] then Some resolved
         else if take (length rt) resolved = rt then Some (drop (length rt) resolved) else None)"

definition is_dir :: "('n \<Rightarrow> ('s, 'n) vfs_ops option) \<Rightarrow> string \<Rightarrow> ('n, 'd, 's) kern \<Rightarrow> ('n, 'd, 's) kern \<times> bool" where
  "is_dir ops_of p k =
     (let (k, r, st) = with_fsys (vfs_stat ops_of (mount_table k) p) k in (k, r = 0 \<and> st_type st = VFS_DIR))"

definition sys_chdir :: "('n \<Rightarrow> ('s, 'n) vfs_ops option) \<Rightarrow> u64 \<Rightarrow> ('n, 'd, 's) kern \<Rightarrow> ('n, 'd, 's) kern sysres option" where
  "sys_chdir ops_of a1 k =
     (case process_current k of
        None \<Rightarrow> fail k
      | Some i \<Rightarrow>
          Option.bind (path_arg a1 k) (\<lambda>p. case p of
              None \<Rightarrow> fail k
            | Some resolved \<Rightarrow>
                let (k, ok) = is_dir ops_of resolved k
                in if \<not> ok then fail k
                   else case strip_root (root (processes k i)) resolved of
                          None \<Rightarrow> fail k
                        | Some tail \<Rightarrow>
                            let tail = (if tail = [] then [slash] else tail)
                            in Some (Value (set_process i (\<lambda>p. p\<lparr>cwd := take (VFS_MAX_PATH - 1) tail\<rparr>) k) 0)))"

definition sys_getcwd :: "u64 \<Rightarrow> u64 \<Rightarrow> ('n, 'd, 's) kern \<Rightarrow> ('n, 'd, 's) kern sysres option" where
  "sys_getcwd a1 a2 k =
     (case process_current k of
        None \<Rightarrow> fail k
      | Some i \<Rightarrow>
          if a1 = 0 \<or> a2 = 0 then fail k
          else let out = take (unat (a2 - 1)) (cwd (processes k i))
               in give_bytes True a1 (name_bytes out @ [0]) (of_nat (length out)) k)"

text \<open>\<open>while (n > 1 && p->root[n-1] == '/') n--;\<close>\<close>

definition trim_slashes :: "string \<Rightarrow> string" where
  "trim_slashes s = (case s of [] \<Rightarrow> [] | c # rest \<Rightarrow> c # rev (dropWhile (\<lambda>c. c = slash) (rev rest)))"

definition sys_chroot :: "('n \<Rightarrow> ('s, 'n) vfs_ops option) \<Rightarrow> u64 \<Rightarrow> ('n, 'd, 's) kern \<Rightarrow> ('n, 'd, 's) kern sysres option" where
  "sys_chroot ops_of a1 k =
     (case process_current k of
        None \<Rightarrow> fail k
      | Some i \<Rightarrow>
          with_path a1 (\<lambda>target k.
            let (k, ok) = is_dir ops_of target k
            in if \<not> ok then fail k
               else Some (Value (set_process i (\<lambda>p. p\<lparr>root := trim_slashes (take (VFS_MAX_PATH - 1) target), cwd := [slash]\<rparr>) k) 0)) k)"

section \<open>Descriptors and processes\<close>

text \<open>\<open>process_exit\<close> returns to a caller that is no process only.\<close>

definition sys_exit :: "bool \<Rightarrow> u32 \<Rightarrow> u64 \<Rightarrow> ('n, 'd, 's, 'h, 'c) sys \<Rightarrow> ('n, 'd, 's, 'h, 'c) sys sysres option" where
  "sys_exit traced cur_pid a1 s =
     (let s = (if traced then syscall_trace_exited cur_pid (int_arg a1) s else s)
      in on_kern s (\<lambda>k. map_option (\<lambda>k'. if process_current k = None then Value k' 0 else Away k') (process_exit (int_arg a1) k)))"

definition sys_read ::
  "('n \<Rightarrow> ('s, 'n) vfs_ops option) \<Rightarrow> u64 \<Rightarrow> u64 \<Rightarrow> u64 \<Rightarrow> ('n, 'd, 's) kern \<Rightarrow> ('n, 'd, 's) kern sysres option" where
  "sys_read ops_of a1 a2 a3 k =
     Option.bind (fd_read ops_of (int_arg a1) a3 k) (\<lambda>(k, r). case r of
         Yield n \<Rightarrow> Some (Away k)
       | Return r bs \<Rightarrow> give_bytes True a2 bs (rax_of r) k)"

text \<open>A descriptor that can be written; the buffer of a call on another one is not touched.\<close>

definition writable_fd :: "int \<Rightarrow> ('n, 'd, 's) kern \<Rightarrow> bool" where
  "writable_fd fd k =
     (case process_current k of
        None \<Rightarrow> False
      | Some i \<Rightarrow> 0 \<le> fd \<and> fd < int FD_MAX \<and> fd_type (fd_at k i (nat fd)) \<in> {FD_CONSOLE, FD_FILE, FD_PIPE_WRITE})"

definition sys_write ::
  "('n \<Rightarrow> ('s, 'n) vfs_ops option) \<Rightarrow> u64 \<Rightarrow> u64 \<Rightarrow> u64 \<Rightarrow> ('n, 'd, 's) kern \<Rightarrow> ('n, 'd, 's) kern sysres option" where
  "sys_write ops_of a1 a2 a3 k =
     Option.bind (if writable_fd (int_arg a1) k then kread k a2 (unat a3) else Some []) (\<lambda>buf.
     Option.bind (fd_write ops_of (int_arg a1) buf k) (\<lambda>(k, r). case r of
         Yield n \<Rightarrow> Some (Away k)
       | Return r _ \<Rightarrow> Some (Value k (rax_of r))))"

definition sys_waitpid :: "u64 \<Rightarrow> u64 \<Rightarrow> ('n, 'd, 's) kern \<Rightarrow> ('n, 'd, 's) kern sysres option" where
  "sys_waitpid a1 a2 k =
     (case process_waitpid (ucast a1) k of
        (k, Wait_again) \<Rightarrow> Some (Away k)
      | (k, Waited r status) \<Rightarrow>
          give_bytes (a2 \<noteq> 0) a2 (bytes32 (word_of_int (case status of None \<Rightarrow> 0 | Some st \<Rightarrow> st))) (rax_of r) k)"

definition sys_getpid :: "('n, 'd, 's) kern \<Rightarrow> ('n, 'd, 's) kern sysres option" where
  "sys_getpid k = Some (Value k (case process_current k of None \<Rightarrow> 0 | Some i \<Rightarrow> ucast (pid (processes k i))))"

definition sys_pipe :: "u64 \<Rightarrow> ('n, 'd, 's) kern \<Rightarrow> ('n, 'd, 's) kern sysres option" where
  "sys_pipe a1 k =
     Option.bind (fd_pipe k) (\<lambda>(k, r, pair). give_bytes (r = 0 \<and> a1 \<noteq> 0) a1 (concat (map (\<lambda>fd. bytes32 (of_nat fd)) pair)) (rax_of r) k)"

text \<open>\<open>0\<close> is no array; the kernel reads at most one pointer less than its own array holds.\<close>

definition args_at :: "nat \<Rightarrow> u64 \<Rightarrow> ('n, 'd, 's) kern \<Rightarrow> u8 list list option option" where
  "args_at n a k = (if a = 0 then Some None else map_option Some (kargv k n a))"

definition sys_spawn ::
  "(u8 list \<Rightarrow> u8 list) \<Rightarrow> u64 \<Rightarrow> ('n \<Rightarrow> ('s, 'n) vfs_ops option) \<Rightarrow> u64 \<Rightarrow> u64 \<Rightarrow> ('n, 'd, 's) kern \<Rightarrow>
   ('n, 'd, 's) kern sysres option" where
  "sys_spawn finit tramp ops_of a1 a2 = with_path a1 (\<lambda>p k.
     Option.bind (args_at (SPAWN_ARGV_MAX - 1) a2 k) (\<lambda>argv. Option.bind (process_spawn_from_path finit tramp ops_of p argv k) give))"

definition sys_fork :: "(u8 list \<Rightarrow> u8 list) \<Rightarrow> u64 \<Rightarrow> ('n, 'd, 's) kern \<Rightarrow> ('n, 'd, 's) kern sysres option" where
  "sys_fork finit regs k = Option.bind (process_fork finit regs k) give"

text \<open>What \<open>execve\<close> does with the resolved path.\<close>

definition exec_path ::
  "('n \<Rightarrow> ('s, 'n) vfs_ops option) \<Rightarrow> u64 \<Rightarrow> u64 \<Rightarrow> u64 \<Rightarrow> string \<Rightarrow> ('n, 'd, 's) kern \<Rightarrow> ('n, 'd, 's) kern sysres option" where
  "exec_path ops_of regs a2 a3 path k =
     (let kpath = take (VFS_MAX_PATH - 1) path;
          (k, rc, st) = with_fsys (vfs_stat ops_of (mount_table k) kpath) k
      in if rc \<noteq> 0 \<or> st_size st = 0 then fail k
         else Option.bind (kmalloc (heap k) (ucast (st_size st))) (\<lambda>(h, buf).
           let k = k\<lparr>heap := h\<rparr>
           in if buf = 0 then fail k
              else let (k, r, img) = with_fsys (vfs_read ops_of (mount_table k) kpath (ucast (st_size st)) 0) k
                   in if r \<noteq> int (unat (st_size st))
                      then map_option (\<lambda>h. Value (k\<lparr>heap := h\<rparr>) (- 1)) (kfree (heap k) buf)
                      else Option.bind (args_at (SPAWN_ARGV_MAX - 1) a2 k) (\<lambda>argv.
                           Option.bind (args_at (SPAWN_ENVP_MAX - 1) a3 k) (\<lambda>envp.
                           Option.bind (process_execve_from_memory ops_of regs (Some kpath) img argv envp k) (\<lambda>(k, rc).
                             map_option (\<lambda>h. let k = k\<lparr>heap := h\<rparr> in if rc < 0 then Value k (- 1) else Kept k) (kfree (heap k) buf))))))"

definition sys_execve ::
  "('n \<Rightarrow> ('s, 'n) vfs_ops option) \<Rightarrow> u64 \<Rightarrow> u64 \<Rightarrow> u64 \<Rightarrow> u64 \<Rightarrow> ('n, 'd, 's) kern \<Rightarrow> ('n, 'd, 's) kern sysres option" where
  "sys_execve ops_of regs a1 a2 a3 = with_path a1 (exec_path ops_of regs a2 a3)"

definition sys_pause :: "u64 \<Rightarrow> ('n, 'd, 's) kern \<Rightarrow> ('n, 'd, 's) kern sysres option" where
  "sys_pause regs k =
     (case process_current k of
        None \<Rightarrow> fail k
      | Some i \<Rightarrow>
          if p_task (processes k i) = None then fail k
          else let k = set_task_state (processes k i) (\<lambda>_. True) TASK_BLOCKED k;
                   k = k\<lparr>mem := store_regs regs ((load_regs (mem k) regs)\<lparr>rax := 0\<rparr>) (mem k)\<rparr>
               in map_option (\<lambda>(k, r). Leave k r) (schedule process_deliver_pending_signals regs k))"

definition sys_times :: "u64 \<Rightarrow> ('n, 'd, 's) kern \<Rightarrow> ('n, 'd, 's) kern sysres option" where
  "sys_times a1 k =
     (case process_current k of
        None \<Rightarrow> fail k
      | Some i \<Rightarrow>
          if a1 = 0 then fail k
          else let p = processes k i
               in give_bytes True a1 (bytes64 (utime_ticks p) @ bytes64 (stime_ticks p) @ bytes64 (cutime_ticks p) @ bytes64 (cstime_ticks p))
                    (timer_get_ticks k) k)"

definition info_image :: "proc_info \<Rightarrow> u8 list" where
  "info_image pi = bytes32 (pi_pid pi) @ bytes32 (pi_parent_pid pi) @ bytes32 (pi_pgid pi) @ bytes32 (pi_state pi) @
     bytes32 (pi_alive pi) @ chars 32 (pi_name pi) @ chars VFS_MAX_PATH (pi_root pi)"

definition sys_ps :: "u64 \<Rightarrow> u64 \<Rightarrow> ('n, 'd, 's) kern \<Rightarrow> ('n, 'd, 's) kern sysres option" where
  "sys_ps a1 a2 k =
     (case process_info_at (ucast a1) k of None \<Rightarrow> fail k | Some pi \<Rightarrow> give_bytes True a2 (info_image pi) 0 k)"

definition sys_isatty :: "u64 \<Rightarrow> ('n, 'd, 's) kern \<Rightarrow> ('n, 'd, 's) kern sysres option" where
  "sys_isatty a1 k =
     (case process_current k of
        None \<Rightarrow> Some (Value k 0)
      | Some i \<Rightarrow>
          if int_arg a1 < 0 \<or> int FD_MAX \<le> int_arg a1 then Some (Value k 0)
          else Some (Value k (if fd_type (fd_at k i (nat (int_arg a1))) = FD_CONSOLE then 1 else 0)))"

section \<open>Memory\<close>

definition round_page :: "u64 \<Rightarrow> u64" where
  "round_page n = (n + 0xFFF) AND NOT 0xFFF"

definition prot_flags :: "u64 \<Rightarrow> u64" where
  "prot_flags prot = (if prot AND 0x2 \<noteq> 0 then VMM_FLAG_USER OR VMM_FLAG_WRITE else VMM_FLAG_USER)"

text \<open>The second loop; \<open>False\<close> when the frames run out, which leaves the pages mapped so far.\<close>

fun mmap_pages :: "u64 \<Rightarrow> u64 \<Rightarrow> u64 list \<Rightarrow> vm \<times> bytes \<Rightarrow> ((vm \<times> bytes) \<times> bool) option" where
  "mmap_pages pml4 flags [] (v, m) = Some ((v, m), True)"
| "mmap_pages pml4 flags (va # vas) (v, m) =
     (let (f, frame) = pmm_alloc_frame (frames v); v = v\<lparr>frames := f\<rparr>
      in if frame = 0 then Some ((v, m), False)
         else let m = poke (frame + KERNEL_HHDM_BASE) (replicate 4096 0) m
              in Option.bind (vmm_map_in v pml4 va frame flags) (\<lambda>v. mmap_pages pml4 flags vas (v, m)))"

text \<open>The address is rounded down, the length up; a range that wraps around has no pages.\<close>

definition sys_mmap_anon :: "u64 \<Rightarrow> u64 \<Rightarrow> u64 \<Rightarrow> ('n, 'd, 's) kern \<Rightarrow> ('n, 'd, 's) kern sysres option" where
  "sys_mmap_anon a1 a2 a3 k =
     (let addr = a1 AND NOT 0xFFF; len = round_page a2; vas = page_list addr (addr + len)
      in if len = 0 \<or> addr = 0 then fail k
         else case task_current_pml4 k of
                None \<Rightarrow> fail k
              | Some pml4 \<Rightarrow>
                  if \<exists>va \<in> set vas. vmm_get_physical_in (vm k) pml4 va \<noteq> 0 then fail k
                  else map_option (\<lambda>((v, m), ok). Value (k\<lparr>vm := v, mem := m\<rparr>) (if ok then addr else - 1))
                         (mmap_pages pml4 (prot_flags a3) vas (vm k, mem k)))"

fun mprotect_pages :: "u64 \<Rightarrow> u64 \<Rightarrow> u64 list \<Rightarrow> vm \<Rightarrow> vm \<times> int" where
  "mprotect_pages pml4 flags [] v = (v, 0)"
| "mprotect_pages pml4 flags (va # vas) v =
     (let (v, r) = vmm_set_flags_in v pml4 va flags in if r < 0 then (v, - 1) else mprotect_pages pml4 flags vas v)"

definition sys_mprotect :: "u64 \<Rightarrow> u64 \<Rightarrow> u64 \<Rightarrow> ('n, 'd, 's) kern \<Rightarrow> ('n, 'd, 's) kern sysres option" where
  "sys_mprotect a1 a2 a3 k =
     (let addr = a1 AND NOT 0xFFF; len = round_page a2
      in case task_current_pml4 k of
           None \<Rightarrow> fail k
         | Some pml4 \<Rightarrow>
             let (v, rc) = mprotect_pages pml4 (prot_flags a3) (page_list addr (addr + len)) (vm k)
             in Some (Value (k\<lparr>vm := v\<rparr>) (rax_of rc)))"

definition sys_meminfo :: "u64 \<Rightarrow> ('n, 'd, 's) kern \<Rightarrow> ('n, 'd, 's) kern sysres option" where
  "sys_meminfo a1 k =
     (let f = frames (vm k)
      in give_bytes True a1 (bytes64 (ucast (pmm_get_total_count f) * 4) @ bytes64 (ucast (pmm_get_free_count f) * 4)) 0 k)"

text \<open>Byte by byte, so that a target inside the source is read back.\<close>

fun peek_bytes :: "nat \<Rightarrow> u64 \<Rightarrow> u64 \<Rightarrow> ('n, 'd, 's) kern \<Rightarrow> ('n, 'd, 's) kern option" where
  "peek_bytes 0 src dst k = Some k"
| "peek_bytes (Suc n) src dst k = Option.bind (kwrite dst [mem k src] k) (peek_bytes n (src + 1) (dst + 1))"

definition sys_peek :: "u64 \<Rightarrow> u64 \<Rightarrow> u64 \<Rightarrow> ('n, 'd, 's) kern \<Rightarrow> ('n, 'd, 's) kern sysres option" where
  "sys_peek src dst cnt k =
     (if cnt = 0 then Some (Value k 0)
      else if 4096 < cnt \<or> src + cnt < src \<or> 0x4000000 < src + cnt then fail k
      else map_option (\<lambda>k. Value k cnt) (peek_bytes (unat cnt) (KERNEL_HHDM_BASE + src) dst k))"

text \<open>The entries of the walk down to the first that is not present, and the physical address.\<close>

definition pagemap_walk :: "vm \<Rightarrow> u64 \<Rightarrow> u64 \<Rightarrow> u64 list" where
  "pagemap_walk v pml4 va =
     (let pml4e = tables v pml4 (pml4_idx va)
      in if pml4e AND VMM_FLAG_PRESENT = 0 then [pml4e, 0, 0, 0, 0]
         else let pdpte = tables v (pml4e AND 0x000FFFFFFFFFF000) (pdpt_idx va)
              in if pdpte AND VMM_FLAG_PRESENT = 0 then [pml4e, pdpte, 0, 0, 0]
                 else let pde = tables v (pdpte AND 0x000FFFFFFFFFF000) (pd_idx va)
                      in if pde AND VMM_FLAG_PRESENT = 0 then [pml4e, pdpte, pde, 0, 0]
                         else let pte = tables v (pde AND 0x000FFFFFFFFFF000) (pt_idx va)
                              in [pml4e, pdpte, pde, pte,
                                  if pte AND VMM_FLAG_PRESENT \<noteq> 0 then (pte AND 0x000FFFFFFFFFF000) OR (va AND 0xFFF) else 0])"

definition sys_pagemap :: "u64 \<Rightarrow> u64 \<Rightarrow> ('n, 'd, 's) kern \<Rightarrow> ('n, 'd, 's) kern sysres option" where
  "sys_pagemap a1 a2 k =
     (if a2 = 0 then fail k
      else case task_current_pml4 k of
             None \<Rightarrow> fail k
           | Some pml4 \<Rightarrow>
               give_bytes True a2 (concat (map (\<lambda>i. bytes32 (of_nat i)) [pml4_idx a1, pdpt_idx a1, pd_idx a1, pt_idx a1]) @
                 concat (map bytes64 (pagemap_walk (vm k) pml4 a1))) 0 k)"

text \<open>One call of the callback on the counter and the region found.\<close>

definition regions_collect_cb :: "u64 \<Rightarrow> u32 \<times> u32 \<times> bool \<Rightarrow> u64 \<times> u8 list option \<Rightarrow> u64 \<times> u8 list option" where
  "regions_collect_cb target = (\<lambda>(start_frame, len, used) (seen, found).
     if found \<noteq> None then (seen, found)
     else (seen + 1, if seen = target
             then Some (bytes64 (ucast start_frame * 4096) @ bytes64 (ucast (start_frame + len) * 4096) @
               bytes32 (if used then 1 else 0) @ bytes32 0)
             else None))"

definition sys_regions :: "u64 \<Rightarrow> u64 \<Rightarrow> ('n, 'd, 's) kern \<Rightarrow> ('n, 'd, 's) kern sysres option" where
  "sys_regions a1 a2 k =
     (if a2 = 0 then fail k
      else case snd (fold (regions_collect_cb a1) (pmm_region_iter (frames (vm k))) (0, None)) of
             None \<Rightarrow> fail k
           | Some bs \<Rightarrow> give_bytes True a2 bs 0 k)"

section \<open>File systems and devices\<close>

text \<open>\<open>fstab_do_mount\<close> refuses null pointers before it reads a string.\<close>

definition sys_mount ::
  "('n, 'd, 's, 'h) mount_env \<Rightarrow> u64 \<Rightarrow> u64 \<Rightarrow> u64 \<Rightarrow> u64 \<Rightarrow> ('n, 'd, 's, 'h, 'c) sys \<Rightarrow> ('n, 'd, 's, 'h, 'c) sys sysres option" where
  "sys_mount menv a1 a2 a3 a4 s =
     (let k = the_kern s
      in if a1 = 0 \<or> a2 = 0 \<or> a3 = 0 then fail s
         else Option.bind (kstring k a1) (\<lambda>source. Option.bind (kstring k a2) (\<lambda>mp. Option.bind (kstring k a3) (\<lambda>type.
              Option.bind (if a4 = 0 then Some ''rw'' else kstring k a4) (\<lambda>flags.
                map_option (\<lambda>(e, r). Value (s\<lparr>penv := e\<rparr>) (rax_of r))
                  (fstab_do_mount menv (Some source) (Some mp) (Some type) (Some flags) (penv s)))))))"

definition sys_umount :: "u64 \<Rightarrow> ('n, 'd, 's) kern \<Rightarrow> ('n, 'd, 's) kern sysres option" where
  "sys_umount a1 k =
     (if \<not> list_ex in_use (mount_table k) then fail k
      else Option.bind (kstring k a1) (\<lambda>p. let (ms, r) = vfs_umount p (mount_table k) in give (k\<lparr>mount_table := ms\<rparr>, r)))"

definition blkdev_image :: "'h blkdev \<Rightarrow> u8 list" where
  "blkdev_image d = chars 16 (b_name d) @ bytes32 (total_sectors d) @ chars 32 (mount_path d) @ chars 16 (fs_type d) @
     bytes32 (if read_only d then 1 else 0)"

definition sys_blkdevs :: "u64 \<Rightarrow> u64 \<Rightarrow> ('n, 'd, 's, 'h, 'c) sys \<Rightarrow> ('n, 'd, 's, 'h, 'c) sys sysres option" where
  "sys_blkdevs a1 a2 s =
     (case blkdev_nth (int_arg a1) (blk (penv s)) of
        None \<Rightarrow> fail s
      | Some d \<Rightarrow> on_kern s (give_bytes True a2 (blkdev_image (dev_at (blk (penv s)) d)) 0))"

definition sys_tty_winsz :: "u64 \<Rightarrow> u64 \<Rightarrow> u64 \<Rightarrow> ('n, 'd, 's) kern \<Rightarrow> ('n, 'd, 's) kern sysres option" where
  "sys_tty_winsz a1 a2 a3 k =
     (if a1 = 0
      then let (r, c) = serial_get_winsize (terminal k); bytes16 = (\<lambda>w :: u16. [ucast w, ucast (drop_bit 8 w)])
           in Option.bind (if a2 \<noteq> 0 then kwrite a2 (bytes16 r) k else Some k) (give_bytes (a3 \<noteq> 0) a3 (bytes16 c) 0)
      else Some (Value (k\<lparr>terminal := serial_set_winsize (ucast a2) (ucast a3) (terminal k)\<rparr>) 0))"

definition sys_mouse_poll :: "u64 \<Rightarrow> ('n, 'd, 's, 'h, 'c) sys \<Rightarrow> ('n, 'd, 's, 'h, 'c) sys sysres option" where
  "sys_mouse_poll a1 s =
     (if a1 = 0 then fail s
      else let (x, y, buttons) = mouse_get_state (mouse_dev s)
           in on_kern s (give_bytes True a1 (bytes32 (word_of_int x) @ bytes32 (word_of_int y) @ bytes32 buttons) 0))"

fun map_framebuffer :: "u64 \<Rightarrow> u64 \<Rightarrow> nat list \<Rightarrow> vm \<Rightarrow> vm option" where
  "map_framebuffer pml4 va [] v = Some v"
| "map_framebuffer pml4 va (i # rest) v =
     Option.bind (vmm_map_in v pml4 (va + of_nat i * 4096) (0xA0000 + of_nat i * 4096)
       (VMM_FLAG_PRESENT OR VMM_FLAG_WRITE OR VMM_FLAG_USER)) (map_framebuffer pml4 va rest)"

definition sys_vga_gfx :: "'c vga_io \<Rightarrow> u64 \<Rightarrow> ('n, 'd, 's, 'h, 'c) sys \<Rightarrow> ('n, 'd, 's, 'h, 'c) sys sysres option" where
  "sys_vga_gfx io a1 s =
     (let va = a1 AND NOT 0xFFF; k = the_kern s
      in if va = 0 then fail s
         else case task_current_pml4 k of
                None \<Rightarrow> fail s
              | Some pml4 \<Rightarrow>
                  map_option (\<lambda>v. Value ((put_kern (k\<lparr>vm := v\<rparr>) s)\<lparr>chip_state := vga_mode13_enter io (chip_state s),
                      mouse_dev := mouse_set_extent 320 200 (mouse_dev s)\<rparr>) va)
                    (map_framebuffer pml4 va [0..<16] (vm k)))"

definition sys_vga_text :: "'c vga_io \<Rightarrow> ('n, 'd, 's, 'h, 'c) sys \<Rightarrow> ('n, 'd, 's, 'h, 'c) sys sysres option" where
  "sys_vga_text io s =
     (let k = the_kern s; (h, t) = vga_text_enter io (saved_font s) (chip_state s, terminal k)
      in Some (Value ((put_kern (k\<lparr>terminal := t\<rparr>) s)\<lparr>chip_state := h\<rparr>) 0))"

section \<open>The dispatcher\<close>

text \<open>The calls that change the process table, files and memory, and those on devices and tracing; \<open>None\<close> as a function is an unknown number.\<close>

definition kern_call ::
  "('n, 'd, 's, 'h, 'c) sys_env \<Rightarrow> u64 \<Rightarrow> u64 \<Rightarrow> u64 \<Rightarrow> u64 \<Rightarrow> u64 \<Rightarrow>
   (('n, 'd, 's) kern \<Rightarrow> ('n, 'd, 's) kern sysres option) option" where
  "kern_call ev regs num a1 a2 a3 =
     (let ops_of = ops_table (mount_env ev) in
      if num = 3 then Some (sys_read ops_of a1 a2 a3)
      else if num = 4 then Some (sys_write ops_of a1 a2 a3)
      else if num = 5 then Some (sys_open ops_of a1 a2)
      else if num = 6 then Some (\<lambda>k. Option.bind (fd_close (int_arg a1) k) give)
      else if num = 7 then Some (sys_waitpid a1 a2)
      else if num = 9 then Some (sys_mmap_anon a1 a2 a3)
      else if num = 10 then Some (sys_unlink ops_of a1)
      else if num = 12 then Some (sys_chdir ops_of a1)
      else if num = 18 then Some (sys_stat ops_of a1 a2)
      else if num = 19 then Some (\<lambda>k. give (fd_lseek ops_of (int_arg a1) (sint a2) (int_arg a3) k))
      else if num = 20 then Some sys_getpid
      else if num = 22 then Some (sys_umount a1)
      else if num = 24 then Some (\<lambda>k. Some (Value k 0))
      else if num = 27 then Some (\<lambda>k. let (k, r) = process_set_alarm (ucast a1) k in Some (Value k (ucast r)))
      else if num = 37 then Some (\<lambda>k. give (process_kill (int_arg a1) (int_arg a2) k))
      else if num = 39 then Some (sys_mkdir ops_of a1)
      else if num = 42 then Some (sys_pipe a1)
      else if num = 43 then Some (sys_times a1)
      else if num = 48 then Some (\<lambda>k. give (process_signal (int_arg a1) a2 k))
      else if num = 54 then Some (\<lambda>k. Some (Value (k\<lparr>terminal := serial_set_raw (int_arg a1 \<noteq> 0) (terminal k)\<rparr>) 0))
      else if num = 55 then Some (\<lambda>k. Some (Value (process_set_foreground (ucast a1) k) 0))
      else if num = 56 then Some (sys_tty_winsz a1 a2 a3)
      else if num = 57 then Some (sys_fork (fninit ev) regs)
      else if num = 58 then Some (\<lambda>k. Some (Value k (if serial_has_data (terminal k) \<or> keyboard_has_key (terminal k) then 1 else 0)))
      else if num = 59 then Some (sys_execve ops_of regs a1 a2 a3)
      else if num = 62 then Some (\<lambda>k. Some (Value k (rax_of (last_input_src (terminal k)))))
      else if num = 63 then Some (\<lambda>k. Option.bind (fd_dup2 (int_arg a1) (int_arg a2) k) give)
      else if num = 64 then Some (sys_pause regs)
      else if num = 65 then Some (sys_isatty a1)
      else if num = 89 then Some (sys_readdir ops_of (stack_name ev) a1 a2 a3)
      else if num = 108 then Some (\<lambda>k. Some (Value k (ucast (process_getpgid (ucast a1) k))))
      else if num = 109 then Some (\<lambda>k. give (process_setpgid (ucast a1) (ucast a2) k))
      else if num = 119 then Some (\<lambda>k. Some (Leave (process_sigreturn regs k) regs))
      else if num = 120 then Some (sys_spawn (fninit ev) (trampoline ev) ops_of a1 a2)
      else if num = 125 then Some (sys_mprotect a1 a2 a3)
      else if num = 161 then Some (sys_chroot ops_of a1)
      else if num = 183 then Some (sys_getcwd a1 a2)
      else if num = 200 then Some (sys_ps a1 a2)
      else if num = 210 then Some (sys_meminfo a1)
      else if num = 211 then Some (sys_regions a1 a2)
      else if num = 212 then Some (sys_pagemap a1 a2)
      else if num = 213 then Some (sys_peek a1 a2 a3)
      else if num = 214 then Some (\<lambda>k. Some (Value k (timer_get_ticks k)))
      else None)"

definition dispatch ::
  "('n, 'd, 's, 'h, 'c) sys_env \<Rightarrow> bool \<Rightarrow> u32 \<Rightarrow> u64 \<Rightarrow> registers_t \<Rightarrow> ('n, 'd, 's, 'h, 'c) sys \<Rightarrow>
   ('n, 'd, 's, 'h, 'c) sys sysres option" where
  "dispatch ev traced cur_pid regs r s =
     (let num = rax r; a1 = rdi r; a2 = rsi r; a3 = rdx r; a4 = r10 r in
      case kern_call ev regs num a1 a2 a3 of
        Some f \<Rightarrow> on_kern s f
      | None \<Rightarrow>
          if num = 1 then sys_exit traced cur_pid a1 s
          else if num = 21 then sys_mount (mount_env ev) a1 a2 a3 a4 s
          else if num = 60 then sys_vga_gfx (vga_ports ev) a1 s
          else if num = 61 then sys_vga_text (vga_ports ev) s
          else if num = 66 then sys_mouse_poll a1 s
          else if num = 201 then Some (Off s)
          else if num = 215 then sys_blkdevs a1 a2 s
          else if num = 231 then sys_traceme a1 s
          else if num = 232 then sys_trace_read a1 a2 s
          else fail s)"

definition set_rax :: "u64 \<Rightarrow> u64 \<Rightarrow> ('n, 'd, 's) kern \<Rightarrow> ('n, 'd, 's) kern" where
  "set_rax regs v k = k\<lparr>mem := store_regs regs ((load_regs (mem k) regs)\<lparr>rax := v\<rparr>) (mem k)\<rparr>"

text \<open>What happens after the switch to a call that did not return from inside of it.\<close>

definition stamp :: "bool \<Rightarrow> u32 \<Rightarrow> u64 \<Rightarrow> u64 \<Rightarrow> ('n, 'd, 's, 'h, 'c) sys \<Rightarrow> ('n, 'd, 's, 'h, 'c) sys" where
  "stamp traced entry_pos num ret s =
     (if traced \<and> num \<noteq> 119 \<and> num \<noteq> 1 \<and> entry_pos < trace_next_seq s
      then s\<lparr>trace_ring := (trace_ring s)(unat entry_pos mod STRACE_RING := (trace_ring s (unat entry_pos mod STRACE_RING))\<lparr>tr_ret := ret\<rparr>)\<rparr>
      else s)"

definition leave_call :: "bool \<Rightarrow> u32 \<Rightarrow> u64 \<Rightarrow> u64 \<Rightarrow> ('n, 'd, 's, 'h, 'c) sys \<Rightarrow> ('n, 'd, 's, 'h, 'c) sys sysres" where
  "leave_call traced entry_pos num regs s =
     (let s = stamp traced entry_pos num (rax (load_regs (mem (the_kern s)) regs)) s
      in Leave (put_kern (process_deliver_pending_signals regs (the_kern s)) s) regs)"

definition syscall_handler ::
  "('n, 'd, 's, 'h, 'c) sys_env \<Rightarrow> u64 \<Rightarrow> ('n, 'd, 's, 'h, 'c) sys \<Rightarrow> ('n, 'd, 's, 'h, 'c) sys sysres option" where
  "syscall_handler ev regs s =
     (let r = load_regs (mem (the_kern s)) regs;
          cur_pid = (case process_current (the_kern s) of None \<Rightarrow> 0 | Some i \<Rightarrow> pid (processes (the_kern s) i));
          traced = (cur_pid = trace_target_pid s);
          entry_pos = (if traced then trace_next_seq s else 0);
          s = (if traced then trace_record cur_pid (ucast (rax r)) [rdi r, rsi r, rdx r, r10 r] 0 0 s else s)
      in map_option (\<lambda>res. case res of
             Value s v \<Rightarrow> leave_call traced entry_pos (rax r) regs (put_kern (set_rax regs v (the_kern s)) s)
           | Kept s \<Rightarrow> leave_call traced entry_pos (rax r) regs s
           | res \<Rightarrow> res) (dispatch ev traced cur_pid regs r s))"

section \<open>Set-up\<close>

text \<open>The model-specific registers after \<open>syscall_init\<close>, from the address of the entry stub, and the stack that the stub switches to.\<close>

definition syscall_init :: "u64 \<Rightarrow> u64 \<Rightarrow> (u64 \<Rightarrow> u64) \<Rightarrow> (u64 \<Rightarrow> u64) \<times> u64" where
  "syscall_init syscall_entry_64 stack_top msr =
     (msr(0xC0000080 := msr 0xC0000080 OR 1, 0xC0000081 := push_bit 32 0x08 OR push_bit 48 0x18, 0xC0000082 := syscall_entry_64,
          0xC0000084 := 0x200 OR 0x400 OR 0x100, 0xC0000083 := syscall_entry_64), stack_top)"

section \<open>The trace\<close>

text \<open>A recorded call: its number, its arguments, the value and the mark of an exit.\<close>

type_synonym traced_call = "u32 \<times> u64 list \<times> u64 \<times> u32"

definition record_calls :: "u32 \<Rightarrow> traced_call list \<Rightarrow> ('n, 'd, 's, 'h, 'c) sys \<Rightarrow> ('n, 'd, 's, 'h, 'c) sys" where
  "record_calls n = fold (\<lambda>(num, args, ret, exited). trace_record n num args ret exited)"

definition call_entry :: "nat \<Rightarrow> u32 \<Rightarrow> traced_call \<Rightarrow> strace_entry" where
  "call_entry i n = (\<lambda>(num, args, ret, exited).
     \<lparr>tr_seq = of_nat i, tr_pid = n, tr_num = num, tr_exited = exited, tr_args = args, tr_ret = ret\<rparr>)"

lemma record_calls_ring:
  fixes s :: "('n, 'd, 's, 'h, 'c) sys"
  assumes "trace_target_pid s = n" "n \<noteq> 0" "trace_next_seq s = 0" "length es < 2 ^ 32"
  defines "t \<equiv> record_calls n es s"
  shows "trace_target_pid t = n \<and> trace_next_seq t = of_nat (length es) \<and>
    (\<forall>i < length es. length es \<le> i + STRACE_RING \<longrightarrow> trace_ring t (i mod STRACE_RING) = call_entry i n (es ! i))"
  using assms(4) unfolding t_def
proof (induction es rule: rev_induct)
  case Nil
  then show ?case using assms(1,3) by (simp add: record_calls_def)
next
  case (snoc e es)
  define u where "u = record_calls n es s"
  obtain num args ret ex where e: "e = (num, args, ret, ex)" by (metis prod_cases4)
  have IH: "trace_target_pid u = n" "trace_next_seq u = of_nat (length es)"
    "\<And>i. i < length es \<Longrightarrow> length es \<le> i + STRACE_RING \<Longrightarrow> trace_ring u (i mod STRACE_RING) = call_entry i n (es ! i)"
    using snoc by (auto simp: u_def)
  have len: "unat (of_nat (length es) :: u32) = length es" using snoc.prems by (simp add: unat_of_nat take_bit_nat_eq_self)
  have step: "record_calls n (es @ [e]) s = trace_record n num args ret ex u" by (simp add: record_calls_def u_def e)
  have "i mod STRACE_RING \<noteq> length es mod STRACE_RING" if "i < length es" "length es < i + STRACE_RING" for i
  proof
    assume "i mod STRACE_RING = length es mod STRACE_RING"
    then have "STRACE_RING dvd length es - i" using that by (metis less_imp_le_nat mod_eq_dvd_iff_nat)
    then show False using that by (auto dest: dvd_imp_le)
  qed
  then show ?case
    using IH assms(2) unfolding step
    by (auto simp: trace_record_def len call_entry_def e nth_append less_Suc_eq)
qed


text \<open>A system in which the first process makes the call \<open>pipe(NULL)\<close> as its next step.\<close>

definition pipe_frame :: registers_t where
  "pipe_frame = (words_regs (replicate 22 0))\<lparr>rax := 42, rdi := 0\<rparr>"

definition demo_env :: "(nat, unit, unit, unit, chip) sys_env" where
  "demo_env = \<lparr>fninit = id, trampoline = 0x100000, mount_env = demo_mounts, vga_ports = chip_io, stack_name = replicate 64 0\<rparr>"

definition demo_sys :: "(nat, unit, unit, unit, chip) sys" where
  "demo_sys = \<lparr>penv = proc_demo\<lparr>kern := demo_kern\<lparr>mem := store_regs 0xFFFF800000001000 pipe_frame (\<lambda>_. 0)\<rparr>\<rparr>,
     mouse_dev = \<lparr>mouse_x = 160, mouse_y = 100, mouse_buttons = 0, extent_w = 320, extent_h = 200, packet = []\<rparr>, chip_state = demo_chip,
     saved_font = None, trace_ring = (\<lambda>_. \<lparr>tr_seq = 0, tr_pid = 0, tr_num = 0, tr_exited = 0, tr_args = [0, 0, 0, 0], tr_ret = 0\<rparr>),
     trace_next_seq = 0, trace_target_pid = 0\<rparr>"


section \<open>Fresh pages\<close>

lemma unat_idx: "unat (drop_bit n a AND 0x1FF :: u64) = unat a div 2 ^ n mod 512"
proof -
  have "unat (drop_bit n a AND 0x1FF) = take_bit 9 (unat (drop_bit n a))"
    unfolding low_9 take_bit_eq_mask [symmetric] by (rule unsigned_take_bit_eq)
  also have "\<dots> = unat a div 2 ^ n mod 512" unfolding unat_drop_bit_eq by (simp add: take_bit_eq_mod drop_bit_eq_div)
  finally show ?thesis .
qed

lemma page_id_inj:
  assumes "unat a < 2 ^ 47" "unat b < 2 ^ 47" "page_id a = page_id b"
  shows "unat a div 4096 = unat b div 4096"
proof -
  define x y where "x = unat a" and "y = unat b"
  have lim: "x div 2 ^ 39 < 512" "y div 2 ^ 39 < 512" using assms(1,2) by (auto simp: x_def y_def)
  have "x div 2 ^ 39 mod 512 = y div 2 ^ 39 mod 512" "x div 2 ^ 30 mod 512 = y div 2 ^ 30 mod 512"
    "x div 2 ^ 21 mod 512 = y div 2 ^ 21 mod 512" "x div 2 ^ 12 mod 512 = y div 2 ^ 12 mod 512"
    using assms(3) by (simp_all add: page_id_def va_path_def pml4_idx_def pdpt_idx_def pd_idx_def pt_idx_def unat_idx x_def y_def)
  note e = this
  have top: "x div 2 ^ 39 = y div 2 ^ 39" using e(1) unfolding mod_less [OF lim(1)] mod_less [OF lim(2)] .
  have step: "x div 2 ^ n = y div 2 ^ n" if "x div 2 ^ (n + 9) = y div 2 ^ (n + 9)" "x div 2 ^ n mod 512 = y div 2 ^ n mod 512" for n
  proof -
    have p: "(2 :: nat) ^ (n + 9) = 2 ^ n * 512" by (simp add: power_add)
    have "x div 2 ^ n div 512 = y div 2 ^ n div 512" using that(1) unfolding p div_mult2_eq .
    then show ?thesis using that(2) by (metis div_mult_mod_eq)
  qed
  have "x div 2 ^ 30 = y div 2 ^ 30" by (rule step [OF _ e(2)]) (simp only: arith_simps top)
  then have "x div 2 ^ 21 = y div 2 ^ 21" by (intro step [OF _ e(3)]) (simp only: arith_simps)
  then have "x div 2 ^ 12 = y div 2 ^ 12" by (intro step [OF _ e(4)]) (simp only: arith_simps)
  then show ?thesis by (simp add: x_def y_def)
qed

lemma page_list_below:
  assumes "unat vend \<le> 2 ^ 47" "j < length (page_list vstart vend)" "unat vstart mod 4096 = 0" "unat vend mod 4096 = 0"
  shows "unat (page_list vstart vend ! j) = unat vstart + 4096 * j" "unat vstart + 4096 * j < 2 ^ 47"
proof -
  have j: "j < (unat vend - unat vstart + 4095) div 4096" using assms(2) by (simp add: page_list_def)
  have "(unat vend - unat vstart) mod 4096 = 0" using assms(3,4) by (simp add: mod_eq_0_iff_dvd dvd_diff_nat)
  then obtain q where q: "unat vend - unat vstart = 4096 * q" by (auto simp: mod_eq_0_iff_dvd)
  have "j < q" using j by (simp add: q)
  then show lt: "unat vstart + 4096 * j < 2 ^ 47" using q assms(1) by linarith
  then have "unat (4096 * of_nat j :: u64) = 4096 * j" using unat_of_nat_u64 [of "4096 * j"] by simp
  moreover define n where "n = (unat vend - unat vstart + 4095) div 4096"
  ultimately show "unat (page_list vstart vend ! j) = unat vstart + 4096 * j"
    using j lt unfolding page_list_def n_def [symmetric] by (simp add: unat_plus_no_wrap)
qed

lemma page_list_user:
  assumes "unat vend \<le> 2 ^ 47" "unat vstart mod 4096 = 0" "unat vend mod 4096 = 0"
  shows "\<forall>va \<in> set (page_list vstart vend). user_va va" "distinct (map page_id (page_list vstart vend))"
proof -
  note b = page_list_below [OF assms(1) _ assms(2,3)]
  show "\<forall>va \<in> set (page_list vstart vend). user_va va" using b by (auto simp: in_set_conv_nth intro!: user_vaI)
  have "i = j" if "i < length (page_list vstart vend)" "j < length (page_list vstart vend)"
    "page_id (page_list vstart vend ! i) = page_id (page_list vstart vend ! j)" for i j
  proof -
    have "unat (page_list vstart vend ! i) div 4096 = unat (page_list vstart vend ! j) div 4096"
      using b that by (intro page_id_inj) simp_all
    then show ?thesis using b that assms(2) by simp
  qed
  then show "distinct (map page_id (page_list vstart vend))" by (auto simp: distinct_conv_nth)
qed

text \<open>
  The second state has the pages \<open>vas\<close> of \<open>p\<close> in the zeroed frames \<open>fs\<close>, which were free in the first, and is like the first
  otherwise.
\<close>

definition fresh_pages :: "u64 set \<Rightarrow> u64 \<Rightarrow> u64 \<Rightarrow> u64 list \<Rightarrow> u64 list \<Rightarrow> vm \<times> bytes \<Rightarrow> vm \<times> bytes \<Rightarrow> bool" where
  "fresh_pages R p flags vas fs = (\<lambda>(v, m) (v', m').
     vm_ok R v' \<and> length fs = length vas \<and> distinct fs \<and>
     (\<forall>a. owned_frame (frames v) a \<longrightarrow> a \<notin> set fs \<and> owned_frame (frames v') a \<and> page_bytes m' a = page_bytes m a) \<and>
     (\<forall>r \<in> R. \<forall>va. user_va va \<longrightarrow> r \<noteq> p \<or> page_id va \<notin> page_id ` set vas \<longrightarrow> space_entry v' r va = space_entry v r va) \<and>
     (\<forall>r \<in> R. \<forall>i \<ge> 256. tables v' r i = tables v r i) \<and>
     (\<forall>j < length vas. owned_frame (frames v') (fs ! j) \<and> space_entry v' p (vas ! j) = Some (make_pte (fs ! j) flags) \<and>
        page_bytes m' (fs ! j) = replicate 4096 0))"

lemma fresh_pagesD:
  assumes "fresh_pages R p flags vas fs (v, m) (v', m')"
  shows "vm_ok R v'" "length fs = length vas" "distinct fs"
    "owned_frame (frames v) a \<Longrightarrow> a \<notin> set fs" "owned_frame (frames v) a \<Longrightarrow> owned_frame (frames v') a"
    "owned_frame (frames v) a \<Longrightarrow> page_bytes m' a = page_bytes m a"
    "r \<in> R \<Longrightarrow> user_va va \<Longrightarrow> r \<noteq> p \<or> page_id va \<notin> page_id ` set vas \<Longrightarrow> space_entry v' r va = space_entry v r va"
    "r \<in> R \<Longrightarrow> 256 \<le> i \<Longrightarrow> tables v' r i = tables v r i"
    "j < length vas \<Longrightarrow> owned_frame (frames v') (fs ! j)"
    "j < length vas \<Longrightarrow> space_entry v' p (vas ! j) = Some (make_pte (fs ! j) flags)"
    "j < length vas \<Longrightarrow> page_bytes m' (fs ! j) = replicate 4096 0"
  using assms unfolding fresh_pages_def by auto

lemma fresh_pages_nil: "vm_ok R v \<Longrightarrow> fresh_pages R p flags [] [] (v, m) (v, m)"
  by (simp add: fresh_pages_def)

lemma fresh_page:
  assumes ok: "vm_ok R v" "p \<in> R" "user_va va" and v1: "v1 = v\<lparr>frames := fst (pmm_alloc_frame (frames v))\<rparr>"
    and f: "f = snd (pmm_alloc_frame (frames v))" "f \<noteq> 0" and mp: "vmm_map_in v1 p va f flags = Some v'"
    and m': "m' = poke (f + KERNEL_HHDM_BASE) (replicate 4096 0) m"
  shows "fresh_pages R p flags [va] [f] (v, m) (v', m')"
proof -
  note pm = vm_okD(1,2) [OF ok(1)]
  obtain k where k: "k \<in> free_frames (frames v)" "k < 2 ^ 20" "f = frame_addr k" "owned_frame (frames v1) f"
    using alloc_owned [OF pm] f by (auto simp: v1)
  have ok1: "vm_ok R v1" unfolding v1 by (rule alloc_frame_vm_ok [OF ok(1)])
  have t1: "takes 1 v v1" unfolding v1 by (rule takes_alloc [OF pm])
  have t2: "takes 3 v1 v'" by (rule map_in_takes [OF vm_okD(1,2) [OF ok1] mp])
  have same: "tables v1 = tables v" by (simp add: v1)
  have se1: "space_entry v1 = space_entry v" by (intro ext) (simp only: space_entry_def page_entry_def same)
  note ent = space.map_entry [OF ok1 ok(2,3) mp, unfolded se1]
  have keep: "page_bytes m' a = page_bytes m a" if own: "owned_frame (frames v) a" for a
  proof -
    obtain j where j: "j < unat (total_frames (frames v))" "a = frame_addr j" "j \<notin> free_frames (frames v)"
      using own by (auto simp: owned_frame_def)
    then have "j \<noteq> k" "j < 2 ^ 20" using k(1) frames.limit_bound [OF pm(1)] by auto
    then show ?thesis unfolding m' k(3) j(2) by (intro page_bytes_poke_other k(2)) simp_all
  qed
  have "page_bytes m' f = replicate 4096 0" unfolding m' k(3) by (intro page_bytes_poke_same k(2)) simp
  moreover have "\<not> owned_frame (frames v) f" using fresh_not_owned [OF pm(1) k(1)] k(3) by simp
  ultimately show ?thesis
    unfolding fresh_pages_def
    using map_in_entries(1,3) [OF ok1 ok(2,3) mp] ent ok(2,3) keep takes_owned [OF t2] takes_owned [OF t1] k(4)
    by (auto simp: same)
qed

lemma fresh_pages_cons:
  assumes A: "fresh_pages R p flags [va] [f] (v, m) (v1, m1)" and B: "fresh_pages R p flags vas fs (v1, m1) (v2, m2)"
    and va: "p \<in> R" "user_va va" "page_id va \<notin> page_id ` set vas"
  shows "fresh_pages R p flags (va # vas) (f # fs) (v, m) (v2, m2)"
proof -
  have f: "owned_frame (frames v1) f" "space_entry v1 p va = Some (make_pte f flags)" "page_bytes m1 f = replicate 4096 0"
    using fresh_pagesD(9-11) [OF A, of 0] by simp_all
  have "space_entry v2 p va = Some (make_pte f flags)" using fresh_pagesD(7) [OF B va(1,2)] va(3) f(2) by simp
  moreover have "space_entry v2 r x = space_entry v r x" if "r \<in> R" "user_va x" "r \<noteq> p \<or> page_id x \<notin> page_id ` set (va # vas)" for r x
    using fresh_pagesD(7) [OF A that(1,2)] fresh_pagesD(7) [OF B that(1,2)] that(3) by auto
  moreover have "a \<notin> set (f # fs)" if "owned_frame (frames v) a" for a
    using fresh_pagesD(4,5) [OF A that] fresh_pagesD(4) [OF B] by auto
  ultimately show ?thesis
    unfolding fresh_pages_def
    using fresh_pagesD(1-3) [OF B] fresh_pagesD(4-6) [OF B f(1)] f(3) fresh_pagesD(5,6,8) [OF A] fresh_pagesD(5,6,8-11) [OF B]
    by (auto simp: nth_Cons split: nat.splits)
qed

lemma mmap_pages_fresh:
  assumes "vm_ok R v" "p \<in> R" "\<forall>va \<in> set vas. user_va va" "distinct (map page_id vas)"
    and "mmap_pages p flags vas (v, m) = Some ((v', m'), True)"
  shows "\<exists>fs. fresh_pages R p flags vas fs (v, m) (v', m')"
  using assms
proof (induction vas arbitrary: v m)
  case Nil
  then show ?case using fresh_pages_nil [of R v p flags m] by (intro exI [of _ "[]"]) auto
next
  case (Cons va vas)
  define v1 where "v1 = v\<lparr>frames := fst (pmm_alloc_frame (frames v))\<rparr>"
  define f where "f = snd (pmm_alloc_frame (frames v))"
  define m1 where "m1 = poke (f + KERNEL_HHDM_BASE) (replicate 4096 0) m"
  have f0: "f \<noteq> 0" using Cons.prems(5) by (auto simp: f_def case_prod_beta Let_def split: if_splits)
  then obtain v2 where v2: "vmm_map_in v1 p va f flags = Some v2" "mmap_pages p flags vas (v2, m1) = Some ((v', m'), True)"
    using Cons.prems(5) by (auto simp: f_def v1_def m1_def case_prod_beta Let_def bind_eq_Some_conv split: if_splits)
  have va: "user_va va" "page_id va \<notin> page_id ` set vas" using Cons.prems(3,4) by auto
  have a: "fresh_pages R p flags [va] [f] (v, m) (v2, m1)"
    by (rule fresh_page [OF Cons.prems(1,2) va(1) v1_def f_def f0 v2(1) m1_def])
  obtain fs where "fresh_pages R p flags vas fs (v2, m1) (v', m')"
    using Cons.IH [OF fresh_pagesD(1) [OF a] Cons.prems(2) _ _ v2(2)] Cons.prems(3,4) by auto
  then show ?case using fresh_pages_cons [OF a _ Cons.prems(2) va] by blast
qed

lemma mmap_pages_succeeds:
  assumes "pmm_ok (frames v)" "0 \<notin> free_frames (frames v)" "4 * length vas \<le> low_free v"
  shows "\<exists>v' m'. mmap_pages p flags vas (v, m) = Some ((v', m'), True)"
  using assms
proof (induction vas arbitrary: v m)
  case Nil
  then show ?case by simp
next
  case (Cons va vas)
  define v1 where "v1 = v\<lparr>frames := fst (pmm_alloc_frame (frames v))\<rparr>"
  define f where "f = snd (pmm_alloc_frame (frames v))"
  have t1: "takes 1 v v1" unfolding v1_def by (rule takes_alloc [OF Cons.prems(1,2)])
  have "free_frames (frames v) \<noteq> {}" using Cons.prems(3) by (auto simp: low_free_def)
  then have f: "f \<noteq> 0" using frames.alloc_result [OF Cons.prems(1,2)] by (simp add: f_def)
  have "3 \<le> low_free v1" using t1 Cons.prems(3) by (simp add: takes_def)
  then obtain v2 where v2: "vmm_map_in v1 p va f flags = Some v2"
    using map_in_low [of v1] takesD [OF t1] by blast
  have t2: "takes (1 + 3) v v2" using takes_trans [OF t1 map_in_takes [OF _ _ v2]] takesD [OF t1] by blast
  then have "4 * length vas \<le> low_free v2" using Cons.prems(3) by (simp add: takes_def)
  then obtain v' m' where "mmap_pages p flags vas (v2, poke (f + KERNEL_HHDM_BASE) (replicate 4096 0) m) = Some ((v', m'), True)"
    using Cons.IH takesD [OF t2] by blast
  then show ?case using v2 f by (auto simp: f_def v1_def case_prod_beta Let_def)
qed

lemma round_page_aligned: "unat (round_page n) mod 4096 = 0"
  unfolding round_page_def unat_round_down by simp

text \<open>C8: anonymous memory is fresh.  A call of \<open>mmap\<close> whose range lies in the user half and is not mapped returns its address when four
  frames per page are free; and when it returns an address, every page of the range lies in a frame of its own that was free and now holds
  zeros, with the protection asked for, while all other pages of all address spaces, the contents of all frames that were in
  use, and the kernel's half are unchanged.\<close>

theorem mmap_anon_fresh:
  assumes "addr = a1 AND NOT 0xFFF" "vm_ok R (vm k)" "task_current_pml4 k = Some p" "p \<in> R"
    and "unat addr + unat (round_page a2) \<le> 2 ^ 47" "round_page a2 \<noteq> 0" "addr \<noteq> 0"
    and "vas = page_list addr (addr + round_page a2)"
    and "\<forall>va \<in> set vas. vmm_get_physical_in (vm k) p va = 0"
  shows "length vas = unat (round_page a2) div 4096 \<and>
    (4 * length vas \<le> low_free (vm k) \<longrightarrow> (\<exists>k'. sys_mmap_anon a1 a2 a3 k = Some (Value k' addr))) \<and>
    (\<forall>k' r. sys_mmap_anon a1 a2 a3 k = Some (Value k' r) \<longrightarrow> r \<noteq> - 1 \<longrightarrow>
       r = addr \<and> (\<exists>fs. fresh_pages R p (prot_flags a3) vas fs (vm k, mem k) (vm k', mem k')))"
proof -
  have al: "unat addr mod 4096 = 0" unfolding assms(1) unat_round_down by simp
  have sum: "unat (addr + round_page a2) = unat addr + unat (round_page a2)"
    using assms(5) by (simp add: unat_plus_no_wrap)
  have al2: "unat (addr + round_page a2) mod 4096 = 0" unfolding sum using al round_page_aligned [of a2] by (simp add: mod_eq_0_iff_dvd)
  note us = page_list_user [OF _ al al2, folded assms(8), unfolded sum, OF assms(5)]
  obtain q where q: "unat (round_page a2) = 4096 * q" using round_page_aligned [of a2] by (auto simp: mod_eq_0_iff_dvd)
  have len: "length vas = unat (round_page a2) div 4096" unfolding assms(8) page_list_def sum by (simp add: q)
  have eq: "sys_mmap_anon a1 a2 a3 k = map_option (\<lambda>((v, m), ok). Value (k\<lparr>vm := v, mem := m\<rparr>) (if ok then addr else - 1))
      (mmap_pages p (prot_flags a3) vas (vm k, mem k))"
    unfolding sys_mmap_anon_def Let_def assms(1) [symmetric] assms(8) [symmetric] using assms(3,6,7,9) by simp
  have "\<exists>k'. sys_mmap_anon a1 a2 a3 k = Some (Value k' addr)" if "4 * length vas \<le> low_free (vm k)"
    using mmap_pages_succeeds [OF vm_okD(1,2) [OF assms(2)] that, of p "prot_flags a3" "mem k"] unfolding eq by auto
  moreover have "r = addr \<and> (\<exists>fs. fresh_pages R p (prot_flags a3) vas fs (vm k, mem k) (vm k', mem k'))"
    if r: "sys_mmap_anon a1 a2 a3 k = Some (Value k' r)" "r \<noteq> - 1" for k' r
  proof -
    obtain v m where vm: "mmap_pages p (prot_flags a3) vas (vm k, mem k) = Some ((v, m), True)"
      "k' = k\<lparr>vm := v, mem := m\<rparr>" "r = addr"
      using r unfolding eq by (auto split: if_splits prod.splits)
    show ?thesis using mmap_pages_fresh [OF assms(2,4) us vm(1)] vm(2,3) by simp
  qed
  ultimately show ?thesis using len by blast
qed

definition mmap_kern :: "(nat, unit, unit) kern" where
  "mmap_kern = demo_kern\<lparr>tasks := (\<lambda>_. zero_task)(1 := zero_task\<lparr>t_pml4 := Some 0x1000\<rparr>)\<rparr>"

theorem mmap_anon_fresh_witness:
  "\<exists>k' fs. sys_mmap_anon 0x400123 100 2 mmap_kern = Some (Value k' 0x400000) \<and> length fs = 1 \<and>
     fresh_pages {0x1000} 0x1000 (VMM_FLAG_USER OR VMM_FLAG_WRITE) [0x400000] fs (small_vm, \<lambda>_. 0) (vm k', mem k')"
proof -
  have k: "vm mmap_kern = small_vm" "mem mmap_kern = (\<lambda>_. 0)" "task_current_pml4 mmap_kern = Some 0x1000"
    by (simp_all add: mmap_kern_def demo_kern_def task_current_pml4_def)
  have r: "round_page 100 = 0x1000" "prot_flags 2 = VMM_FLAG_USER OR VMM_FLAG_WRITE" by (simp_all add: round_page_def prot_flags_def)
  have pl: "[0x400000] = page_list 0x400000 (0x400000 + 0x1000)" by (simp add: page_list_def)
  have none: "\<forall>va \<in> set [0x400000]. vmm_get_physical_in small_vm 0x1000 va = 0"
    by (simp add: vmm_get_physical_in_def walk_lookup_def small_vm_def has_def)
  have "{3..<10} \<inter> {..<16384} = {3..<10 :: nat}" by auto
  then have low: "4 * length [0x400000 :: u64] \<le> low_free small_vm" by (simp add: low_free_def small_vm_frames)
  have c: "0x400000 = (0x400123 AND NOT 0xFFF :: u64)" "0x1000 \<in> {0x1000 :: u64}" "unat (0x400000 :: u64) + unat (0x1000 :: u64) \<le> 2 ^ 47"
    "(0x1000 :: u64) \<noteq> 0" "(0x400000 :: u64) \<noteq> 0" "(0x400000 :: u64) \<noteq> - 1" by simp_all
  note t = mmap_anon_fresh [of "0x400000" "0x400123" "{0x1000}" mmap_kern "0x1000" 100 "[0x400000]" 2, unfolded k r,
      OF c(1) small_vm_ok refl c(2-5) pl none, THEN conjunct2]
  obtain k' where k': "sys_mmap_anon 0x400123 100 2 mmap_kern = Some (Value k' 0x400000)"
    using t [THEN conjunct1, rule_format, OF low] by blast
  obtain fs where "fresh_pages {0x1000} 0x1000 (VMM_FLAG_USER OR VMM_FLAG_WRITE) [0x400000] fs (small_vm, \<lambda>_. 0) (vm k', mem k')"
    using t [THEN conjunct2, rule_format, OF k' c(6)] by blast
  moreover from this have "length fs = 1" by (simp add: fresh_pages_def)
  ultimately show ?thesis using k' by blast
qed

section \<open>Confinement\<close>

definition segments :: "string list \<Rightarrow> string" where
  "segments ns = concat (map (\<lambda>c. slash # c) ns)"

text \<open>
  The paths below a root: its string, then components of which none is empty, \<open>.\<close> or \<open>..\<close>, cut off at the length that the kernel's buffers
  hold.
\<close>

definition below_root :: "string \<Rightarrow> string \<Rightarrow> bool" where
  "below_root rt p \<longleftrightarrow> (\<exists>ns sl. (\<forall>c \<in> set ns. clean c) \<and> sl \<in> {[], [slash]} \<and>
     p = take (VFS_MAX_PATH - 1) (chroot_prefix rt @ segments ns @ sl))"

lemma segments_simps [simp]: "segments [] = []" "segments (c # ns) = slash # c @ segments ns" "segments (ms @ ns) = segments ms @ segments ns"
  by (simp_all add: segments_def)

lemma absolute_segments: "absolute ns = (if ns = [] then [slash] else segments ns)"
  by (simp add: absolute_def segments_def)

lemma segments_last: "\<forall>c \<in> set ns. clean c \<Longrightarrow> ns \<noteq> [] \<Longrightarrow> segments ns \<noteq> [] \<and> last (segments ns) \<noteq> slash"
proof (cases ns rule: rev_cases)
  case (snoc ms c)
  assume "\<forall>c \<in> set ns. clean c"
  then have c: "c \<noteq> []" "slash \<notin> set c" using snoc by (simp_all add: clean_def)
  then have "last c \<noteq> slash" using last_in_set by metis
  then show ?thesis using c(1) by (simp add: snoc)
qed simp

definition strip_slashes :: "string \<Rightarrow> string" where
  "strip_slashes s = rev (dropWhile (\<lambda>c. c = slash) (rev s))"

lemma strip_slashes_simps:
  "s = [] \<or> last s \<noteq> slash \<Longrightarrow> strip_slashes s = s" "strip_slashes (s @ [slash]) = strip_slashes s"
  by (cases s rule: rev_cases, auto simp: strip_slashes_def)

lemma strip_segments:
  assumes "\<forall>c \<in> set ns. clean c" "p = [] \<or> last p \<noteq> slash" "length p \<le> n"
  shows "\<exists>ms. (\<forall>c \<in> set ms. clean c) \<and> strip_slashes (take n (p @ segments ns)) = take n (p @ segments ms)"
  using assms(1)
proof (induction ns rule: rev_induct)
  case Nil
  then show ?case using assms(2,3) by (intro exI [of _ "[]"]) (simp add: strip_slashes_simps)
next
  case (snoc c ns)
  let ?q = "p @ segments ns"
  have q: "?q = [] \<or> last ?q \<noteq> slash" using segments_last [of ns] snoc.prems assms(2) by (cases "ns = []") auto
  consider "n \<le> length ?q" | "n = Suc (length ?q)" | "Suc (length ?q) < n" by linarith
  then show ?case
  proof cases
    case 1
    then have "take n (p @ segments (ns @ [c])) = take n ?q" by simp
    then show ?thesis using snoc by simp
  next
    case 2
    then have "strip_slashes (take n (p @ segments (ns @ [c]))) = take n ?q"
      using strip_slashes_simps(1) [OF q] strip_slashes_simps(2) [of ?q] by simp
    then show ?thesis using snoc.prems by (intro exI [of _ ns]) simp
  next
    case 3
    define d where "d = take (n - Suc (length ?q)) c"
    have "d \<noteq> []" "slash \<notin> set d" using 3 snoc.prems by (auto simp: d_def clean_def dest: in_set_takeD)
    then have "last d \<noteq> slash" using last_in_set by metis
    moreover have "take n (p @ segments (ns @ [c])) = ?q @ slash # d" using 3 by (simp add: d_def take_Cons' Suc_diff_Suc)
    ultimately show ?thesis using snoc.prems \<open>d \<noteq> []\<close> by (intro exI [of _ "ns @ [c]"]) (simp add: strip_slashes_simps)
  qed
qed

text \<open>Roots as \<open>chroot\<close> leaves them.\<close>

definition root_ok :: "string \<Rightarrow> bool" where
  "root_ok rt \<longleftrightarrow> rt \<noteq> [] \<and> hd rt = slash \<and> length rt < VFS_MAX_PATH \<and> (rt = [slash] \<or> last rt \<noteq> slash)"

lemma chroot_prefix_ok: "root_ok rt \<Longrightarrow> chroot_prefix rt = [] \<or> last (chroot_prefix rt) \<noteq> slash"
  by (auto simp: root_ok_def chroot_prefix_def)

lemma trim_strip:
  assumes "s \<noteq> []" "hd s = slash" "length s < VFS_MAX_PATH"
  shows "root_ok (trim_slashes s)" "chroot_prefix (trim_slashes s) = strip_slashes s"
proof -
  obtain r where r: "s = slash # r" using assms(1,2) by (cases s) auto
  define q where "q = strip_slashes r"
  have t: "trim_slashes s = slash # q" by (simp add: trim_slashes_def r q_def strip_slashes_def)
  have q: "q = [] \<or> last q \<noteq> slash"
    using hd_dropWhile [of "\<lambda>c. c = slash" "rev r"] by (auto simp: q_def strip_slashes_def last_rev)
  have "length q \<le> length r" using length_dropWhile_le [of "\<lambda>c. c = slash" "rev r"] by (simp add: q_def strip_slashes_def)
  then show "root_ok (trim_slashes s)" using q assms(3) unfolding t root_ok_def by (auto simp: r)
  show "chroot_prefix (trim_slashes s) = strip_slashes s"
    using q unfolding t by (auto simp: chroot_prefix_def r strip_slashes_def q_def dropWhile_append dropWhile_eq_Nil_conv)
qed

lemma resolve_below:
  assumes J: "root_ok J" and rt: "root_ok rt" "below_root J (chroot_prefix rt)" and cwd: "length wd < VFS_MAX_PATH"
    and r: "resolve_path wd rt path VFS_MAX_PATH = Some out"
  shows "below_root J out" "out \<noteq> []" "hd out = slash" "length out < VFS_MAX_PATH"
proof -
  obtain loc where loc: "canon_into path (if wd = [] then [slash] else wd) VFS_MAX_PATH = Some loc"
    and out: "out = take 255 (chroot_prefix rt @ loc)"
    using resolve_path_out [OF _ _ r] rt(1) by (auto simp: root_ok_def)
  obtain ds where ds: "loc = absolute ds" "\<forall>c \<in> set ds. clean c"
    using canon_into_normal [OF _ loc] cwd by auto
  obtain ns sl where ns: "\<forall>c \<in> set ns. clean c" "sl \<in> {[], [slash]}" "chroot_prefix rt = take 255 (chroot_prefix J @ segments ns @ sl)"
    using rt(2) by (auto simp: below_root_def)
  show "length out < VFS_MAX_PATH" by (simp add: out)
  have hd: "chroot_prefix rt = [] \<or> hd (chroot_prefix rt) = slash" using rt(1) by (cases rt) (auto simp: root_ok_def chroot_prefix_def)
  have "\<exists>z. loc = slash # z" by (cases ds) (simp_all add: ds(1) absolute_def)
  then have "\<exists>z. chroot_prefix rt @ loc = slash # z" using hd by (cases "chroot_prefix rt") auto
  then show "out \<noteq> []" "hd out = slash" by (auto simp: out simp del: take_append)
  show "below_root J out"
  proof (cases "length (chroot_prefix J @ segments ns @ sl) \<le> 255 \<and> sl = []")
    case True
    then have "chroot_prefix rt = chroot_prefix J @ segments ns" using ns(3) by auto
    then have "out = take 255 (chroot_prefix J @ segments (ns @ ds) @ (if ds = [] then [slash] else []))"
      by (simp add: out ds(1) absolute_segments)
    moreover have "\<forall>c \<in> set (ns @ ds). clean c" using ns(1) ds(2) by auto
    ultimately show ?thesis unfolding below_root_def by (intro exI [of _ "ns @ ds"] exI [of _ "if ds = [] then [slash] else []"]) simp
  next
    case False
    have "length (chroot_prefix rt) = 255"
    proof (rule ccontr)
      assume "length (chroot_prefix rt) \<noteq> 255"
      then have "chroot_prefix rt = chroot_prefix J @ segments ns @ sl" "sl = [slash]" using ns False by auto
      then show False using chroot_prefix_ok [OF rt(1)] by simp
    qed
    then have "out = chroot_prefix rt" by (simp add: out)
    then show ?thesis using rt(2) by simp
  qed
qed

lemma trim_below:
  assumes "root_ok J" "below_root J t" "t \<noteq> []" "hd t = slash" "length t < VFS_MAX_PATH"
  shows "root_ok (trim_slashes t)" "below_root J (chroot_prefix (trim_slashes t))"
proof -
  show "root_ok (trim_slashes t)" using trim_strip [OF assms(3-5)] by simp
  obtain ns sl where ns: "\<forall>c \<in> set ns. clean c" "sl \<in> {[], [slash]}" "t = take 255 (chroot_prefix J @ segments ns @ sl)"
    using assms(2) by (auto simp: below_root_def)
  have len: "length (chroot_prefix J) \<le> 255" using assms(1) by (auto simp: root_ok_def chroot_prefix_def)
  have "strip_slashes t = strip_slashes (take 255 (chroot_prefix J @ segments ns))"
  proof (cases "sl = [slash] \<and> length (chroot_prefix J @ segments ns) < 255")
    case True
    then have "t = (chroot_prefix J @ segments ns) @ [slash]" using ns(3) by (auto simp: take_Cons')
    then show ?thesis using True strip_slashes_simps(2) [of "chroot_prefix J @ segments ns"] by auto
  next
    case False
    then show ?thesis using ns by (cases "sl = []") auto
  qed
  then obtain ms where ms: "\<forall>c \<in> set ms. clean c" "strip_slashes t = take 255 (chroot_prefix J @ segments ms)"
    using strip_segments [OF ns(1) chroot_prefix_ok [OF assms(1)] len] by auto
  then show "below_root J (chroot_prefix (trim_slashes t))"
    using trim_strip(2) [OF assms(3-5)] unfolding below_root_def by (intro exI [of _ ms] exI [of _ "[]"]) simp
qed

text \<open>What a process can do to its own root and working directory, and everything that leaves them alone.\<close>

inductive dir_step :: "('n \<Rightarrow> ('s, 'n) vfs_ops option) \<Rightarrow> nat \<Rightarrow> ('n, 'd, 's) kern \<Rightarrow> ('n, 'd, 's) kern \<Rightarrow> bool" for ops_of i where
  Chdir: "process_current k = Some i \<Longrightarrow> sys_chdir ops_of a k = Some (Value k' r) \<Longrightarrow> dir_step ops_of i k k'"
| Chroot: "process_current k = Some i \<Longrightarrow> sys_chroot ops_of a k = Some (Value k' r) \<Longrightarrow> dir_step ops_of i k k'"
| Other: "root (processes k' i) = root (processes k i) \<Longrightarrow> cwd (processes k' i) = cwd (processes k i) \<Longrightarrow> dir_step ops_of i k k'"

inductive_cases dir_stepE: "dir_step ops_of i k k'"

definition jailed :: "string \<Rightarrow> nat \<Rightarrow> ('n, 'd, 's) kern \<Rightarrow> bool" where
  "jailed J i k \<longleftrightarrow> root_ok (root (processes k i)) \<and> below_root J (chroot_prefix (root (processes k i))) \<and>
     length (cwd (processes k i)) < VFS_MAX_PATH"

lemma is_dir_processes: "is_dir ops_of p k = (k', ok) \<Longrightarrow> processes k' = processes k"
  by (auto simp: is_dir_def Let_def split: prod.splits dest: with_fsys_simps(3))

lemma chdir_jailed:
  assumes "jailed J i k" "process_current k = Some i" "sys_chdir ops_of a k = Some (Value k' r)"
  shows "jailed J i k'"
proof -
  have same: "jailed J i k1" if "processes k1 = processes k" for k1 using assms(1) that by (simp add: jailed_def)
  have new: "jailed J i (set_process i (\<lambda>p. p\<lparr>cwd := t\<rparr>) k1)" if "processes k1 = processes k" "length t < VFS_MAX_PATH" for k1 t
    using assms(1) that by (simp add: jailed_def set_process_def)
  obtain p where p: "path_arg a k = Some p" using assms(2,3) by (auto simp: sys_chdir_def bind_eq_Some_conv)
  show ?thesis
  proof (cases p)
    case None
    then show ?thesis using assms p same by (simp add: sys_chdir_def fail_def)
  next
    case (Some t)
    obtain k1 ok where d: "is_dir ops_of t k = (k1, ok)" by fastforce
    have "k' = k1 \<or> (\<exists>u. k' = set_process i (\<lambda>p. p\<lparr>cwd := take 255 (if u = [] then [slash] else u)\<rparr>) k1)"
      using assms(2,3) p Some d
      by (cases "strip_root (root (processes k1 i)) t") (auto simp: sys_chdir_def fail_def Let_def split: if_splits)
    then show ?thesis using same is_dir_processes [OF d] by (auto intro!: new simp del: if_split)
  qed
qed

lemma chroot_jailed:
  assumes J: "root_ok J" and k: "jailed J i k" "process_current k = Some i" "sys_chroot ops_of a k = Some (Value k' r)"
  shows "jailed J i k'"
proof -
  have same: "jailed J i k1" if "processes k1 = processes k" for k1 using k(1) that by (simp add: jailed_def)
  have new: "jailed J i (set_process i (\<lambda>p. p\<lparr>root := trim_slashes (take 255 t), cwd := [slash]\<rparr>) k1)"
    if "path_arg a k = Some (Some t)" "processes k1 = processes k" for k1 t
  proof -
    have "\<exists>path. resolve_path (cwd (processes k i)) (root (processes k i)) path VFS_MAX_PATH = Some t"
      using that(1) k(2) by (auto simp: path_arg_def process_resolve_path_def)
    then obtain path where p: "resolve_path (cwd (processes k i)) (root (processes k i)) path VFS_MAX_PATH = Some t" by blast
    note t = resolve_below [OF J _ _ _ p]
    have j: "root_ok (root (processes k i))" "below_root J (chroot_prefix (root (processes k i)))" "length (cwd (processes k i)) < VFS_MAX_PATH"
      using k(1) by (simp_all add: jailed_def)
    have "take 255 t = t" using t(4) [OF j] by simp
    then show ?thesis using trim_below [OF J t(1) [OF j] t(2) [OF j] t(3) [OF j] t(4) [OF j]] by (simp add: jailed_def set_process_def)
  qed
  show ?thesis
  proof (cases "a = 0 \<or> path_arg a k = Some None")
    case True
    then show ?thesis using k same by (auto simp: sys_chroot_def with_path_def fail_def split: if_splits)
  next
    case False
    then obtain t where t: "path_arg a k = Some (Some t)"
      using k(2,3) by (auto simp: sys_chroot_def with_path_def bind_eq_Some_conv)
    obtain k1 ok where d: "is_dir ops_of t k = (k1, ok)" by fastforce
    have "k' = k1 \<or> k' = set_process i (\<lambda>p. p\<lparr>root := trim_slashes (take 255 t), cwd := [slash]\<rparr>) k1"
      using k(2,3) t d False by (auto simp: sys_chroot_def with_path_def fail_def Let_def split: if_splits)
    then show ?thesis using same new [OF t] is_dir_processes [OF d] by auto
  qed
qed

lemma dir_step_jailed:
  assumes "root_ok J" "jailed J i k" "dir_step ops_of i k k'"
  shows "jailed J i k'"
  using assms(3)
proof cases
  case Other
  then show ?thesis using assms(2) by (simp add: jailed_def)
qed (use assms chdir_jailed chroot_jailed in blast)+

text \<open>C7: there is no way out of a root.  A process that may change its working directory and its root as often as it likes, in any order
  and with anything else happening in between, only ever names files below the root that it started with: every path
  that the kernel resolves for it consists of that root and of components of which none is empty, \<open>.\<close> or \<open>..\<close>, cut off at the
  length of the buffer.  When it was not cut off, its components are those of the root and then these.\<close>

theorem chroot_no_escape:
  assumes "root_ok J" "root (processes k i) = J" "length (cwd (processes k i)) < VFS_MAX_PATH"
    and "(dir_step ops_of i)\<^sup>*\<^sup>* k k'" "process_current k' = Some i" "path_arg a k' = Some (Some out)"
  shows "below_root J out \<and>
    (length out < VFS_MAX_PATH - 1 \<longrightarrow> (\<exists>ns. (\<forall>c \<in> set ns. clean c) \<and> components out = components J @ ns))"
proof -
  have len: "length (chroot_prefix J) \<le> 255" using assms(1) by (auto simp: root_ok_def chroot_prefix_def)
  have "below_root J (chroot_prefix J)" unfolding below_root_def using len by (intro exI [of _ "[]"]) simp
  then have "jailed J i k" using assms(1-3) by (simp add: jailed_def)
  with assms(4) have "jailed J i k'"
    by (induction rule: rtranclp_induct) (auto intro: dir_step_jailed [OF assms(1)])
  then have j: "root_ok (root (processes k' i))" "below_root J (chroot_prefix (root (processes k' i)))"
    "length (cwd (processes k' i)) < VFS_MAX_PATH" by (simp_all add: jailed_def)
  obtain path where p: "resolve_path (cwd (processes k' i)) (root (processes k' i)) path VFS_MAX_PATH = Some out"
    using assms(5,6) by (auto simp: path_arg_def process_resolve_path_def)
  have b: "below_root J out" by (rule resolve_below [OF assms(1) j p])
  then obtain ns sl where ns: "\<forall>c \<in> set ns. clean c" "sl \<in> {[], [slash]}" "out = take 255 (chroot_prefix J @ segments ns @ sl)"
    by (auto simp: below_root_def)
  have "components out = components J @ ns" if "length out < 255"
  proof -
    have "out = chroot_prefix J @ segments ns @ sl" using ns(3) that by (simp add: min_def split: if_splits)
    moreover have "components (p @ [slash]) = components p" for p using components_split [of p "[]"] by simp
    then have "components ((chroot_prefix J @ segments ns) @ sl) = components (chroot_prefix J @ segments ns)"
      using ns(2) by (auto simp del: append_assoc)
    moreover have "components (chroot_prefix J @ segments ns) = components (chroot_prefix J) @ ns"
      using components_absolute [OF ns(1), of "chroot_prefix J"] by (cases "ns = []") (simp_all add: absolute_segments)
    ultimately show ?thesis using components_chroot_prefix [of J] assms(1) by (simp add: root_ok_def)
  qed
  then show ?thesis using b ns(1) by auto
qed

text \<open>A process in \<open>/jail\<close> that names \<open>../etc\<close>.\<close>

definition jail_kern :: "(nat, unit, unit) kern" where
  "jail_kern = demo_kern\<lparr>processes := (processes demo_kern)(0 := (processes demo_kern 0)\<lparr>root := ''/jail'', cwd := ''/''\<rparr>),
     mem := (\<lambda>_. 0)(KERNEL_HHDM_BASE := 0x2E, KERNEL_HHDM_BASE + 1 := 0x2E, KERNEL_HHDM_BASE + 2 := 0x2F, KERNEL_HHDM_BASE + 3 := 0x65)\<rparr>"

theorem chroot_no_escape_witness:
  "path_arg KERNEL_HHDM_BASE jail_kern = Some (Some ''/jail/e'') \<and> below_root ''/jail'' ''/jail/e''"
proof -
  have c: "process_current jail_kern = Some 0" "root (processes jail_kern 0) = ''/jail''" "cwd (processes jail_kern 0) = ''/''"
    using demo_current by (simp_all add: jail_kern_def process_current_def task_current_def demo_kern_def first_process_def new_process_def upt_conv_Cons)
  have tr: "translate jail_kern va = Some va" if "va \<in> {KERNEL_HHDM_BASE, KERNEL_HHDM_BASE + 1, KERNEL_HHDM_BASE + 2, KERNEL_HHDM_BASE + 3, KERNEL_HHDM_BASE + 4}" for va
    using that by (auto simp: translate_def)
  have st: "kstring_upto k n va = Option.bind (translate k va) (\<lambda>a. if mem k a = 0 then Some []
      else map_option (\<lambda>s. char_of (unat (mem k a)) # s) (kstring_upto k (n - 1) (va + 1)))" if "0 < n" for k :: "(nat, unit, unit) kern" and n va
    using that by (cases n) (simp_all cong: if_cong)
  have m: "mem jail_kern KERNEL_HHDM_BASE = 0x2E" "mem jail_kern (KERNEL_HHDM_BASE + 1) = 0x2E" "mem jail_kern (KERNEL_HHDM_BASE + 2) = 0x2F"
    "mem jail_kern (KERNEL_HHDM_BASE + 3) = 0x65" "mem jail_kern (KERNEL_HHDM_BASE + 4) = 0" by (simp_all add: jail_kern_def)
  have "kstring_upto jail_kern 252 (KERNEL_HHDM_BASE + 4) = Some []" by (subst st) (use m in \<open>simp_all add: tr char_of_def bit_iff_odd\<close>)
  then have "kstring_upto jail_kern 253 (KERNEL_HHDM_BASE + 3) = Some ''e''" by (subst st) (use m in \<open>simp_all add: tr char_of_def bit_iff_odd\<close>)
  then have "kstring_upto jail_kern 254 (KERNEL_HHDM_BASE + 2) = Some ''/e''" by (subst st) (use m in \<open>simp_all add: tr char_of_def bit_iff_odd\<close>)
  then have "kstring_upto jail_kern 255 (KERNEL_HHDM_BASE + 1) = Some ''./e''" by (subst st) (use m in \<open>simp_all add: tr char_of_def bit_iff_odd\<close>)
  then have "kstring_upto jail_kern 256 KERNEL_HHDM_BASE = Some ''../e''" by (subst st) (use m in \<open>simp_all add: tr char_of_def bit_iff_odd\<close>)
  moreover have "resolve_path ''/'' ''/jail'' ''../e'' 256 = Some ''/jail/e''"
  proof -
    have "canon_into ''../e'' ''/'' 256 \<noteq> None" by (rule canon_into_fits) (simp add: char_at_def)
    then obtain loc where loc: "canon_into ''../e'' ''/'' 256 = Some loc" by blast
    have "path_components ''/'' ''../e'' = [''e'']" by (simp add: path_components_def char_at_def components_def normal_def)
    then have "loc = ''/e''" using canon_into_normal(1) [OF _ loc] by (simp add: absolute_def)
    then show ?thesis using loc by (simp add: resolve_path_def)
  qed
  ultimately have p: "path_arg KERNEL_HHDM_BASE jail_kern = Some (Some ''/jail/e'')"
    by (simp add: path_arg_def process_resolve_path_def c)
  moreover have "below_root ''/jail'' ''/jail/e''"
    using chroot_no_escape [OF _ c(2) _ rtranclp.rtrancl_refl c(1) p] by (simp add: root_ok_def c(3))
  ultimately show ?thesis by blast
qed

end
