(* ===== verification/Syscall_Safety.thy ===== *)
theory Syscall_Safety
  imports Syscall
begin

text \<open>
  No system call breaks the references of descriptors to pipes: the invariant \<open>pipes_ok\<close> of the process layer, carried through every
  branch of \<open>syscall_handler\<close> up to the delivery of signals.  Calls that only read or write user memory keep everything that the invariant
  speaks about; \<open>execve\<close> allocates and frees buffers of its own; the calls on descriptors are steps of the process layer.
  Creating processes (\<open>fork\<close>, \<open>spawn\<close>) frees the stacks of dead tasks, and mounting changes the heap inside a file system:
  these calls are left out here.
\<close>

section \<open>Calls that leave descriptors alone\<close>

definition more :: "('n, 'd, 's) kern \<Rightarrow> ('n, 'd, 's) kern \<Rightarrow> bool" where
  "more k k' \<longleftrightarrow> pipes k' = pipes k \<and> (\<forall>i. fds (processes k' i) = fds (processes k i)) \<and> heap_ok (heap k') \<and>
     heap_live (heap k) \<subseteq> heap_live (heap k')"

lemma more_ok: "pipes_ok k \<Longrightarrow> more k k' \<Longrightarrow> pipes_ok k'"
  unfolding more_def by (erule pipes_ok_env) auto

lemma more_refl: "heap_ok (heap k) \<Longrightarrow> more k k"
  by (simp add: more_def)

lemma more_trans: "more a b \<Longrightarrow> more b c \<Longrightarrow> more a c"
  by (auto simp: more_def)

lemma more_same: "more a b \<Longrightarrow> same_fds b c \<Longrightarrow> more a c"
  by (auto simp: more_def same_fds_def)

lemma same_more: "heap_ok (heap k) \<Longrightarrow> same_fds k k' \<Longrightarrow> more k k'"
  by (auto simp: more_def same_fds_def)

lemma more_heap: "more a b \<Longrightarrow> heap_ok (heap b)"
  by (simp add: more_def)

lemma with_fsys_fds: "with_fsys f k = (k', r) \<Longrightarrow> same_fds k k'"
  by (auto simp: same_fds_def with_fsys_def Let_def split: prod.splits)

lemma kwrite_fds: "kwrite a bs k = Some k' \<Longrightarrow> same_fds k k'"
  by (induction bs arbitrary: a k) (auto simp: same_fds_def bind_eq_Some_conv)

lemma more_kmalloc:
  assumes "heap_ok (heap k)" "n \<noteq> 0" "unat n + 15 < 2 ^ 64" "kmalloc (heap k) n = Some (h, p)"
  shows "more k (k\<lparr>heap := h\<rparr>)"
  using kheap.alloc_returns [OF assms(1-3)] assms(1,4) by (auto simp: more_def split: if_splits)

text \<open>A buffer that lives for a part of the call.\<close>

lemma more_buffer:
  assumes "heap_ok (heap k)" "n \<noteq> 0" "unat n + 15 < 2 ^ 64" "kmalloc (heap k) n = Some (h, buf)" "buf \<noteq> 0"
    and "more (k\<lparr>heap := h\<rparr>) k1" "kfree (heap k1) buf = Some h2"
  shows "more k (k1\<lparr>heap := h2\<rparr>)"
proof -
  obtain m where m: "heap_live h = insert (unat buf, m) (heap_live (heap k))" "\<forall>j. (unat buf, j) \<notin> heap_live (heap k)"
    by (rule kheap.alloc_cases [OF assms(1-5)]) blast
  have "(unat buf, m) \<in> heap_live (heap k1)" using assms(6) m(1) by (auto simp: more_def)
  from kheap.free_returns [OF more_heap [OF assms(6)] this]
  have "heap_ok h2" "heap_live h2 = heap_live (heap k1) - {(unat buf, m)}" using assms(7) by auto
  then show ?thesis using assms(6) m by (auto simp: more_def)
qed

lemma load_image_fds: "load_image img p k = Some (k', e) \<Longrightarrow> same_fds k k'"
  by (auto simp: load_image_def same_fds_def)

lemma small_size: "unat (ucast (w :: u32) :: u64) + 15 < 2 ^ 64"
  unfolding unat_ucast_u32_u64 using unsigned_less [of w, where 'a = nat] by simp

lemma load_interp_more:
  assumes ok: "heap_ok (heap k)" and l: "load_interp ops_of img p k = Some (k', e, b)"
  shows "more k k'"
proof -
  obtain path found where f: "elf_find_interp img 256 = Some (path, found)" using l by (auto simp: load_interp_def bind_eq_Some_conv)
  let ?path = "map (\<lambda>b. char_of (unat b)) path"
  obtain k1 rc st where s1: "with_fsys (vfs_stat ops_of (mount_table k) ?path) k = (k1, rc, st)" by (metis prod_cases3)
  have m1: "more k k1" by (rule same_more [OF ok with_fsys_fds [OF s1]])
  show ?thesis
  proof (cases "found = 0 \<or> rc \<noteq> 0 \<or> \<not> 0 < st_size st")
    case True
    then show ?thesis using l f s1 m1 more_refl [OF ok] by (auto simp: load_interp_def Let_def split: if_splits)
  next
    case False
    then obtain h ibuf where h: "kmalloc (heap k1) (ucast (st_size st)) = Some (h, ibuf)"
      using l f s1 by (auto simp: load_interp_def Let_def bind_eq_Some_conv split: if_splits)
    have n: "(ucast (st_size st) :: u64) \<noteq> 0" using False by (intro ucast_nonzero) auto
    note m2 = more_kmalloc [OF more_heap [OF m1] n small_size h]
    show ?thesis
    proof (cases "ibuf = 0")
      case True
      then have "k' = k1\<lparr>heap := h\<rparr>" using l f s1 False h by (auto simp: load_interp_def Let_def)
      then show ?thesis using more_trans [OF m1 m2] by simp
    next
      case ib: False
      obtain k2 r bs where s2: "with_fsys (vfs_read ops_of (mount_table (k1\<lparr>heap := h\<rparr>)) ?path (ucast (st_size st)) 0) (k1\<lparr>heap := h\<rparr>) = (k2, r, bs)"
        by (metis prod_cases3)
      obtain k3 h3 where k3: "k3 = k2 \<or> (\<exists>e. load_image bs p k2 = Some (k3, e))" "kfree (heap k3) ibuf = Some h3" "k' = k3\<lparr>heap := h3\<rparr>"
        using l f s1 False h ib s2 by (auto simp: load_interp_def Let_def bind_eq_Some_conv split: if_splits)
      have "more (k1\<lparr>heap := h\<rparr>) k2" using same_more [OF _ with_fsys_fds [OF s2]] more_heap [OF m2] by simp
      then have "more (k1\<lparr>heap := h\<rparr>) k3" using k3(1) more_same [OF _ load_image_fds] by blast
      then show ?thesis
        using more_trans [OF m1 more_buffer [OF more_heap [OF m1] n small_size h ib _ k3(2)]] k3(3) by simp
    qed
  qed
qed

lemma prepare_program_more:
  assumes "heap_ok (heap k)" "prepare_program ops_of img p e argv envp k = Some (k', st)"
  shows "more k k'"
proof -
  obtain k1 ie ib where l: "load_interp ops_of img p k = Some (k1, ie, ib)" using assms(2) by (auto simp: prepare_program_def bind_eq_Some_conv)
  have "same_fds k1 k'"
    using assms(2) l by (auto simp: prepare_program_def bind_eq_Some_conv Let_def same_fds_def case_prod_beta split: if_splits)
  then show ?thesis by (rule more_same [OF load_interp_more [OF assms(1) l]])
qed

lemma execve_from_memory_more:
  assumes ok: "heap_ok (heap k)" and x: "process_execve_from_memory ops_of regs name img argv envp k = Some (k', r)"
  shows "more k k'"
proof (cases "k' = k")
  case True
  then show ?thesis using more_refl [OF ok] by simp
next
  case False
  then obtain i as es t p k1 e where c: "process_current k = Some i" "exec_strings name argv envp = Some (as, es)"
    "p_task (processes k i) = Some t" "t_pml4 (tasks k t) = Some p" "elf_validate img = Some 0"
    "load_image img p (k\<lparr>vm := vmm_unmap_user_space (Some p) (vm k)\<rparr>) = Some (k1, e)"
    using x by (auto simp: process_execve_from_memory_def bind_eq_Some_conv Let_def split: option.splits if_splits)
  have m1: "more k k1" using load_image_fds [OF c(6)] by (intro same_more [OF ok]) (simp add: same_fds_def)
  show ?thesis
  proof (cases "e = 0")
    case True
    then show ?thesis using x c m1 by (simp add: process_execve_from_memory_def)
  next
    case e: False
    obtain k2 st where p: "prepare_program ops_of img p e as es k1 = Some (k2, st)"
      using x c e by (auto simp: process_execve_from_memory_def bind_eq_Some_conv)
    have "same_fds k2 k'"
      using x c e p by (auto simp: process_execve_from_memory_def same_fds_def split: option.splits)
    then show ?thesis by (rule more_same [OF more_trans [OF m1 prepare_program_more [OF more_heap [OF m1] p]]])
  qed
qed

section \<open>Calls\<close>

primrec state_of :: "'a sysres \<Rightarrow> 'a" where
  "state_of (Value s v) = s"
| "state_of (Kept s) = s"
| "state_of (Leave s r) = s"
| "state_of (Away s) = s"
| "state_of (Off s) = s"

lemma state_of_map [simp]: "state_of (map_sysres f r) = f (state_of r)"
  by (cases r) simp_all

text \<open>A call after which the invariant holds.\<close>

definition safe :: "('n, 'd, 's) kern sysres option \<Rightarrow> bool" where
  "safe r \<longleftrightarrow> (\<forall>x. r = Some x \<longrightarrow> pipes_ok (state_of x))"

lemma safe_Some [kernel_inv]: "pipes_ok (state_of x) \<Longrightarrow> safe (Some x)"
  by (simp add: safe_def)

lemma safe_fail [kernel_inv]: "pipes_ok k \<Longrightarrow> safe (fail k)"
  by (simp add: safe_def fail_def)

lemma safe_give [kernel_inv]: "pipes_ok (fst x) \<Longrightarrow> safe (give x)"
  by (simp add: safe_def give_def case_prod_beta)

lemma safe_give_bytes [kernel_inv]: "pipes_ok k \<Longrightarrow> safe (give_bytes b a bs v k)"
  unfolding safe_def give_bytes_def by (auto split: if_splits intro: same_fds_ok [OF _ kwrite_fds])

lemma safe_bind: "(\<And>y. x = Some y \<Longrightarrow> safe (f y)) \<Longrightarrow> safe (Option.bind x f)"
  by (cases x) (simp_all add: safe_def)

lemma safe_map: "(\<And>y. x = Some y \<Longrightarrow> pipes_ok (state_of (f y))) \<Longrightarrow> safe (map_option f x)"
  by (cases x) (simp_all add: safe_def)

lemma fsys_ok [kernel_inv]: "pipes_ok k \<Longrightarrow> pipes_ok (fst (with_fsys f k))"
  by (rule pipes_ok_fsys [of k f _ "snd (with_fsys f k)"]) simp_all

lemma safe_path:
  assumes "pipes_ok k" "\<And>p. safe (f p k)"
  shows "safe (with_path a f k)"
  using assms by (auto simp: with_path_def intro!: safe_bind safe_fail split: option.split)

lemma read_safe: "pipes_ok k \<Longrightarrow> safe (sys_read ops_of a1 a2 a3 k)"
  using fd_read_ok [of k ops_of "sint (ucast a1 :: u32)" a3] unfolding sys_read_def
  by (auto intro!: kernel_inv split: attempt.split)

lemma write_safe: "pipes_ok k \<Longrightarrow> safe (sys_write ops_of a1 a2 a3 k)"
  unfolding sys_write_def
proof (rule safe_bind)
  fix buf assume "pipes_ok k"
  then show "safe (Option.bind (fd_write ops_of (sint (ucast a1 :: u32)) buf k) (\<lambda>(k, r). case r of
         Return r _ \<Rightarrow> Some (Value k (word_of_int r)) | Yield n \<Rightarrow> Some (Away k)))"
    using fd_write_ok [of k ops_of "sint (ucast a1 :: u32)" buf] by (auto intro!: kernel_inv split: attempt.split)
qed

lemma waitpid_fds: "process_waitpid n k = (k', r) \<Longrightarrow> same_fds k k'"
  by (auto simp: process_waitpid_def same_fds_def set_process_def Let_def split: option.splits if_splits)

lemma waitpid_safe: "pipes_ok k \<Longrightarrow> safe (sys_waitpid a1 a2 k)"
  unfolding sys_waitpid_def
  by (auto intro!: kernel_inv intro: same_fds_ok [OF _ waitpid_fds] split: prod.split wait_result.split)

lemma open_safe: "pipes_ok k \<Longrightarrow> safe (sys_open ops_of a1 a2 k)"
  unfolding sys_open_def by (rule safe_path) (auto intro!: kernel_inv fd_open_ok)

lemma file_calls_safe:
  assumes "pipes_ok k"
  shows "safe (sys_unlink ops_of a1 k)" "safe (sys_mkdir ops_of a1 k)" "safe (sys_stat ops_of a1 a2 k)"
    "safe (sys_readdir ops_of stack a1 a2 a3 k)"
  unfolding sys_unlink_def sys_mkdir_def sys_stat_def sys_readdir_def
  by (auto intro!: safe_path [OF assms] kernel_inv assms simp: Let_def case_prod_beta)

lemma is_dir_ok: "pipes_ok k \<Longrightarrow> is_dir ops_of p k = (k', b) \<Longrightarrow> pipes_ok k'"
  by (auto simp: is_dir_def dest: pipes_ok_fsys split: prod.splits)

lemma is_dir_ok' [kernel_inv]: "pipes_ok k \<Longrightarrow> pipes_ok (fst (is_dir ops_of p k))"
  by (simp add: is_dir_def case_prod_beta fsys_ok)

lemma process_field_ok [kernel_inv]:
  "pipes_ok k \<Longrightarrow> fds (f (processes k i)) = fds (processes k i) \<Longrightarrow> pipes_ok (set_process i f k)"
  by (rule same_fds_ok [OF _ same_fds_set_process])

lemma dir_calls_safe:
  assumes "pipes_ok k"
  shows "safe (sys_chdir ops_of a1 k)" "safe (sys_getcwd a1 a2 k)" "safe (sys_chroot ops_of a1 k)"
  unfolding sys_chdir_def sys_getcwd_def sys_chroot_def
  by (auto intro!: safe_path [OF assms] safe_bind kernel_inv assms simp: Let_def case_prod_beta split: option.split)

lemma pipe_safe: "pipes_ok k \<Longrightarrow> safe (sys_pipe a1 k)"
  using fd_pipe_ok [of k] unfolding sys_pipe_def by (auto intro!: kernel_inv)

lemma exec_path_more:
  assumes ok: "heap_ok (heap k)" and x: "exec_path ops_of regs a2 a3 path k = Some x"
  shows "more k (state_of x)"
proof -
  let ?path = "take 255 path"
  obtain k1 rc st where s1: "with_fsys (vfs_stat ops_of (mount_table k) ?path) k = (k1, rc, st)" by (metis prod_cases3)
  have m1: "more k k1" by (rule same_more [OF ok with_fsys_fds [OF s1]])
  show ?thesis
  proof (cases "rc \<noteq> 0 \<or> st_size st = 0")
    case True
    then show ?thesis using x s1 m1 by (auto simp: exec_path_def Let_def fail_def)
  next
    case False
    then obtain h buf where h: "kmalloc (heap k1) (ucast (st_size st)) = Some (h, buf)"
      using x s1 by (auto simp: exec_path_def Let_def bind_eq_Some_conv)
    have n: "(ucast (st_size st) :: u64) \<noteq> 0" using False by (intro ucast_nonzero) auto
    note m2 = more_kmalloc [OF more_heap [OF m1] n small_size h]
    show ?thesis
    proof (cases "buf = 0")
      case True
      then show ?thesis using x s1 False h more_trans [OF m1 m2] by (auto simp: exec_path_def Let_def fail_def)
    next
      case b: False
      obtain k2 r img where s2: "with_fsys (vfs_read ops_of (mount_table (k1\<lparr>heap := h\<rparr>)) ?path (ucast (st_size st)) 0) (k1\<lparr>heap := h\<rparr>) = (k2, r, img)"
        by (metis prod_cases3)
      have m3: "more (k1\<lparr>heap := h\<rparr>) k2" using same_more [OF _ with_fsys_fds [OF s2]] more_heap [OF m2] by simp
      have eq: "(if r \<noteq> int (unat (st_size st)) then map_option (\<lambda>h. Value (k2\<lparr>heap := h\<rparr>) (- 1)) (kfree (heap k2) buf)
          else Option.bind (args_at (SPAWN_ARGV_MAX - 1) a2 k2) (\<lambda>argv. Option.bind (args_at (SPAWN_ENVP_MAX - 1) a3 k2) (\<lambda>envp.
               Option.bind (process_execve_from_memory ops_of regs (Some ?path) img argv envp k2) (\<lambda>(k, rc).
                 map_option (\<lambda>h. let k = k\<lparr>heap := h\<rparr> in if rc < 0 then Value k (- 1) else Kept k) (kfree (heap k) buf))))) = Some x"
        using x s1 False h b s2 unfolding exec_path_def by (simp cong: if_cong)
      have "\<exists>k3 h3. more (k1\<lparr>heap := h\<rparr>) k3 \<and> kfree (heap k3) buf = Some h3 \<and> state_of x = k3\<lparr>heap := h3\<rparr>"
      proof (cases "r = int (unat (st_size st))")
        case True
        then obtain argv envp k3 rc h3 where e: "process_execve_from_memory ops_of regs (Some ?path) img argv envp k2 = Some (k3, rc)"
          "kfree (heap k3) buf = Some h3" "x = (if rc < 0 then Value (k3\<lparr>heap := h3\<rparr>) (- 1) else Kept (k3\<lparr>heap := h3\<rparr>))"
          using eq by (auto simp: bind_eq_Some_conv Let_def)
        then show ?thesis using more_trans [OF m3 execve_from_memory_more [OF more_heap [OF m3] e(1)]] by (intro exI [of _ k3]) simp
      next
        case False
        then show ?thesis using eq m3 by auto
      qed
      then obtain k3 h3 where k3: "more (k1\<lparr>heap := h\<rparr>) k3" "kfree (heap k3) buf = Some h3" "state_of x = k3\<lparr>heap := h3\<rparr>" by blast
      show ?thesis
        using more_trans [OF m1 more_buffer [OF more_heap [OF m1] n small_size h b k3(1,2)]] k3(3) by simp
    qed
  qed
qed

lemma execve_safe:
  assumes "pipes_ok k"
  shows "safe (sys_execve ops_of regs a1 a2 a3 k)"
  unfolding sys_execve_def using more_ok [OF assms exec_path_more [OF pipes_okD(1) [OF assms]]]
  by (intro safe_path assms) (auto simp: safe_def)

text \<open>Calls on memory, devices and the process table.\<close>

lemma vm_mem_ok [kernel_inv]: "pipes_ok k \<Longrightarrow> pipes_ok (k\<lparr>vm := v, mem := m\<rparr>)" "pipes_ok k \<Longrightarrow> pipes_ok (k\<lparr>vm := v\<rparr>)"
  "pipes_ok k \<Longrightarrow> pipes_ok (k\<lparr>terminal := t\<rparr>)" "pipes_ok k \<Longrightarrow> pipes_ok (k\<lparr>mount_table := ms\<rparr>)" "pipes_ok k \<Longrightarrow> pipes_ok (k\<lparr>mem := m\<rparr>)"
  "pipes_ok k \<Longrightarrow> pipes_ok (k\<lparr>foreground_pgid := g\<rparr>)"
  by (erule pipes_ok_frame; simp)+

lemma peek_fds: "peek_bytes n src dst k = Some k' \<Longrightarrow> same_fds k k'"
  by (induction n arbitrary: src dst k) (auto simp: same_fds_def bind_eq_Some_conv)

lemma memory_calls_safe:
  assumes "pipes_ok k"
  shows "safe (sys_mmap_anon a1 a2 a3 k)" "safe (sys_mprotect a1 a2 a3 k)" "safe (sys_meminfo a1 k)" "safe (sys_pagemap a1 a2 k)"
    "safe (sys_regions a1 a2 k)"
  unfolding sys_mmap_anon_def sys_mprotect_def sys_meminfo_def sys_pagemap_def sys_regions_def
  by (auto intro!: kernel_inv safe_map assms simp: Let_def case_prod_beta split: option.split)

lemma peek_safe: "pipes_ok k \<Longrightarrow> safe (sys_peek a1 a2 a3 k)"
  unfolding sys_peek_def by (auto intro!: kernel_inv safe_map intro: same_fds_ok [OF _ peek_fds])

lemma info_calls_safe:
  assumes "pipes_ok k"
  shows "safe (sys_getpid k)" "safe (sys_times a1 k)" "safe (sys_ps a1 a2 k)" "safe (sys_isatty a1 k)" "safe (sys_umount a1 k)"
    "safe (sys_tty_winsz a1 a2 a3 k)"
  unfolding sys_getpid_def sys_times_def sys_ps_def sys_isatty_def sys_umount_def sys_tty_winsz_def
  by (auto intro!: kernel_inv safe_bind assms intro: same_fds_ok [OF assms kwrite_fds] simp: Let_def case_prod_beta split: option.split)

lemma switch_fds: "same_fds k (switch_to c n k)"
  by (simp add: switch_to_def same_fds_def Let_def tss_set_kernel_stack_def)

lemma schedule_fds:
  assumes "schedule process_deliver_pending_signals regs k = Some (k', r)"
  shows "same_fds k k'"
proof -
  have refl: "same_fds k k" by (simp add: same_fds_def)
  show ?thesis
  proof (cases "scheduling_enabled k \<and> current k \<noteq> None")
    case False
    then show ?thesis using assms refl by (auto simp: schedule_def split: if_splits)
  next
    case True
    let ?s = "\<lambda>c. set_task c (\<lambda>t. t\<lparr>t_rsp := regs\<rparr>) k"
    obtain c where c: "current k = Some c" using True by auto
    have "\<exists>n. k' = process_deliver_pending_signals r (?s c) \<or> k' = process_deliver_pending_signals r (switch_to c n (?s c))"
      using assms True c by (auto simp: schedule_def Let_def bind_eq_Some_conv split: if_splits)
    moreover have s: "same_fds k (?s c)" by (simp add: same_fds_def)
    ultimately show ?thesis
      using same_fds_trans [OF s deliver_fds] same_fds_trans [OF same_fds_trans [OF s switch_fds] deliver_fds] by auto
  qed
qed

lemma schedule_ok: "schedule process_deliver_pending_signals regs k = Some (k', r) \<Longrightarrow> pipes_ok k \<Longrightarrow> pipes_ok k'"
  using schedule_fds same_fds_ok by blast

lemma task_state_ok [kernel_inv]: "pipes_ok k \<Longrightarrow> pipes_ok (set_task_state p P st k)"
  by (erule pipes_ok_frame) (simp_all add: set_task_state_def split: option.split)

lemma pause_safe: "pipes_ok k \<Longrightarrow> safe (sys_pause regs k)"
  unfolding sys_pause_def
  by (auto intro!: kernel_inv safe_map simp: Let_def split: option.split elim!: schedule_ok)

lemma process_calls_ok [kernel_inv]:
  assumes "pipes_ok k"
  shows "pipes_ok (fst (process_set_alarm n k))" "pipes_ok (fst (process_signal i h k))" "pipes_ok (fst (process_setpgid n g k))"
    "pipes_ok (process_set_foreground g k)" "pipes_ok (process_sigreturn regs k)" "pipes_ok (process_deliver_pending_signals regs k)"
proof -
  show "pipes_ok (fst (process_set_alarm n k))" "pipes_ok (fst (process_signal i h k))" "pipes_ok (fst (process_setpgid n g k))"
    by (auto intro!: pipes_ok_frame [OF assms] simp: process_set_alarm_def process_signal_def process_setpgid_def Let_def split: option.split)
  show "pipes_ok (process_set_foreground g k)" by (auto intro!: pipes_ok_frame [OF assms] simp: process_set_foreground_def)
qed (auto intro: same_fds_ok [OF assms] sigreturn_fds deliver_fds)

lemma signal_group_ok: "pipes_ok k \<Longrightarrow> pipes_ok (signal_group g signo k)"
proof -
  have "pipes_ok k \<Longrightarrow> pipes_ok (fold (\<lambda>i s. let p = processes s i
      in if \<not> alive p \<or> pgid p \<noteq> g \<or> pid p = 0 then s else signal_one signo i s) is k)" for "is"
    by (induction "is" arbitrary: k) (simp_all add: Let_def signal_one_ok)
  then show "pipes_ok k \<Longrightarrow> pipes_ok (signal_group g signo k)" by (simp add: signal_group_def)
qed

lemma kill_ok [kernel_inv]: "pipes_ok k \<Longrightarrow> pipes_ok (fst (process_kill n signo k))"
  by (simp add: process_kill_def signal_group_ok signal_one_ok split: option.split)

lemma fd_calls_safe:
  assumes "pipes_ok k"
  shows "safe (Option.bind (fd_close fd k) give)" "safe (give (fd_lseek ops_of fd off whence k))"
  using fd_close_ok [OF assms, of fd] fd_lseek_ok [OF assms] by (auto intro!: kernel_inv)

lemma dup2_safe: "pipes_ok k \<Longrightarrow> few_ends 1 k \<Longrightarrow> safe (Option.bind (fd_dup2 fd fd' k) give)"
  using fd_dup2_ok [of k fd fd'] by (auto intro!: kernel_inv)

text \<open>Numbers of the calls that create processes.\<close>

definition creates :: "u64 \<Rightarrow> bool" where
  "creates num \<longleftrightarrow> num = 57 \<or> num = 120"

lemma kern_call_safe:
  assumes ok: "pipes_ok k" and few: "few_ends FD_MAX k" and num: "\<not> creates num" and f: "kern_call ev regs num a1 a2 a3 = Some f"
  shows "safe (f k)"
proof -
  have few1: "few_ends 1 k" by (rule few_ends_less [OF few]) simp_all
  show ?thesis
    using f num unfolding kern_call_def creates_def Let_def
    by (auto split: if_splits simp: case_prod_beta intro!: read_safe write_safe open_safe fd_calls_safe waitpid_safe memory_calls_safe file_calls_safe
        dir_calls_safe info_calls_safe pipe_safe dup2_safe pause_safe execve_safe peek_safe kernel_inv fd_lseek_ok ok few1)
qed

lemma on_kern_safe: "on_kern s f = Some x \<Longrightarrow> safe (f (the_kern s)) \<Longrightarrow> pipes_ok (the_kern (state_of x))"
  by (auto simp: on_kern_def safe_def put_kern_def)

lemma trace_record_kern [simp]: "the_kern (trace_record n num args ret ex s) = the_kern s"
  by (simp add: trace_record_def)

lemma exit_safe:
  assumes "pipes_ok (the_kern s)" "sys_exit traced n a1 s = Some x"
  shows "pipes_ok (the_kern (state_of x))"
proof -
  define s1 where "s1 = (if traced then syscall_trace_exited n (sint (ucast a1 :: u32)) s else s)"
  have k: "the_kern s1 = the_kern s" by (simp add: s1_def syscall_trace_exited_def Let_def)
  have sf: "safe (map_option (\<lambda>k'. if process_current k = None then Value k' 0 else Away k') (process_exit (sint (ucast a1 :: u32)) k))"
    if "k = the_kern s1" for k
    using process_exit_ok [OF assms(1), of "sint (ucast a1 :: u32)"] unfolding that k by (auto simp: safe_def)
  show ?thesis
    using assms(2) unfolding sys_exit_def Let_def s1_def [symmetric] by (rule on_kern_safe) (rule sf, simp)
qed

lemma device_calls_safe:
  assumes "pipes_ok (the_kern s)"
  shows "sys_vga_gfx io a1 s = Some x \<Longrightarrow> pipes_ok (the_kern (state_of x))" "sys_vga_text io s = Some x \<Longrightarrow> pipes_ok (the_kern (state_of x))"
    "sys_mouse_poll a1 s = Some x \<Longrightarrow> pipes_ok (the_kern (state_of x))" "sys_blkdevs a1 a2 s = Some x \<Longrightarrow> pipes_ok (the_kern (state_of x))"
    "sys_traceme a1 s = Some x \<Longrightarrow> pipes_ok (the_kern (state_of x))" "sys_trace_read a1 a2 s = Some x \<Longrightarrow> pipes_ok (the_kern (state_of x))"
  using assms
  by (auto simp: sys_vga_gfx_def sys_vga_text_def sys_mouse_poll_def sys_blkdevs_def sys_traceme_def sys_trace_read_def Let_def fail_def
      put_kern_def case_prod_beta split: if_splits option.splits intro!: kernel_inv elim!: on_kern_safe)

lemma dispatch_safe:
  assumes ok: "pipes_ok (the_kern s)" "few_ends FD_MAX (the_kern s)" and num: "\<not> creates (rax r)" "rax r \<noteq> 21"
    and d: "dispatch ev traced n regs r s = Some x"
  shows "pipes_ok (the_kern (state_of x))"
proof (cases "kern_call ev regs (rax r) (rdi r) (rsi r) (rdx r)")
  case (Some f)
  have "on_kern s f = Some x" using d Some by (simp add: dispatch_def)
  then show ?thesis by (rule on_kern_safe) (rule kern_call_safe [OF ok num(1) Some])
next
  case None
  show ?thesis
    using d None num(2) exit_safe [OF ok(1)] device_calls_safe [OF ok(1)] ok(1)
    by (auto simp: dispatch_def fail_def Let_def split: if_splits)
qed



end
