(* ===== verification/Diagnostics.thy ===== *)
theory Diagnostics
  imports Process
begin

text \<open>
  The kernel's printing and its log, \<open>src/lib/kprintf.c\<close>, the symbol table, \<open>src/kernel/ksyms.c\<close>, and the walk over stack frames,
  \<open>src/kernel/debug.c\<close>, with the panic, \<open>src/kernel/panic.c\<close>.

  The text that a format produces is a function of the format and the arguments; printing it is a fold of \<open>kputchar\<close>.  \<open>None\<close> is a
  number whose field does not fit the buffer, or an argument that is missing or of another kind.  The generated table of
  symbols is an argument.

  The lemmas show that numbers are printed with their value and padding, that the search finds the last symbol below an address,
  that the log keeps the most recent text in order, and that a panic reaches its halt.
\<close>

section \<open>Formats\<close>

definition dig :: string where
  "dig = ''0123456789abcdef''"

text \<open>\<open>while (val > 0) { buf[i++] = dig[val % base]; val /= base; }\<close>\<close>

function low_digits :: "u64 \<Rightarrow> u64 \<Rightarrow> string" where
  "low_digits b val = (if val = 0 \<or> b \<le> 1 then [] else dig ! unat (val mod b) # low_digits b (val div b))"
  by pat_completeness auto
termination
proof (relation "measure (\<lambda>(_, val). unat val)")
  fix b val :: u64
  assume "\<not> (val = 0 \<or> b \<le> 1)"
  then have "1 < unat b" "0 < unat val" by (simp_all add: word_le_nat_alt unat_gt_0)
  then show "((b, val div b), b, val) \<in> measure (\<lambda>(_, val). unat val)" by (simp add: unat_div)
qed simp

declare low_digits.simps [simp del]

text \<open>The buffer has 32 characters and is written from its start, the lowest digit first, and printed backwards.\<close>

definition print_u :: "u64 \<Rightarrow> u64 \<Rightarrow> nat \<Rightarrow> char \<Rightarrow> string option" where
  "print_u val b width pad =
     (let buf = (if val = 0 then ''0'' else low_digits b val);
          buf = buf @ replicate (width - length buf) pad
      in if 32 < length buf then None else Some (rev buf))"

datatype karg = Num u64 | Text "string option"

definition num_arg :: "bool \<Rightarrow> karg list \<Rightarrow> (u64 \<times> karg list) option" where
  "num_arg is_long as = (case as of Num v # as \<Rightarrow> Some (if is_long then v else ucast (ucast v :: u32), as) | _ \<Rightarrow> None)"

definition signed_arg :: "bool \<Rightarrow> karg list \<Rightarrow> (u64 \<times> karg list) option" where
  "signed_arg is_long as = (case as of Num v # as \<Rightarrow> Some (if is_long then v else scast (ucast v :: u32), as) | _ \<Rightarrow> None)"

text \<open>The zero flag, the width and the length prefix, each with the rest of the format.\<close>

definition pad_flag :: "string \<Rightarrow> char \<times> string" where
  "pad_flag fmt = (case fmt of c # r \<Rightarrow> if c = CHR ''0'' then (CHR ''0'', r) else (CHR '' '', fmt) | [] \<Rightarrow> (CHR '' '', []))"

definition digit_char :: "char \<Rightarrow> bool" where
  "digit_char c \<longleftrightarrow> 48 \<le> (of_char c :: nat) \<and> (of_char c :: nat) \<le> 57"

definition field_width :: "string \<Rightarrow> nat \<times> string" where
  "field_width fmt = (foldl (\<lambda>w c. w * 10 + (of_char c - 48)) 0 (takeWhile digit_char fmt), dropWhile digit_char fmt)"

definition long_prefix :: "string \<Rightarrow> bool \<times> string" where
  "long_prefix fmt =
     (case fmt of
        c # r \<Rightarrow> if c = CHR ''l'' then (True, case r of d # r' \<Rightarrow> if d = CHR ''l'' then r' else r | [] \<Rightarrow> []) else (False, fmt)
      | [] \<Rightarrow> (False, []))"

lemma directive_parts_length:
  "length (snd (pad_flag fmt)) \<le> length fmt" "length (snd (field_width fmt)) \<le> length fmt" "length (snd (long_prefix fmt)) \<le> length fmt"
  by (auto simp: pad_flag_def field_width_def long_prefix_def length_dropWhile_le split: list.split)

definition directive :: "string \<Rightarrow> char \<times> nat \<times> bool \<times> string" where
  "directive fmt =
     (let (pad, fmt) = pad_flag fmt; (width, fmt) = field_width fmt; (is_long, fmt) = long_prefix fmt
      in (pad, width, is_long, fmt))"

lemma directive_length: "directive fmt = (pad, width, is_long, rest) \<Longrightarrow> length rest \<le> length fmt"
  using directive_parts_length(1) [of fmt] directive_parts_length(2) [of "snd (pad_flag fmt)"]
    directive_parts_length(3) [of "snd (field_width (snd (pad_flag fmt)))"]
  by (auto simp: directive_def Let_def case_prod_beta)

text \<open>What one conversion prints, and the arguments it leaves.\<close>

definition convert :: "char \<Rightarrow> char \<Rightarrow> nat \<Rightarrow> bool \<Rightarrow> karg list \<Rightarrow> (string \<times> karg list) option" where
  "convert c pad width is_long as =
     (if c = CHR ''d''
      then Option.bind (signed_arg is_long as) (\<lambda>(v, as).
             let neg = v <s 0 in map_option (\<lambda>ds. ((if neg then ''-'' else []) @ ds, as)) (print_u (if neg then - v else v) 10 width pad))
      else if c = CHR ''u'' then Option.bind (num_arg is_long as) (\<lambda>(v, as). map_option (\<lambda>ds. (ds, as)) (print_u v 10 width pad))
      else if c = CHR ''x'' then Option.bind (num_arg is_long as) (\<lambda>(v, as). map_option (\<lambda>ds. (ds, as)) (print_u v 16 width pad))
      else if c = CHR ''p''
      then Option.bind (num_arg True as) (\<lambda>(v, as). map_option (\<lambda>ds. (''0x'' @ ds, as)) (print_u v 16 16 (CHR ''0'')))
      else if c = CHR ''s''
      then (case as of Text t # as \<Rightarrow> Some (case t of None \<Rightarrow> ''(null)'' | Some t \<Rightarrow> t, as) | _ \<Rightarrow> None)
      else if c = CHR ''c'' then Option.bind (num_arg True as) (\<lambda>(v, as). Some ([char_of (unat v)], as))
      else if c = CHR ''%'' then Some (''%'', as)
      else Some ([CHR ''%'', c], as))"

function kvprintf :: "string \<Rightarrow> karg list \<Rightarrow> string option" where
  "kvprintf [] as = Some []"
| "kvprintf (c # fmt) as =
     (if c \<noteq> CHR ''%'' then map_option (\<lambda>out. c # out) (kvprintf fmt as)
      else case directive fmt of
             (pad, width, is_long, []) \<Rightarrow> Some []
           | (pad, width, is_long, conv # rest) \<Rightarrow>
               Option.bind (convert conv pad width is_long as) (\<lambda>(out, as). map_option (\<lambda>more. out @ more) (kvprintf rest as)))"
  by pat_completeness auto
termination
  by (relation "measure (\<lambda>(fmt, _). length fmt)") (auto dest!: directive_length [OF sym])

section \<open>Output and the log\<close>

abbreviation (input) BOOT_LOG_MAX :: nat where "BOOT_LOG_MAX \<equiv> 16384"

record klog =
  ktty :: tty
  boot_log_buf :: "u8 list"
  boot_log_head :: nat
  boot_log_wrapped :: bool
  boot_log_on :: bool
  boot_log_flushing :: bool

definition boot_log_enable :: "klog \<Rightarrow> klog" where
  "boot_log_enable l = l\<lparr>boot_log_on := True\<rparr>"

definition kputchar :: "bool \<Rightarrow> bool \<Rightarrow> u8 \<Rightarrow> klog \<Rightarrow> klog" where
  "kputchar to_vga to_serial c l =
     (let t = (if to_vga then vga_putchar c (ktty l) else ktty l);
          t = (if to_serial then serial_putchar c (if c = 0x0A then serial_putchar 0x0D t else t) else t);
          l = l\<lparr>ktty := t\<rparr>
      in if boot_log_on l
         then let l = l\<lparr>boot_log_buf := (boot_log_buf l)[boot_log_head l := c], boot_log_head := boot_log_head l + 1\<rparr>
              in if BOOT_LOG_MAX \<le> boot_log_head l then l\<lparr>boot_log_head := 0, boot_log_wrapped := True\<rparr> else l
         else l)"

definition kputs_out :: "bool \<Rightarrow> bool \<Rightarrow> u8 list \<Rightarrow> klog \<Rightarrow> klog" where
  "kputs_out to_vga to_serial bs = fold (kputchar to_vga to_serial) bs"

definition out_bytes :: "string \<Rightarrow> u8 list" where
  "out_bytes = map (\<lambda>c. of_nat (of_char c))"

definition kprintf :: "string \<Rightarrow> karg list \<Rightarrow> klog \<Rightarrow> klog option" where
  "kprintf fmt as l = map_option (\<lambda>out. kputs_out True True (out_bytes out) l) (kvprintf fmt as)"

definition serial_printf :: "string \<Rightarrow> karg list \<Rightarrow> klog \<Rightarrow> klog option" where
  "serial_printf fmt as l = map_option (\<lambda>out. kputs_out False True (out_bytes out) l) (kvprintf fmt as)"

text \<open>The writes that \<open>boot_log_flush\<close> makes after it created the file, with their offsets.\<close>

definition log_writes :: "klog \<Rightarrow> (u8 list \<times> nat) list" where
  "log_writes l =
     (if boot_log_wrapped l
      then [(drop (boot_log_head l) (boot_log_buf l), 0), (take (boot_log_head l) (boot_log_buf l), BOOT_LOG_MAX - boot_log_head l)]
      else if 0 < boot_log_head l then [(take (boot_log_head l) (boot_log_buf l), 0)]
      else [])"

definition boot_log_flush ::
  "('n \<Rightarrow> ('s, 'n) vfs_ops option) \<Rightarrow> ('n, 'd) mounts \<Rightarrow> string option \<Rightarrow> klog \<Rightarrow> 's \<Rightarrow> 's" where
  "boot_log_flush ops_of ms path l s =
     (case path of
        None \<Rightarrow> s
      | Some path \<Rightarrow>
          if boot_log_flushing l \<or> log_writes l = [] then s
          else fold (\<lambda>(bs, off) s. fst (vfs_write ops_of ms path bs (int off) s)) (log_writes l) (fst (vfs_create ops_of ms path VFS_FILE s)))"

section \<open>Symbols\<close>

record ksym =
  sym_addr :: u64
  name_off :: u32

partial_function (option) ksym_search :: "ksym list \<Rightarrow> u64 \<Rightarrow> u32 \<Rightarrow> u32 \<Rightarrow> u32 option" where
  "ksym_search ksyms at lo hi =
     (if lo + 1 < hi
      then let mid = (lo + hi) div 2
           in if length ksyms \<le> unat mid then None
              else if sym_addr (ksyms ! unat mid) \<le> at then ksym_search ksyms at mid hi else ksym_search ksyms at lo mid
      else Some lo)"

text \<open>The name and the offset; \<open>Some None\<close> below the first symbol.\<close>

definition ksym_lookup :: "ksym list \<Rightarrow> u64 \<Rightarrow> (u32 \<times> u64) option option" where
  "ksym_lookup ksyms at =
     (if ksyms = [] \<or> at < sym_addr (ksyms ! 0) then Some None
      else map_option (\<lambda>lo. Some (name_off (ksyms ! unat lo), at - sym_addr (ksyms ! unat lo))) (ksym_search ksyms at 0 (of_nat (length ksyms))))"

text \<open>The walk prints a line for each frame; \<open>strs\<close> is the generated table of names.\<close>

definition sym_name :: "string \<Rightarrow> u32 \<Rightarrow> string" where
  "sym_name strs off = takeWhile (\<lambda>c. c \<noteq> CHR 0x00) (drop (unat off) strs)"

definition print_frame :: "ksym list \<Rightarrow> string \<Rightarrow> nat \<Rightarrow> u64 \<Rightarrow> klog \<Rightarrow> klog option" where
  "print_frame ksyms strs i ret_rip l =
     Option.bind (ksym_lookup ksyms ret_rip) (\<lambda>r.
       case r of
         Some (off, d) \<Rightarrow> kprintf (''  #%d  rip=0x%lx  %s+0x%lx'' @ [CHR 0x0A]) [Num (of_nat i), Num ret_rip, Text (Some (sym_name strs off)), Num d] l
       | None \<Rightarrow> kprintf (''  #%d  rip=0x%lx  <?>'' @ [CHR 0x0A]) [Num (of_nat i), Num ret_rip] l)"

function walk_frames :: "nat \<Rightarrow> ksym list \<Rightarrow> string \<Rightarrow> bytes \<Rightarrow> u64 \<Rightarrow> klog \<Rightarrow> klog option" where
  "walk_frames i ksyms strs m bp l =
     (if 16 \<le> i \<or> \<not> bp <s 0 \<or> bp AND 7 \<noteq> 0 then Some l
      else let saved_bp = load64 m bp; ret_rip = load64 m (bp + 8)
           in Option.bind (print_frame ksyms strs i ret_rip l)
                (\<lambda>l. if saved_bp \<le> bp then Some l else walk_frames (i + 1) ksyms strs m saved_bp l))"
  by pat_completeness auto
termination
  by (relation "measure (\<lambda>(i, _). 16 - i)") auto

declare walk_frames.simps [simp del]

definition debug_backtrace :: "ksym list \<Rightarrow> string \<Rightarrow> bytes \<Rightarrow> u64 \<Rightarrow> klog \<Rightarrow> klog option" where
  "debug_backtrace ksyms strs m start_rbp l =
     Option.bind (kprintf (''Backtrace:'' @ [CHR 0x0A]) [] l) (walk_frames 0 ksyms strs m start_rbp)"

text \<open>\<open>panic\<close> up to the endless halt: the log and the file systems it leaves.  The frame pointer is an argument.\<close>

definition panic ::
  "ksym list \<Rightarrow> string \<Rightarrow> bytes \<Rightarrow> ('n \<Rightarrow> ('s, 'n) vfs_ops option) \<Rightarrow> ('n, 'd) mounts \<Rightarrow> u64 \<Rightarrow> string option \<Rightarrow> klog \<times> 's \<Rightarrow> (klog \<times> 's) option" where
  "panic ksyms strs m ops_of ms frame msg = (\<lambda>(l, s).
     Option.bind (kprintf ([CHR 0x0A] @ ''*** KERNEL PANIC: %s ***'' @ [CHR 0x0A]) [Text msg] l) (\<lambda>l.
     Option.bind (debug_backtrace ksyms strs m frame l) (\<lambda>l.
     let s = boot_log_flush ops_of ms (Some ''/panic.log'') l s
     in map_option (\<lambda>l. (l, s)) (kprintf (''System halted.'' @ [CHR 0x0A]) [] l))))"

section \<open>Lemmas on numbers\<close>

definition digit_value :: "char \<Rightarrow> nat" where
  "digit_value c = (if digit_char c then of_char c - 48 else of_char c - 87)"

definition read_number :: "nat \<Rightarrow> string \<Rightarrow> nat" where
  "read_number b = foldl (\<lambda>n c. n * b + digit_value c) 0"

lemma digit_value_dig: "n < 16 \<Longrightarrow> digit_value (dig ! n) = n"
  by (simp add: dig_def digit_value_def digit_char_def less_Suc_eq numeral_eq_Suc) (elim disjE; simp)

lemma read_number_snoc [simp]: "read_number b (ds @ [d]) = read_number b ds * b + digit_value d"
  by (simp add: read_number_def)

lemma read_number_low_digits:
  assumes "2 \<le> b" "b \<le> 16"
  shows "read_number (unat b) (rev (low_digits b val)) = unat val"
  using assms
proof (induction b val rule: low_digits.induct)
  case (1 b val)
  have b: "2 \<le> unat b" "unat b \<le> 16" using "1.prems" by (simp_all add: word_le_nat_alt)
  show ?case
  proof (cases "val = 0")
    case True
    then show ?thesis by (simp add: low_digits.simps read_number_def)
  next
    case False
    moreover have "\<not> b \<le> 1" using b by (simp add: word_le_nat_alt)
    moreover have "unat (val mod b) < 16" unfolding unat_mod using b by (intro less_le_trans [OF mod_less_divisor]) auto
    ultimately show ?thesis using "1.IH" "1.prems"
      by (subst low_digits.simps) (simp add: digit_value_dig, simp add: unat_div unat_mod div_mult_mod_eq)
  qed
qed

lemma length_low_digits:
  "unat val < unat b ^ n \<Longrightarrow> length (low_digits b val) \<le> n"
proof (induction n arbitrary: val)
  case 0
  then show ?case by (simp add: low_digits.simps unat_eq_0)
next
  case (Suc n)
  show ?case
  proof (cases "val = 0 \<or> b \<le> 1")
    case True
    then show ?thesis by (simp add: low_digits.simps)
  next
    case False
    have "unat (val div b) < unat b ^ n"
      unfolding unat_div using Suc.prems by (intro less_mult_imp_div_less) (simp add: mult.commute)
    then show ?thesis using False Suc.IH by (simp add: low_digits.simps [of b val])
  qed
qed

lemma low_digits_20:
  assumes "10 \<le> b"
  shows "length (low_digits b val) \<le> 20"
proof (rule length_low_digits)
  have "unat val < 2 ^ 64" using unsigned_less [of val] by simp
  also have "(2::nat) ^ 64 < 10 ^ 20" by simp
  also have "(10::nat) ^ 20 \<le> unat b ^ 20" using assms by (intro power_mono) (simp_all add: word_le_nat_alt)
  finally show "unat val < unat b ^ 20" .
qed

lemma low_digits_last:
  "val \<noteq> 0 \<Longrightarrow> 2 \<le> b \<Longrightarrow> b \<le> 16 \<Longrightarrow> low_digits b val \<noteq> [] \<and> last (low_digits b val) \<noteq> CHR ''0''"
proof (induction b val rule: low_digits.induct)
  case (1 b val)
  have b: "2 \<le> unat b" "unat b \<le> 16" using "1.prems" by (simp_all add: word_le_nat_alt)
  then have n: "\<not> (val = 0 \<or> b \<le> 1)" using "1.prems"(1) by (simp add: word_le_nat_alt)
  show ?case
  proof (cases "val div b = 0")
    case True
    then have "unat val < unat b" using b by (simp add: unat_eq_0 [symmetric] unat_div div_eq_0_iff)
    then have "unat (val mod b) = unat val" by (simp add: unat_mod)
    moreover have "digit_value (dig ! unat val) \<noteq> 0"
      using digit_value_dig [of "unat val"] \<open>unat val < unat b\<close> b "1.prems"(1) by (simp add: unat_eq_0)
    then have "dig ! unat val \<noteq> CHR ''0''" by (auto simp: digit_value_def digit_char_def)
    moreover have "low_digits b (val div b) = []" unfolding True by (simp add: low_digits.simps)
    ultimately show ?thesis using n by (simp add: low_digits.simps [of b val])
  next
    case False
    then have "low_digits b (val div b) \<noteq> [] \<and> last (low_digits b (val div b)) \<noteq> CHR ''0''"
      using "1.IH" [OF n] "1.prems" by blast
    then show ?thesis using n by (simp add: low_digits.simps [of b val])
  qed
qed

text \<open>a number is printed in decimal or hexadecimal with its value: \<open>print_u\<close> never overruns its buffer for a field of at most 32
  characters, it prints padding up to the width and then digits, which read back as the number and do not start with a zero
  unless the number is zero.\<close>

lemma print_u_reads_back:
  assumes "b = 10 \<or> b = 16" "width \<le> 32"
  shows "\<exists>ds. print_u val b width pad = Some (replicate (width - length ds) pad @ ds) \<and> ds \<noteq> [] \<and> length ds \<le> 20 \<and>
           read_number (unat b) ds = unat val \<and> (hd ds = CHR ''0'' \<longrightarrow> val = 0)"
proof (cases "val = 0")
  case True
  show ?thesis
    by (rule exI [of _ "''0''"])
      (use assms True in \<open>auto simp: print_u_def Let_def read_number_def digit_value_def digit_char_def replicate_append_same\<close>)
next
  case False
  let ?ds = "rev (low_digits b val)"
  have b: "2 \<le> b" "b \<le> 16" "10 \<le> b" using assms(1) by auto
  have n: "length ?ds \<le> 20" using low_digits_20 [OF b(3)] by simp
  have l: "low_digits b val \<noteq> []" "last (low_digits b val) \<noteq> CHR ''0''" using low_digits_last [OF False b(1,2)] by simp_all
  show ?thesis
    by (rule exI [of _ ?ds])
      (use assms False n l read_number_low_digits [OF b(1,2), of val] in \<open>simp add: print_u_def Let_def hd_rev\<close>)
qed

text \<open>A check of a format against the kinds of its arguments, under which printing never overruns and never lacks an argument.\<close>

definition is_num :: "karg \<Rightarrow> bool" where
  "is_num a = (case a of Num _ \<Rightarrow> True | Text _ \<Rightarrow> False)"

function fits :: "string \<Rightarrow> bool list \<Rightarrow> bool" where
  "fits [] ks = True"
| "fits (c # fmt) ks =
     (if c \<noteq> CHR ''%'' then fits fmt ks
      else case directive fmt of
             (pad, width, is_long, []) \<Rightarrow> True
           | (pad, width, is_long, conv # rest) \<Rightarrow>
               if conv \<in> set ''duxpc'' then ks \<noteq> [] \<and> hd ks \<and> width \<le> 32 \<and> fits rest (tl ks)
               else if conv = CHR ''s'' then ks \<noteq> [] \<and> \<not> hd ks \<and> fits rest (tl ks)
               else fits rest ks)"
  by pat_completeness auto
termination
  by (relation "measure (\<lambda>(fmt, _). length fmt)") (auto dest!: directive_length [OF sym])

lemma print_u_some: "b = 10 \<or> b = 16 \<Longrightarrow> width \<le> 32 \<Longrightarrow> \<exists>out. print_u val b width pad = Some out"
  using print_u_reads_back by blast

lemma convert_some:
  assumes "if conv \<in> set ''duxpc'' then as \<noteq> [] \<and> is_num (hd as) \<and> width \<le> 32 else conv = CHR ''s'' \<longrightarrow> as \<noteq> [] \<and> \<not> is_num (hd as)"
  shows "\<exists>out. convert conv pad width is_long as = Some (out, if conv \<in> set ''duxpcs'' then tl as else as)"
proof -
  have d: "\<exists>out. print_u v 10 width pad = Some out" "\<exists>out. print_u v 16 width pad = Some out" if "width \<le> 32" for v
    using print_u_some that by blast+
  have p: "\<exists>out. print_u v 16 16 (CHR ''0'') = Some out" for v by (rule print_u_some) simp_all
  show ?thesis
  proof (cases as)
    case Nil
    then show ?thesis using assms by (auto simp: convert_def split: if_splits)
  next
    case (Cons a as')
    then show ?thesis using assms d p
      by (cases a) (auto simp: convert_def is_num_def num_arg_def signed_arg_def Let_def split: if_splits)
  qed
qed

lemma kvprintf_some: "fits fmt (map is_num as) \<Longrightarrow> \<exists>out. kvprintf fmt as = Some out"
proof (induction fmt as rule: kvprintf.induct)
  case (2 c fmt as)
  show ?case
  proof (cases "c = CHR ''%''")
    case False
    then show ?thesis using 2 by auto
  next
    case True
    obtain pad width is_long rest where d: "directive fmt = (pad, width, is_long, rest)" by (metis surj_pair)
    show ?thesis
    proof (cases rest)
      case Nil
      then show ?thesis using True d by simp
    next
      case (Cons conv rest')
      have "\<exists>out. convert conv pad width is_long as = Some (out, if conv \<in> set ''duxpcs'' then tl as else as)"
        by (rule convert_some) (use "2.prems" True d Cons in \<open>auto split: if_splits simp: hd_map\<close>)
      then obtain out where out: "convert conv pad width is_long as = Some (out, if conv \<in> set ''duxpcs'' then tl as else as)" ..
      have "fits rest' (map is_num (if conv \<in> set ''duxpcs'' then tl as else as))"
        using "2.prems" True d Cons by (auto split: if_splits simp: map_tl)
      from "2.IH"(2) [OF _ d [symmetric] refl refl _ out refl this] True d Cons out show ?thesis by auto
    qed
  qed
qed simp

lemma kprintf_some:
  assumes "fits fmt (map is_num as)"
  shows "\<exists>l'. kprintf fmt as l = Some l'" "\<exists>l'. serial_printf fmt as l = Some l'"
  using kvprintf_some [OF assms] by (auto simp: kprintf_def serial_printf_def)

section \<open>Lemmas on symbols\<close>

lemma ksym_search_correct:
  assumes "sorted (map sym_addr ksyms)" "length ksyms < 2 ^ 31"
    and "unat lo < unat hi" "unat hi \<le> length ksyms"
    and "sym_addr (ksyms ! unat lo) \<le> at" "\<forall>j. unat hi \<le> j \<and> j < length ksyms \<longrightarrow> at < sym_addr (ksyms ! j)"
  shows "\<exists>i. ksym_search ksyms at lo hi = Some i \<and> unat i < length ksyms \<and> sym_addr (ksyms ! unat i) \<le> at \<and>
           (\<forall>j. unat i < j \<and> j < length ksyms \<longrightarrow> at < sym_addr (ksyms ! j))"
  using assms(3-6)
proof (induction "unat hi - unat lo" arbitrary: lo hi rule: less_induct)
  case less
  have s1: "unat (lo + 1) = unat lo + 1" using less.prems(1,2) assms(2) by (subst unat_add_lem [THEN iffD1]) simp_all
  show ?case
  proof (cases "lo + 1 < hi")
    case False
    then have "unat hi \<le> unat lo + 1" using s1 by (simp add: word_less_nat_alt)
    then show ?thesis using less.prems False by (subst ksym_search.simps) auto
  next
    case True
    let ?mid = "(lo + hi) div 2"
    have "unat (lo + hi) = unat lo + unat hi" using less.prems(1,2) assms(2) by (subst unat_add_lem [THEN iffD1]) simp_all
    then have m: "unat ?mid = (unat lo + unat hi) div 2" by (simp add: unat_div)
    have "unat lo + 1 < unat hi" using True s1 by (simp add: word_less_nat_alt)
    then have b: "unat lo < unat ?mid" "unat ?mid < unat hi" unfolding m by auto
    have later: "sym_addr (ksyms ! unat ?mid) \<le> sym_addr (ksyms ! j)" if "unat ?mid \<le> j" "j < length ksyms" for j
      using sorted_nth_mono [OF assms(1) that(1)] that less.prems(2) b by simp
    have step: "ksym_search ksyms at lo hi =
        (if sym_addr (ksyms ! unat ?mid) \<le> at then ksym_search ksyms at ?mid hi else ksym_search ksyms at lo ?mid)"
      using True less.prems(2) b by (subst ksym_search.simps) (simp add: Let_def)
    show ?thesis
    proof (cases "sym_addr (ksyms ! unat ?mid) \<le> at")
      case True
      then show ?thesis unfolding step using less.hyps [of hi ?mid] less.prems b by simp
    next
      case False
      then have "\<forall>j. unat ?mid \<le> j \<and> j < length ksyms \<longrightarrow> at < sym_addr (ksyms ! j)" using later by (meson less_le_trans not_le)
      then show ?thesis unfolding step using False less.hyps [of ?mid lo] less.prems b by simp
    qed
  qed
qed

definition demo_syms :: "ksym list" where
  "demo_syms = [\<lparr>sym_addr = 0x100, name_off = 0\<rparr>, \<lparr>sym_addr = 0x180, name_off = 5\<rparr>]"

text \<open>C34: the symbol of an address is found: in a sorted table of fewer than 2^31 symbols, an address that is not below the first one is
  given the name of the last symbol at or below it and the distance from that symbol's start; the search always ends.\<close>

theorem ksym_lookup_finds:
  assumes "sorted (map sym_addr ksyms)" "length ksyms < 2 ^ 31" "ksyms \<noteq> []" "sym_addr (ksyms ! 0) \<le> at"
  shows "\<exists>i < length ksyms. ksym_lookup ksyms at = Some (Some (name_off (ksyms ! i), at - sym_addr (ksyms ! i))) \<and>
           sym_addr (ksyms ! i) \<le> at \<and> (\<forall>j. i < j \<and> j < length ksyms \<longrightarrow> at < sym_addr (ksyms ! j))"
proof -
  have n: "unat (of_nat (length ksyms) :: u32) = length ksyms" using assms(2) by (simp add: unat_of_nat)
  have "0 < length ksyms" using assms(3) by simp
  then obtain i where i: "ksym_search ksyms at 0 (of_nat (length ksyms)) = Some i" "unat i < length ksyms" "sym_addr (ksyms ! unat i) \<le> at"
      "\<forall>j. unat i < j \<and> j < length ksyms \<longrightarrow> at < sym_addr (ksyms ! j)"
    using ksym_search_correct [OF assms(1,2), of 0 "of_nat (length ksyms)" at, unfolded n] assms(4)
    by (metis le_refl not_le unat_0)
  then show ?thesis using assms(3,4) by (intro exI [of _ "unat i"]) (simp add: ksym_lookup_def not_less)
qed

theorem ksym_lookup_finds_witness:
  "sorted (map sym_addr demo_syms) \<and> length demo_syms = 2 \<and>
   (\<exists>i < length demo_syms. ksym_lookup demo_syms 0x17F = Some (Some (name_off (demo_syms ! i), 0x17F - sym_addr (demo_syms ! i))) \<and>
      sym_addr (demo_syms ! i) \<le> 0x17F \<and> (\<forall>j. i < j \<and> j < length demo_syms \<longrightarrow> 0x17F < sym_addr (demo_syms ! j)))"
proof -
  have s: "sorted (map sym_addr demo_syms)" "length demo_syms = 2" "length demo_syms < 2 ^ 31" "demo_syms \<noteq> []"
      "sym_addr (demo_syms ! 0) \<le> 0x17F"
    by (simp_all add: demo_syms_def)
  show ?thesis using s(1,2) ksym_lookup_finds [OF s(1,3,4,5)] by blast
qed

text \<open>The search ends on every table, sorted or not, so printing a backtrace and a panic end too.\<close>

lemma ksym_search_some:
  assumes "length ksyms < 2 ^ 31" "unat lo < unat hi" "unat hi \<le> length ksyms"
  shows "\<exists>i. ksym_search ksyms at lo hi = Some i"
  using assms(2,3)
proof (induction "unat hi - unat lo" arbitrary: lo hi rule: less_induct)
  case less
  show ?case
  proof (cases "lo + 1 < hi")
    case False
    then show ?thesis by (subst ksym_search.simps) simp
  next
    case True
    let ?mid = "(lo + hi) div 2"
    have "unat (lo + hi) = unat lo + unat hi" using less.prems assms(1) by (subst unat_add_lem [THEN iffD1]) simp_all
    then have m: "unat ?mid = (unat lo + unat hi) div 2" by (simp add: unat_div)
    have "unat (lo + 1) = unat lo + 1" using less.prems assms(1) by (subst unat_add_lem [THEN iffD1]) simp_all
    then have "unat lo + 1 < unat hi" using True by (simp add: word_less_nat_alt)
    then have b: "unat lo < unat ?mid" "unat ?mid < unat hi" unfolding m by auto
    then show ?thesis using True less.prems less.hyps [of hi ?mid] less.hyps [of ?mid lo]
      by (subst ksym_search.simps) (simp add: Let_def)
  qed
qed

lemma ksym_lookup_some:
  assumes "length ksyms < 2 ^ 31"
  shows "\<exists>r. ksym_lookup ksyms at = Some r"
proof -
  have "unat (of_nat (length ksyms) :: u32) = length ksyms" using assms by (simp add: unat_of_nat)
  then have "\<exists>i. ksym_search ksyms at 0 (of_nat (length ksyms)) = Some i" if "ksyms \<noteq> []"
    using ksym_search_some [OF assms, of 0 "of_nat (length ksyms)"] that by simp
  then show ?thesis by (auto simp: ksym_lookup_def)
qed

lemma print_frame_some:
  assumes "length ksyms < 2 ^ 31"
  shows "\<exists>l'. print_frame ksyms strs i a l = Some l'"
proof -
  have f: "fits (''  #%d  rip=0x%lx  %s+0x%lx'' @ [CHR 0x0A]) [True, True, False, True]" "fits (''  #%d  rip=0x%lx  <?>'' @ [CHR 0x0A]) [True, True]"
    by code_simp+
  then have k: "\<exists>l'. kprintf (''  #%d  rip=0x%lx  %s+0x%lx'' @ [CHR 0x0A]) [Num n, Num a, Text t, Num d] l = Some l'"
    "\<exists>l'. kprintf (''  #%d  rip=0x%lx  <?>'' @ [CHR 0x0A]) [Num n, Num a] l = Some l'" for n t d
    by (auto intro!: kprintf_some(1) simp only: list.map is_num_def karg.case)
  obtain r where "ksym_lookup ksyms a = Some r" using ksym_lookup_some [OF assms] by blast
  then show ?thesis using k unfolding print_frame_def by (cases r) auto
qed

lemma walk_frames_some: "length ksyms < 2 ^ 31 \<Longrightarrow> \<exists>l'. walk_frames i ksyms strs m bp l = Some l'"
proof (induction i ksyms strs m bp l rule: walk_frames.induct)
  case (1 i ksyms strs m bp l)
  obtain l1 where l1: "print_frame ksyms strs i (load64 m (bp + 8)) l = Some l1" using print_frame_some [OF "1.prems"] by blast
  show ?case
  proof (cases "16 \<le> i \<or> \<not> bp <s 0 \<or> bp AND 7 \<noteq> 0 \<or> load64 m bp \<le> bp")
    case True
    then show ?thesis using l1 by (subst walk_frames.simps) (auto simp: Let_def)
  next
    case False
    then show ?thesis using "1.IH" [OF _ refl refl l1 _ "1.prems"] l1 by (subst walk_frames.simps) (simp add: Let_def)
  qed
qed

lemma debug_backtrace_some:
  assumes "length ksyms < 2 ^ 31"
  shows "\<exists>l'. debug_backtrace ksyms strs m bp l = Some l'"
proof -
  have "fits (''Backtrace:'' @ [CHR 0x0A]) (map is_num [])" by code_simp
  then obtain l1 where "kprintf (''Backtrace:'' @ [CHR 0x0A]) [] l = Some l1" using kprintf_some(1) by blast
  then show ?thesis using walk_frames_some [OF assms] by (simp add: debug_backtrace_def)
qed

text \<open>A panic reaches its halt: whatever the message, the stack and the state of the log and of the file systems, the message,
  the backtrace of at most 16 frames, the flush of the log and the last line are all printed, for every table of fewer than 2^31
  symbols.\<close>

lemma panic_halts:
  assumes "length ksyms < 2 ^ 31"
  shows "\<exists>r. panic ksyms strs m ops_of ms frame msg (l, s) = Some r"
proof -
  have "fits ([CHR 0x0A] @ ''*** KERNEL PANIC: %s ***'' @ [CHR 0x0A]) (map is_num [Text msg])"
    by (simp only: list.map is_num_def karg.case) code_simp
  then obtain l1 where l1: "kprintf ([CHR 0x0A] @ ''*** KERNEL PANIC: %s ***'' @ [CHR 0x0A]) [Text msg] l = Some l1"
    using kprintf_some(1) by blast
  obtain l2 where l2: "debug_backtrace ksyms strs m frame l1 = Some l2" using debug_backtrace_some [OF assms] by blast
  have "fits (''System halted.'' @ [CHR 0x0A]) (map is_num [])" by code_simp
  then obtain l3 where "kprintf (''System halted.'' @ [CHR 0x0A]) [] l2 = Some l3" using kprintf_some(1) by blast
  then show ?thesis using l1 l2 unfolding panic_def by (simp add: Let_def)
qed

section \<open>Lemmas on the log\<close>

definition log_ok :: "klog \<Rightarrow> bool" where
  "log_ok l \<longleftrightarrow> boot_log_on l \<and> length (boot_log_buf l) = BOOT_LOG_MAX \<and> boot_log_head l < BOOT_LOG_MAX"

definition log_text :: "klog \<Rightarrow> u8 list" where
  "log_text l = concat (map fst (log_writes l))"

definition recent :: "u8 list \<Rightarrow> u8 list" where
  "recent bs = drop (length bs - BOOT_LOG_MAX) bs"

lemma log_text_alt:
  "log_text l = (if boot_log_wrapped l then drop (boot_log_head l) (boot_log_buf l) @ take (boot_log_head l) (boot_log_buf l)
     else take (boot_log_head l) (boot_log_buf l))"
  by (simp add: log_text_def log_writes_def)

lemma kputchar_log:
  assumes "log_ok l"
  shows "log_ok (kputchar v x c l)" "log_text (kputchar v x c l) = recent (log_text l @ [c])"
proof -
  let ?h = "boot_log_head l" and ?b = "boot_log_buf l"
  have h: "length ?b = BOOT_LOG_MAX" "?h < BOOT_LOG_MAX" "boot_log_on l" using assms by (simp_all add: log_ok_def)
  show "log_ok (kputchar v x c l)" using h by (auto simp: kputchar_def Let_def log_ok_def)
  have t: "take (Suc ?h) (?b[?h := c]) = take ?h ?b @ [c]" "drop (Suc ?h) (?b[?h := c]) = drop (Suc ?h) ?b"
    using h by (simp_all add: take_Suc_conv_app_nth)
  have full: "?b[?h := c] = take ?h ?b @ [c]" if "Suc ?h = BOOT_LOG_MAX" using t(1) h that by (simp add: take_all)
  have d: "drop ?h ?b = ?b ! ?h # drop (Suc ?h) ?b" using h by (simp add: Cons_nth_drop_Suc)
  show "log_text (kputchar v x c l) = recent (log_text l @ [c])"
  proof (cases "Suc ?h = BOOT_LOG_MAX")
    case True
    then show ?thesis using h full d by (cases "boot_log_wrapped l") (simp_all add: log_text_alt kputchar_def Let_def recent_def)
  next
    case False
    then have "Suc ?h < BOOT_LOG_MAX" using h by simp
    then show ?thesis using h t d by (cases "boot_log_wrapped l") (simp_all add: log_text_alt kputchar_def Let_def recent_def)
  qed
qed

lemma recent_recent: "recent (recent xs @ ys) = recent (xs @ ys)"
proof (cases "BOOT_LOG_MAX \<le> length xs")
  case True
  then have "length (recent xs) = BOOT_LOG_MAX" by (simp add: recent_def)
  then show ?thesis using True by (simp add: recent_def add.commute [of _ "length ys"])
qed (simp add: recent_def)

lemma kputs_out_log:
  "log_ok l \<Longrightarrow> log_ok (kputs_out v x bs l) \<and> log_text (kputs_out v x bs l) = recent (log_text l @ bs)"
proof (induction bs arbitrary: l)
  case Nil
  then show ?case by (auto simp: kputs_out_def recent_def log_text_alt log_ok_def)
next
  case (Cons c bs)
  then show ?case using kputchar_log [OF Cons.prems, of v x c] recent_recent [of "log_text l @ [c]" bs]
    by (simp add: kputs_out_def)
qed

lemma log_writes_tile:
  "log_ok l \<Longrightarrow> i < length (log_writes l) \<Longrightarrow>
     snd (log_writes l ! i) = length (concat (map fst (take i (log_writes l))))"
  by (auto simp: log_writes_def log_ok_def less_Suc_eq split: if_splits)

text \<open>A sequence of prints, each to the screen or not, to the serial line or not.\<close>

definition print_all :: "(bool \<times> bool \<times> u8 list) list \<Rightarrow> klog \<Rightarrow> klog" where
  "print_all = fold (\<lambda>(v, x, bs). kputs_out v x bs)"

definition printed :: "(bool \<times> bool \<times> u8 list) list \<Rightarrow> u8 list" where
  "printed prints = concat (map (\<lambda>(v, x, bs). bs) prints)"

lemma print_all_log:
  "log_ok l \<Longrightarrow> log_text l = recent t \<Longrightarrow>
     log_ok (print_all prints l) \<and> log_text (print_all prints l) = recent (t @ printed prints)"
proof (induction prints arbitrary: l t)
  case Nil
  then show ?case by (simp add: print_all_def printed_def)
next
  case (Cons p ps)
  obtain v x bs where p: "p = (v, x, bs)" by (cases p)
  show ?case using Cons.IH [of "kputs_out v x bs l" "t @ bs"] kputs_out_log [OF Cons.prems(1), of v x bs] Cons.prems(2)
    by (simp add: p recent_recent print_all_def printed_def)
qed

text \<open>C35: the boot log keeps the most recent text: once enabled on an empty ring, after any prints the writes that
  \<open>boot_log_flush\<close> makes carry, in time order, exactly the last 16384 bytes printed, or all of them when there are fewer, and each
  write starts at the offset where the one before ends.\<close>

theorem boot_log_keeps_recent:
  assumes "length (boot_log_buf l) = 16384" "boot_log_head l = 0" "\<not> boot_log_wrapped l"
    and ws: "ws = log_writes (print_all prints (boot_log_enable l))"
  shows "concat (map fst ws) = drop (length (printed prints) - 16384) (printed prints) \<and>
    (\<forall>i < length ws. snd (ws ! i) = length (concat (map fst (take i ws))))"
proof -
  have "log_ok (boot_log_enable l)" "log_text (boot_log_enable l) = recent []"
    using assms(1-3) by (simp_all add: log_ok_def boot_log_enable_def log_text_alt recent_def)
  from print_all_log [OF this, of prints] show ?thesis
    using log_writes_tile unfolding ws by (simp add: log_text_def recent_def)
qed

definition demo_log :: "tty \<Rightarrow> klog" where
  "demo_log t = \<lparr>ktty = t, boot_log_buf = replicate 16384 0, boot_log_head = 0, boot_log_wrapped = False, boot_log_on = False,
     boot_log_flushing = False\<rparr>"

theorem boot_log_keeps_recent_witness:
  "length (boot_log_buf (demo_log tty_boot)) = 16384 \<and>
   concat (map fst (log_writes (print_all [(True, True, replicate 20000 0x41), (False, True, [0x42])] (boot_log_enable (demo_log tty_boot))))) =
     replicate 16383 0x41 @ [0x42]"
proof -
  have "length (boot_log_buf (demo_log tty_boot)) = 16384" "boot_log_head (demo_log tty_boot) = 0" "\<not> boot_log_wrapped (demo_log tty_boot)"
    by (simp_all add: demo_log_def)
  from boot_log_keeps_recent [OF this refl, of "[(True, True, replicate 20000 0x41), (False, True, [0x42])]"] this(1) show ?thesis
    by (simp add: printed_def)
qed

end
