(* ===== verification/Interrupts.thy ===== *)
theory Interrupts
  imports Diagnostics Blkdev
begin

text \<open>
  Interrupts: the descriptor tables (\<open>src/kernel/gdt.c\<close>, \<open>idt.c\<close>, \<open>tss.c\<close>), the interrupt controller (\<open>pic.c\<close>), the dispatch with the
  handling of CPU exceptions (\<open>isr.c\<close>), and the set-up of the devices that interrupt (\<open>timer.c\<close>, \<open>src/drivers/mouse.c\<close>,
  \<open>serial.c\<close>, \<open>keyboard.c\<close>).

  Port instructions are a record, as for the disk.  The table of handlers is an argument of the dispatch, since handlers work on the
  state that the dispatch works on; the state is the kernel's, the log, the mouse and the devices.  Addresses that the linker or
  the assembly stubs fix are arguments.

  The lemmas show which code a gate of the table enters and from which privilege, that the task segment is found at its address,
  and that an exception in a program ends that program alone.
\<close>

unbundle bit_operations_syntax

section \<open>Interrupt controller\<close>

abbreviation (input) PIC1_CMD :: u16 where "PIC1_CMD \<equiv> 0x20"
abbreviation (input) PIC1_DATA :: u16 where "PIC1_DATA \<equiv> 0x21"
abbreviation (input) PIC2_CMD :: u16 where "PIC2_CMD \<equiv> 0xA0"
abbreviation (input) PIC2_DATA :: u16 where "PIC2_DATA \<equiv> 0xA1"

definition io_wait :: "'h port_io \<Rightarrow> 'h \<Rightarrow> 'h" where
  "io_wait io h = outb io 0x80 0 h"

definition pic_init :: "'h port_io \<Rightarrow> 'h \<Rightarrow> 'h" where
  "pic_init io h =
     (let out = (\<lambda>port v h. io_wait io (outb io port v h));
          h = out PIC1_CMD 0x11 h; h = out PIC2_CMD 0x11 h;
          h = out PIC1_DATA 32 h; h = out PIC2_DATA 40 h;
          h = out PIC1_DATA 0x04 h; h = out PIC2_DATA 0x02 h;
          h = out PIC1_DATA 0x01 h; h = out PIC2_DATA 0x01 h
      in outb io PIC2_DATA 0xFF (outb io PIC1_DATA 0xFB h))"

definition pic_send_eoi :: "'h port_io \<Rightarrow> u8 \<Rightarrow> 'h \<Rightarrow> 'h" where
  "pic_send_eoi io irq h = outb io PIC1_CMD 0x20 (if 8 \<le> irq then outb io PIC2_CMD 0x20 h else h)"

definition pic_set_mask :: "'h port_io \<Rightarrow> u8 \<Rightarrow> 'h \<Rightarrow> 'h" where
  "pic_set_mask io irq h =
     (let (port, irq) = (if irq < 8 then (PIC1_DATA, irq) else (PIC2_DATA, irq - 8));
          (h, v) = inb io port h
      in outb io port (ucast (ucast v OR push_bit (unat irq) (1 :: u32))) h)"

definition pic_clear_mask :: "'h port_io \<Rightarrow> u8 \<Rightarrow> 'h \<Rightarrow> 'h" where
  "pic_clear_mask io irq h =
     (let (port, irq) = (if irq < 8 then (PIC1_DATA, irq) else (PIC2_DATA, irq - 8));
          (h, v) = inb io port h
      in outb io port (ucast (ucast v AND NOT (push_bit (unat irq) (1 :: u32)))) h)"

section \<open>Descriptor tables\<close>

definition gdt_init :: "u64 list" where
  "gdt_init = [0, 0x00AF9A000000FFFF, 0x00CF92000000FFFF, 0x00CFFA000000FFFF, 0x00CFF2000000FFFF, 0x00AFFA000000FFFF, 0, 0]"

definition gdt_install_tss :: "u64 \<Rightarrow> u32 \<Rightarrow> u64 list \<Rightarrow> u64 list" where
  "gdt_install_tss base limit gdt =
     (let low = ucast (limit AND 0xFFFF) OR push_bit 48 (ucast (drop_bit 16 limit) AND 0xF) OR push_bit 16 (base AND 0xFFFFFF) OR
                push_bit 56 (drop_bit 24 base AND 0xFF) OR push_bit 40 0x89;
          high = drop_bit 32 base AND 0xFFFFFFFF
      in gdt[6 := low, 7 := high])"

record tss_entry =
  rsp0 :: u64
  ist :: "u64 list"
  iomap_base :: u16

text \<open>The fields that stay zero are left out; \<open>tss\<close> and \<open>ist1_top\<close> are the addresses of the structure and of the end of \<open>ist1_stack\<close>.\<close>

definition tss_init :: "u64 \<Rightarrow> u64 \<Rightarrow> u64 \<Rightarrow> u64 list \<Rightarrow> tss_entry \<times> u64 list" where
  "tss_init tss ist1_top sp gdt =
     (\<lparr>rsp0 = sp, ist = (replicate 7 0)[0 := ist1_top], iomap_base = 104\<rparr>, gdt_install_tss tss (104 - 1) gdt)"

record idt_entry =
  off_low :: u16
  selector :: u16
  ist_index :: u8
  type_attr :: u8
  off_mid :: u16
  off_high :: u32

definition zero_gate :: idt_entry where
  "zero_gate = \<lparr>off_low = 0, selector = 0, ist_index = 0, type_attr = 0, off_mid = 0, off_high = 0\<rparr>"

definition idt_set_gate :: "u8 \<Rightarrow> u64 \<Rightarrow> u16 \<Rightarrow> u8 \<Rightarrow> u8 \<Rightarrow> idt_entry list \<Rightarrow> idt_entry list" where
  "idt_set_gate num handler sel i type_dpl idt =
     idt[unat num := \<lparr>off_low = ucast (handler AND 0xFFFF), selector = sel, ist_index = i AND 0x7, type_attr = type_dpl,
       off_mid = ucast (drop_bit 16 handler AND 0xFFFF), off_high = ucast (drop_bit 32 handler AND 0xFFFFFFFF)\<rparr>]"

definition idt_init :: "(nat \<Rightarrow> u64) \<Rightarrow> idt_entry list" where
  "idt_init isr_entry =
     fold (\<lambda>i. idt_set_gate (of_nat i) (isr_entry i) (ucast GDT_KERNEL_CODE)
                 (if i = 2 \<or> i = 8 \<or> i = 14 \<or> i = 18 then 1 else 0) (if i = 0x80 then 0xEE else 0x8E))
       [0..<256] (replicate 256 zero_gate)"

section \<open>Dispatch\<close>

record ('n, 'd, 's, 'h) intr =
  ikern :: "('n, 'd, 's) kern"
  ilog :: klog
  imouse :: mouse
  iports :: 'h

type_synonym ('n, 'd, 's, 'h) isr_handler_t = "u64 \<Rightarrow> ('n, 'd, 's, 'h) intr \<Rightarrow> (('n, 'd, 's, 'h) intr \<times> u64) option"

definition isr_register_handler ::
  "u8 \<Rightarrow> ('n, 'd, 's, 'h) isr_handler_t \<Rightarrow> (nat \<Rightarrow> ('n, 'd, 's, 'h) isr_handler_t option) \<Rightarrow> (nat \<Rightarrow> ('n, 'd, 's, 'h) isr_handler_t option)" where
  "isr_register_handler n handler handlers = handlers(unat n := Some handler)"

definition exception_names :: "string list" where
  "exception_names = [''Division By Zero'', ''Debug'', ''Non Maskable Interrupt'', ''Breakpoint'', ''Overflow'', ''Bound Range Exceeded'',
     ''Invalid Opcode'', ''Device Not Available'', ''Double Fault'', ''Coprocessor Segment Overrun'', ''Invalid TSS'',
     ''Segment Not Present'', ''Stack-Segment Fault'', ''General Protection Fault'', ''Page Fault'', ''Reserved'', ''x87 FPU Error'',
     ''Alignment Check'', ''Machine Check'', ''SIMD Floating-Point'', ''Virtualization Exception'', ''Control Protection Exception'']"

text \<open>Printing draws on the kernel's terminal.\<close>

definition on_log :: "(klog \<Rightarrow> klog option) \<Rightarrow> ('n, 'd, 's, 'h) intr \<Rightarrow> ('n, 'd, 's, 'h) intr option" where
  "on_log f t =
     map_option (\<lambda>l. t\<lparr>ilog := l, ikern := (ikern t)\<lparr>terminal := ktty l\<rparr>\<rparr>) (f ((ilog t)\<lparr>ktty := terminal (ikern t)\<rparr>))"

fun print_lines :: "(string \<times> karg list) list \<Rightarrow> klog \<Rightarrow> klog option" where
  "print_lines [] l = Some l"
| "print_lines ((fmt, as) # rest) l = Option.bind (kprintf fmt as l) (print_lines rest)"

definition from_user :: "registers_t \<Rightarrow> bool" where
  "from_user r \<longleftrightarrow> cs r AND 3 = 3"

text \<open>The lines on the registers; \<open>cr2\<close> is the address of a page fault.\<close>

definition exception_lines :: "u64 \<Rightarrow> registers_t \<Rightarrow> (string \<times> karg list) list" where
  "exception_lines cr2 r =
     (if int_no r = 14
      then [(''  CR2=0x%lx  (P=%u W=%u U=%u)'' @ [CHR 0x0A],
             [Num cr2, Num (drop_bit 0 (err_code r) AND 1), Num (drop_bit 1 (err_code r) AND 1), Num (drop_bit 2 (err_code r) AND 1)])]
      else []) @
     [(''  rax=0x%lx rbx=0x%lx rcx=0x%lx rdx=0x%lx'' @ [CHR 0x0A], [Num (rax r), Num (rbx r), Num (rcx r), Num (rdx r)]),
      (''  rsi=0x%lx rdi=0x%lx rbp=0x%lx rsp=0x%lx'' @ [CHR 0x0A], [Num (rsi r), Num (rdi r), Num (rbp r), Num (rsp r)]),
      (''  r8 =0x%lx r9 =0x%lx r10=0x%lx r11=0x%lx'' @ [CHR 0x0A], [Num (r8 r), Num (r9 r), Num (r10 r), Num (r11 r)]),
      (''  r12=0x%lx r13=0x%lx r14=0x%lx r15=0x%lx'' @ [CHR 0x0A], [Num (r12 r), Num (r13 r), Num (r14 r), Num (r15 r)]),
      (''  cs=0x%lx ss=0x%lx rflags=0x%lx  (%s)'' @ [CHR 0x0A],
       [Num (cs r), Num (ss r), Num (rflags r), Text (Some (if from_user r then ''ring 3'' else ''ring 0''))])]"

definition dump_exception :: "ksym list \<Rightarrow> string \<Rightarrow> u64 \<Rightarrow> bytes \<Rightarrow> registers_t \<Rightarrow> klog \<Rightarrow> klog option" where
  "dump_exception ksyms strs cr2 m r l =
     (let name = (if unat (int_no r) < length exception_names then exception_names ! unat (int_no r) else ''Unknown Exception'')
      in Option.bind (ksym_lookup ksyms (rip r)) (\<lambda>sym.
         Option.bind (print_lines
           ([([CHR 0x0A] @ ''Exception: %s (#%lu) err=0x%lx rip=0x%lx'', [Text (Some name), Num (int_no r), Num (err_code r), Num (rip r)])] @
            (case sym of None \<Rightarrow> [] | Some (off, d) \<Rightarrow> [(''  %s+0x%lx'', [Text (Some (sym_name strs off)), Num d])]) @
            [([CHR 0x0A], [])] @ exception_lines cr2 r) l) (\<lambda>l.
         if from_user r then Some l else debug_backtrace ksyms strs m (rbp r) l)))"

definition on_kern_ptr ::
  "(('n, 'd, 's) kern \<Rightarrow> (('n, 'd, 's) kern \<times> u64) option) \<Rightarrow> ('n, 'd, 's, 'h) intr \<Rightarrow> (('n, 'd, 's, 'h) intr \<times> u64) option" where
  "on_kern_ptr f t = map_option (\<lambda>(s, r). (t\<lparr>ikern := s\<rparr>, r)) (f (ikern t))"

definition fault_process :: "int \<Rightarrow> ('n, 'd, 's) kern \<Rightarrow> ('n, 'd, 's) kern" where
  "fault_process signo s =
     (case process_current s of
        None \<Rightarrow> s
      | Some i \<Rightarrow> set_task_state (processes s i) (\<lambda>_. True) TASK_DEAD
                    (set_process i (\<lambda>p. p\<lparr>exit_code := 128 + signo, alive := False\<rparr>) s))"

definition user_fault_terminate :: "u64 \<Rightarrow> int \<Rightarrow> ('n, 'd, 's, 'h) intr \<Rightarrow> (('n, 'd, 's, 'h) intr \<times> u64) option" where
  "user_fault_terminate regs signo t =
     (let s = ikern t;
          as = (case process_current s of
                  None \<Rightarrow> [Num 0, Text (Some ''?'')]
                | Some i \<Rightarrow> [Num (ucast (pid (processes s i))), Text (Some (p_name (processes s i)))])
      in Option.bind (on_log (serial_printf (''[fault] pid=%u name=%s sig=%d'' @ [CHR 0x0A]) (as @ [Num (of_int signo)])) t)
           (on_kern_ptr (\<lambda>s. schedule process_deliver_pending_signals regs (fault_process signo s))))"

text \<open>A handler of the table is called with the interrupt's frame; a fault of the kernel itself is a panic.\<close>

definition fault_signal :: "u64 \<Rightarrow> int" where
  "fault_signal n = (if n = 0 then 8 else if n = 6 then 4 else if n = 16 \<or> n = 19 then 8 else 11)"

definition isr_handler ::
  "'h port_io \<Rightarrow> ksym list \<Rightarrow> string \<Rightarrow> u64 \<Rightarrow> (nat \<Rightarrow> ('n, 'd, 's, 'h) isr_handler_t option) \<Rightarrow> ('n, 'd, 's, 'h) isr_handler_t" where
  "isr_handler io ksyms strs cr2 handlers regs t =
     (let m = mem (ikern t); r = load_regs m regs; n = int_no r
      in if 256 \<le> n then None
         else Option.bind
           (case handlers (unat n) of
              Some f \<Rightarrow> f regs t
            | None \<Rightarrow>
                if n < 32
                then Option.bind (on_log (dump_exception ksyms strs cr2 m r) t) (\<lambda>t.
                       if from_user r then user_fault_terminate regs (fault_signal n) t else None)
                else Some (t, regs))
           (\<lambda>(t, ret).
              let n = int_no (load_regs (mem (ikern t)) regs);
                  t = (if 32 \<le> n \<and> n < 48 then t\<lparr>iports := pic_send_eoi io (ucast (n - 32)) (iports t)\<rparr> else t)
              in Some (t\<lparr>ikern := process_deliver_pending_signals ret (ikern t)\<rparr>, ret)))"

section \<open>Devices\<close>

text \<open>The handlers of the timer, of \<open>INT 0x82\<close>, the keyboard, the serial line and the mouse.\<close>

definition timer_isr :: "('n, 'd, 's, 'h) isr_handler_t" where
  "timer_isr regs = on_kern_ptr (timer_callback regs)"

definition yield_handler :: "('n, 'd, 's, 'h) isr_handler_t" where
  "yield_handler regs = on_kern_ptr (schedule process_deliver_pending_signals regs)"

definition signal_foreground :: "fg_signal \<Rightarrow> ('n, 'd, 's) kern \<Rightarrow> ('n, 'd, 's) kern" where
  "signal_foreground e s =
     (case e of No_signal \<Rightarrow> s | Kill_foreground \<Rightarrow> process_kill_foreground s | Stop_foreground \<Rightarrow> process_stop_foreground s)"

definition on_terminal :: "(tty \<Rightarrow> tty \<times> fg_signal) \<Rightarrow> ('n, 'd, 's) kern \<Rightarrow> ('n, 'd, 's) kern" where
  "on_terminal f s = (let (t, e) = f (terminal s) in signal_foreground e (s\<lparr>terminal := t\<rparr>))"

definition keyboard_isr :: "'h port_io \<Rightarrow> ('n, 'd, 's, 'h) isr_handler_t" where
  "keyboard_isr io regs t =
     (let (h, scancode) = inb io 0x60 (iports t)
      in Some (t\<lparr>iports := h, ikern := on_terminal (keyboard_callback scancode) (ikern t)\<rparr>, regs))"

partial_function (option) serial_drain :: "'h port_io \<Rightarrow> ('n, 'd, 's, 'h) intr \<Rightarrow> ('n, 'd, 's, 'h) intr option" where
  "serial_drain io t =
     (let (h, st) = inb io (0x3F8 + 5) (iports t)
      in if st AND 0x01 = 0 then Some (t\<lparr>iports := h\<rparr>)
         else let (h, c) = inb io 0x3F8 h
              in serial_drain io (t\<lparr>iports := h, ikern := on_terminal (serial_byte c) (ikern t)\<rparr>))"

definition serial_isr :: "'h port_io \<Rightarrow> ('n, 'd, 's, 'h) isr_handler_t" where
  "serial_isr io regs t = map_option (\<lambda>t. (t, regs)) (serial_drain io t)"

definition mouse_isr :: "'h port_io \<Rightarrow> ('n, 'd, 's, 'h) isr_handler_t" where
  "mouse_isr io regs t =
     (let (h, byte) = inb io 0x60 (iports t) in Some (t\<lparr>iports := h, imouse := mouse_irq byte (imouse t)\<rparr>, regs))"

text \<open>Setting the devices up: the handlers and the state; a frequency of 0 traps.\<close>

type_synonym ('n, 'd, 's, 'h) device_state = "(nat \<Rightarrow> ('n, 'd, 's, 'h) isr_handler_t option) \<times> ('n, 'd, 's, 'h) intr"

definition on_ports :: "('h \<Rightarrow> 'h) \<Rightarrow> ('n, 'd, 's, 'h) intr \<Rightarrow> ('n, 'd, 's, 'h) intr" where
  "on_ports f t = t\<lparr>iports := f (iports t)\<rparr>"

definition timer_init :: "'h port_io \<Rightarrow> u32 \<Rightarrow> ('n, 'd, 's, 'h) device_state \<Rightarrow> ('n, 'd, 's, 'h) device_state option" where
  "timer_init io frequency_hz = (\<lambda>(handlers, t).
     if frequency_hz = 0 then None
     else let divisor = 1193182 div frequency_hz
          in Some (isr_register_handler 32 timer_isr handlers,
               on_ports (\<lambda>h. pic_clear_mask io 0
                 (outb io 0x40 (ucast (drop_bit 8 divisor AND 0xFF)) (outb io 0x40 (ucast (divisor AND 0xFF)) (outb io 0x43 0x36 h)))) t))"

definition keyboard_start :: "'h port_io \<Rightarrow> ('n, 'd, 's, 'h) device_state \<Rightarrow> ('n, 'd, 's, 'h) device_state" where
  "keyboard_start io = (\<lambda>(handlers, t).
     (isr_register_handler 33 (keyboard_isr io) handlers,
      on_ports (pic_clear_mask io 1) (t\<lparr>ikern := (ikern t)\<lparr>terminal := keyboard_init (terminal (ikern t))\<rparr>\<rparr>)))"

definition serial_start :: "'h port_io \<Rightarrow> ('n, 'd, 's, 'h) intr \<Rightarrow> ('n, 'd, 's, 'h) intr" where
  "serial_start io t =
     on_ports (\<lambda>h. fold (\<lambda>(port, v). outb io port v)
         [(0x3F8 + 1, 0x00), (0x3F8 + 3, 0x80), (0x3F8 + 0, 0x01), (0x3F8 + 1, 0x00), (0x3F8 + 3, 0x03), (0x3F8 + 4, 0x0B)] h)
       (t\<lparr>ikern := (ikern t)\<lparr>terminal := serial_init (terminal (ikern t))\<rparr>\<rparr>)"

definition serial_init_irq :: "'h port_io \<Rightarrow> ('n, 'd, 's, 'h) device_state \<Rightarrow> ('n, 'd, 's, 'h) device_state option" where
  "serial_init_irq io = (\<lambda>(handlers, t).
     map_option (\<lambda>t. (isr_register_handler 36 (serial_isr io) handlers, t))
       (serial_drain io (on_ports (\<lambda>h. pic_clear_mask io 4 (outb io (0x3F8 + 1) 0x01 h)) t)))"

text \<open>\<open>for (int i = 0; i < 100000; i++) if (P(inb(KBD_CMD))) return;\<close>\<close>

fun wait_status :: "'h port_io \<Rightarrow> (u8 \<Rightarrow> bool) \<Rightarrow> nat \<Rightarrow> 'h \<Rightarrow> 'h" where
  "wait_status io P 0 h = h"
| "wait_status io P (Suc n) h = (let (h, st) = inb io 0x64 h in if P st then h else wait_status io P n h)"

definition wait_write :: "'h port_io \<Rightarrow> 'h \<Rightarrow> 'h" where
  "wait_write io = wait_status io (\<lambda>st. st AND 0x02 = 0) 100000"

definition wait_read :: "'h port_io \<Rightarrow> 'h \<Rightarrow> 'h" where
  "wait_read io = wait_status io (\<lambda>st. st AND 0x01 \<noteq> 0) 100000"

definition mouse_send :: "'h port_io \<Rightarrow> u8 \<Rightarrow> 'h \<Rightarrow> 'h" where
  "mouse_send io byte h = outb io 0x60 byte (wait_write io (outb io 0x64 0xD4 (wait_write io h)))"

definition mouse_read :: "'h port_io \<Rightarrow> 'h \<Rightarrow> 'h \<times> u8" where
  "mouse_read io h = inb io 0x60 (wait_read io h)"

definition mouse_commands :: "'h port_io \<Rightarrow> 'h \<Rightarrow> 'h" where
  "mouse_commands io h =
     (let h = outb io 0x64 0xA8 (wait_write io h);
          (h, status) = mouse_read io (outb io 0x64 0x20 (wait_write io h));
          status = (status OR 0x02) AND NOT 0x20;
          h = outb io 0x64 0x60 (wait_write io h);
          h = outb io 0x60 status (wait_write io h);
          h = fst (mouse_read io (mouse_send io 0xF6 h))
      in fst (mouse_read io (mouse_send io 0xF4 h)))"

definition mouse_start :: "'h port_io \<Rightarrow> ('n, 'd, 's, 'h) device_state \<Rightarrow> ('n, 'd, 's, 'h) device_state" where
  "mouse_start io = (\<lambda>(handlers, t).
     (isr_register_handler 44 (mouse_isr io) handlers,
      on_ports (\<lambda>h. pic_clear_mask io 12 (mouse_commands io h)) (t\<lparr>imouse := mouse_init (imouse t)\<rparr>)))"

section \<open>Lemmas on the descriptor tables\<close>

text \<open>What the processor reads from a gate and from the two halves of the descriptor of the task segment.\<close>

definition gate_target :: "idt_entry \<Rightarrow> u64" where
  "gate_target e = ucast (off_low e) OR push_bit 16 (ucast (off_mid e)) OR push_bit 32 (ucast (off_high e))"

definition gate_dpl :: "idt_entry \<Rightarrow> u8" where
  "gate_dpl e = drop_bit 5 (type_attr e) AND 3"

definition descriptor_base :: "u64 \<Rightarrow> u64 \<Rightarrow> u64" where
  "descriptor_base low high = (drop_bit 16 low AND 0xFFFFFF) OR push_bit 24 (drop_bit 56 low AND 0xFF) OR push_bit 32 high"

definition descriptor_limit :: "u64 \<Rightarrow> u64" where
  "descriptor_limit low = (low AND 0xFFFF) OR push_bit 16 (drop_bit 48 low AND 0xF)"

lemma all_ones [simp]:
  "(0xFFFF :: u64) = mask 16" "(0xFFFFFF :: u64) = mask 24" "(0xFF :: u64) = mask 8" "(0xFFFFFFFF :: u64) = mask 32" "(0xF :: u64) = mask 4"
  "(0xFFFF :: u32) = mask 16"
  by (simp_all add: mask_eq_exp_minus_1)

lemma gate_target_split:
  fixes a :: u64
  shows "ucast (ucast (a AND mask 16) :: u16) OR push_bit 16 (ucast (ucast (drop_bit 16 a AND mask 16) :: u16)) OR
    push_bit 32 (ucast (ucast (drop_bit 32 a AND mask 32) :: u32)) = a"
proof (rule bit_word_eqI)
  fix n :: nat
  assume "n < LENGTH(64)"
  then show "bit (ucast (ucast (a AND mask 16) :: u16) OR push_bit 16 (ucast (ucast (drop_bit 16 a AND mask 16) :: u16)) OR
      push_bit 32 (ucast (ucast (drop_bit 32 a AND mask 32) :: u32)) :: u64) n = bit a n"
    by (cases "n < 16"; cases "n < 32") (auto simp: bit_simps)
qed

text \<open>The parts of the low half lie in different bits.\<close>

definition descriptor_low :: "u64 \<Rightarrow> u32 \<Rightarrow> u64 \<Rightarrow> u64" where
  "descriptor_low base limit x =
     ucast (limit AND mask 16) OR push_bit 48 (ucast (drop_bit 16 limit) AND mask 4) OR push_bit 16 (base AND mask 24) OR
     push_bit 56 (drop_bit 24 base AND mask 8) OR push_bit 40 x"

lemma bit_descriptor_low:
  assumes "n < 64" "take_bit 8 x = x"
  shows "bit (descriptor_low base limit x) n \<longleftrightarrow>
    (if n < 16 then bit limit n else if n < 40 then bit base (n - 16) else if n < 48 then bit x (n - 40)
     else if n < 52 then bit limit (n - 32) else if n < 56 then False else bit base (n - 32))"
proof -
  have t: "bit x k \<longleftrightarrow> k < 8 \<and> bit x k" for k using assms(2) by (metis bit_take_bit_iff)
  have p: "bit (push_bit 40 x) n \<longleftrightarrow> 40 \<le> n \<and> n < 48 \<and> bit x (n - 40)"
    using assms(1) t [of "n - 40"] by (auto simp: bit_simps)
  consider "n < 16" | "16 \<le> n \<and> n < 40" | "40 \<le> n \<and> n < 48" | "48 \<le> n \<and> n < 52" | "52 \<le> n \<and> n < 56" | "56 \<le> n" by linarith
  then show ?thesis
  proof cases
    case 4
    then have "16 + (n - 48) = n - 32" by simp
    then show ?thesis using 4 assms(1) p unfolding descriptor_low_def bit_or_iff p by (auto simp: bit_simps)
  next
    case 6
    then have "24 + (n - 56) = n - 32" by simp
    then show ?thesis using 6 assms(1) p unfolding descriptor_low_def bit_or_iff p by (auto simp: bit_simps)
  qed (use assms(1) p in \<open>auto simp: descriptor_low_def bit_or_iff p bit_simps\<close>)
qed

text \<open>The descriptor that \<open>gdt_install_tss\<close> writes has the base it was given, and the limit when that has at most 20 bits.\<close>

lemma gdt_install_tss_reads_back:
  assumes "length gdt = 8"
  shows "descriptor_base (gdt_install_tss base limit gdt ! 6) (gdt_install_tss base limit gdt ! 7) = base"
    "take_bit 20 limit = limit \<Longrightarrow> descriptor_limit (gdt_install_tss base limit gdt ! 6) = ucast limit"
proof -
  have g: "gdt_install_tss base limit gdt ! 6 = descriptor_low base limit 0x89" "gdt_install_tss base limit gdt ! 7 = drop_bit 32 base AND mask 32"
    using assms by (simp_all add: gdt_install_tss_def descriptor_low_def Let_def)
  have x: "take_bit 8 (0x89 :: u64) = 0x89" by simp
  show "descriptor_base (gdt_install_tss base limit gdt ! 6) (gdt_install_tss base limit gdt ! 7) = base"
  proof (rule bit_word_eqI)
    fix n :: nat
    assume n: "n < LENGTH(64)"
    show "bit (descriptor_base (gdt_install_tss base limit gdt ! 6) (gdt_install_tss base limit gdt ! 7)) n = bit base n"
      using n bit_descriptor_low [OF _ x, of "n + 16" base limit] bit_descriptor_low [OF _ x, of "n + 32" base limit]
      by (cases "n < 24"; cases "n < 32") (auto simp: g descriptor_base_def bit_simps add.commute)
  qed
  show "descriptor_limit (gdt_install_tss base limit gdt ! 6) = ucast limit" if "take_bit 20 limit = limit"
  proof (rule bit_word_eqI)
    fix n :: nat
    assume n: "n < LENGTH(64)"
    have "bit limit n \<longleftrightarrow> n < 20 \<and> bit limit n" using that by (metis bit_take_bit_iff)
    then show "bit (descriptor_limit (gdt_install_tss base limit gdt ! 6)) n = bit (ucast limit :: u64) n"
      using n bit_descriptor_low [OF _ x, of n base limit] bit_descriptor_low [OF _ x, of "n + 32" base limit]
      by (cases "n < 16"; cases "n < 20") (auto simp: g descriptor_limit_def bit_simps add.commute)
  qed
qed

lemma idt_set_gate_nth:
  assumes "length idt = 256" "i < 256"
  shows "length (idt_set_gate num h sel k a idt) = 256" "idt_set_gate num h sel k a idt ! i =
    (if i = unat num then idt_set_gate num h sel k a (replicate 256 zero_gate) ! i else idt ! i)"
  using assms by (simp_all add: idt_set_gate_def nth_list_update)

lemma idt_fold_nth:
  assumes "n \<le> 256" "i < 256"
  shows "fold (\<lambda>i. idt_set_gate (of_nat i) (f i) (g i) (k i) (a i)) [0..<n] (replicate 256 zero_gate) ! i =
    (if i < n then idt_set_gate (of_nat i) (f i) (g i) (k i) (a i) (replicate 256 zero_gate) ! i else zero_gate)"
  using assms(1)
proof (induction n)
  case (Suc n)
  let ?idt = "fold (\<lambda>i. idt_set_gate (of_nat i) (f i) (g i) (k i) (a i)) [0..<n] (replicate 256 zero_gate)"
  have u: "unat (of_nat n :: u8) = n" using Suc.prems by (simp add: unat_of_nat)
  have "length (fold (\<lambda>i. idt_set_gate (of_nat i) (f i) (g i) (k i) (a i)) xs ys) = length ys" for xs ys
    by (induction xs arbitrary: ys) (simp_all add: idt_set_gate_def)
  then have "length ?idt = 256" by simp
  from idt_set_gate_nth(2) [OF this assms(2), of "of_nat n"] show ?case using Suc u by auto
qed (use assms(2) in simp)

text \<open>C33: after \<open>idt_init\<close> every one of the 256 gates enters its own stub in the kernel's code segment; a program can enter only
  gate 0x80 by an instruction, and exactly the non-maskable interrupt, double fault, page fault and machine check run on the separate stack.\<close>

theorem idt_init_gates:
  assumes "i < 256" "e = idt_init isr_entry ! i"
  shows "gate_target e = isr_entry i \<and> selector e = 0x08 \<and> bit (type_attr e) 7 \<and> (gate_dpl e = 3 \<longleftrightarrow> i = 0x80) \<and>
    (gate_dpl e = 0 \<longleftrightarrow> i \<noteq> 0x80) \<and> ist_index e = (if i \<in> {2, 8, 14, 18} then 1 else 0)"
proof -
  have u: "unat (of_nat i :: u8) = i" using assms(1) by (simp add: unat_of_nat)
  have "e = idt_set_gate (of_nat i) (isr_entry i) (ucast GDT_KERNEL_CODE) (if i = 2 \<or> i = 8 \<or> i = 14 \<or> i = 18 then 1 else 0)
      (if i = 0x80 then 0xEE else 0x8E) (replicate 256 zero_gate) ! i"
    unfolding assms(2) idt_init_def using idt_fold_nth [of 256 i] assms(1) by simp
  then have e: "e = \<lparr>off_low = ucast (isr_entry i AND mask 16), selector = 8,
      ist_index = (if i = 2 \<or> i = 8 \<or> i = 14 \<or> i = 18 then 1 else 0) AND 7, type_attr = (if i = 0x80 then 0xEE else 0x8E),
      off_mid = ucast (drop_bit 16 (isr_entry i) AND mask 16), off_high = ucast (drop_bit 32 (isr_entry i) AND mask 32)\<rparr>"
    using assms(1) u by (simp add: idt_set_gate_def)
  have "gate_target e = isr_entry i" unfolding gate_target_def e by (simp add: gate_target_split)
  moreover have "bit (type_attr e) 7" "gate_dpl e = (if i = 0x80 then 3 else 0)" "ist_index e = (if i \<in> {2, 8, 14, 18} then 1 else 0)" "selector e = 8"
    unfolding e gate_dpl_def by simp_all
  ultimately show ?thesis by simp
qed

theorem idt_init_gates_witness:
  "gate_target (idt_init (\<lambda>i. 0xFFFFFFFF80100000 + 16 * of_nat i) ! 14) = 0xFFFFFFFF801000E0 \<and>
   ist_index (idt_init (\<lambda>i. 0xFFFFFFFF80100000 + 16 * of_nat i) ! 14) = 1"
  using idt_init_gates [of 14 _ "\<lambda>i. 0xFFFFFFFF80100000 + 16 * of_nat i", OF _ refl] by simp

section \<open>Lemmas on exceptions\<close>

definition line_fits :: "string \<times> karg list \<Rightarrow> bool" where
  "line_fits x = fits (fst x) (map is_num (snd x))"

lemma print_lines_some: "list_all line_fits xs \<Longrightarrow> \<exists>l'. print_lines xs l = Some l'"
proof (induction xs arbitrary: l)
  case (Cons x xs)
  obtain fmt as where x: "x = (fmt, as)" by (cases x)
  then have "fits fmt (map is_num as)" using Cons.prems unfolding list.pred_inject line_fits_def by (simp only: fst_conv snd_conv)
  then obtain l1 where "kprintf fmt as l = Some l1" using kprintf_some(1) by blast
  then show ?case using Cons x by auto
qed simp

text \<open>The formats of the dump fit their arguments.\<close>

lemma dump_formats:
  "fits ([CHR 0x0A] @ ''Exception: %s (#%lu) err=0x%lx rip=0x%lx'') [False, True, True, True]" "fits ''  %s+0x%lx'' [False, True]"
  "fits [CHR 0x0A] []" "fits (''  CR2=0x%lx  (P=%u W=%u U=%u)'' @ [CHR 0x0A]) [True, True, True, True]"
  "fits (''  rax=0x%lx rbx=0x%lx rcx=0x%lx rdx=0x%lx'' @ [CHR 0x0A]) [True, True, True, True]"
  "fits (''  rsi=0x%lx rdi=0x%lx rbp=0x%lx rsp=0x%lx'' @ [CHR 0x0A]) [True, True, True, True]"
  "fits (''  r8 =0x%lx r9 =0x%lx r10=0x%lx r11=0x%lx'' @ [CHR 0x0A]) [True, True, True, True]"
  "fits (''  r12=0x%lx r13=0x%lx r14=0x%lx r15=0x%lx'' @ [CHR 0x0A]) [True, True, True, True]"
  "fits (''  cs=0x%lx ss=0x%lx rflags=0x%lx  (%s)'' @ [CHR 0x0A]) [True, True, True, False]"
  "fits (''[fault] pid=%u name=%s sig=%d'' @ [CHR 0x0A]) [True, False, True]"
  by code_simp+

lemma is_num_simps: "is_num (Num v) = True" "is_num (Text x) = False"
  by (simp_all add: is_num_def)

lemma exception_lines_fit: "list_all line_fits (exception_lines cr2 r)"
proof (cases "int_no r = 14")
  case True
  show ?thesis unfolding exception_lines_def if_P [OF True]
    by (simp only: list_all_append list.pred_inject line_fits_def fst_conv snd_conv list.map is_num_simps dump_formats simp_thms)
next
  case False
  show ?thesis unfolding exception_lines_def if_not_P [OF False]
    by (simp only: list_all_append list.pred_inject line_fits_def fst_conv snd_conv list.map is_num_simps dump_formats simp_thms)
qed

lemma dump_exception_some:
  assumes "length ksyms < 2 ^ 31"
  shows "\<exists>l'. dump_exception ksyms strs cr2 m r l = Some l'"
proof -
  obtain sym where sym: "ksym_lookup ksyms (rip r) = Some sym" using ksym_lookup_some [OF assms] by blast
  let ?s = "case sym of None \<Rightarrow> [] | Some (off, d) \<Rightarrow> [(''  %s+0x%lx'', [Text (Some (sym_name strs off)), Num d])]"
  have s: "list_all line_fits ?s"
    by (cases sym) (simp_all only: option.case case_prod_beta list.pred_inject line_fits_def fst_conv snd_conv list.map is_num_simps dump_formats simp_thms)
  have "list_all line_fits ([([CHR 0x0A] @ ''Exception: %s (#%lu) err=0x%lx rip=0x%lx'', [Text (Some n), Num (int_no r), Num (err_code r), Num (rip r)])] @
      ?s @ [([CHR 0x0A], [])] @ exception_lines cr2 r)" for n
    by (simp only: list_all_append s exception_lines_fit list.pred_inject line_fits_def fst_conv snd_conv list.map is_num_simps dump_formats simp_thms)
  from print_lines_some [OF this] obtain l1 where
    "print_lines ([([CHR 0x0A] @ ''Exception: %s (#%lu) err=0x%lx rip=0x%lx'',
        [Text (Some (if unat (int_no r) < length exception_names then exception_names ! unat (int_no r) else ''Unknown Exception'')),
         Num (int_no r), Num (err_code r), Num (rip r)])] @ ?s @ [([CHR 0x0A], [])] @ exception_lines cr2 r) l = Some l1"
    by blast
  then show ?thesis
    unfolding dump_exception_def Let_def sym Option.bind.bind_lunit using debug_backtrace_some [OF assms, of strs m "rbp r" l1]
    by (simp only: Option.bind.bind_lunit split: if_split) blast
qed

text \<open>What a delivery of signals leaves alone: processes that are dead or do not run, and tasks other than the running one.\<close>

definition only_running :: "('n, 'd, 's) kern \<Rightarrow> ('n, 'd, 's) kern \<Rightarrow> bool" where
  "only_running s t \<longleftrightarrow> current t = current s \<and>
     (\<forall>j. \<not> alive (processes s j) \<or> p_task (processes s j) \<noteq> current s \<longrightarrow> processes t j = processes s j) \<and>
     (\<forall>x. current s \<noteq> Some x \<longrightarrow> tasks t x = tasks s x)"

lemma process_current_runs: "process_current s = Some i \<Longrightarrow> alive (processes s i) \<and> p_task (processes s i) = current s"
  by (auto simp: process_current_def task_current_def dest!: first_process_lt split: option.splits)

lemma user_push_frame:
  "user_push_u64 sp v s = Some (t, sp') \<Longrightarrow> current t = current s \<and> processes t = processes s \<and> tasks t = tasks s"
  by (auto simp: user_push_u64_def Let_def Option.bind_eq_Some_conv split: if_splits)

lemma deliver_only_running: "only_running s (process_deliver_pending_signals regs s)"
proof (cases "process_current s")
  case None
  then show ?thesis by (simp add: process_deliver_pending_signals_def only_running_def)
next
  case (Some i)
  note i = process_current_runs [OF Some]
  have d: "only_running s (default_action i signo (set_process i (\<lambda>p. p\<lparr>sig_pending := w\<rparr>) s))" for signo w
    using i by (auto simp: only_running_def default_action_def set_task_state_def split: option.splits)
  have r: "only_running s (run_handler regs i signo h (set_process i (\<lambda>p. p\<lparr>sig_pending := w\<rparr>) s))" for signo h w
    using i by (auto simp: only_running_def run_handler_def Let_def dest!: user_push_frame split: option.splits)
  have n: "only_running s (set_process i (\<lambda>p. p\<lparr>sig_pending := w\<rparr>) s)" "only_running s s" for w
    using i by (auto simp: only_running_def)
  show ?thesis
    using d r n unfolding process_deliver_pending_signals_def Some by (simp add: Let_def set_process_def split: option.split)
qed

lemma only_running_trans: "only_running s t \<Longrightarrow> only_running t u \<Longrightarrow> only_running s u"
  unfolding only_running_def by metis

text \<open>The scheduler after the fault.\<close>

lemma fault_process_simps:
  assumes "process_current s = Some i" "current s = Some c"
  shows "processes (fault_process signo s) = (processes s)(i := (processes s i)\<lparr>exit_code := 128 + signo, alive := False\<rparr>)"
    "tasks (fault_process signo s) = (tasks s)(c := (tasks s c)\<lparr>t_state := TASK_DEAD\<rparr>)"
    "current (fault_process signo s) = Some c" "scheduling_enabled (fault_process signo s) = scheduling_enabled s"
proof -
  have "p_task (processes s i) = Some c" using process_current_runs [OF assms(1)] assms(2) by simp
  then show "processes (fault_process signo s) = (processes s)(i := (processes s i)\<lparr>exit_code := 128 + signo, alive := False\<rparr>)"
    "tasks (fault_process signo s) = (tasks s)(c := (tasks s c)\<lparr>t_state := TASK_DEAD\<rparr>)"
    "current (fault_process signo s) = Some c" "scheduling_enabled (fault_process signo s) = scheduling_enabled s"
    using assms by (auto simp: fault_process_def set_task_state_def set_task_def set_process_def)
qed

lemma processes_switched: "processes (switched regs c n s) = processes s"
  by (simp add: switched_def switch_to_def Let_def set_task_def tss_set_kernel_stack_def)

lemma fault_schedules_other:
  fixes s :: "('n, 'd, 's) kern"
  assumes cur: "process_current s = Some i" and ring: "Task.ring s c ys" "scheduling_enabled s" and run: "\<exists>x \<in> set ys. runnable (tasks s x)"
  shows "\<exists>n u. n \<in> set ys \<and> runnable (tasks s n) \<and>
    schedule process_deliver_pending_signals regs (fault_process signo s) = Some (process_deliver_pending_signals (t_rsp (tasks s n)) u, t_rsp (tasks s n)) \<and>
    current u = Some n \<and> processes u = (processes s)(i := (processes s i)\<lparr>exit_code := 128 + signo, alive := False\<rparr>) \<and>
    t_state (tasks u c) = TASK_DEAD \<and> (\<forall>x. x \<noteq> c \<and> x \<noteq> n \<longrightarrow> tasks u x = tasks s x)"
proof -
  let ?f = "fault_process signo s" and ?n = "pick (fault_process signo s) c ys"
  have c: "current s = Some c" "c \<notin> set ys" using ring(1) by (auto simp: Task.ring_def)
  note f = fault_process_simps [OF cur c(1), of signo]
  have rf: "Task.ring ?f c ys" using ring(1) linked_to_cong [of c ys "tasks ?f" "tasks s" c] by (simp add: Task.ring_def f)
  have n: "?n \<in> set ys" "runnable (tasks s ?n)"
  proof -
    have "\<exists>x \<in> set (ys @ [c]). runnable (tasks ?f x)" using run c(2) by (auto simp: f)
    then obtain n where fn: "find (\<lambda>i. runnable (tasks ?f i)) (ys @ [c]) = Some n"
      by (metis find_None_iff2 option.exhaust)
    then have "runnable (tasks ?f n)" "n \<in> set (ys @ [c])" by (metis find_Some_iff nth_mem)+
    moreover have "?n = n" using fn by (simp add: pick_def)
    ultimately have "?n = n" "runnable (tasks ?f n)" "n \<in> set (ys @ [c])" by simp_all
    then show "?n \<in> set ys" "runnable (tasks s ?n)" by (auto simp: f runnable_def split: if_splits)
  qed
  then have nc: "c \<noteq> ?n" using c(2) by metis
  let ?u = "switched regs c ?n ?f"
  have "t_rsp (tasks ?u ?n) = t_rsp (tasks s ?n)" using nc by (simp add: switched_simps(3) f)
  then have "schedule process_deliver_pending_signals regs ?f =
      Some (process_deliver_pending_signals (t_rsp (tasks s ?n)) ?u, t_rsp (tasks s ?n))"
    using schedule_ring [OF rf, of process_deliver_pending_signals regs] ring(2) nc by (simp add: f)
  moreover have "t_state (tasks ?u c) = TASK_DEAD" using nc by (simp add: switched_simps(5) f)
  moreover have "\<forall>x. x \<noteq> c \<and> x \<noteq> ?n \<longrightarrow> tasks ?u x = tasks s x" using nc by (simp add: switched_simps(4) f)
  ultimately show ?thesis using n switched_simps(1) [OF nc, of regs ?f] processes_switched [of regs c ?n ?f] f(1) by metis
qed

lemma on_log_some:
  assumes "\<And>l. \<exists>l'. f l = Some l'"
  shows "\<exists>l' x. on_log f t = Some (t\<lparr>ilog := l', ikern := (ikern t)\<lparr>terminal := x\<rparr>\<rparr>)"
proof -
  obtain l' where "f ((ilog t)\<lparr>ktty := terminal (ikern t)\<rparr>) = Some l'" using assms by blast
  then show ?thesis by (auto simp: on_log_def)
qed

lemma fault_print_some:
  "\<exists>l'. serial_printf (''[fault] pid=%u name=%s sig=%d'' @ [CHR 0x0A]) [Num a, Text b, Num c] l = Some l'"
  by (rule kprintf_some(2)) (simp only: list.map is_num_simps dump_formats)

lemma fault_log:
  "\<exists>l' x. on_log (serial_printf (''[fault] pid=%u name=%s sig=%d'' @ [CHR 0x0A]) [Num a, Text b, Num c]) t =
     Some (t\<lparr>ilog := l', ikern := (ikern t)\<lparr>terminal := x\<rparr>\<rparr>)"
  by (rule on_log_some) (rule fault_print_some)

lemma terminal_frame:
  "process_current (s\<lparr>terminal := x\<rparr>) = process_current s" "Task.ring (s\<lparr>terminal := x\<rparr>) c ys \<longleftrightarrow> Task.ring s c ys"
  by (simp_all add: process_current_def task_current_def first_process_def Task.ring_def cong: option.case_cong)

text \<open>C14: an exception in a program ends that program and nothing else.  When an exception without a handler interrupts code of privilege 3, and
  another task can run, \<open>isr_handler\<close> prints its dump, marks the running process dead with exit code 128 plus the signal, makes its task
  dead, and returns the saved frame of another task, which is now the running one; no other process or task changes, but for
  signals that are delivered to the process that runs next.\<close>

theorem user_fault_ends_process:
  fixes t :: "('n, 'd, 's, 'h) intr"
  assumes "length ksyms < 2 ^ 31" and s: "s = ikern t" and r: "r = load_regs (mem s) regs"
    and ex: "int_no r < 32" "handlers (unat (int_no r)) = None" "from_user r"
    and cur: "process_current s = Some i" and ring: "Task.ring s c ys" "scheduling_enabled s" and run: "\<exists>x \<in> set ys. runnable (tasks s x)"
  shows "\<exists>t' n. isr_handler io ksyms strs cr2 handlers regs t = Some (t', t_rsp (tasks s n)) \<and> n \<in> set ys \<and> n \<noteq> c \<and> runnable (tasks s n) \<and>
    current (ikern t') = Some n \<and> t_state (tasks (ikern t') c) = TASK_DEAD \<and>
    processes (ikern t') i = (processes s i)\<lparr>exit_code := 128 + fault_signal (int_no r), alive := False\<rparr> \<and>
    (\<forall>j. j \<noteq> i \<and> p_task (processes s j) \<noteq> Some n \<longrightarrow> processes (ikern t') j = processes s j) \<and>
    (\<forall>x. x \<noteq> c \<and> x \<noteq> n \<longrightarrow> tasks (ikern t') x = tasks s x)"
proof -
  obtain l1 x1 where t1: "on_log (dump_exception ksyms strs cr2 (mem s) r) t = Some (t\<lparr>ilog := l1, ikern := s\<lparr>terminal := x1\<rparr>\<rparr>)"
    using on_log_some [of "dump_exception ksyms strs cr2 (mem s) r" t] dump_exception_some [OF assms(1)] s by metis
  let ?t1 = "t\<lparr>ilog := l1, ikern := s\<lparr>terminal := x1\<rparr>\<rparr>"
  obtain l2 x2 where t2: "on_log (serial_printf (''[fault] pid=%u name=%s sig=%d'' @ [CHR 0x0A])
      [Num (ucast (pid (processes s i))), Text (Some (p_name (processes s i))), Num (of_int (fault_signal (int_no r)))]) ?t1 =
      Some (?t1\<lparr>ilog := l2, ikern := s\<lparr>terminal := x2\<rparr>\<rparr>)"
    using fault_log [of _ _ _ ?t1] by fastforce
  let ?s2 = "s\<lparr>terminal := x2\<rparr>" and ?t2 = "?t1\<lparr>ilog := l2, ikern := s\<lparr>terminal := x2\<rparr>\<rparr>"
  have "process_current ?s2 = Some i" "Task.ring ?s2 c ys" "scheduling_enabled ?s2" "\<exists>x \<in> set ys. runnable (tasks ?s2 x)"
    using cur ring run by (simp_all add: terminal_frame)
  from fault_schedules_other [OF this, of regs "fault_signal (int_no r)"] obtain n u where n: "n \<in> set ys" "runnable (tasks s n)"
    and sch: "schedule process_deliver_pending_signals regs (fault_process (fault_signal (int_no r)) ?s2) =
      Some (process_deliver_pending_signals (t_rsp (tasks s n)) u, t_rsp (tasks s n))"
    and u: "current u = Some n" "processes u = (processes s)(i := (processes s i)\<lparr>exit_code := 128 + fault_signal (int_no r), alive := False\<rparr>)"
      "t_state (tasks u c) = TASK_DEAD" "\<forall>x. x \<noteq> c \<and> x \<noteq> n \<longrightarrow> tasks u x = tasks s x"
    by auto
  define ret where "ret = t_rsp (tasks s n)"
  define v where "v = process_deliver_pending_signals ret (process_deliver_pending_signals ret u)"
  have v: "only_running u v" unfolding v_def by (rule only_running_trans [OF deliver_only_running deliver_only_running])
  have nc: "n \<noteq> c" using n(1) ring(1) by (auto simp: Task.ring_def)
  have "user_fault_terminate regs (fault_signal (int_no r)) ?t1 = Some (?t2\<lparr>ikern := process_deliver_pending_signals ret u\<rparr>, ret)"
    using t2 sch cur by (simp add: user_fault_terminate_def on_kern_ptr_def terminal_frame ret_def)
  then have "\<exists>t'. isr_handler io ksyms strs cr2 handlers regs t = Some (t', ret) \<and> ikern t' = v"
    using t1 ex r s by (simp add: isr_handler_def Let_def v_def word_less_nat_alt word_le_nat_alt)
  then obtain t' where t': "isr_handler io ksyms strs cr2 handlers regs t = Some (t', ret)" "ikern t' = v" by blast
  have "processes v i = processes u i" "\<forall>j. p_task (processes u j) \<noteq> Some n \<longrightarrow> processes v j = processes u j" "current v = Some n"
      "\<forall>x. x \<noteq> n \<longrightarrow> tasks v x = tasks u x"
    using v u(1,2) by (auto simp: only_running_def)
  then show ?thesis using t' n nc u by (intro exI [of _ t'] exI [of _ n]) (simp add: ret_def)
qed

definition fault_kern :: "(nat, unit, unit) kern" where
  "fault_kern = demo_kern
     \<lparr>mem := store_regs 0x9000 (handler_regs\<lparr>int_no := 14\<rparr>) (\<lambda>_. 0),
      tasks := (\<lambda>_. zero_task)(0 := demo_task ''idle'' TASK_READY 1, 1 := demo_task ''init'' TASK_RUNNING 0)\<rparr>"

definition fault_intr :: "(nat, unit, unit, unit) intr" where
  "fault_intr = \<lparr>ikern = fault_kern, ilog = demo_log tty_boot,
     imouse = \<lparr>mouse_x = 0, mouse_y = 0, mouse_buttons = 0, extent_w = 320, extent_h = 200, packet = []\<rparr>, iports = ()\<rparr>"

definition no_ports :: "unit port_io" where
  "no_ports = \<lparr>inb = (\<lambda>_ _. ((), 0)), inw = (\<lambda>_ _. ((), 0)), outb = (\<lambda>_ _ _. ()), outw = (\<lambda>_ _ _. ())\<rparr>"

theorem user_fault_ends_process_witness:
  "\<exists>t' ret. isr_handler no_ports [] [] 0xDEAD000 (\<lambda>_. None) 0x9000 fault_intr = Some (t', ret) \<and> current (ikern t') = Some 0 \<and>
     \<not> alive (processes (ikern t') 0) \<and> exit_code (processes (ikern t') 0) = 139"
proof -
  have r: "load_regs (mem fault_kern) 0x9000 = handler_regs\<lparr>int_no := 14\<rparr>" by (simp add: fault_kern_def)
  have cur: "process_current fault_kern = Some 0"
    using process_current_cong [of fault_kern demo_kern] demo_current by (simp add: fault_kern_def demo_kern_def)
  have ring: "Task.ring fault_kern 1 [0]" "scheduling_enabled fault_kern" "\<exists>x \<in> set [0]. runnable (tasks fault_kern x)"
    by (simp_all add: Task.ring_def fault_kern_def demo_kern_def demo_task_def runnable_def)
  have "int_no (handler_regs\<lparr>int_no := 14\<rparr>) < 32" "from_user (handler_regs\<lparr>int_no := 14\<rparr>)"
    by (simp_all add: from_user_def handler_regs_def)
  from user_fault_ends_process [of "[]" fault_kern fault_intr _ "0x9000" "\<lambda>_. None", OF _ _ r [symmetric] this(1) _ this(2) cur ring]
  show ?thesis by (fastforce simp: fault_intr_def fault_signal_def)
qed

end
