(* ===== verification/Boot.thy ===== *)
theory Boot
  imports Vfs
begin

text \<open>
  The parsing of \<open>src/kernel/main.c\<close>: the files that the boot loader's modules become, and the program that the kernel's command line names.

  A module is its command line, when it has one, and its bytes.  The file systems are those of the virtual file system.  The lemmas show that a
  module's path is absolute and bounded, and which token of the command line is taken.
\<close>

section \<open>Modules\<close>

definition blank_free :: "char \<Rightarrow> bool" where
  "blank_free c \<longleftrightarrow> c \<noteq> CHR '' ''"

definition module_path :: "string option \<Rightarrow> string" where
  "module_path cmd =
     (let cmdline = (case cmd of None \<Rightarrow> ''/mod'' | Some c \<Rightarrow> c);
          pre = (if cmdline = [] \<or> hd cmdline \<noteq> slash then [slash] else [])
      in pre @ take (VFS_MAX_PATH - 1 - length pre) (takeWhile blank_free cmdline))"

definition make_parents ::
  "('n \<Rightarrow> ('s, 'n) vfs_ops option) \<Rightarrow> ('n, 'd) mounts \<Rightarrow> string \<Rightarrow> 's \<Rightarrow> 's" where
  "make_parents ops_of ms path s =
     fold (\<lambda>j s. if path ! j = slash
                 then let (s, rc, _) = vfs_stat ops_of ms (take j path) s
                      in if rc \<noteq> 0 then fst (vfs_mkdir ops_of ms (take j path) s) else s
                 else s) [1..<length path] s"

definition populate_ramfs_from_modules ::
  "('n \<Rightarrow> ('s, 'n) vfs_ops option) \<Rightarrow> ('n, 'd) mounts \<Rightarrow> (string option \<times> u8 list) list option \<Rightarrow> 's \<Rightarrow> 's" where
  "populate_ramfs_from_modules ops_of ms mods s =
     (case mods of
        None \<Rightarrow> s
      | Some mods \<Rightarrow>
          fold (\<lambda>(cmd, bytes) s.
                  let path = module_path cmd; s = make_parents ops_of ms path s;
                      s = fst (vfs_create ops_of ms path VFS_FILE s)
                  in fst (vfs_write ops_of ms path bytes 0 s)) mods s)"

definition multiboot_first_module :: "(string option \<times> u8 list) list option \<Rightarrow> u8 list option" where
  "multiboot_first_module mods = (case mods of Some ((_, bytes) # _) \<Rightarrow> Some bytes | _ \<Rightarrow> None)"

section \<open>Command line\<close>

definition is_space :: "char \<Rightarrow> bool" where
  "is_space c \<longleftrightarrow> c = CHR '' '' \<or> c = CHR 0x09"

function autorun_scan :: "string \<Rightarrow> string \<Rightarrow> string" where
  "autorun_scan p autorun =
     (let p = dropWhile is_space p
      in if p = [] then autorun
         else let tok = takeWhile (\<lambda>c. \<not> is_space c) p; p = dropWhile (\<lambda>c. \<not> is_space c) p
              in autorun_scan p (if 8 < length tok \<and> take 8 tok = ''autorun='' then take 255 (drop 8 tok) else autorun))"
  by pat_completeness auto
termination
proof (relation "measure (\<lambda>(p, _). length p)")
  fix p autorun p' tok p'' :: string
  assume a: "p' = dropWhile is_space p" "p' \<noteq> []" "p'' = dropWhile (\<lambda>c. \<not> is_space c) p'"
  then have "\<not> is_space (hd p')" by (metis hd_dropWhile)
  then have "length p'' < length p'" using a(2,3) by (cases p') (auto simp: length_dropWhile_le less_Suc_eq_le)
  also have "\<dots> \<le> length p" using a(1) by (simp add: length_dropWhile_le)
  finally show "((p'', if 8 < length tok \<and> take 8 tok = ''autorun='' then take 255 (drop 8 tok) else autorun), (p, autorun)) \<in>
    measure (\<lambda>(p, _). length p)" by simp
qed simp

declare autorun_scan.simps [simp del]

definition autorun_of :: "string option \<Rightarrow> string" where
  "autorun_of cmdline = (case cmdline of None \<Rightarrow> [] | Some cmd \<Rightarrow> autorun_scan cmd [])"

section \<open>Lemmas\<close>

text \<open>A module becomes a file with an absolute path that fits its buffer and has no blank.\<close>

lemma module_path_absolute:
  "module_path cmd \<noteq> []" "hd (module_path cmd) = slash" "length (module_path cmd) < VFS_MAX_PATH" "list_all blank_free (module_path cmd)"
proof -
  let ?c = "case cmd of None \<Rightarrow> ''/mod'' | Some c \<Rightarrow> c"
  have b: "blank_free slash" by (simp add: blank_free_def)
  have t: "list_all blank_free (take n (takeWhile blank_free xs))" for n xs
    by (auto simp: list_all_iff dest!: in_set_takeD set_takeWhileD)
  show "module_path cmd \<noteq> []" "hd (module_path cmd) = slash"
    using b by (cases ?c; auto simp: module_path_def Let_def)+
  show "length (module_path cmd) < VFS_MAX_PATH" by (auto simp: module_path_def Let_def)
  show "list_all blank_free (module_path cmd)" using b t by (simp add: module_path_def Let_def)
qed

lemma last_dropWhile_eq: "dropWhile P xs \<noteq> [] \<Longrightarrow> last (dropWhile P xs) = last xs"
  by (metis last_appendR takeWhile_dropWhile_id)

lemma autorun_scan_token:
  assumes q: "q \<noteq> []" "\<forall>c \<in> set q. \<not> is_space c" and pre: "pre = [] \<or> is_space (last pre)"
  shows "\<exists>b. autorun_scan (pre @ q) a = (if 8 < length q \<and> take 8 q = ''autorun='' then take 255 (drop 8 q) else b)"
  using pre
proof (induction "length pre" arbitrary: pre a rule: less_induct)
  case less
  define p where "p = dropWhile is_space pre"
  have "dropWhile is_space q = q" using q by (cases q) auto
  then have d: "dropWhile is_space (pre @ q) = p @ q" by (auto simp: p_def dropWhile_append)
  show ?case
  proof (cases "p = []")
    case True
    have w: "takeWhile (\<lambda>c. \<not> is_space c) q = q" "dropWhile (\<lambda>c. \<not> is_space c) q = []" using q(2) by (auto simp: takeWhile_eq_all_conv)
    show ?thesis by (subst autorun_scan.simps) (auto simp: Let_def autorun_scan.simps [of "[]"] d True w q(1))
  next
    case False
    define p' where "p' = dropWhile (\<lambda>c. \<not> is_space c) p"
    have l: "is_space (last p)" using less.prems False unfolding p_def by (metis dropWhile.simps(1) last_dropWhile_eq)
    then have x: "\<not> (\<forall>c \<in> set p. \<not> is_space c)" using False last_in_set by blast
    then have p': "p' \<noteq> []" by (auto simp: p'_def)
    then have "is_space (last p')" using l unfolding p'_def by (simp add: last_dropWhile_eq)
    moreover have "\<not> is_space (hd p)" using False unfolding p_def by (rule hd_dropWhile)
    then have "length p' < length p" using False unfolding p'_def by (cases p) (auto simp: less_Suc_eq_le length_dropWhile_le)
    then have "length p' < length pre" using length_dropWhile_le [of is_space pre] unfolding p_def by simp
    ultimately have "\<exists>b. autorun_scan (p' @ q) a = (if 8 < length q \<and> take 8 q = ''autorun='' then take 255 (drop 8 q) else b)" for a
      using less.hyps by blast
    moreover have "dropWhile (\<lambda>c. \<not> is_space c) (p @ q) = p' @ q" using x unfolding p'_def by (auto simp: dropWhile_append)
    ultimately show ?thesis using False unfolding autorun_scan.simps [of "pre @ q"] d Let_def by simp
  qed
qed

text \<open>The last token of the command line decides when it starts with \<open>autorun=\<close>: the path behind it, cut off at 255 characters.\<close>

lemma autorun_of_last:
  assumes "path \<noteq> []" "\<forall>c \<in> set path. \<not> is_space c" "pre = [] \<or> is_space (last pre)"
  shows "autorun_of (Some (pre @ ''autorun='' @ path)) = take 255 path"
proof -
  have "''autorun='' @ path \<noteq> []" "\<forall>c \<in> set (''autorun='' @ path). \<not> is_space c" using assms(2) by (auto simp: is_space_def)
  from autorun_scan_token [OF this assms(3), of "[]"] show ?thesis using assms(1) by (auto simp: autorun_of_def)
qed

end
