(* ===== verification/Spec2Isabelle.thy ===== *)
theory Spec2Isabelle
  imports Cstring Heap Vmm Pipe Ramfs Task Elf Console Process Exec Blkdev Fat_File Fstab Vga_Modes Syscall_Safety Interrupts Boot
begin

text \<open>
  A verification development for LighthOS, a kernel for x86-64 with a small user space, written in C.

  \<^bold>\<open>The program.\<close>  The kernel (\<open>src/src/\<close>) boots on one processor, keeps physical frames in a bitmap, gives every process an
  address space of four-level page tables, schedules tasks from the timer interrupt, and serves system calls on processes, pipes,
  signals and files.  Files live in a memory file system, on FAT volumes of an ATA disk, or are made up on reading under
  \<open>/proc\<close>; a mount table with the longest-prefix rule joins them.  The console merges a serial line and a keyboard and draws on the text
  screen.

  \<^bold>\<open>The theories,\<close> in the order in which they build on each other:

  \<^item> \<open>Kernel_Prelude\<close>: widths of the C integers, byte memory, facts on words.
  \<^item> \<open>Cstring\<close> (\<open>lib/string.c\<close>): every routine over byte memory; what it does on terminated strings; the locale \<open>cstring_ops\<close>.
  \<^item> \<open>Heap\<close> (\<open>mm/heap.c\<close>): the block list; \<open>kmalloc\<close> and \<open>kfree\<close> refine first fit with splitting and merging on a list
    of blocks; ranges in use are disjoint; accounting.
  \<^item> \<open>Pmm\<close> (\<open>mm/pmm.c\<close>): the bitmap; the lowest free frame is taken; what is free after boot.
  \<^item> \<open>Vmm\<close> (\<open>mm/vmm.c\<close>): page tables as a store of tables; an invariant of tree shape and ownership; mapping changes one
    page of one address space; tearing down returns exactly the frames; the checks of user pointers.
  \<^item> \<open>Pipe\<close> (\<open>kernel/pipe.c\<close>): the ring buffer refines a queue; bytes arrive in order in every interleaving; no mutual blocking.
  \<^item> \<open>Vfs\<close> and \<open>Ramfs\<close> (\<open>fs/vfs.c\<close>, \<open>fs/ramfs.c\<close>): mounts and path walks over abstract file systems; the memory file system
    as one of them, with read-after-write through paths.
  \<^item> \<open>Machine\<close> and \<open>Task\<close> (\<open>kernel/isr.h\<close>, \<open>kernel/task.c\<close>): saved registers as bytes; the ring of tasks, round robin and
    fairness.
  \<^item> \<open>Elf\<close> (\<open>kernel/elf.c\<close>): the loader reads inside the image only and keeps the page-table invariant.
  \<^item> \<open>Console\<close> (\<open>drivers/vga.c\<close>, \<open>serial.c\<close>, \<open>keyboard.c\<close>, \<open>console.c\<close>, \<open>mouse.c\<close>): input rings, escape sequences, the screen.
  \<^item> \<open>Paths\<close>, \<open>Process\<close>, \<open>Exec\<close> (\<open>kernel/process.c\<close>, \<open>timer.c\<close>): normal forms of paths below a root; processes, descriptors, signals,
    exit and wait; spawn, fork and execve.
  \<^item> \<open>Blkdev\<close>, \<open>Fat\<close>, \<open>Fat_Table\<close>, \<open>Fat_File\<close> (\<open>fs/blkdev.c\<close>, \<open>drivers/ata.c\<close>, \<open>fs/fat.c\<close>): block devices with the locale
    \<open>block_device\<close>, the disk driver against a model of the drive, the FAT driver, its table and its files.
  \<^item> \<open>Procfs\<close> and \<open>Fstab\<close> (\<open>fs/procfs.c\<close>, \<open>fs/fstab.c\<close>): the files of \<open>/proc\<close>, the table of file systems.
  \<^item> \<open>Vga_Modes\<close> (\<open>drivers/vga.c\<close>): the graphics mode and the way back to text, against a model of the video chip's registers.
  \<^item> \<open>Syscall\<close> and \<open>Syscall_Safety\<close> (\<open>kernel/syscall.c\<close>): the dispatcher with every call, over all of the above; anonymous memory, confinement
    by \<open>chroot\<close>, the trace ring; the invariant of pipes through a whole call.
  \<^item> \<open>Diagnostics\<close> (\<open>lib/kprintf.c\<close>, \<open>kernel/ksyms.c\<close>, \<open>kernel/debug.c\<close>): formatted output reads back, the ring of the boot log keeps the
    latest text in order, the search in the symbol table, the walk over stack frames, the panic (\<open>panic.c\<close>).
  \<^item> \<open>Interrupts\<close> (\<open>kernel/isr.c\<close>, \<open>pic.c\<close>, \<open>gdt.c\<close>, \<open>idt.c\<close>, \<open>tss.c\<close>, \<open>timer.c\<close>): the tables the processor reads, the dispatch with its
    handlers, the set-up of the devices; a fault of a program ends that program alone.
  \<^item> \<open>Boot\<close> (\<open>kernel/main.c\<close>): the files made from boot modules, the parsing of the command line.

  \<^bold>\<open>How code becomes definitions.\<close>  A structure is a record, an enumeration a datatype, an unsigned integer a word of its width, a signed
  one an \<open>int\<close> with the wrap-around written out where it can matter.  State is passed explicitly; the process layer's state
  extends the scheduler's.  A pointer is an address, or an index where the objects live in a table.  A value \<open>None\<close> around a result
  is undefined behaviour (an access outside of an object, a use after free), a panic, or a loop that does not end; routines
  whose results are not of option type return on every input.  A routine that waits is modelled by its attempts between two calls
  of \<open>task_yield\<close>.  Loops over counters are recursions over lists of indices; loops without a bound in the code are
  \<open>partial_function (option)\<close>, and that they end is proved where the code relies on it; there is no fuel chosen by the model.
  Log lines are left out of the components that print them; printing itself is in \<open>Diagnostics\<close>.

  \<^bold>\<open>Parameters.\<close>  Code outside of the sources appears as arguments: the port instructions of the machine, the addresses of assembly
  entry points, the effect of \<open>fninit\<close>, the contents of fresh memory.  A file system seen by the virtual file system is its table of
  operations.

  \<^bold>\<open>Interfaces.\<close>  The locales state what a client relies on and are interpreted on the definitions of the provider:
  the string routines, the allocators, the ring buffers, the block devices with their partitions, and the FAT volume.

  \<^bold>\<open>Not modelled.\<close>  \<open>kernel_main\<close> calls the initialisers in a fixed order and starts the first program; the initialisers are modelled with their
  components, whose states it would only join.  The boot code, the entry stubs and the loading of the descriptor tables are assembly.
  The user programs in \<open>src/user/\<close> and their C library run above the system call interface, and the kernel relies on nothing of them; the
  vendored Lua is third-party code.
\<close>

end
